(* ===== verification/Prelude.thy ===== *)
theory Prelude
  imports Main "HOL-Library.Word"
begin

text \<open>
  Shared vocabulary of the development: machine integers, the result type of kernel
  operations, sleep channels, table scans and array updates, with the generic lemmas the
  component theories use.

  A kernel operation that can call \<^verbatim>\<open>panic\<close> or \<^verbatim>\<open>sleep\<close> returns a value of type
  \<open>'a res\<close>: \<open>Inl (Panic msg)\<close> where the code panics with that message,
  \<open>Inl (Sleep c)\<close> where it would put the calling process to sleep on channel \<open>c\<close>,
  \<open>Inl (Undefined msg)\<close> where it would dereference a null pointer, and \<open>Inr x\<close>
  where it returns. \<open>bindE\<close> sequences such operations.

  A loop \<^verbatim>\<open>for(p = tab; p < tab+N; p++) if(cond(p)) ...\<close> that stops at the first hit is
  \<open>first_idx\<close>; pointers into a fixed table are indices of the list that models it.
\<close>

section \<open>Machine integers\<close>

type_synonym u8 = "8 word"
type_synonym u16 = "16 word"
type_synonym u32 = "32 word"

section \<open>Sleep channels, errors, results\<close>

text \<open>
  A channel is the address passed to \<^verbatim>\<open>sleep\<close> and \<^verbatim>\<open>wakeup\<close>: a process slot
  (\<^verbatim>\<open>wait\<close>, \<^verbatim>\<open>join\<close>), the global \<^verbatim>\<open>ticks\<close>, a buffer, an inode, the
  \<^verbatim>\<open>nread\<close> or \<^verbatim>\<open>nwrite\<close> field of the pipe in the page at an address, the console's
  read index.
\<close>

datatype chan =
    ChanProc nat
  | ChanTicks
  | ChanBuf nat
  | ChanInode nat
  | ChanNread u32
  | ChanNwrite u32
  | ChanInput

datatype kerr = Panic string | Sleep chan | Undefined string

type_synonym 'a res = "kerr + 'a"

definition bindE :: "'e + 'a \<Rightarrow> ('a \<Rightarrow> 'e + 'b) \<Rightarrow> 'e + 'b" where
  "bindE m f = (case m of Inl e \<Rightarrow> Inl e | Inr x \<Rightarrow> f x)"

text \<open>
  A call that may sleep half way runs until it returns, with a result, or sleeps on a channel,
  with what it has left to do; both outcomes list the channels it wakes on the way.
\<close>

datatype ('r, 'k, 's) outcome =
    Returns (result: 'r) (post: 's) (woken: "chan list")
  | Blocks chan 'k (post: 's) (woken: "chan list")

section \<open>Table scans\<close>

fun first_idx :: "('a \<Rightarrow> bool) \<Rightarrow> 'a list \<Rightarrow> nat option" where
  "first_idx P [] = None"
| "first_idx P (x # xs) = (if P x then Some 0 else map_option Suc (first_idx P xs))"

definition upd :: "('a \<Rightarrow> 'a) \<Rightarrow> nat \<Rightarrow> 'a list \<Rightarrow> 'a list" where
  "upd f i xs = xs[i := f (xs ! i)]"

section \<open>Collections of rules\<close>

named_theorems res_simps \<open>elimination of the result monad\<close>
named_theorems frame \<open>fields an operation leaves alone\<close>

section \<open>Lemmas: results\<close>

lemma bindE_Inl [simp]: "bindE (Inl e) f = Inl e"
  by (simp add: bindE_def)

lemma bindE_Inr [simp]: "bindE (Inr x) f = f x"
  by (simp add: bindE_def)

lemma bindE_eq_Inr [res_simps]: "bindE m f = Inr y \<longleftrightarrow> (\<exists>x. m = Inr x \<and> f x = Inr y)"
  by (cases m) auto

lemma bindE_eq_Inl [res_simps]:
  "bindE m f = Inl e \<longleftrightarrow> m = Inl e \<or> (\<exists>x. m = Inr x \<and> f x = Inl e)"
  by (cases m) auto

lemma bindE_assoc: "bindE (bindE m f) g = bindE m (\<lambda>x. bindE (f x) g)"
  by (cases m) auto

lemma bindE_cong [fundef_cong]:
  "m = m' \<Longrightarrow> (\<And>x. m' = Inr x \<Longrightarrow> f x = f' x) \<Longrightarrow> bindE m f = bindE m' f'"
  by (cases m') auto

section \<open>Lemmas: table scans\<close>

lemma first_idx_None: "first_idx P xs = None \<longleftrightarrow> (\<forall>x\<in>set xs. \<not> P x)"
  by (induction xs) auto

lemma first_idx_Some:
  "first_idx P xs = Some i \<longleftrightarrow> i < length xs \<and> P (xs ! i) \<and> (\<forall>j<i. \<not> P (xs ! j))"
proof (induction xs arbitrary: i)
  case Nil
  then show ?case by simp
next
  case (Cons x xs)
  show ?case
  proof (cases i)
    case 0
    then show ?thesis by auto
  next
    case (Suc k)
    have "(\<forall>j<Suc k. \<not> P ((x # xs) ! j)) \<longleftrightarrow> \<not> P x \<and> (\<forall>j<k. \<not> P (xs ! j))"
      using less_Suc_eq_0_disj by auto
    with Suc Cons.IH [of k] show ?thesis by auto
  qed
qed

lemma first_idx_SomeD:
  assumes "first_idx P xs = Some i"
  shows "i < length xs" "P (xs ! i)" "j < i \<Longrightarrow> \<not> P (xs ! j)"
  using assms by (auto simp: first_idx_Some)

lemma first_idx_total: "i < length xs \<Longrightarrow> P (xs ! i) \<Longrightarrow> \<exists>k. first_idx P xs = Some k \<and> k \<le> i"
proof -
  assume i: "i < length xs" "P (xs ! i)"
  then have "first_idx P xs \<noteq> None" by (auto simp: first_idx_None)
  then obtain k where k: "first_idx P xs = Some k" by auto
  with i have "k \<le> i" by (meson first_idx_SomeD(3) not_le)
  with k show ?thesis by blast
qed

lemma first_idx_cong:
  "(\<And>i. i < length xs \<Longrightarrow> P (xs ! i) = Q (ys ! i)) \<Longrightarrow> length xs = length ys \<Longrightarrow>
   first_idx P xs = first_idx Q ys"
proof (induction xs arbitrary: ys)
  case Nil
  then show ?case by simp
next
  case (Cons x xs)
  then obtain y ys' where ys: "ys = y # ys'" by (cases ys) auto
  have "P x = Q y" using Cons.prems(1) [of 0] ys by simp
  moreover have "first_idx P xs = first_idx Q ys'"
  proof (rule Cons.IH)
    show "P (xs ! i) = Q (ys' ! i)" if "i < length xs" for i
      using Cons.prems(1) [of "Suc i"] ys that by simp
    show "length xs = length ys'" using Cons.prems(2) ys by simp
  qed
  ultimately show ?case by (simp add: ys)
qed

section \<open>Lemmas: arrays\<close>

lemma length_upd [simp]: "length (upd f i xs) = length xs"
  by (simp add: upd_def)

lemma nth_upd_same [simp]: "i < length xs \<Longrightarrow> upd f i xs ! i = f (xs ! i)"
  by (simp add: upd_def)

lemma nth_upd_other [simp]: "i \<noteq> j \<Longrightarrow> upd f i xs ! j = xs ! j"
  by (simp add: upd_def)

lemma nth_upd: "j < length xs \<Longrightarrow> upd f i xs ! j = (if i = j then f (xs ! j) else xs ! j)"
  by (auto simp: upd_def)

lemma map_upd: "(\<And>x. g (f x) = g x) \<Longrightarrow> map g (upd f i xs) = map g xs"
  by (auto simp: list_eq_iff_nth_eq nth_upd)

lemma set_updE: "x \<in> set (upd f i xs) \<Longrightarrow> x \<in> set xs \<or> (i < length xs \<and> x = f (xs ! i))"
  by (auto simp: in_set_conv_nth nth_upd split: if_splits)

lemma distinct_map_upd:
  assumes "distinct (map g xs)" and "\<And>x. g (f x) = g x"
  shows "distinct (map g (upd f i xs))"
  using assms by (simp add: map_upd)

lemma sum_list_upd:
  fixes g :: "'a \<Rightarrow> int"
  assumes "i < length xs"
  shows "sum_list (map g (upd f i xs)) = sum_list (map g xs) + (g (f (xs ! i)) - g (xs ! i))"
  using assms
proof (induction xs arbitrary: i)
  case Nil
  then show ?case by simp
next
  case (Cons x xs)
  show ?case
  proof (cases i)
    case 0
    then show ?thesis by (simp add: upd_def)
  next
    case (Suc k)
    have "upd f (Suc k) (x # xs) = x # upd f k xs" by (simp add: upd_def)
    with Suc Cons show ?thesis by simp
  qed
qed

section \<open>Lemmas: words\<close>

lemma unat_add_small:
  fixes a b :: "'a::len word"
  shows "unat a + unat b < 2 ^ LENGTH('a) \<Longrightarrow> unat (a + b) = unat a + unat b"
  by (simp add: unat_word_ariths)

lemma unat_sub_small:
  fixes a b :: "'a::len word"
  shows "unat b \<le> unat a \<Longrightarrow> unat (a - b) = unat a - unat b"
  by (simp add: unat_sub word_le_nat_alt)

lemma unat_mult_small:
  fixes a b :: "'a::len word"
  shows "unat a * unat b < 2 ^ LENGTH('a) \<Longrightarrow> unat (a * b) = unat a * unat b"
  by (simp add: unat_word_ariths)

lemma u32_bound [simp]: "unat (a :: u32) < 4294967296"
  using unsigned_less [of a] by simp

lemma u8_bound [simp]: "unat (a :: u8) < 256"
  using unsigned_less [of a] by simp

end
