(* ===== verification/Mmu.thy ===== *)
theory Mmu
  imports Prelude
begin

unbundle bit_operations_syntax

text \<open>
  The address arithmetic of \<^verbatim>\<open>kernel/mmu.h\<close> and physical memory. All kernel addresses
  are identity mapped (\<^verbatim>\<open>PADDR(a)\<close> is \<open>a\<close>), so one memory serves as physical
  memory and as the kernel's view of it. Memory is a function from the addresses of its
  aligned 32-bit cells to their contents; the kernel reads and writes page-table entries
  and free-list links as whole cells, and bytes as parts of a cell (little-endian).

  The lemmas relate the bit masks to arithmetic on page numbers: every address lies in
  exactly one page, an offset below 4096 stays inside it, and the cells of two different
  indices of a page are different.
\<close>

section \<open>Constants and macros\<close>

type_synonym pmem = "u32 \<Rightarrow> u32"

abbreviation (input) PGSIZE :: u32 where "PGSIZE \<equiv> 4096"
abbreviation (input) NPDENTRIES :: nat where "NPDENTRIES \<equiv> 1024"
abbreviation (input) USERTOP :: u32 where "USERTOP \<equiv> 0xA0000"
abbreviation (input) PHYSTOP :: u32 where "PHYSTOP \<equiv> 0x1000000"

abbreviation (input) PTE_P :: u32 where "PTE_P \<equiv> 1"
abbreviation (input) PTE_W :: u32 where "PTE_W \<equiv> 2"
abbreviation (input) PTE_U :: u32 where "PTE_U \<equiv> 4"

definition PDX :: "u32 \<Rightarrow> u32" where
  "PDX la = (drop_bit 22 la AND 0x3FF)"

definition PTX :: "u32 \<Rightarrow> u32" where
  "PTX la = (drop_bit 12 la AND 0x3FF)"

definition PGADDR :: "u32 \<Rightarrow> u32 \<Rightarrow> u32 \<Rightarrow> u32" where
  "PGADDR d t off = (push_bit 22 d OR push_bit 12 t OR off)"

definition PGROUNDUP :: "u32 \<Rightarrow> u32" where
  "PGROUNDUP sz = ((sz + PGSIZE - 1) AND NOT (PGSIZE - 1))"

definition PGROUNDDOWN :: "u32 \<Rightarrow> u32" where
  "PGROUNDDOWN a = (a AND NOT (PGSIZE - 1))"

definition PTE_ADDR :: "u32 \<Rightarrow> u32" where
  "PTE_ADDR pte = (pte AND NOT 0xFFF)"

text \<open>\<^verbatim>\<open>memset(p, c, PGSIZE)\<close> and \<^verbatim>\<open>memmove(dst, src, PGSIZE)\<close> on whole pages.\<close>

definition memset_page :: "u32 \<Rightarrow> u8 \<Rightarrow> pmem \<Rightarrow> pmem" where
  "memset_page p c m =
     (\<lambda>a. if PGROUNDDOWN a = p then ucast c * 0x01010101 else m a)"

definition memmove_page :: "u32 \<Rightarrow> u32 \<Rightarrow> pmem \<Rightarrow> pmem" where
  "memmove_page dst src m =
     (\<lambda>a. if PGROUNDDOWN a = dst then m (src + (a - dst)) else m a)"

text \<open>Byte access: byte \<open>k\<close> of a cell is its bits \<open>8k\<close> to \<open>8k + 7\<close>.\<close>

definition load8 :: "pmem \<Rightarrow> u32 \<Rightarrow> u8" where
  "load8 m a = ucast (drop_bit (8 * unat (a AND 3)) (m (a AND NOT 3)))"

definition store8 :: "u32 \<Rightarrow> u8 \<Rightarrow> pmem \<Rightarrow> pmem" where
  "store8 a b m =
     (let c = a AND NOT 3; k = 8 * unat (a AND 3) in
      m(c := (m c AND NOT (push_bit k 0xFF)) OR push_bit k (ucast b)))"

fun store_bytes :: "u32 \<Rightarrow> u8 list \<Rightarrow> pmem \<Rightarrow> pmem" where
  "store_bytes a [] m = m"
| "store_bytes a (b # bs) m = store_bytes (a + 1) bs (store8 a b m)"

definition load_bytes :: "pmem \<Rightarrow> u32 \<Rightarrow> nat \<Rightarrow> u8 list" where
  "load_bytes m a n = map (\<lambda>i. load8 m (a + of_nat i)) [0..<n]"

text \<open>The addresses a loop \<^verbatim>\<open>for(; a < b; a += PGSIZE)\<close> visits.\<close>

definition page_range :: "u32 \<Rightarrow> u32 \<Rightarrow> u32 list" where
  "page_range a b =
     map (\<lambda>i. a + PGSIZE * of_nat i) [0..<(unat b - unat a + 4095) div 4096]"

definition page_aligned :: "u32 \<Rightarrow> bool" where
  "page_aligned p \<longleftrightarrow> p AND 0xFFF = 0"

section \<open>Masks and page numbers\<close>

lemma and_fff_mod: "(a :: u32) AND 0xFFF = a mod 4096"
proof -
  have "a AND 0xFFF = take_bit 12 a"
    by (simp add: take_bit_eq_mask mask_eq_exp_minus_1)
  then show ?thesis by (simp add: take_bit_eq_mod)
qed

lemma unat_and_fff: "unat ((a :: u32) AND 0xFFF) = unat a mod 4096"
  by (simp add: and_fff_mod unat_mod)

lemma page_aligned_mod: "page_aligned p \<longleftrightarrow> unat p mod 4096 = 0"
  by (metis page_aligned_def unat_and_fff unsigned_0 unsigned_eq_0_iff)

lemma mod_4096_aligned: "p mod 4096 = 0 \<longleftrightarrow> page_aligned p"
  by (simp add: page_aligned_def and_fff_mod)

lemma PTE_ADDR_eq: "PTE_ADDR = PGROUNDDOWN"
  by (simp add: fun_eq_iff PTE_ADDR_def PGROUNDDOWN_def)

lemma PGROUNDDOWN_diff: "PGROUNDDOWN a = a - (a AND 0xFFF)"
proof -
  have "PGROUNDDOWN a + (a AND 0xFFF) = a"
    by (simp add: PGROUNDDOWN_def disjunctive_add_eq_or bit_eq_iff bit_simps) blast
  then show ?thesis by (simp add: eq_diff_eq)
qed

lemma unat_PGROUNDDOWN: "unat (PGROUNDDOWN a) = 4096 * (unat a div 4096)"
  unfolding PGROUNDDOWN_diff
  by (subst unat_sub)
     (auto simp: unat_and_fff word_and_le1 word_le_nat_alt minus_mod_eq_mult_div)

lemma page_aligned_PGROUNDDOWN [simp]: "page_aligned (PGROUNDDOWN a)"
  by (simp add: page_aligned_mod unat_PGROUNDDOWN)

lemma PGROUNDDOWN_aligned [simp]: "page_aligned p \<Longrightarrow> PGROUNDDOWN p = p"
  by (simp add: page_aligned_def PGROUNDDOWN_diff)

lemma page_aligned_0 [simp]: "page_aligned 0"
  by (simp add: page_aligned_def)

lemma page_aligned_unat_le:
  assumes "page_aligned p"
  shows "unat p \<le> 4294963200"
proof -
  obtain k where k: "unat p = 4096 * k"
    using assms by (auto simp: page_aligned_mod elim: dvdE [OF mod_0_imp_dvd])
  moreover have "unat p < 4294967296" by simp
  ultimately have "k \<le> 1048575" by simp
  with k show ?thesis by simp
qed

lemma unat_page_offset:
  assumes "page_aligned p" and "unat i < 4096"
  shows "unat (p + i) = unat p + unat i"
  using page_aligned_unat_le [OF assms(1)] assms(2) by (intro unat_add_small) simp

lemma PGROUNDDOWN_offset:
  assumes "page_aligned p" and "unat i < 4096"
  shows "PGROUNDDOWN (p + i) = p"
proof -
  have "unat (PGROUNDDOWN (p + i)) = 4096 * ((unat p + unat i) div 4096)"
    using assms by (simp add: unat_PGROUNDDOWN unat_page_offset)
  also have "\<dots> = unat p"
    using assms by (auto simp: page_aligned_mod elim: dvdE [OF mod_0_imp_dvd])
  finally show ?thesis by (simp add: word_unat_eq_iff)
qed

lemma page_aligned_add:
  assumes "page_aligned p"
  shows "page_aligned (p + 4096)"
proof -
  have "unat (p + 4096) = (unat p + 4096) mod 4294967296"
    by (simp add: unat_word_ariths)
  moreover have "(unat p + 4096) mod 4294967296 mod 4096 = (unat p + 4096) mod 4096"
    by (rule mod_mod_cancel) simp
  ultimately show ?thesis using assms by (simp add: page_aligned_mod)
qed

lemma round_up_4096:
  fixes e :: nat
  shows "e \<le> 4096 * ((e + 4095) div 4096)" "4096 * ((e + 4095) div 4096) < e + 4096"
  using mult_div_mod_eq [of 4096 "e + 4095"] mod_less_divisor [of 4096 "e + 4095"] by linarith+

lemma PGROUNDUP_bounds:
  assumes "unat e \<le> 4294963200"
  shows "page_aligned (PGROUNDUP e)" "e \<le> PGROUNDUP e" "unat (PGROUNDUP e) < unat e + 4096"
    "unat (PGROUNDUP e) = 4096 * ((unat e + 4095) div 4096)"
proof -
  have e: "PGROUNDUP e = PGROUNDDOWN (e + 4095)"
    by (simp add: PGROUNDUP_def PGROUNDDOWN_def algebra_simps)
  show "page_aligned (PGROUNDUP e)" by (simp add: e)
  have un: "unat (e + 4095) = unat e + 4095"
    using assms by (subst unat_add_small) simp_all
  show *: "unat (PGROUNDUP e) = 4096 * ((unat e + 4095) div 4096)"
    by (simp add: e unat_PGROUNDDOWN un)
  show "e \<le> PGROUNDUP e" "unat (PGROUNDUP e) < unat e + 4096"
    unfolding word_le_nat_alt * by (rule round_up_4096)+
qed

section \<open>Cells of a page\<close>

lemma PDX_less: "unat (PDX va) < 1024"
proof -
  have "unat (drop_bit 22 va AND 0x3FF) \<le> unat (0x3FF :: u32)"
    by (rule word_and_le1 [THEN word_le_nat_alt [THEN iffD1]])
  then show ?thesis by (simp add: PDX_def)
qed

lemma PTX_less: "unat (PTX va) < 1024"
proof -
  have "unat (drop_bit 12 va AND 0x3FF) \<le> unat (0x3FF :: u32)"
    by (rule word_and_le1 [THEN word_le_nat_alt [THEN iffD1]])
  then show ?thesis by (simp add: PTX_def)
qed

lemma unat_times_4: "unat (i :: u32) < 1024 \<Longrightarrow> unat (4 * i) = 4 * unat i"
  by (subst unat_mult_small) simp_all

lemma page_cell:
  assumes "page_aligned p" and "unat i < 1024"
  shows "PGROUNDDOWN (p + 4 * i) = p"
  using assms by (intro PGROUNDDOWN_offset) (simp_all add: unat_times_4)

lemma times_4_inject:
  fixes i j :: u32
  assumes "unat i < 1024" "unat j < 1024"
  shows "4 * i = 4 * j \<longleftrightarrow> i = j"
proof
  assume "4 * i = 4 * j"
  then have "unat (4 * i) = unat (4 * j)" by simp
  then have "unat i = unat j" using assms by (simp add: unat_times_4)
  then show "i = j" by (simp add: word_unat_eq_iff)
qed simp

section \<open>Bytes of a cell, page loops\<close>

lemma and3_le: "unat ((a :: u32) AND 3) \<le> 3"
  using word_and_le1 [of a 3] by (simp add: word_le_nat_alt and.commute)

lemma ff_mask: "(0xFF :: u32) = mask 8"
  by (simp add: mask_eq_exp_minus_1)

lemma load8_store8_same: "load8 (store8 a b m) a = b"
proof (rule bit_word_eqI)
  fix n assume "n < LENGTH(8)"
  then show "bit (load8 (store8 a b m) a) n = bit b n"
    using and3_le [of a] by (simp add: load8_def store8_def Let_def ff_mask bit_simps)
qed

lemma addr_split: "((a :: u32) AND NOT 3) + (a AND 3) = a"
  by (simp add: disjunctive_add_eq_or bit_eq_iff bit_simps) blast

lemma load8_store8_other:
  assumes "a \<noteq> a'" 
  shows "load8 (store8 a b m) a' = load8 m a'"
proof (cases "a AND NOT 3 = a' AND NOT 3")
  case True
  with assms have "a AND 3 \<noteq> a' AND 3" using addr_split [of a] addr_split [of a'] by metis
  then have ne: "unat (a AND 3) \<noteq> unat (a' AND 3)" by (simp add: word_unat_eq_iff)
  show ?thesis
  proof (rule bit_word_eqI)
    fix n assume n: "n < LENGTH(8)"
    define p where "p = 8 * unat (a' AND 3) + n"
    have "p < 8 * unat (a AND 3) \<or> 8 * unat (a AND 3) + 8 \<le> p"
      using ne n by (auto simp: p_def)
    moreover have "p < 32" using and3_le [of a'] n by (simp add: p_def)
    ultimately have "bit (store8 a b m (a' AND NOT 3)) p = bit (m (a' AND NOT 3)) p"
      unfolding True [symmetric]
      by (auto simp: store8_def Let_def ff_mask bit_simps dest: bit_imp_le_length)
    with n show "bit (load8 (store8 a b m) a') n = bit (load8 m a') n"
      by (simp add: load8_def bit_simps p_def)
  qed
next
  case False
  then show ?thesis by (simp add: load8_def store8_def Let_def)
qed

lemma ceil_4096_step:
  fixes a b :: nat
  assumes "a < b"
  shows "(b - a + 4095) div 4096 = Suc ((b - (a + 4096) + 4095) div 4096)"
proof (cases "b < a + 4096")
  case True
  then have z: "b - (a + 4096) = 0" by simp
  from assms obtain d where d: "b - a = Suc d" by (metis Suc_diff_Suc)
  with True have "d < 4096" by simp
  with d have "(b - a + 4095) div 4096 = 1" by simp
  with z show ?thesis by simp
next
  case False
  then have "b - a + 4095 = (b - (a + 4096) + 4095) + 4096" by simp
  moreover have "(x + 4096) div 4096 = Suc (x div 4096)" for x :: nat by simp
  ultimately show ?thesis by metis
qed

lemma page_range_simps:
  assumes "unat b \<le> 4294963200"
  shows "page_range a b = (if a < b then a # page_range (a + PGSIZE) b else [])"
proof (cases "a < b")
  case True
  then have lt: "unat a < unat b" by (simp add: word_less_nat_alt)
  then have un: "unat (a + PGSIZE) = unat a + 4096" using assms by (subst unat_add_small) simp_all
  have upt: "[0..<(unat b - unat a + 4095) div 4096] =
      0 # map Suc [0..<(unat b - unat (a + PGSIZE) + 4095) div 4096]"
    unfolding un ceil_4096_step [OF lt] by (simp add: upt_conv_Cons map_Suc_upt del: upt_Suc)
  have "a + PGSIZE * of_nat (Suc i) = a + PGSIZE + PGSIZE * of_nat i" for i
    by (simp add: algebra_simps)
  then show ?thesis
    unfolding page_range_def upt using True by (simp only: list.map map_map o_def if_True) simp
next
  case False
  then show ?thesis by (simp add: page_range_def word_less_nat_alt not_less)
qed

section \<open>Distances between pages\<close>

lemma page_aligned_diff:
  assumes "page_aligned a" "page_aligned b"
  shows "page_aligned (a - b)"
proof -
  have al: "page_aligned p \<longleftrightarrow> uint p mod 4096 = 0" for p
  proof -
    have "int (unat p mod 4096) = uint p mod 4096" by (simp add: zmod_int)
    then show ?thesis unfolding page_aligned_mod by linarith
  qed
  have "uint (a - b) mod 4096 = (uint a - uint b) mod 4096"
    by (simp add: uint_word_ariths mod_mod_cancel)
  also have "\<dots> = 0" using assms mod_diff_eq [of "uint a" 4096 "uint b"] by (simp add: al)
  finally show ?thesis by (simp add: al)
qed

lemma page_aligned_unatE:
  assumes "page_aligned d"
  obtains k where "unat d = 4096 * k" "k < 1048576" "d = 4096 * of_nat k"
proof
  let ?k = "unat d div 4096"
  show u: "unat d = 4096 * ?k"
    using assms by (auto simp: page_aligned_mod elim: dvdE [OF mod_0_imp_dvd])
  have "unat d < 1048576 * 4096" by simp
  then show "?k < 1048576" by (rule less_mult_imp_div_less)
  have "d = of_nat (4096 * ?k)" by (subst u [symmetric]) simp
  then show "d = 4096 * of_nat ?k" by simp
qed

lemma unat_pages: "k < 1048576 \<Longrightarrow> unat (PGSIZE * of_nat k) = 4096 * k"
proof -
  assume k: "k < 1048576"
  then have "unat (of_nat k :: u32) = k" by (simp add: unsigned_of_nat take_bit_eq_mod)
  with k show ?thesis by (subst unat_mult_small) simp_all
qed

lemma page_aligned_pages: "page_aligned a \<Longrightarrow> page_aligned (a + PGSIZE * of_nat k)"
proof (induction k)
  case (Suc k)
  have "a + PGSIZE * of_nat (Suc k) = (a + PGSIZE * of_nat k) + PGSIZE" by (simp add: algebra_simps)
  with Suc page_aligned_add show ?case by metis
qed simp

lemma page_range_mem:
  assumes "page_aligned a" "unat b \<le> 4294963200"
  shows "x \<in> set (page_range a b) \<longleftrightarrow> page_aligned x \<and> a \<le> x \<and> x < b"
proof -
  define N where "N = (unat b - unat a + 4095) div 4096"
  have n: "k < N \<longleftrightarrow> unat a + 4096 * k < unat b" for k
  proof -
    have "k < N \<longleftrightarrow> Suc k * 4096 \<le> unat b - unat a + 4095"
      by (simp add: N_def less_eq_div_iff_mult_less_eq Suc_le_eq [symmetric])
    also have "\<dots> \<longleftrightarrow> unat a + 4096 * k < unat b" by auto
    finally show ?thesis .
  qed
  have un: "unat (a + PGSIZE * of_nat k) = unat a + 4096 * k" if "unat a + 4096 * k < unat b" for k
  proof -
    have k: "k < 1048576" using that assms(2) by linarith
    show ?thesis using that assms(2) by (subst unat_add_small) (simp_all add: unat_pages [OF k])
  qed
  show ?thesis
  proof
    assume "x \<in> set (page_range a b)"
    then obtain k where k: "k < N" "x = a + PGSIZE * of_nat k"
      unfolding page_range_def N_def [symmetric] by auto
    then show "page_aligned x \<and> a \<le> x \<and> x < b"
      using un n page_aligned_pages [OF assms(1)] by (simp add: word_le_nat_alt word_less_nat_alt)
  next
    assume x: "page_aligned x \<and> a \<le> x \<and> x < b"
    then obtain k where k: "unat (x - a) = 4096 * k" "x - a = 4096 * of_nat k"
      using page_aligned_unatE [OF page_aligned_diff [of x a]] assms(1) by metis
    moreover have "unat (x - a) = unat x - unat a" "unat a \<le> unat x"
      using x by (simp_all add: unat_sub_small word_le_nat_alt)
    ultimately have "unat a + 4096 * k = unat x" by linarith
    then have "k < N" using x n by (simp add: word_less_nat_alt)
    moreover have "x = a + PGSIZE * of_nat k" using k(2) by (simp add: algebra_simps)
    ultimately show "x \<in> set (page_range a b)" unfolding page_range_def N_def [symmetric] by auto
  qed
qed

lemma page_range_distinct:
  assumes "unat b \<le> 4294963200"
  shows "distinct (page_range a b)"
proof -
  have "unat b - unat a + 4095 < 1048576 * 4096" using assms by linarith
  then have n: "(unat b - unat a + 4095) div 4096 < 1048576" by (rule less_mult_imp_div_less)
  have "inj_on (\<lambda>i. a + PGSIZE * of_nat i) {0..<(unat b - unat a + 4095) div 4096}"
  proof (rule inj_onI)
    fix i j assume "i \<in> {0..<(unat b - unat a + 4095) div 4096}"
      "j \<in> {0..<(unat b - unat a + 4095) div 4096}" "a + PGSIZE * of_nat i = a + PGSIZE * of_nat j"
    then have "unat (PGSIZE * of_nat i) = unat (PGSIZE * of_nat j)" "i < 1048576" "j < 1048576"
      using n by auto
    then show "i = j" by (simp add: unat_pages)
  qed
  then show ?thesis by (simp add: page_range_def distinct_map)
qed

lemma PDX_user: "a < 0x400000 \<Longrightarrow> PDX a = 0"
proof -
  assume "a < 0x400000"
  then have "unat a < 4194304" by (simp add: word_less_nat_alt)
  then have "unat (drop_bit 22 a) = 0"
    by (simp add: drop_bit_eq_div unat_div)
  then show ?thesis by (simp add: PDX_def unsigned_eq_0_iff)
qed

lemma PGROUNDUP_aligned: "page_aligned (PGROUNDUP a)"
proof -
  have "PGROUNDUP a = PGROUNDDOWN (a + PGSIZE - 1)" by (simp add: PGROUNDUP_def PGROUNDDOWN_def)
  then show ?thesis by simp
qed

lemma PGROUNDDOWN_ge: "page_aligned p \<Longrightarrow> p \<le> PGROUNDDOWN a \<longleftrightarrow> p \<le> a"
proof -
  assume "page_aligned p"
  then obtain k where k: "unat p = 4096 * k" using page_aligned_unatE by metis
  show ?thesis
    by (simp add: word_le_nat_alt unat_PGROUNDDOWN k less_eq_div_iff_mult_less_eq mult.commute)
qed

lemma PGROUNDDOWN_less: "page_aligned p \<Longrightarrow> PGROUNDDOWN a < p \<longleftrightarrow> a < p"
  using PGROUNDDOWN_ge [of p a] by (simp add: not_le [symmetric])

end
