(* ===== verification/Kalloc.thy ===== *)
theory Kalloc
  imports Mmu
begin

text \<open>
  The physical page allocator, \<^verbatim>\<open>kernel/kalloc.c\<close>. The free list is threaded through
  the free pages themselves: the first cell of a free page holds the address of the next
  one. \<open>free_chain\<close> relates that chain to a list of page addresses, \<open>kmem_ok\<close> is
  the allocator's invariant with the list as its abstract state; \<open>kalloc\<close> pops and
  \<open>kfree\<close> pushes it. The locale \<open>page_allocator\<close> is the contract the page-table
  code relies on, interpreted here on \<open>kalloc\<close> and \<open>kfree\<close>.

  \<open>kernel_end\<close> and \<open>kernel_data\<close> are the linker symbols \<^verbatim>\<open>end\<close> and
  \<^verbatim>\<open>data\<close>, constants of the running kernel.
\<close>

section \<open>State and operations\<close>

record kmem =
  mem :: pmem
  freelist :: u32
  freecount :: int
  kernel_end :: u32
  kernel_data :: u32

definition kfree :: "u32 \<Rightarrow> kmem \<Rightarrow> kmem res" where
  "kfree v s =
     (if v mod PGSIZE \<noteq> 0 \<or> v < kernel_end s \<or> v \<ge> PHYSTOP then Inl (Panic ''kfree'')
      else
        let m = memset_page v 1 (mem s) in
        Inr (s\<lparr>mem := m(v := freelist s), freelist := v, freecount := freecount s + 1\<rparr>))"

definition kalloc :: "kmem \<Rightarrow> u32 \<times> kmem" where
  "kalloc s =
     (let r = freelist s in
      if r \<noteq> 0 then (r, s\<lparr>freelist := mem s r, freecount := freecount s - 1\<rparr>)
      else (r, s))"

function kinit_loop :: "u32 \<Rightarrow> kmem \<Rightarrow> kmem res" where
  "kinit_loop p s =
     (if p + PGSIZE \<le> PHYSTOP then
        bindE (kfree p s) (\<lambda>s. kinit_loop (p + PGSIZE) (s\<lparr>freecount := freecount s + 1\<rparr>))
      else Inr s)"
  by pat_completeness auto
termination
proof (relation "measure (\<lambda>(p, s). 16777216 - unat p)", goal_cases)
  case 1
  show ?case by simp
next
  case (2 p s s')
  then have "unat p < 16777216"
    by (auto simp: kfree_def word_less_nat_alt word_le_nat_alt not_le split: if_splits)
  moreover from this have "unat (p + PGSIZE) = unat p + 4096"
    by (intro unat_add_small [where b = PGSIZE, simplified]) simp
  ultimately show ?case by simp
qed

definition kinit :: "kmem \<Rightarrow> kmem res" where
  "kinit s = kinit_loop (PGROUNDUP (kernel_end s)) (s\<lparr>freecount := 0\<rparr>)"

definition getfreecount :: "kmem \<Rightarrow> int" where
  "getfreecount s = freecount s"

text \<open>A machine whose kernel image leaves two whole pages free, for the witnesses.\<close>

definition boot_kmem :: kmem where
  "boot_kmem = \<lparr>mem = (\<lambda>_. 0), freelist = 0, freecount = 0,
                kernel_end = 0xFFD123, kernel_data = 0x108000\<rparr>"

section \<open>The free list as a list of pages\<close>

definition valid_page :: "kmem \<Rightarrow> u32 \<Rightarrow> bool" where
  "valid_page s p \<longleftrightarrow> page_aligned p \<and> kernel_end s \<le> p \<and> p < PHYSTOP \<and> p \<noteq> 0"

fun free_chain :: "pmem \<Rightarrow> u32 \<Rightarrow> u32 list \<Rightarrow> bool" where
  "free_chain m p [] \<longleftrightarrow> p = 0"
| "free_chain m p (x # xs) \<longleftrightarrow> p = x \<and> p \<noteq> 0 \<and> free_chain m (m p) xs"

definition kmem_ok :: "kmem \<Rightarrow> u32 list \<Rightarrow> bool" where
  "kmem_ok s ps \<longleftrightarrow>
     free_chain (mem s) (freelist s) ps \<and> distinct ps \<and> (\<forall>p\<in>set ps. valid_page s p)"

text \<open>The pages between two addresses, in the order \<open>kinit\<close> frees them.\<close>

fun pages_from :: "u32 \<Rightarrow> nat \<Rightarrow> u32 list" where
  "pages_from p 0 = []"
| "pages_from p (Suc n) = p # pages_from (p + PGSIZE) n"

section \<open>The contract of a page allocator\<close>

locale page_allocator =
  fixes alloc :: "'s \<Rightarrow> u32 \<times> 's"
    and free :: "u32 \<Rightarrow> 's \<Rightarrow> 's res"
    and avail :: "'s \<Rightarrow> u32 list \<Rightarrow> bool"
    and valid :: "'s \<Rightarrow> u32 \<Rightarrow> bool"
    and cells :: "'s \<Rightarrow> pmem"
  assumes alloc_Nil: "avail s [] \<Longrightarrow> alloc s = (0, s)"
    and alloc_Cons: "avail s (p # ps) \<Longrightarrow> fst (alloc s) = p \<and> avail (snd (alloc s)) ps"
    and alloc_cells: "cells (snd (alloc s)) = cells s"
    and alloc_valid: "valid (snd (alloc s)) = valid s"
    and avail_pages: "avail s ps \<Longrightarrow> distinct ps \<and> (\<forall>p\<in>set ps. valid s p)"
    and valid_pages: "valid s p \<Longrightarrow> page_aligned p \<and> p \<noteq> 0"
    and free_ok: "avail s ps \<Longrightarrow> valid s p \<Longrightarrow> p \<notin> set ps \<Longrightarrow>
       \<exists>s'. free p s = Inr s' \<and> avail s' (p # ps) \<and> valid s' = valid s \<and>
            (\<forall>a. PGROUNDDOWN a \<noteq> p \<longrightarrow> cells s' a = cells s a)"
begin

lemma alloc_zero_iff: "avail s ps \<Longrightarrow> fst (alloc s) = 0 \<longleftrightarrow> ps = []"
  using alloc_Nil alloc_Cons avail_pages valid_pages by (cases ps) fastforce+

lemma alloc_fresh:
  assumes "avail s ps" and "fst (alloc s) \<noteq> 0"
  obtains qs where "ps = fst (alloc s) # qs" "avail (snd (alloc s)) qs"
    "valid s (fst (alloc s))" "fst (alloc s) \<notin> set qs"
proof -
  from assms obtain p qs where ps: "ps = p # qs"
    by (cases ps) (auto simp: alloc_Nil)
  with assms(1) have "fst (alloc s) = p" "avail (snd (alloc s)) qs"
    using alloc_Cons by blast+
  moreover from assms(1) ps have "valid s p" "p \<notin> set qs"
    using avail_pages by fastforce+
  ultimately show ?thesis using that ps by simp
qed

lemma alloc_then_free:
  assumes "avail s (p # ps)"
  shows "\<exists>s'. free p (snd (alloc s)) = Inr s' \<and> avail s' (p # ps)"
  using assms alloc_Cons [OF assms] avail_pages [OF assms] alloc_valid [of s]
    free_ok [of "snd (alloc s)" ps p] by auto

lemma free_then_alloc:
  assumes "avail s ps" "valid s p" "p \<notin> set ps" "free p s = Inr s'"
  shows "fst (alloc s') = p \<and> avail (snd (alloc s')) ps"
  using free_ok [OF assms(1-3)] assms(4) alloc_Cons by auto

end

section \<open>Lemmas\<close>

lemma free_chain_cong:
  "(\<And>p. p \<in> set ps \<Longrightarrow> m p = m' p) \<Longrightarrow> free_chain m p ps = free_chain m' p ps"
  by (induction m p ps rule: free_chain.induct) auto

lemma kmem_ok_cong:
  assumes "freelist s = freelist s'" "kernel_end s = kernel_end s'"
    and "\<And>p. p \<in> set ps \<Longrightarrow> mem s p = mem s' p"
  shows "kmem_ok s ps = kmem_ok s' ps"
  using assms free_chain_cong [of ps "mem s" "mem s'"] by (auto simp: kmem_ok_def valid_page_def)

lemma kmem_ok_valid: "kmem_ok s ps \<Longrightarrow> p \<in> set ps \<Longrightarrow> valid_page s p"
  by (simp add: kmem_ok_def)

lemma valid_page_aligned [dest]: "valid_page s p \<Longrightarrow> page_aligned p"
  by (simp add: valid_page_def)

lemma kmem_ok_page: "kmem_ok s ps \<Longrightarrow> p \<in> set ps \<Longrightarrow> PGROUNDDOWN p = p"
  by (simp add: kmem_ok_def valid_page_def)

lemma kalloc_mem [frame]: "mem (snd (kalloc s)) = mem s"
  by (simp add: kalloc_def Let_def)

lemma kalloc_consts [frame]:
  "kernel_end (snd (kalloc s)) = kernel_end s" "kernel_data (snd (kalloc s)) = kernel_data s"
  by (simp_all add: kalloc_def Let_def)

lemma kfree_ok_iff:
  "(\<exists>s'. kfree v s = Inr s') \<longleftrightarrow> page_aligned v \<and> kernel_end s \<le> v \<and> v < PHYSTOP"
  by (auto simp: kfree_def Let_def mod_4096_aligned)

lemma kfree_state:
  assumes "kfree v s = Inr s'"
  shows "page_aligned v" "kernel_end s' = kernel_end s" "kernel_data s' = kernel_data s"
    "freelist s' = v" "freecount s' = freecount s + 1" "mem s' v = freelist s"
    "PGROUNDDOWN a \<noteq> v \<Longrightarrow> mem s' a = mem s a"
  using assms
  by (auto simp: kfree_def Let_def memset_page_def mod_4096_aligned split: if_splits)

lemma kfree_push:
  assumes "kmem_ok s ps" "valid_page s v" "v \<notin> set ps"
  shows "\<exists>s'. kfree v s = Inr s' \<and> kmem_ok s' (v # ps)"
proof -
  from assms(2) have "\<exists>s'. kfree v s = Inr s'"
    by (simp add: kfree_ok_iff valid_page_def)
  then obtain s' where s': "kfree v s = Inr s'" by blast
  note st = kfree_state [OF s']
  have "mem s' p = mem s p" if "p \<in> set ps" for p
  proof -
    from that assms(1) have "PGROUNDDOWN p = p"
      by (simp add: kmem_ok_page)
    with that assms(3) show ?thesis using st(7) by metis
  qed
  then have "free_chain (mem s') (freelist s) ps"
    using assms(1) free_chain_cong [of ps "mem s'" "mem s"] by (simp add: kmem_ok_def)
  then have "kmem_ok s' (v # ps)"
    using assms st by (auto simp: kmem_ok_def valid_page_def)
  with s' show ?thesis by blast
qed

lemma kalloc_pop:
  assumes "kmem_ok s (p # ps)"
  shows "fst (kalloc s) = p" "kmem_ok (snd (kalloc s)) ps"
    "freecount (snd (kalloc s)) = freecount s - 1"
  using assms by (auto simp: kmem_ok_def kalloc_def Let_def valid_page_def)

interpretation ka: page_allocator kalloc kfree kmem_ok valid_page mem
proof (unfold_locales, goal_cases)
  case 1
  then show ?case by (simp add: kmem_ok_def kalloc_def Let_def)
next
  case 2
  then show ?case by (simp add: kalloc_pop)
next
  case 3
  show ?case by (simp add: kalloc_mem)
next
  case 4
  show ?case by (simp add: fun_eq_iff valid_page_def kalloc_consts)
next
  case 5
  then show ?case by (simp add: kmem_ok_def)
next
  case 6
  then show ?case by (simp add: valid_page_def)
next
  case (7 s ps p)
  then obtain s' where s': "kfree p s = Inr s'" "kmem_ok s' (p # ps)"
    using kfree_push by blast
  moreover have "valid_page s' = valid_page s"
    using kfree_state(2) [OF s'(1)] by (simp add: fun_eq_iff valid_page_def)
  ultimately show ?case using kfree_state(7) [OF s'(1)] by blast
qed

section \<open>Boot\<close>

declare kinit_loop.simps [simp del]

lemma kinit_loop_pages:
  assumes "page_aligned p" "unat p + 4096 * n = 16777216" "p \<noteq> 0"
    and "kernel_end s \<le> p" "kmem_ok s ps" "\<forall>q\<in>set ps. q < p"
  shows "\<exists>s'. kinit_loop p s = Inr s' \<and> kmem_ok s' (rev (pages_from p n) @ ps) \<and>
           freecount s' = freecount s + 2 * int n"
  using assms
proof (induction n arbitrary: p s ps)
  case 0
  then have "unat (p + PGSIZE) = 16777216 + 4096"
    by (subst unat_add_small) simp_all
  then have "\<not> p + PGSIZE \<le> PHYSTOP" by (simp add: word_le_nat_alt)
  with 0 show ?case by (subst kinit_loop.simps) auto
next
  case (Suc n)
  then have un: "unat (p + PGSIZE) = unat p + 4096"
    by (subst unat_add_small) simp_all
  then have le: "p + PGSIZE \<le> PHYSTOP" using Suc.prems(2) by (simp add: word_le_nat_alt)
  have "valid_page s p"
    using Suc.prems by (auto simp: valid_page_def word_less_nat_alt)
  moreover have "p \<notin> set ps" using Suc.prems(6) by auto
  ultimately obtain s1 where s1: "kfree p s = Inr s1" "kmem_ok s1 (p # ps)"
    using kfree_push [OF Suc.prems(5)] by blast
  define s2 where "s2 = s1\<lparr>freecount := freecount s1 + 1\<rparr>"
  have less: "p < p + PGSIZE" using un by (simp add: word_less_nat_alt)
  have ok: "kmem_ok s2 (p # ps)"
    using s1(2) kmem_ok_cong [of s2 s1] by (simp add: s2_def)
  have "\<exists>s'. kinit_loop (p + PGSIZE) s2 = Inr s' \<and>
          kmem_ok s' (rev (pages_from (p + PGSIZE) n) @ (p # ps)) \<and>
          freecount s' = freecount s2 + 2 * int n"
  proof (rule Suc.IH)
    show "page_aligned (p + PGSIZE)" using Suc.prems(1) by (rule page_aligned_add)
    show "unat (p + PGSIZE) + 4096 * n = 16777216" using un Suc.prems(2) by simp
    show "p + PGSIZE \<noteq> 0" using less by auto
    show "kernel_end s2 \<le> p + PGSIZE"
      using Suc.prems(4) less kfree_state(2) [OF s1(1)] by (simp add: s2_def)
    show "\<forall>q\<in>set (p # ps). q < p + PGSIZE" using Suc.prems(6) less by auto
  qed (fact ok)
  moreover have "freecount s2 = freecount s + 2"
    using kfree_state(5) [OF s1(1)] by (simp add: s2_def)
  moreover have "kinit_loop p s = kinit_loop (p + PGSIZE) s2"
    by (subst kinit_loop.simps) (simp add: le s1(1) s2_def)
  ultimately show ?case by (auto simp: algebra_simps)
qed


lemma kinit_correct:
  assumes "freelist s = 0" and "kernel_end s \<noteq> 0" and "kernel_end s \<le> PHYSTOP"
    and "n = (16777216 - unat (PGROUNDUP (kernel_end s))) div 4096"
  shows "\<exists>s'. kinit s = Inr s' \<and>
           kmem_ok s' (rev (pages_from (PGROUNDUP (kernel_end s)) n)) \<and>
           freecount s' = 2 * int n"
proof -
  let ?e = "kernel_end s" and ?s = "s\<lparr>freecount := 0\<rparr>"
  have le: "unat ?e \<le> 16777216" using assms(3) by (simp add: word_le_nat_alt)
  then have "unat ?e \<le> 4294963200" by simp
  note up = PGROUNDUP_bounds [OF this]
  have "unat ?e + 4095 < 4097 * 4096" using le by simp
  then have "(unat ?e + 4095) div 4096 < 4097" by (rule less_mult_imp_div_less)
  then have n: "unat (PGROUNDUP ?e) + 4096 * n = 16777216"
    unfolding assms(4) up(4) by (simp add: diff_mult_distrib2)
  have "PGROUNDUP ?e \<noteq> 0" using up(2) assms(2) by (metis word_le_0_iff)
  moreover have "kmem_ok ?s []" using assms(1) by (simp add: kmem_ok_def)
  ultimately show ?thesis
    using kinit_loop_pages [OF up(1) n, of ?s "[]"] up(2) by (auto simp: kinit_def)
qed

lemma length_pages_from [simp]: "length (pages_from p n) = n"
  by (induction n arbitrary: p) auto

text \<open>
  C21. Boot: \<open>kinit\<close> never panics, and afterwards every whole page between the end of the
  kernel image and \<^verbatim>\<open>PHYSTOP\<close> is on the free list exactly once, highest address first.
\<close>

theorem kinit_frees_all_pages:
  assumes "freelist s = 0" and "kernel_end s \<noteq> 0" and "kernel_end s \<le> PHYSTOP"
  shows "\<exists>s'. kinit s = Inr s' \<and>
           kmem_ok s' (rev (pages_from (PGROUNDUP (kernel_end s))
             ((16777216 - unat (PGROUNDUP (kernel_end s))) div 4096)))"
  using kinit_correct [OF assms refl] by blast

theorem kinit_frees_all_pages_witness:
  "\<exists>s'. kinit boot_kmem = Inr s' \<and> kmem_ok s' [0xFFF000, 0xFFE000]"
proof -
  have e: "PGROUNDUP 0xFFD123 = 0xFFE000" by (simp add: PGROUNDUP_def)
  have "pages_from 0xFFE000 2 = [0xFFE000, 0xFFF000]"
    by (simp add: numeral_2_eq_2)
  then show ?thesis
    using kinit_frees_all_pages [of boot_kmem] by (simp add: boot_kmem_def e)
qed

text \<open>
  The free-page counter after boot: \<open>kfree\<close> counts every page it frees and
  \<open>kinit\<close> counts the same page again, so \<open>getfreecount\<close> reports twice the length of
  the free list.
\<close>

theorem kinit_counts_pages_twice:
  assumes "freelist s = 0" and "kernel_end s \<noteq> 0" and "kernel_end s \<le> PHYSTOP"
  shows "\<exists>s' ps. kinit s = Inr s' \<and> kmem_ok s' ps \<and> getfreecount s' = 2 * int (length ps)"
  using kinit_correct [OF assms refl] by (fastforce simp: getfreecount_def)

theorem kinit_counts_pages_twice_witness:
  "\<exists>s' ps. kinit boot_kmem = Inr s' \<and> kmem_ok s' ps \<and> getfreecount s' = 2 * int (length ps)"
  by (rule kinit_counts_pages_twice) (simp_all add: boot_kmem_def)

text \<open>
  C13. The allocator refines a stack of pages: with free list \<open>ps\<close>, \<open>kalloc\<close> returns 0
  and changes nothing when \<open>ps\<close> is empty and otherwise returns its head, leaves its tail
  free and touches no memory; \<open>kfree\<close> of a valid page that is not free puts exactly that
  page in front and writes to no other page; \<open>kfree\<close> of an address that is unaligned,
  inside the kernel image or beyond \<^verbatim>\<open>PHYSTOP\<close> panics.
\<close>

theorem kalloc_kfree_refine_stack:
  assumes ok: "kmem_ok s ps"
  shows "(ps = [] \<longrightarrow> kalloc s = (0, s)) \<and>
    (\<forall>p qs. ps = p # qs \<longrightarrow>
       fst (kalloc s) = p \<and> kmem_ok (snd (kalloc s)) qs \<and> mem (snd (kalloc s)) = mem s \<and>
       getfreecount (snd (kalloc s)) = getfreecount s - 1) \<and>
    (\<forall>v. valid_page s v \<and> v \<notin> set ps \<longrightarrow>
       (\<exists>s'. kfree v s = Inr s' \<and> kmem_ok s' (v # ps) \<and>
             getfreecount s' = getfreecount s + 1 \<and>
             (\<forall>a. PGROUNDDOWN a \<noteq> v \<longrightarrow> mem s' a = mem s a))) \<and>
    (\<forall>v. \<not> (page_aligned v \<and> kernel_end s \<le> v \<and> v < PHYSTOP) \<longrightarrow>
       kfree v s = Inl (Panic ''kfree''))"
proof (intro conjI allI impI)
  show "kalloc s = (0, s)" if "ps = []" using ok that ka.alloc_Nil by simp
  fix p qs assume "ps = p # qs"
  with ok have *: "kmem_ok s (p # qs)" by simp
  show "fst (kalloc s) = p" "kmem_ok (snd (kalloc s)) qs"
    "getfreecount (snd (kalloc s)) = getfreecount s - 1"
    using kalloc_pop [OF *] by (simp_all add: getfreecount_def)
  show "mem (snd (kalloc s)) = mem s" by (rule kalloc_mem)
next
  fix v assume "valid_page s v \<and> v \<notin> set ps"
  then obtain s' where "kfree v s = Inr s'" "kmem_ok s' (v # ps)"
    using kfree_push [OF ok] by blast
  then show "\<exists>s'. kfree v s = Inr s' \<and> kmem_ok s' (v # ps) \<and>
      getfreecount s' = getfreecount s + 1 \<and>
      (\<forall>a. PGROUNDDOWN a \<noteq> v \<longrightarrow> mem s' a = mem s a)"
    using kfree_state by (fastforce simp: getfreecount_def)
next
  fix v assume "\<not> (page_aligned v \<and> kernel_end s \<le> v \<and> v < PHYSTOP)"
  then show "kfree v s = Inl (Panic ''kfree'')"
    by (auto simp: kfree_def mod_4096_aligned)
qed

theorem kalloc_kfree_refine_stack_witness:
  "kalloc (boot_kmem\<lparr>mem := (\<lambda>a. if a = 0xFFF000 then 0xFFE000 else 0), freelist := 0xFFF000\<rparr>) =
     (0xFFF000,
      boot_kmem\<lparr>mem := (\<lambda>a. if a = 0xFFF000 then 0xFFE000 else 0), freelist := 0xFFE000,
                freecount := -1\<rparr>) \<and>
   kmem_ok (snd (kalloc (boot_kmem\<lparr>mem := (\<lambda>a. if a = 0xFFF000 then 0xFFE000 else 0),
                                    freelist := 0xFFF000\<rparr>))) [0xFFE000]"
  (is "kalloc ?s = _ \<and> _")
proof -
  have "kmem_ok ?s [0xFFF000, 0xFFE000]"
    by (simp add: kmem_ok_def boot_kmem_def valid_page_def page_aligned_def)
  from kalloc_kfree_refine_stack [OF this] have "kmem_ok (snd (kalloc ?s)) [0xFFE000]" by simp
  then show ?thesis by (simp add: kalloc_def boot_kmem_def)
qed

end
