(* ===== verification/Vm.thy ===== *)
theory Vm
  imports Kalloc
begin

unbundle bit_operations_syntax

text \<open>
  Page tables, the first part of \<^verbatim>\<open>kernel/vm.c\<close>: walking, mapping, growing,
  shrinking, copying and freeing address spaces. A page directory is the physical address
  of its page; its entries and the entries of the page tables it refers to are cells of
  memory. A returned pointer 0 is the C null pointer.

  \<^verbatim>\<open>proc->shm\<close>, which \<^verbatim>\<open>allocuvm\<close> and \<^verbatim>\<open>freevm\<close> read from the current process,
  is an argument of their models. \<^verbatim>\<open>cprintf\<close> messages are left out.

  A loop \<^verbatim>\<open>for(; a < b; a += PGSIZE)\<close> runs over \<open>page_range a b\<close>; by
  \<open>page_range_simps\<close> that is the source's loop for every bound that does not wrap around
  the address space (user addresses end at \<^verbatim>\<open>USERTOP\<close>). The loop of
  \<^verbatim>\<open>mappages\<close> counts down the pages left to map instead of comparing with the last
  address; \<open>mappages_loop_eq\<close> shows that it is the loop of the source.
\<close>

section \<open>Operations\<close>

definition walkpgdir :: "u32 \<Rightarrow> u32 \<Rightarrow> bool \<Rightarrow> kmem \<Rightarrow> u32 \<times> kmem" where
  "walkpgdir pgdir va create s =
     (let pde = pgdir + 4 * PDX va in
      if mem s pde AND PTE_P \<noteq> 0 then (PTE_ADDR (mem s pde) + 4 * PTX va, s)
      else if \<not> create then (0, s)
      else
        let (pgtab, s1) = kalloc s in
        if pgtab = 0 then (0, s1)
        else
          (pgtab + 4 * PTX va,
           s1\<lparr>mem := (memset_page pgtab 0 (mem s1))(pde := pgtab OR PTE_P OR PTE_W OR PTE_U)\<rparr>))"

definition map_page :: "u32 \<Rightarrow> u32 \<Rightarrow> u32 \<Rightarrow> u32 \<Rightarrow> kmem \<Rightarrow> (int \<times> kmem) res" where
  "map_page pgdir a pa perm s =
     (let (pte, s1) = walkpgdir pgdir a True s in
      if pte = 0 then Inr (-1, s1)
      else if mem s1 pte AND PTE_P \<noteq> 0 then Inl (Panic ''remap'')
      else Inr (0, s1\<lparr>mem := (mem s1)(pte := pa OR perm OR PTE_P)\<rparr>))"

fun mappages_loop ::
  "nat \<Rightarrow> u32 \<Rightarrow> u32 \<Rightarrow> u32 \<Rightarrow> u32 \<Rightarrow> kmem \<Rightarrow> (int \<times> kmem) res" where
  "mappages_loop 0 pgdir a pa perm s = map_page pgdir a pa perm s"
| "mappages_loop (Suc n) pgdir a pa perm s =
     bindE (map_page pgdir a pa perm s) (\<lambda>(r, s).
       if r \<noteq> 0 then Inr (r, s)
       else mappages_loop n pgdir (a + PGSIZE) (pa + PGSIZE) perm s)"

definition mappages ::
  "u32 \<Rightarrow> u32 \<Rightarrow> u32 \<Rightarrow> u32 \<Rightarrow> u32 \<Rightarrow> kmem \<Rightarrow> (int \<times> kmem) res" where
  "mappages pgdir la sz pa perm s =
     (let a = PGROUNDDOWN la; last = PGROUNDDOWN (la + sz - 1) in
      mappages_loop (unat (last - a) div 4096) pgdir a pa perm s)"

definition kmap :: "kmem \<Rightarrow> (u32 \<times> u32 \<times> u32) list" where
  "kmap s =
     [(USERTOP, 0x100000, PTE_W),
      (0x100000, kernel_data s, 0),
      (kernel_data s, PHYSTOP, PTE_W),
      (0xFE000000, 0, PTE_W)]"

fun setupkvm_loop :: "(u32 \<times> u32 \<times> u32) list \<Rightarrow> u32 \<Rightarrow> kmem \<Rightarrow> (u32 \<times> kmem) res" where
  "setupkvm_loop [] pgdir s = Inr (pgdir, s)"
| "setupkvm_loop ((p, e, perm) # ks) pgdir s =
     bindE (mappages pgdir p (e - p) p perm s) (\<lambda>(r, s).
       if r < 0 then Inr (0, s) else setupkvm_loop ks pgdir s)"

definition setupkvm :: "kmem \<Rightarrow> (u32 \<times> kmem) res" where
  "setupkvm s =
     (let (pgdir, s1) = kalloc s in
      if pgdir = 0 then Inr (0, s1)
      else setupkvm_loop (kmap s1) pgdir (s1\<lparr>mem := memset_page pgdir 0 (mem s1)\<rparr>))"

definition inituvm :: "u32 \<Rightarrow> u8 list \<Rightarrow> kmem \<Rightarrow> kmem res" where
  "inituvm pgdir init s =
     (if length init \<ge> 4096 then Inl (Panic ''inituvm: more than a page'')
      else
        let (p, s1) = kalloc s in
        if p = 0 then Inl (Undefined ''inituvm: memset of null'')
        else
          bindE (mappages pgdir 0 PGSIZE p (PTE_W OR PTE_U) (s1\<lparr>mem := memset_page p 0 (mem s1)\<rparr>))
            (\<lambda>(_, s). Inr (s\<lparr>mem := store_bytes p init (mem s)\<rparr>)))"

fun deallocuvm_loop :: "u32 list \<Rightarrow> u32 \<Rightarrow> kmem \<Rightarrow> kmem res" where
  "deallocuvm_loop [] pgdir s = Inr s"
| "deallocuvm_loop (a # as) pgdir s =
     (let pte = fst (walkpgdir pgdir a False s) in
      if pte \<noteq> 0 \<and> mem s pte AND PTE_P \<noteq> 0 then
        let pa = PTE_ADDR (mem s pte) in
        if pa = 0 then Inl (Panic ''kfree'')
        else bindE (kfree pa s) (\<lambda>s. deallocuvm_loop as pgdir (s\<lparr>mem := (mem s)(pte := 0)\<rparr>))
      else deallocuvm_loop as pgdir s)"

definition deallocuvm :: "u32 \<Rightarrow> u32 \<Rightarrow> u32 \<Rightarrow> kmem \<Rightarrow> (u32 \<times> kmem) res" where
  "deallocuvm pgdir oldsz newsz s =
     (if newsz \<ge> oldsz then Inr (oldsz, s)
      else
        bindE (deallocuvm_loop (page_range (PGROUNDUP newsz) oldsz) pgdir s)
          (\<lambda>s. Inr (newsz, s)))"

fun allocuvm_loop :: "u32 list \<Rightarrow> u32 \<Rightarrow> u32 \<Rightarrow> u32 \<Rightarrow> kmem \<Rightarrow> (u32 \<times> kmem) res" where
  "allocuvm_loop [] pgdir oldsz newsz s = Inr (newsz, s)"
| "allocuvm_loop (a # as) pgdir oldsz newsz s =
     (let (p, s1) = kalloc s in
      if p = 0 then bindE (deallocuvm pgdir newsz oldsz s1) (\<lambda>(_, s). Inr (0, s))
      else
        bindE (mappages pgdir a PGSIZE p (PTE_W OR PTE_U) (s1\<lparr>mem := memset_page p 0 (mem s1)\<rparr>))
          (\<lambda>(_, s). allocuvm_loop as pgdir oldsz newsz s))"

definition allocuvm :: "u32 \<Rightarrow> u32 \<Rightarrow> u32 \<Rightarrow> u32 \<Rightarrow> kmem \<Rightarrow> (u32 \<times> kmem) res" where
  "allocuvm shm pgdir oldsz newsz s =
     (if newsz > shm then Inr (0, s)
      else if newsz < oldsz then Inr (oldsz, s)
      else allocuvm_loop (page_range (PGROUNDUP oldsz) newsz) pgdir oldsz newsz s)"

fun freevm_loop :: "nat list \<Rightarrow> u32 \<Rightarrow> kmem \<Rightarrow> kmem res" where
  "freevm_loop [] pgdir s = Inr s"
| "freevm_loop (i # is) pgdir s =
     (let pde = mem s (pgdir + 4 * of_nat i) in
      if pde AND PTE_P \<noteq> 0 then bindE (kfree (PTE_ADDR pde) s) (freevm_loop is pgdir)
      else freevm_loop is pgdir s)"

definition freevm :: "u32 \<Rightarrow> u32 \<Rightarrow> kmem \<Rightarrow> kmem res" where
  "freevm shm pgdir s =
     (if pgdir = 0 then Inl (Panic ''freevm: no pgdir'')
      else
        bindE (deallocuvm pgdir shm 0 s) (\<lambda>(_, s).
        bindE (freevm_loop [0..<NPDENTRIES] pgdir s) (\<lambda>s.
        kfree pgdir s)))"

fun copyuvm_loop :: "u32 list \<Rightarrow> u32 \<Rightarrow> u32 \<Rightarrow> u32 \<Rightarrow> kmem \<Rightarrow> (u32 \<times> kmem) res" where
  "copyuvm_loop [] shm pgdir d s = Inr (d, s)"
| "copyuvm_loop (i # is) shm pgdir d s =
     (let pte = fst (walkpgdir pgdir i False s) in
      if pte = 0 then Inl (Panic ''copyuvm: pte should exist'')
      else if mem s pte AND PTE_P = 0 then Inl (Panic ''copyuvm: page not present'')
      else
        let pa = PTE_ADDR (mem s pte); (p, s1) = kalloc s in
        if p = 0 then bindE (freevm shm d s1) (\<lambda>s. Inr (0, s))
        else
          bindE (mappages d i PGSIZE p (PTE_W OR PTE_U) (s1\<lparr>mem := memmove_page p pa (mem s1)\<rparr>))
            (\<lambda>(r, s).
               if r < 0 then bindE (freevm shm d s) (\<lambda>s. Inr (0, s))
               else copyuvm_loop is shm pgdir d s))"

definition copyuvm :: "u32 \<Rightarrow> u32 \<Rightarrow> u32 \<Rightarrow> kmem \<Rightarrow> (u32 \<times> kmem) res" where
  "copyuvm shm pgdir sz s =
     bindE (setupkvm s) (\<lambda>(d, s).
       if d = 0 then Inr (0, s) else copyuvm_loop (page_range 0 sz) shm pgdir d s)"

definition uva2ka :: "u32 \<Rightarrow> u32 \<Rightarrow> kmem \<Rightarrow> u32 res" where
  "uva2ka pgdir uva s =
     (let pte = fst (walkpgdir pgdir uva False s) in
      if pte = 0 then Inl (Undefined ''uva2ka: null pte'')
      else if mem s pte AND PTE_P = 0 then Inr 0
      else if mem s pte AND PTE_U = 0 then Inr 0
      else Inr (PTE_ADDR (mem s pte)))"

function copyout :: "u32 \<Rightarrow> u32 \<Rightarrow> u8 list \<Rightarrow> kmem \<Rightarrow> (int \<times> kmem) res" where
  "copyout pgdir va buf s =
     (if buf = [] then Inr (0, s)
      else
        let va0 = PGROUNDDOWN va in
        bindE (uva2ka pgdir va0 s) (\<lambda>pa0.
          if pa0 = 0 then Inr (-1, s)
          else
            let n = min (4096 - unat (va - va0)) (length buf) in
            copyout pgdir (va0 + PGSIZE) (drop n buf)
              (s\<lparr>mem := store_bytes (pa0 + (va - va0)) (take n buf) (mem s)\<rparr>)))"
  by pat_completeness auto
termination
proof (relation "measure (\<lambda>(pgdir, va, buf, s). length buf)", goal_cases)
  case 1
  show ?case by simp
next
  case (2 pgdir va buf s va0 pa0 n)
  have "unat (va - va0) < 4096"
    using 2 by (simp add: PGROUNDDOWN_diff unat_and_fff)
  with 2 show ?case by auto
qed

section \<open>Address spaces\<close>

definition pde_of :: "kmem \<Rightarrow> u32 \<Rightarrow> u32 \<Rightarrow> u32" where
  "pde_of s pgdir i = mem s (pgdir + 4 * i)"

definition has_tab :: "kmem \<Rightarrow> u32 \<Rightarrow> u32 \<Rightarrow> bool" where
  "has_tab s pgdir i \<longleftrightarrow> unat i < 1024 \<and> pde_of s pgdir i AND PTE_P \<noteq> 0"

definition tab_of :: "kmem \<Rightarrow> u32 \<Rightarrow> u32 \<Rightarrow> u32" where
  "tab_of s pgdir i = PTE_ADDR (pde_of s pgdir i)"

definition pte_of :: "kmem \<Rightarrow> u32 \<Rightarrow> u32 \<Rightarrow> u32 option" where
  "pte_of s pgdir va =
     (if has_tab s pgdir (PDX va) then
        let pte = mem s (tab_of s pgdir (PDX va) + 4 * PTX va) in
        if pte AND PTE_P \<noteq> 0 then Some pte else None
      else None)"

definition tab_pages :: "kmem \<Rightarrow> u32 \<Rightarrow> u32 set" where
  "tab_pages s pgdir = tab_of s pgdir ` {i. has_tab s pgdir i}"

definition pt_ok :: "kmem \<Rightarrow> u32 \<Rightarrow> u32 list \<Rightarrow> bool" where
  "pt_ok s pgdir ps \<longleftrightarrow>
     kmem_ok s ps \<and> valid_page s pgdir \<and> pgdir \<notin> set ps \<and>
     (\<forall>t\<in>tab_pages s pgdir. valid_page s t \<and> t \<notin> set ps \<and> t \<noteq> pgdir) \<and>
     inj_on (tab_of s pgdir) {i. has_tab s pgdir i}"

definition same_outside :: "u32 set \<Rightarrow> kmem \<Rightarrow> kmem \<Rightarrow> bool" where
  "same_outside A s s' \<longleftrightarrow>
     (\<forall>a. PGROUNDDOWN a \<notin> A \<longrightarrow> mem s' a = mem s a) \<and>
     kernel_end s' = kernel_end s \<and> kernel_data s' = kernel_data s"

lemma page_eq_iff: "PGROUNDDOWN a = PGROUNDDOWN b \<longleftrightarrow> PDX a = PDX b \<and> PTX a = PTX b"
proof -
  have m: "(0x3FF :: u32) = mask 10" "(0xFFF :: u32) = mask 12" by (simp_all add: mask_eq_exp_minus_1)
  have "PGROUNDDOWN a = PGROUNDDOWN b \<longleftrightarrow> (\<forall>n. 12 \<le> n \<and> n < 32 \<longrightarrow> bit a n = bit b n)"
    by (auto simp: PGROUNDDOWN_def bit_eq_iff bit_simps m)
  also have "\<dots> \<longleftrightarrow> PDX a = PDX b \<and> PTX a = PTX b"
  proof
    assume "\<forall>n. 12 \<le> n \<and> n < 32 \<longrightarrow> bit a n = bit b n"
    then show "PDX a = PDX b \<and> PTX a = PTX b"
      by (auto simp: PDX_def PTX_def bit_eq_iff bit_simps m)
  next
    assume *: "PDX a = PDX b \<and> PTX a = PTX b"
    show "\<forall>n. 12 \<le> n \<and> n < 32 \<longrightarrow> bit a n = bit b n"
    proof (intro allI impI)
      fix n :: nat assume n: "12 \<le> n \<and> n < 32"
      show "bit a n = bit b n"
      proof (cases "n < 22")
        case True
        from * have "bit (PTX a) (n - 12) = bit (PTX b) (n - 12)" by simp
        moreover have "n - 12 < 10" using True n by arith
        ultimately show ?thesis using n by (simp add: PTX_def bit_simps m)
      next
        case False
        from * have "bit (PDX a) (n - 22) = bit (PDX b) (n - 22)" by simp
        moreover have "n - 22 < 10" using n by arith
        ultimately show ?thesis using n False by (simp add: PDX_def bit_simps m)
      qed
    qed
  qed
  finally show ?thesis .
qed

lemma present_or [simp]: "(x OR PTE_P) AND PTE_P = PTE_P"
  by (rule bit_word_eqI) (auto simp: bit_simps)

lemma tab_pagesI: "has_tab s pgdir i \<Longrightarrow> tab_of s pgdir i \<in> tab_pages s pgdir"
  by (auto simp: tab_pages_def)

lemma pt_okD:
  assumes "pt_ok s pgdir ps"
  shows "kmem_ok s ps" "valid_page s pgdir" "page_aligned pgdir" "pgdir \<notin> set ps"
    "has_tab s pgdir i \<Longrightarrow> valid_page s (tab_of s pgdir i)"
    "has_tab s pgdir i \<Longrightarrow> page_aligned (tab_of s pgdir i)"
    "has_tab s pgdir i \<Longrightarrow> tab_of s pgdir i \<notin> set ps"
    "has_tab s pgdir i \<Longrightarrow> tab_of s pgdir i \<noteq> pgdir"
    "has_tab s pgdir i \<Longrightarrow> has_tab s pgdir j \<Longrightarrow> tab_of s pgdir i = tab_of s pgdir j \<Longrightarrow> i = j"
proof -
  show "kmem_ok s ps" "valid_page s pgdir" "page_aligned pgdir" "pgdir \<notin> set ps"
    using assms by (auto simp: pt_ok_def)
  show "valid_page s (tab_of s pgdir i)" "page_aligned (tab_of s pgdir i)"
    "tab_of s pgdir i \<notin> set ps" "tab_of s pgdir i \<noteq> pgdir" if "has_tab s pgdir i"
    using assms tab_pagesI [OF that] by (auto simp: pt_ok_def)
  show "i = j" if "has_tab s pgdir i" "has_tab s pgdir j" "tab_of s pgdir i = tab_of s pgdir j"
    using assms that by (auto simp: pt_ok_def dest: inj_onD)
qed

lemma pte_cell_nonzero:
  assumes "page_aligned t" "t \<noteq> 0" "unat i < 1024"
  shows "t + 4 * i \<noteq> 0"
proof
  assume "t + 4 * i = 0"
  moreover have "PGROUNDDOWN (t + 4 * i) = t" using assms by (simp add: page_cell)
  ultimately show False using assms(2) by simp
qed

lemma walkpgdir_lookup:
  "walkpgdir pgdir va False s =
     (if has_tab s pgdir (PDX va) then tab_of s pgdir (PDX va) + 4 * PTX va else 0, s)"
  by (simp add: walkpgdir_def has_tab_def tab_of_def pde_of_def PDX_less Let_def)


lemma PTE_ADDR_flags:
  assumes "page_aligned pa" "PTE_ADDR f = 0"
  shows "PTE_ADDR (pa OR f) = pa"
proof -
  have "PTE_ADDR (pa OR f) = PTE_ADDR pa OR PTE_ADDR f"
    by (rule bit_word_eqI) (auto simp: PTE_ADDR_def bit_simps)
  with assms show ?thesis by (simp add: PTE_ADDR_eq)
qed

lemma same_outsideI:
  assumes "\<And>a. PGROUNDDOWN a \<notin> A \<Longrightarrow> mem s' a = mem s a"
    and "kernel_end s' = kernel_end s" "kernel_data s' = kernel_data s"
  shows "same_outside A s s'"
  using assms by (simp add: same_outside_def)

lemma same_outside_refl [simp]: "same_outside A s s"
  by (simp add: same_outside_def)

lemma same_outside_trans:
  "same_outside A s s' \<Longrightarrow> same_outside B s' s'' \<Longrightarrow> A \<union> B \<subseteq> C \<Longrightarrow> same_outside C s s''"
  unfolding same_outside_def by (metis UnCI subsetD)

text \<open>A page table added to a directory: what \<open>walkpgdir\<close> does when it creates one.\<close>

lemma add_table:
  assumes ok: "pt_ok s pgdir (q # qs)" and i: "unat i < 1024" and new: "\<not> has_tab s pgdir i"
    and s1: "s1 = snd (kalloc s)"
    and s': "s' = s1\<lparr>mem := (memset_page q 0 (mem s1))(pgdir + 4 * i := q OR PTE_P OR PTE_W OR PTE_U)\<rparr>"
  shows "pt_ok s' pgdir qs" "has_tab s' pgdir i" "tab_of s' pgdir i = q"
    "pte_of s' pgdir = pte_of s pgdir" "tab_pages s' pgdir = insert q (tab_pages s pgdir)"
    "same_outside {pgdir, q} s s'"
proof -
  note D = pt_okD [OF ok]
  have kq: "fst (kalloc s) = q" "kmem_ok s1 qs" using kalloc_pop D(1) by (auto simp: s1)
  have m1: "mem s1 = mem s" "kernel_end s1 = kernel_end s" "kernel_data s1 = kernel_data s"
    by (simp_all add: s1 kalloc_mem kalloc_consts)
  have q: "page_aligned q" "q \<noteq> pgdir" "q \<notin> set qs" "valid_page s q" "q \<noteq> 0"
    using D(1,4) by (auto simp: kmem_ok_def valid_page_def)
  have out: "mem s' a = mem s a" if "PGROUNDDOWN a \<noteq> pgdir" "PGROUNDDOWN a \<noteq> q" for a
    using that page_cell [OF D(3) i] by (auto simp: s' memset_page_def m1)
  define e where "e = (q OR PTE_P OR PTE_W OR PTE_U)"
  have pde: "pde_of s' pgdir j = (if j = i then e else pde_of s pgdir j)"
    if "unat j < 1024" for j
    using that i D(3) q(2) page_cell [OF D(3) that]
    by (auto simp: pde_of_def s' memset_page_def m1 times_4_inject e_def)
  have "PTE_ADDR (PTE_P OR PTE_W OR PTE_U) = 0" by (simp add: PTE_ADDR_def)
  then have addr: "PTE_ADDR e = q"
    unfolding e_def using q(1) by (rule PTE_ADDR_flags [rotated])
  have "e AND PTE_P = PTE_P"
    unfolding e_def by (rule bit_word_eqI) (auto simp: bit_simps)
  then have pres: "e AND PTE_P \<noteq> 0" by simp
  have has: "has_tab s' pgdir j \<longleftrightarrow> j = i \<or> has_tab s pgdir j" for j
    using i pde pres by (auto simp: has_tab_def split: if_splits)
  have tab: "tab_of s' pgdir j = (if j = i then q else tab_of s pgdir j)" if "unat j < 1024" for j
    using pde [OF that] addr by (simp add: tab_of_def)
  have lt: "unat j < 1024" if "has_tab s pgdir j" for j using that by (simp add: has_tab_def)
  show "has_tab s' pgdir i" "tab_of s' pgdir i = q" using has tab i by auto
  have "{j. has_tab s' pgdir j} = insert i {j. has_tab s pgdir j}" using has by auto
  moreover have "tab_of s' pgdir ` {j. has_tab s pgdir j} = tab_of s pgdir ` {j. has_tab s pgdir j}"
    by (rule image_cong) (use new tab lt in auto)
  ultimately show tp: "tab_pages s' pgdir = insert q (tab_pages s pgdir)"
    by (simp add: tab_pages_def tab i)
  show "same_outside {pgdir, q} s s'"
    by (rule same_outsideI) (simp_all add: out, simp_all add: s' m1)
  have vp: "valid_page s' = valid_page s" by (simp add: fun_eq_iff valid_page_def s' m1)
  have kok: "kmem_ok s' qs"
  proof (subst kmem_ok_cong [of s' s1])
    fix p assume p: "p \<in> set qs"
    then have "valid_page s p" "p \<noteq> pgdir" "p \<noteq> q" using D(1,4) q(3) by (auto simp: kmem_ok_def)
    then show "mem s' p = mem s1 p" using out [of p] by (auto simp: m1 valid_page_def)
  qed (use kq in \<open>simp_all add: s'\<close>)
  have "inj_on (tab_of s' pgdir) {j. has_tab s' pgdir j}"
  proof (rule inj_onI, clarsimp simp: has)
    fix x y assume "x = i \<or> has_tab s pgdir x" "y = i \<or> has_tab s pgdir y"
      "tab_of s' pgdir x = tab_of s' pgdir y"
    then show "x = y" using D(7,9) tab i lt by (metis list.set_intros(1))
  qed
  moreover have "t \<notin> set qs" "t \<noteq> q" if "t \<in> tab_pages s pgdir" for t
    using ok that by (auto simp: pt_ok_def)
  ultimately show "pt_ok s' pgdir qs"
    using ok q kok by (auto simp: pt_ok_def tp vp)
  show "pte_of s' pgdir = pte_of s pgdir"
  proof
    fix va
    consider "PDX va = i" | "PDX va \<noteq> i" "has_tab s pgdir (PDX va)" | "PDX va \<noteq> i" "\<not> has_tab s pgdir (PDX va)"
      by blast
    then show "pte_of s' pgdir va = pte_of s pgdir va"
    proof cases
      case 1
      have pg: "PGROUNDDOWN (q + 4 * PTX va) = q" using q(1) by (simp add: page_cell PTX_less)
      then have "q + 4 * PTX va \<noteq> pgdir + 4 * i" using page_cell [OF D(3) i] q(2) by metis
      with pg have "mem s' (q + 4 * PTX va) = 0" by (simp add: s' memset_page_def)
      with 1 new show ?thesis by (simp add: pte_of_def has tab i)
    next
      case 2
      then have "page_aligned (tab_of s pgdir (PDX va))" "tab_of s pgdir (PDX va) \<noteq> pgdir"
        "tab_of s pgdir (PDX va) \<noteq> q" using D(6-8) by auto
      then have "mem s' (tab_of s pgdir (PDX va) + 4 * PTX va) = mem s (tab_of s pgdir (PDX va) + 4 * PTX va)"
        by (intro out) (simp_all add: page_cell PTX_less)
      with 2 show ?thesis by (simp add: pte_of_def has tab PDX_less)
    next
      case 3
      then show ?thesis by (simp add: pte_of_def has)
    qed
  qed
qed


text \<open>A page-table entry written: what mapping and unmapping a page do.\<close>

definition set_pte :: "u32 \<Rightarrow> u32 \<Rightarrow> u32 \<Rightarrow> kmem \<Rightarrow> kmem" where
  "set_pte pgdir va w s = s\<lparr>mem := (mem s)(tab_of s pgdir (PDX va) + 4 * PTX va := w)\<rparr>"

lemma set_pte_spec:
  assumes ok: "pt_ok s pgdir ps" and has: "has_tab s pgdir (PDX va)"
    and s': "s' = set_pte pgdir va w s"
  shows "pt_ok s' pgdir ps" "tab_pages s' pgdir = tab_pages s pgdir"
    "same_outside {tab_of s pgdir (PDX va)} s s'"
    "pte_of s' pgdir va' =
       (if PGROUNDDOWN va' = PGROUNDDOWN va then if w AND PTE_P \<noteq> 0 then Some w else None
        else pte_of s pgdir va')"
    "has_tab s' pgdir = has_tab s pgdir" "tab_of s' pgdir i = tab_of s pgdir i \<or> \<not> has_tab s pgdir i"
proof -
  note D = pt_okD [OF ok]
  let ?t = "tab_of s pgdir (PDX va)"
  have t: "page_aligned ?t" "?t \<noteq> pgdir" "?t \<notin> set ps" using D(6-8) has by auto
  have cell: "PGROUNDDOWN (?t + 4 * PTX va) = ?t" using t(1) by (simp add: page_cell PTX_less)
  have out: "mem s' a = mem s a" if "PGROUNDDOWN a \<noteq> ?t" for a
    using that cell by (auto simp: s' set_pte_def)
  have same: "kernel_end s' = kernel_end s" "kernel_data s' = kernel_data s" "freelist s' = freelist s"
    by (simp_all add: s' set_pte_def)
  show "same_outside {?t} s s'" by (rule same_outsideI) (simp_all add: out same)
  have pde: "pde_of s' pgdir j = pde_of s pgdir j" if "unat j < 1024" for j
    using out [of "pgdir + 4 * j"] t(2) page_cell [OF D(3) that] by (simp add: pde_of_def)
  show ht: "has_tab s' pgdir = has_tab s pgdir" using pde by (auto simp: has_tab_def fun_eq_iff)
  have tab: "tab_of s' pgdir j = tab_of s pgdir j" if "has_tab s pgdir j" for j
    using pde that by (simp add: tab_of_def has_tab_def)
  then show "tab_of s' pgdir i = tab_of s pgdir i \<or> \<not> has_tab s pgdir i" by blast
  show tp: "tab_pages s' pgdir = tab_pages s pgdir"
    unfolding tab_pages_def ht by (rule image_cong) (simp_all add: tab)
  have "kmem_ok s' ps"
  proof (subst kmem_ok_cong [of s' s])
    fix p assume "p \<in> set ps"
    then have "PGROUNDDOWN p = p" "p \<noteq> ?t" using kmem_ok_page [OF D(1)] t(3) by auto
    then show "mem s' p = mem s p" by (intro out) simp
  qed (use same D(1) in simp_all)
  moreover have "inj_on (tab_of s' pgdir) {j. has_tab s' pgdir j}"
    using ok unfolding pt_ok_def ht by (auto simp: inj_on_def tab)
  moreover have "valid_page s' = valid_page s" by (simp add: fun_eq_iff valid_page_def same)
  ultimately show "pt_ok s' pgdir ps" using ok by (simp add: pt_ok_def tp)
  show "pte_of s' pgdir va' =
       (if PGROUNDDOWN va' = PGROUNDDOWN va then if w AND PTE_P \<noteq> 0 then Some w else None
        else pte_of s pgdir va')"
  proof (cases "has_tab s pgdir (PDX va')")
    case False
    with has have "PDX va' \<noteq> PDX va" by auto
    with False show ?thesis by (auto simp: pte_of_def ht page_eq_iff)
  next
    case True
    let ?u = "tab_of s pgdir (PDX va')"
    have u: "PGROUNDDOWN (?u + 4 * PTX va') = ?u" using D(6) True by (simp add: page_cell PTX_less)
    show ?thesis
    proof (cases "PDX va' = PDX va")
      case True
      then have "?u + 4 * PTX va' = ?t + 4 * PTX va \<longleftrightarrow> PTX va' = PTX va"
        by (simp add: times_4_inject PTX_less)
      then show ?thesis using True has tab ht
        by (auto simp: pte_of_def page_eq_iff s' set_pte_def)
    next
      case False
      then have "?u \<noteq> ?t" using D(9) True has by blast
      then have "mem s' (?u + 4 * PTX va') = mem s (?u + 4 * PTX va')" using u out by metis
      then show ?thesis using False True tab ht by (auto simp: pte_of_def page_eq_iff)
    qed
  qed
qed


text \<open>
  One directory evolving: page tables are taken from the front of the free list, and only
  the directory and its tables change.
\<close>

definition pt_step :: "u32 \<Rightarrow> kmem \<Rightarrow> u32 list \<Rightarrow> kmem \<Rightarrow> u32 list \<Rightarrow> bool" where
  "pt_step pgdir s ps s' ps' \<longleftrightarrow>
     pt_ok s' pgdir ps' \<and>
     (\<exists>ds. ps = ds @ ps' \<and> tab_pages s' pgdir = tab_pages s pgdir \<union> set ds) \<and>
     same_outside (insert pgdir (tab_pages s' pgdir)) s s'"

definition as_upd :: "u32 \<Rightarrow> u32 \<Rightarrow> (u32 \<Rightarrow> u32 option) \<Rightarrow> u32 \<Rightarrow> u32 option" where
  "as_upd a w f = (\<lambda>va. if PGROUNDDOWN va = PGROUNDDOWN a then Some w else f va)"

lemma pt_step_refl: "pt_ok s pgdir ps \<Longrightarrow> pt_step pgdir s ps s ps"
  by (auto simp: pt_step_def)

lemma pt_step_trans:
  assumes "pt_step pgdir s ps s' ps'" "pt_step pgdir s' ps' s'' ps''"
  shows "pt_step pgdir s ps s'' ps''"
proof -
  obtain ds where ds: "ps = ds @ ps'" "tab_pages s' pgdir = tab_pages s pgdir \<union> set ds"
    using assms(1) by (auto simp: pt_step_def)
  obtain es where es: "ps' = es @ ps''" "tab_pages s'' pgdir = tab_pages s' pgdir \<union> set es"
    using assms(2) by (auto simp: pt_step_def)
  have "ps = (ds @ es) @ ps''" "tab_pages s'' pgdir = tab_pages s pgdir \<union> set (ds @ es)"
    using ds es by auto
  moreover have "same_outside (insert pgdir (tab_pages s'' pgdir)) s s''"
    using assms es by (auto simp: pt_step_def intro!: same_outside_trans [of _ s s' _ s''])
  ultimately show ?thesis using assms(2) unfolding pt_step_def by blast
qed

lemma walkpgdir_create:
  assumes ok: "pt_ok s pgdir ps"
  shows "(\<not> has_tab s pgdir (PDX va) \<and> ps = [] \<and> walkpgdir pgdir va True s = (0, s)) \<or>
    (\<exists>s' ps'. walkpgdir pgdir va True s = (tab_of s' pgdir (PDX va) + 4 * PTX va, s') \<and>
       has_tab s' pgdir (PDX va) \<and> pt_step pgdir s ps s' ps' \<and> pte_of s' pgdir = pte_of s pgdir)"
proof (cases "has_tab s pgdir (PDX va)")
  case True
  then have "walkpgdir pgdir va True s = (tab_of s pgdir (PDX va) + 4 * PTX va, s)"
    by (simp add: walkpgdir_def has_tab_def tab_of_def pde_of_def Let_def)
  with True pt_step_refl [OF ok] show ?thesis by blast
next
  case False
  then have np: "mem s (pgdir + 4 * PDX va) AND PTE_P = 0"
    by (simp add: has_tab_def pde_of_def PDX_less)
  show ?thesis
  proof (cases ps)
    case Nil
    then have "kalloc s = (0, s)" using pt_okD(1) [OF ok] ka.alloc_Nil by simp
    with Nil False np show ?thesis by (simp add: walkpgdir_def Let_def)
  next
    case (Cons q qs)
    define s' where "s' = (snd (kalloc s))\<lparr>mem := (memset_page q 0 (mem (snd (kalloc s))))
      (pgdir + 4 * PDX va := q OR PTE_P OR PTE_W OR PTE_U)\<rparr>"
    note A = add_table [OF ok [unfolded Cons] PDX_less False refl s'_def]
    have q: "fst (kalloc s) = q" "q \<noteq> 0"
      using pt_okD(1) [OF ok] Cons kalloc_pop by (auto simp: kmem_ok_def valid_page_def)
    have "walkpgdir pgdir va True s = (q + 4 * PTX va, s')"
      using np q by (simp add: walkpgdir_def Let_def split_def s'_def)
    moreover have "pt_step pgdir s ps s' qs"
      unfolding pt_step_def using A(1,5,6) Cons
      by (auto intro!: exI [of _ "[q]"] intro: same_outside_trans [OF A(6) same_outside_refl])
    ultimately show ?thesis using A by auto
  qed
qed

lemma map_page_cases:
  assumes ok: "pt_ok s pgdir ps"
  shows "(pte_of s pgdir a \<noteq> None \<and> map_page pgdir a pa perm s = Inl (Panic ''remap'')) \<or>
    (pte_of s pgdir a = None \<and> ps = [] \<and> map_page pgdir a pa perm s = Inr (-1, s)) \<or>
    (pte_of s pgdir a = None \<and>
      (\<exists>s' ps'. map_page pgdir a pa perm s = Inr (0, s') \<and> pt_step pgdir s ps s' ps' \<and>
         pte_of s' pgdir = as_upd a (pa OR perm OR PTE_P) (pte_of s pgdir)))"
  using walkpgdir_create [OF ok, of a]
proof (elim disjE exE conjE)
  assume "\<not> has_tab s pgdir (PDX a)" "ps = []" "walkpgdir pgdir a True s = (0, s)"
  then show ?thesis by (simp add: map_page_def pte_of_def)
next
  fix s1 ps1
  let ?pte = "tab_of s1 pgdir (PDX a) + 4 * PTX a"
  assume w: "walkpgdir pgdir a True s = (?pte, s1)"
    and has: "has_tab s1 pgdir (PDX a)" and st: "pt_step pgdir s ps s1 ps1"
    and eq: "pte_of s1 pgdir = pte_of s pgdir"
  have ok1: "pt_ok s1 pgdir ps1" using st by (simp add: pt_step_def)
  have nz: "?pte \<noteq> 0"
    using pt_okD(5,6) [OF ok1 has] by (intro pte_cell_nonzero PTX_less) (auto simp: valid_page_def)
  show ?thesis
  proof (cases "mem s1 ?pte AND PTE_P = 0")
    case False
    then have "pte_of s pgdir a \<noteq> None"
      unfolding eq [symmetric] using has by (simp add: pte_of_def Let_def)
    with False w nz show ?thesis by (simp add: map_page_def)
  next
    case True
    then have none: "pte_of s pgdir a = None"
      unfolding eq [symmetric] by (simp add: pte_of_def Let_def)
    define s2 where "s2 = set_pte pgdir a (pa OR perm OR PTE_P) s1"
    note S = set_pte_spec [OF ok1 has s2_def]
    have m: "map_page pgdir a pa perm s = Inr (0, s2)"
      using w nz True by (simp add: map_page_def s2_def set_pte_def)
    have "pt_step pgdir s1 ps1 s2 ps1"
      unfolding pt_step_def using S(1-3) tab_pagesI [OF has]
      by (auto intro: same_outside_trans [OF S(3) same_outside_refl])
    then have st2: "pt_step pgdir s ps s2 ps1" using pt_step_trans st by blast
    have "(pa OR perm OR PTE_P) AND PTE_P \<noteq> 0"
      using present_or [of "pa OR perm"] by (simp add: or.assoc)
    then have "pte_of s2 pgdir = as_upd a (pa OR perm OR PTE_P) (pte_of s pgdir)"
      using S(4) by (auto simp: as_upd_def eq fun_eq_iff)
    with m st2 none show ?thesis by blast
  qed
qed

section \<open>Mapping a range\<close>

definition as_range ::
  "nat \<Rightarrow> u32 \<Rightarrow> u32 \<Rightarrow> u32 \<Rightarrow> (u32 \<Rightarrow> u32 option) \<Rightarrow> u32 \<Rightarrow> u32 option" where
  "as_range n a pa perm f =
     (\<lambda>va. let k = unat (PGROUNDDOWN va - a) div 4096 in
        if k \<le> n then Some ((pa + PGSIZE * of_nat k) OR perm OR PTE_P) else f va)"

lemma as_range_0:
  assumes "page_aligned a"
  shows "as_range 0 a pa perm f = as_upd a (pa OR perm OR PTE_P) f"
proof
  fix va
  obtain k where k: "unat (PGROUNDDOWN va - a) = 4096 * k" "PGROUNDDOWN va - a = 4096 * of_nat k"
    using page_aligned_unatE [OF page_aligned_diff [OF page_aligned_PGROUNDDOWN assms]] by metis
  then have "k = 0 \<longleftrightarrow> PGROUNDDOWN va = a"
    by (metis eq_iff_diff_eq_0 mult_eq_0_iff unsigned_0 zero_neq_numeral unsigned_eq_0_iff)
  with k(1) assms show "as_range 0 a pa perm f va = as_upd a (pa OR perm OR PTE_P) f va"
    by (auto simp: as_range_def as_upd_def)
qed

lemma as_range_Suc:
  assumes "page_aligned a" "Suc n < 1048576"
  shows "as_range (Suc n) a pa perm f =
    as_range n (a + PGSIZE) (pa + PGSIZE) perm (as_upd a (pa OR perm OR PTE_P) f)"
proof
  fix va
  let ?d = "PGROUNDDOWN va - a"
  obtain k where k: "unat ?d = 4096 * k" "k < 1048576" "?d = 4096 * of_nat k"
    using page_aligned_unatE [OF page_aligned_diff [OF page_aligned_PGROUNDDOWN assms(1)]] by metis
  have d': "PGROUNDDOWN va - (a + PGSIZE) = ?d - 4096" by simp
  show "as_range (Suc n) a pa perm f va =
    as_range n (a + PGSIZE) (pa + PGSIZE) perm (as_upd a (pa OR perm OR PTE_P) f) va"
  proof (cases k)
    case 0
    then have "?d = 0" using k by simp
    then have pg: "PGROUNDDOWN va = a" by simp
    have "unat (?d - 4096) div 4096 = 1048575" unfolding \<open>?d = 0\<close> by simp
    with assms pg show ?thesis by (simp add: as_range_def as_upd_def)
  next
    case (Suc j)
    then have "PGROUNDDOWN va \<noteq> a" using k(1) by auto
    moreover have "unat (?d - 4096) = 4096 * j"
      using k Suc by (subst unat_sub_small) simp_all
    ultimately show ?thesis
      using Suc k(1) assms(1) unfolding as_range_def d' by (simp add: as_upd_def algebra_simps)
  qed
qed

lemma mappages_loop_eq:
  assumes "page_aligned a" "page_aligned z"
  shows "mappages_loop (unat (z - a) div 4096) pgdir a pa perm s =
    bindE (map_page pgdir a pa perm s) (\<lambda>(r, s).
      if r \<noteq> 0 then Inr (r, s)
      else if a = z then Inr (0, s)
      else mappages_loop (unat (z - (a + PGSIZE)) div 4096) pgdir (a + PGSIZE) (pa + PGSIZE) perm s)"
proof -
  obtain k where k: "unat (z - a) = 4096 * k" "z - a = 4096 * of_nat k"
    using page_aligned_unatE [OF page_aligned_diff [OF assms(2,1)]] by metis
  show ?thesis
  proof (cases k)
    case 0
    with k have "z = a" by simp
    then show ?thesis by (cases "map_page pgdir a pa perm s") auto
  next
    case (Suc j)
    then have ne: "a \<noteq> z" using k(1) by auto
    have "z - (a + PGSIZE) = (z - a) - 4096" by simp
    moreover have "unat ((z - a) - 4096) = 4096 * j"
      using k Suc by (subst unat_sub_small) simp_all
    ultimately have "unat (z - (a + PGSIZE)) = 4096 * j" by (simp only:)
    then have dj: "unat (z - (a + PGSIZE)) div 4096 = j" by simp
    have d: "unat (z - a) div 4096 = Suc j" using k(1) Suc by simp
    show ?thesis unfolding d dj using ne by (simp cong: if_cong)
  qed
qed

lemma mappages_page:
  assumes "page_aligned a"
  shows "mappages pgdir a PGSIZE pa perm s = map_page pgdir a pa perm s"
proof -
  have "PGROUNDDOWN (a + PGSIZE - 1) = PGROUNDDOWN (a + 4095)" by (simp add: algebra_simps)
  also have "\<dots> = a" using assms by (intro PGROUNDDOWN_offset) simp_all
  finally show ?thesis using assms by (simp add: mappages_def)
qed

lemma mappages_loop_cases:
  assumes "pt_ok s pgdir ps" "page_aligned a" "n < 1048576"
    and "\<And>k. k \<le> n \<Longrightarrow> pte_of s pgdir (a + PGSIZE * of_nat k) = None"
  shows "\<exists>r s' ps'. mappages_loop n pgdir a pa perm s = Inr (r, s') \<and> pt_step pgdir s ps s' ps' \<and>
    (r = 0 \<and> pte_of s' pgdir = as_range n a pa perm (pte_of s pgdir) \<or> r = -1 \<and> ps' = [])"
  using assms
proof (induction n arbitrary: s ps a pa)
  case 0
  have "pte_of s pgdir a = None" using 0(4) [of 0] by simp
  then show ?case
    using map_page_cases [OF 0(1), of a pa perm] 0(2) pt_step_refl [OF 0(1)]
    by (auto simp: as_range_0)
next
  case (Suc n)
  have "pte_of s pgdir a = None" using Suc.prems(4) [of 0] by simp
  with map_page_cases [OF Suc.prems(1), of a pa perm]
  consider "ps = []" "map_page pgdir a pa perm s = Inr (-1, s)"
    | s1 ps1 where "map_page pgdir a pa perm s = Inr (0, s1)" "pt_step pgdir s ps s1 ps1"
        "pte_of s1 pgdir = as_upd a (pa OR perm OR PTE_P) (pte_of s pgdir)"
    by auto
  then show ?case
  proof cases
    case 1
    then show ?thesis using pt_step_refl [OF Suc.prems(1)] by auto
  next
    case 2
    have al: "page_aligned (a + PGSIZE)" using Suc.prems(2) by (rule page_aligned_add)
    have "pte_of s1 pgdir (a + PGSIZE + PGSIZE * of_nat k) = None" if "k \<le> n" for k
    proof -
      have eq: "a + PGSIZE + PGSIZE * of_nat k = a + PGSIZE * of_nat (Suc k)"
        by (simp add: algebra_simps)
      have "pte_of s pgdir (a + PGSIZE * of_nat (Suc k)) = None" using Suc.prems(4) that by blast
      moreover have "PGROUNDDOWN (a + PGSIZE * of_nat (Suc k)) \<noteq> PGROUNDDOWN a"
      proof -
        have "unat (PGSIZE * of_nat (Suc k)) \<noteq> 0"
          using that Suc.prems(3) by (subst unat_pages) auto
        then have "PGSIZE * of_nat (Suc k) \<noteq> 0" by (metis unsigned_0)
        then show ?thesis
          using page_aligned_pages [OF Suc.prems(2), of "Suc k"] Suc.prems(2) by simp
      qed
      ultimately show ?thesis unfolding eq 2(3) by (simp add: as_upd_def)
    qed
    then obtain r s' ps' where r: "mappages_loop n pgdir (a + PGSIZE) (pa + PGSIZE) perm s1 = Inr (r, s')"
      "pt_step pgdir s1 ps1 s' ps'"
      "r = 0 \<and> pte_of s' pgdir = as_range n (a + PGSIZE) (pa + PGSIZE) perm (pte_of s1 pgdir) \<or> r = -1 \<and> ps' = []"
      using Suc.IH [of s1 ps1 "a + PGSIZE" "pa + PGSIZE"] 2(2) al Suc.prems(3)
      by (auto simp: pt_step_def)
    moreover have "mappages_loop (Suc n) pgdir a pa perm s = Inr (r, s')" using 2(1) r(1) by simp
    ultimately show ?thesis
      using pt_step_trans [OF 2(2) r(2)] Suc.prems(2,3) by (auto simp: as_range_Suc 2(3))
  qed
qed

end
