(* ===== verification/Vm_Spaces.thy ===== *)
theory Vm_Spaces
  imports Vm
begin

unbundle bit_operations_syntax

text \<open>
  What the operations of \<open>Vm\<close> do to address spaces. The abstract address space of a
  directory is \<open>pte_of s pgdir\<close>, a map from virtual addresses to page-table entries;
  \<open>user_ok\<close> is the invariant of the pages mapped below a bound. Growing, shrinking and
  copying are functional updates of that map, and each operation says which frames it takes
  from and gives to the free list and that it writes nowhere else.
\<close>

section \<open>Frame rule\<close>

lemma pt_frame:
  assumes ok: "pt_ok s pgdir ps" and out: "same_outside A s s'"
    and "pgdir \<notin> A" "tab_pages s pgdir \<inter> A = {}"
  shows "has_tab s' pgdir = has_tab s pgdir" "tab_pages s' pgdir = tab_pages s pgdir"
    "pte_of s' pgdir = pte_of s pgdir"
    "kmem_ok s' ps' \<Longrightarrow> set ps' \<inter> insert pgdir (tab_pages s pgdir) = {} \<Longrightarrow> pt_ok s' pgdir ps'"
    "has_tab s pgdir i \<Longrightarrow> tab_of s' pgdir i = tab_of s pgdir i"
proof -
  note D = pt_okD [OF ok]
  have eq: "mem s' a = mem s a" if "PGROUNDDOWN a \<notin> A" for a
    using out that by (simp add: same_outside_def)
  have pde: "pde_of s' pgdir j = pde_of s pgdir j" if "unat j < 1024" for j
    using eq [of "pgdir + 4 * j"] page_cell [OF D(3) that] assms(3) by (simp add: pde_of_def)
  show ht: "has_tab s' pgdir = has_tab s pgdir" using pde by (auto simp: has_tab_def fun_eq_iff)
  have tab: "tab_of s' pgdir j = tab_of s pgdir j" if "has_tab s pgdir j" for j
    using pde that by (simp add: tab_of_def has_tab_def)
  then show "has_tab s pgdir i \<Longrightarrow> tab_of s' pgdir i = tab_of s pgdir i" .
  show tp: "tab_pages s' pgdir = tab_pages s pgdir"
    unfolding tab_pages_def ht by (rule image_cong) (simp_all add: tab)
  have cell: "mem s' (tab_of s pgdir (PDX va) + 4 * PTX va) = mem s (tab_of s pgdir (PDX va) + 4 * PTX va)"
    if "has_tab s pgdir (PDX va)" for va
    by (rule eq) (use page_cell [OF D(6) [OF that] PTX_less] tab_pagesI [OF that] assms(4) in auto)
  show "pte_of s' pgdir = pte_of s pgdir"
    using cell tab by (auto simp: fun_eq_iff pte_of_def ht Let_def)
  show "pt_ok s' pgdir ps'" if "kmem_ok s' ps'" "set ps' \<inter> insert pgdir (tab_pages s pgdir) = {}"
  proof -
    have "valid_page s' = valid_page s"
      using out by (simp add: fun_eq_iff valid_page_def same_outside_def)
    moreover have "inj_on (tab_of s' pgdir) {j. has_tab s' pgdir j}"
      using ok unfolding pt_ok_def ht by (auto simp: inj_on_def tab)
    ultimately show ?thesis using ok that unfolding pt_ok_def tp by auto
  qed
qed

section \<open>User pages\<close>

text \<open>
  The pages mapped below a bound \<open>U\<close>: they are valid, not free, not part of the page
  tables, and no two of them share a frame.
\<close>

definition user_ok :: "kmem \<Rightarrow> u32 \<Rightarrow> u32 list \<Rightarrow> u32 \<Rightarrow> bool" where
  "user_ok s pgdir ps U \<longleftrightarrow>
     pt_ok s pgdir ps \<and>
     (\<forall>va w. va < U \<and> pte_of s pgdir va = Some w \<longrightarrow>
        valid_page s (PTE_ADDR w) \<and> PTE_ADDR w \<notin> set ps \<and> PTE_ADDR w \<noteq> pgdir \<and>
        PTE_ADDR w \<notin> tab_pages s pgdir) \<and>
     (\<forall>va va' w w'. va < U \<and> va' < U \<and> pte_of s pgdir va = Some w \<and> pte_of s pgdir va' = Some w' \<and>
        PTE_ADDR w = PTE_ADDR w' \<longrightarrow> PGROUNDDOWN va = PGROUNDDOWN va')"

lemma user_okD:
  assumes "user_ok s pgdir ps U"
  shows "pt_ok s pgdir ps"
    "va < U \<Longrightarrow> pte_of s pgdir va = Some w \<Longrightarrow> valid_page s (PTE_ADDR w)"
    "va < U \<Longrightarrow> pte_of s pgdir va = Some w \<Longrightarrow> PTE_ADDR w \<notin> set ps"
    "va < U \<Longrightarrow> pte_of s pgdir va = Some w \<Longrightarrow> PTE_ADDR w \<noteq> pgdir"
    "va < U \<Longrightarrow> pte_of s pgdir va = Some w \<Longrightarrow> PTE_ADDR w \<notin> tab_pages s pgdir"
    "va < U \<Longrightarrow> va' < U \<Longrightarrow> pte_of s pgdir va = Some w \<Longrightarrow> pte_of s pgdir va' = Some w' \<Longrightarrow>
       PTE_ADDR w = PTE_ADDR w' \<Longrightarrow> PGROUNDDOWN va = PGROUNDDOWN va'"
  using assms unfolding user_ok_def by blast+

lemma pte_of_Some:
  assumes "pte_of s pgdir va = Some w"
  shows "has_tab s pgdir (PDX va)" "mem s (tab_of s pgdir (PDX va) + 4 * PTX va) = w" "w AND PTE_P \<noteq> 0"
  using assms by (auto simp: pte_of_def Let_def split: if_splits)

lemma pte_of_page: "PGROUNDDOWN va = PGROUNDDOWN va' \<Longrightarrow> pte_of s pgdir va = pte_of s pgdir va'"
  by (simp add: page_eq_iff pte_of_def)

text \<open>The step of \<open>deallocuvm\<close> at a mapped page.\<close>

lemma unmap_page:
  assumes ok: "user_ok s pgdir ps U" and a: "a < U" "pte_of s pgdir a = Some w"
  shows "\<exists>s1. kfree (PTE_ADDR w) s = Inr s1 \<and>
     (let s' = s1\<lparr>mem := (mem s1)(tab_of s pgdir (PDX a) + 4 * PTX a := 0)\<rparr> in
      user_ok s' pgdir (PTE_ADDR w # ps) U \<and> tab_pages s' pgdir = tab_pages s pgdir \<and>
      pte_of s' pgdir = (\<lambda>va. if PGROUNDDOWN va = PGROUNDDOWN a then None else pte_of s pgdir va) \<and>
      same_outside (insert (PTE_ADDR w) (tab_pages s pgdir)) s s')"
proof -
  let ?p = "PTE_ADDR w"
  note U = user_okD [OF ok]
  note p = U(2-5) [OF a]
  note D = pt_okD [OF U(1)]
  obtain s1 where k: "kfree ?p s = Inr s1" "kmem_ok s1 (?p # ps)"
    using kfree_push [OF D(1) p(1,2)] by blast
  have out: "same_outside {?p} s s1"
    using kfree_state [OF k(1)] by (auto intro: same_outsideI)
  have has: "has_tab s pgdir (PDX a)" using pte_of_Some [OF a(2)] by blast
  note F = pt_frame [OF U(1) out, simplified, OF p(3) [symmetric] p(4)]
  have ok1: "pt_ok s1 pgdir (?p # ps)"
    using F(4) [OF k(2)] p D(4) U(1) by (auto simp: pt_ok_def)
  define s' where "s' = set_pte pgdir a 0 s1"
  note S = set_pte_spec [OF ok1 _ s'_def, unfolded F(1), OF has]
  have s'_eq: "s' = s1\<lparr>mem := (mem s1)(tab_of s pgdir (PDX a) + 4 * PTX a := 0)\<rparr>"
    by (simp add: s'_def set_pte_def F(5) has)
  have pte: "pte_of s' pgdir = (\<lambda>va. if PGROUNDDOWN va = PGROUNDDOWN a then None else pte_of s pgdir va)"
    using S(4) F(3) by (auto simp: fun_eq_iff)
  have vp: "valid_page s' = valid_page s"
    using kfree_state(2) [OF k(1)] by (simp add: fun_eq_iff valid_page_def s'_eq)
  have tp: "tab_pages s' pgdir = tab_pages s pgdir" using S(2) F(2) by simp
  have "user_ok s' pgdir (?p # ps) U"
    unfolding user_ok_def
  proof (intro conjI allI impI)
    show "pt_ok s' pgdir (?p # ps)" by (rule S(1))
    fix va v assume v: "va < U \<and> pte_of s' pgdir va = Some v"
    then have v': "pte_of s pgdir va = Some v" "PGROUNDDOWN va \<noteq> PGROUNDDOWN a"
      by (auto simp: pte split: if_splits)
    then have "PTE_ADDR v \<noteq> ?p" using U(6) v a by blast
    then show "valid_page s' (PTE_ADDR v)" "PTE_ADDR v \<notin> set (?p # ps)" "PTE_ADDR v \<noteq> pgdir"
      "PTE_ADDR v \<notin> tab_pages s' pgdir"
      using U(2-5) [of va v] v v'(1) by (auto simp: vp tp)
  next
    fix va va' v v' assume "va < U \<and> va' < U \<and> pte_of s' pgdir va = Some v \<and>
      pte_of s' pgdir va' = Some v' \<and> PTE_ADDR v = PTE_ADDR v'"
    then show "PGROUNDDOWN va = PGROUNDDOWN va'"
      using U(6) [of va va' v v'] by (auto simp: pte split: if_splits)
  qed
  moreover have "same_outside (insert ?p (tab_pages s pgdir)) s s'"
    using tab_pagesI [OF has] F(5) [OF has] by (intro same_outside_trans [OF out S(3)]) auto
  ultimately show ?thesis using k(1) pte tp unfolding s'_eq by (auto simp: Let_def)
qed

lemma walk_present:
  assumes ok: "pt_ok s pgdir ps" and w: "walkpgdir pgdir va False s = (pte, s')"
  shows "s' = s"
    "pte \<noteq> 0 \<and> mem s pte AND PTE_P \<noteq> 0 \<longleftrightarrow> pte_of s pgdir va \<noteq> None"
    "pte_of s pgdir va = Some v \<Longrightarrow> mem s pte = v \<and> pte = tab_of s pgdir (PDX va) + 4 * PTX va"
proof -
  have "has_tab s pgdir (PDX va) \<Longrightarrow> tab_of s pgdir (PDX va) + 4 * PTX va \<noteq> 0"
    using pt_okD(5,6) [OF ok] by (intro pte_cell_nonzero PTX_less) (auto simp: valid_page_def)
  then show "s' = s"
    "pte \<noteq> 0 \<and> mem s pte AND PTE_P \<noteq> 0 \<longleftrightarrow> pte_of s pgdir va \<noteq> None"
    "pte_of s pgdir va = Some v \<Longrightarrow> mem s pte = v \<and> pte = tab_of s pgdir (PDX va) + 4 * PTX va"
    using w by (auto simp: walkpgdir_lookup pte_of_def Let_def split: if_splits)
qed

definition frames :: "kmem \<Rightarrow> u32 \<Rightarrow> u32 set \<Rightarrow> u32 set" where
  "frames s pgdir A = {PTE_ADDR w | va w. va \<in> A \<and> pte_of s pgdir va = Some w}"

definition unmap :: "u32 set \<Rightarrow> (u32 \<Rightarrow> u32 option) \<Rightarrow> u32 \<Rightarrow> u32 option" where
  "unmap A f = (\<lambda>va. if PGROUNDDOWN va \<in> A then None else f va)"

lemma frames_insert:
  assumes "pte_of s pgdir a = Some v" "pte_of s' pgdir = unmap {a} (pte_of s pgdir)"
    and "\<forall>x\<in>A. page_aligned x"
  shows "frames s pgdir (insert a A) = insert (PTE_ADDR v) (frames s' pgdir A)"
proof -
  have "pte_of s' pgdir x = Some w \<longleftrightarrow> x \<noteq> a \<and> pte_of s pgdir x = Some w" if "x \<in> A" for x w
    using that assms(2,3) by (auto simp: unmap_def)
  then have "frames s' pgdir A = {PTE_ADDR w | x w. x \<in> A \<and> x \<noteq> a \<and> pte_of s pgdir x = Some w}"
    unfolding frames_def by blast
  moreover have "frames s pgdir (insert a A) =
      insert (PTE_ADDR v) {PTE_ADDR w | x w. x \<in> A \<and> x \<noteq> a \<and> pte_of s pgdir x = Some w}"
    using assms(1) unfolding frames_def by (auto, metis option.inject)
  ultimately show ?thesis by simp
qed

lemma deallocuvm_loop_spec:
  assumes "user_ok s pgdir ps U" "\<forall>a\<in>set as. page_aligned a \<and> a < U"
  shows "\<exists>s' fs. deallocuvm_loop as pgdir s = Inr s' \<and> user_ok s' pgdir (fs @ ps) U \<and>
     pte_of s' pgdir = unmap (set as) (pte_of s pgdir) \<and> set fs = frames s pgdir (set as) \<and>
     tab_pages s' pgdir = tab_pages s pgdir \<and> same_outside (set fs \<union> tab_pages s pgdir) s s'"
  using assms
proof (induction as arbitrary: s ps)
  case Nil
  then show ?case by (auto simp: unmap_def frames_def intro!: exI [of _ "[]"])
next
  case (Cons a as)
  have ok: "pt_ok s pgdir ps" using Cons.prems(1) by (rule user_okD)
  have a: "page_aligned a" "a < U" using Cons.prems(2) by auto
  obtain pte where w: "walkpgdir pgdir a False s = (pte, s)"
    by (simp add: walkpgdir_lookup)
  note W = walk_present [OF ok w]
  show ?case
  proof (cases "pte_of s pgdir a")
    case None
    with W(2) have "deallocuvm_loop (a # as) pgdir s = deallocuvm_loop as pgdir s"
      by (auto simp: w Let_def)
    moreover have "pte_of s pgdir va = None" if "PGROUNDDOWN va = a" for va
      using pte_of_page [of va a s pgdir] that None a(1) by simp
    then have "unmap (set (a # as)) (pte_of s pgdir) = unmap (set as) (pte_of s pgdir)"
      by (auto simp: unmap_def fun_eq_iff)
    moreover have "frames s pgdir (set (a # as)) = frames s pgdir (set as)"
      using None by (auto simp: frames_def)
    ultimately show ?thesis using Cons.IH [OF Cons.prems(1)] Cons.prems(2) by simp
  next
    case (Some v)
    obtain s1 where k: "kfree (PTE_ADDR v) s = Inr s1" and
      s2: "let s' = s1\<lparr>mem := (mem s1)(tab_of s pgdir (PDX a) + 4 * PTX a := 0)\<rparr> in
        user_ok s' pgdir (PTE_ADDR v # ps) U \<and> tab_pages s' pgdir = tab_pages s pgdir \<and>
        pte_of s' pgdir = (\<lambda>va. if PGROUNDDOWN va = PGROUNDDOWN a then None else pte_of s pgdir va) \<and>
        same_outside (insert (PTE_ADDR v) (tab_pages s pgdir)) s s'"
      using unmap_page [OF Cons.prems(1) a(2) Some] by blast
    define s' where "s' = s1\<lparr>mem := (mem s1)(tab_of s pgdir (PDX a) + 4 * PTX a := 0)\<rparr>"
    have S: "user_ok s' pgdir (PTE_ADDR v # ps) U" "tab_pages s' pgdir = tab_pages s pgdir"
      "pte_of s' pgdir = unmap {a} (pte_of s pgdir)"
      "same_outside (insert (PTE_ADDR v) (tab_pages s pgdir)) s s'"
      using s2 a(1) by (auto simp: Let_def s'_def unmap_def)
    obtain s'' fs where R: "deallocuvm_loop as pgdir s' = Inr s''"
      "user_ok s'' pgdir (fs @ PTE_ADDR v # ps) U"
      "pte_of s'' pgdir = unmap (set as) (pte_of s' pgdir)" "set fs = frames s' pgdir (set as)"
      "tab_pages s'' pgdir = tab_pages s' pgdir" "same_outside (set fs \<union> tab_pages s' pgdir) s' s''"
      using Cons.IH [OF S(1)] Cons.prems(2) by auto
    have "PTE_ADDR v \<noteq> 0" using user_okD(2) [OF Cons.prems(1) a(2) Some] by (simp add: valid_page_def)
    moreover have "pte = tab_of s pgdir (PDX a) + 4 * PTX a" using W(3) [OF Some] by blast
    moreover have "mem s (tab_of s pgdir (PDX a) + 4 * PTX a) = v" using pte_of_Some [OF Some] by blast
    moreover have "pte \<noteq> 0 \<and> mem s pte AND PTE_P \<noteq> 0" using W(2) Some by blast
    ultimately have "deallocuvm_loop (a # as) pgdir s = Inr s''"
      using k R(1) by (simp add: w Let_def s'_def)
    moreover have "pte_of s'' pgdir = unmap (set (a # as)) (pte_of s pgdir)"
      by (auto simp: R(3) S(3) unmap_def fun_eq_iff)
    moreover have "set (fs @ [PTE_ADDR v]) = frames s pgdir (set (a # as))"
      using frames_insert [OF Some S(3)] Cons.prems(2) by (auto simp: R(4))
    moreover have "same_outside (set (fs @ [PTE_ADDR v]) \<union> tab_pages s pgdir) s s''"
      by (rule same_outside_trans [OF S(4) R(6)]) (auto simp: S(2))
    ultimately show ?thesis using R(2,5) S(2) by (intro exI [of _ s''] exI [of _ "fs @ [PTE_ADDR v]"]) simp
  qed
qed

section \<open>Adding user pages\<close>

lemma map_page_has_tab:
  assumes ok: "pt_ok s pgdir ps" and has: "has_tab s pgdir (PDX a)" and none: "pte_of s pgdir a = None"
  shows "map_page pgdir a pa perm s = Inr (0, set_pte pgdir a (pa OR perm OR PTE_P) s)"
proof -
  let ?c = "tab_of s pgdir (PDX a) + 4 * PTX a"
  have w: "walkpgdir pgdir a True s = (?c, s)"
    using has by (simp add: walkpgdir_def has_tab_def tab_of_def pde_of_def Let_def)
  have "?c \<noteq> 0"
    using pt_okD(5,6) [OF ok has] by (intro pte_cell_nonzero PTX_less) (auto simp: valid_page_def)
  moreover have "mem s ?c AND PTE_P = 0" using none has by (auto simp: pte_of_def Let_def split: if_splits)
  ultimately show ?thesis by (simp add: map_page_def w set_pte_def)
qed

lemma PTE_ADDR_user: "page_aligned q \<Longrightarrow> PTE_ADDR (q OR (PTE_W OR PTE_U) OR PTE_P) = q"
  by (rule PTE_ADDR_flags) (simp_all add: PTE_ADDR_def)

text \<open>A frame mapped at a user address.\<close>

lemma map_user_page:
  assumes ok: "user_ok s pgdir ps U" and a: "page_aligned a" "a < U" "has_tab s pgdir (PDX a)"
    "pte_of s pgdir a = None"
    and q: "valid_page s q" "q \<notin> set ps" "q \<noteq> pgdir" "q \<notin> tab_pages s pgdir"
    and fresh: "\<And>va w. va < U \<Longrightarrow> pte_of s pgdir va = Some w \<Longrightarrow> PTE_ADDR w \<noteq> q"
  shows "\<exists>s'. mappages pgdir a PGSIZE q (PTE_W OR PTE_U) s = Inr (0, s') \<and>
     user_ok s' pgdir ps U \<and>
     pte_of s' pgdir = as_upd a (q OR (PTE_W OR PTE_U) OR PTE_P) (pte_of s pgdir) \<and>
     tab_pages s' pgdir = tab_pages s pgdir \<and> has_tab s' pgdir = has_tab s pgdir \<and>
     same_outside (tab_pages s pgdir) s s'"
proof -
  let ?w = "q OR (PTE_W OR PTE_U) OR PTE_P"
  note U = user_okD [OF ok]
  define s' where "s' = set_pte pgdir a ?w s"
  note S = set_pte_spec [OF U(1) a(3) s'_def]
  have m: "mappages pgdir a PGSIZE q (PTE_W OR PTE_U) s = Inr (0, s')"
    using map_page_has_tab [OF U(1) a(3,4)] by (simp add: mappages_page a(1) s'_def)
  have addr: "PTE_ADDR ?w = q" using q(1) by (intro PTE_ADDR_user) auto
  have "?w AND PTE_P \<noteq> 0" using present_or [of "q OR (PTE_W OR PTE_U)"] by (simp add: or.assoc)
  then have pte: "pte_of s' pgdir = as_upd a ?w (pte_of s pgdir)"
    using S(4) by (auto simp: as_upd_def fun_eq_iff)
  have vp: "valid_page s' = valid_page s"
    by (simp add: fun_eq_iff valid_page_def s'_def set_pte_def)
  have "user_ok s' pgdir ps U"
    unfolding user_ok_def
  proof (intro conjI allI impI)
    show "pt_ok s' pgdir ps" by (rule S(1))
    fix va v assume v: "va < U \<and> pte_of s' pgdir va = Some v"
    then have "(pte_of s pgdir va = Some v) \<or> PTE_ADDR v = q"
      using addr by (auto simp: pte as_upd_def split: if_splits)
    then show "valid_page s' (PTE_ADDR v)" "PTE_ADDR v \<notin> set ps" "PTE_ADDR v \<noteq> pgdir"
      "PTE_ADDR v \<notin> tab_pages s' pgdir"
      using U(2-5) [of va v] v q by (auto simp: vp S(2))
  next
    fix va va' v v' assume "va < U \<and> va' < U \<and> pte_of s' pgdir va = Some v \<and>
      pte_of s' pgdir va' = Some v' \<and> PTE_ADDR v = PTE_ADDR v'"
    then show "PGROUNDDOWN va = PGROUNDDOWN va'"
      using U(6) [of va va' v v'] fresh [of va v] fresh [of va' v'] addr
      by (auto simp: pte as_upd_def split: if_splits)
  qed
  moreover have "same_outside (tab_pages s pgdir) s s'"
    using tab_pagesI [OF a(3)] by (intro same_outside_trans [OF S(3) same_outside_refl]) auto
  ultimately show ?thesis using m pte S(2,5) by blast
qed

lemma kalloc_frame:
  assumes ok: "user_ok s pgdir (q # qs) U"
    and s1: "s1 = (snd (kalloc s))\<lparr>mem := m\<rparr>"
    and m: "\<And>a. PGROUNDDOWN a \<noteq> q \<Longrightarrow> m a = mem s a"
  shows "fst (kalloc s) = q" "q \<noteq> 0" "user_ok s1 pgdir qs U" "pte_of s1 pgdir = pte_of s pgdir"
    "tab_pages s1 pgdir = tab_pages s pgdir" "has_tab s1 pgdir = has_tab s pgdir"
    "same_outside {q} s s1" "valid_page s1 q" "q \<notin> set qs" "q \<noteq> pgdir" "q \<notin> tab_pages s pgdir"
    "va < U \<Longrightarrow> pte_of s pgdir va = Some w \<Longrightarrow> PTE_ADDR w \<noteq> q"
proof -
  note U = user_okD [OF ok]
  note D = pt_okD [OF U(1)]
  show fq: "fst (kalloc s) = q" using kalloc_pop(1) [OF D(1)] .
  have kq: "kmem_ok (snd (kalloc s)) qs" using kalloc_pop(2) [OF D(1)] .
  have q: "valid_page s q" "q \<notin> set qs" "q \<noteq> pgdir" using D(1,4) by (auto simp: kmem_ok_def)
  have qt: "q \<notin> tab_pages s pgdir" using U(1) by (auto simp: pt_ok_def)
  show "q \<noteq> 0" "q \<notin> set qs" "q \<noteq> pgdir" "q \<notin> tab_pages s pgdir"
    using q qt by (auto simp: valid_page_def)
  show so: "same_outside {q} s s1"
    by (rule same_outsideI) (simp_all add: s1 m kalloc_consts)
  have vp: "valid_page s1 = valid_page s"
    by (simp add: fun_eq_iff valid_page_def s1 kalloc_consts)
  then show "valid_page s1 q" using q by simp
  note F = pt_frame [OF U(1) so, simplified, OF q(3) [symmetric] qt]
  show "pte_of s1 pgdir = pte_of s pgdir" "tab_pages s1 pgdir = tab_pages s pgdir"
    "has_tab s1 pgdir = has_tab s pgdir" using F by blast+
  have "kmem_ok s1 qs"
  proof (subst kmem_ok_cong [of s1 "snd (kalloc s)"])
    fix p assume "p \<in> set qs"
    then have "PGROUNDDOWN p = p" "p \<noteq> q" using kmem_ok_page [OF kq] q(2) by auto
    then show "mem s1 p = mem (snd (kalloc s)) p" by (simp add: s1 kalloc_mem m)
  qed (use kq in \<open>simp_all add: s1\<close>)
  then have "pt_ok s1 pgdir qs" using F(4) U(1) by (auto simp: pt_ok_def)
  then show "user_ok s1 pgdir qs U"
    unfolding user_ok_def F(2,3) vp using ok unfolding user_ok_def by auto
  show "PTE_ADDR w \<noteq> q" if "va < U" "pte_of s pgdir va = Some w"
    using U(3) [OF that] by auto
qed

definition user_pte :: "u32 \<Rightarrow> u32" where
  "user_pte q = (q OR (PTE_W OR PTE_U) OR PTE_P)"

lemma allocuvm_loop_take:
  assumes "user_ok s pgdir ps U" "distinct as" "length as \<le> length ps"
    and "\<forall>a\<in>set as. page_aligned a \<and> a < U \<and> has_tab s pgdir (PDX a) \<and> pte_of s pgdir a = None"
  shows "\<exists>s'. allocuvm_loop (as @ bs) pgdir oldsz newsz s = allocuvm_loop bs pgdir oldsz newsz s' \<and>
     user_ok s' pgdir (drop (length as) ps) U \<and>
     (\<forall>k<length as. pte_of s' pgdir (as ! k) = Some (user_pte (ps ! k))) \<and>
     (\<forall>va. PGROUNDDOWN va \<notin> set as \<longrightarrow> pte_of s' pgdir va = pte_of s pgdir va) \<and>
     (\<forall>k<length as. \<forall>x. PGROUNDDOWN x = ps ! k \<longrightarrow> mem s' x = 0) \<and>
     tab_pages s' pgdir = tab_pages s pgdir \<and>
     same_outside (set (take (length as) ps) \<union> tab_pages s pgdir) s s'"
  using assms
proof (induction as arbitrary: s ps)
  case Nil
  then show ?case by auto
next
  case (Cons a as)
  then obtain q qs where ps: "ps = q # qs" by (cases ps) auto
  have a: "page_aligned a" "a < U" "has_tab s pgdir (PDX a)" "pte_of s pgdir a = None"
    using Cons.prems(4) by auto
  define s1 where "s1 = (snd (kalloc s))\<lparr>mem := memset_page q 0 (mem (snd (kalloc s)))\<rparr>"
  note K = kalloc_frame [OF Cons.prems(1) [unfolded ps] s1_def]
  have mset: "PGROUNDDOWN x \<noteq> q \<Longrightarrow> memset_page q 0 (mem (snd (kalloc s))) x = mem s x" for x
    by (simp add: memset_page_def kalloc_mem)
  note K = K [OF mset]
  obtain s2 where M: "mappages pgdir a PGSIZE q (PTE_W OR PTE_U) s1 = Inr (0, s2)"
     "user_ok s2 pgdir qs U" "pte_of s2 pgdir = as_upd a (user_pte q) (pte_of s pgdir)"
     "tab_pages s2 pgdir = tab_pages s pgdir" "has_tab s2 pgdir = has_tab s pgdir"
     "same_outside (tab_pages s pgdir) s1 s2"
    using map_user_page [OF K(3) a(1,2), of q] a(3,4) K by (auto simp: user_pte_def)
  have step: "allocuvm_loop ((a # as) @ bs) pgdir oldsz newsz s = allocuvm_loop (as @ bs) pgdir oldsz newsz s2"
    using K(1,2) M(1) by (simp add: split_def Let_def s1_def)
  have "\<forall>b\<in>set as. page_aligned b \<and> b < U \<and> has_tab s2 pgdir (PDX b) \<and> pte_of s2 pgdir b = None"
    using Cons.prems(2,4) a(1) by (auto simp: M(3,5) as_upd_def)
  then obtain s' where R:
    "allocuvm_loop (as @ bs) pgdir oldsz newsz s2 = allocuvm_loop bs pgdir oldsz newsz s'"
    "user_ok s' pgdir (drop (length as) qs) U"
    "\<forall>k<length as. pte_of s' pgdir (as ! k) = Some (user_pte (qs ! k))"
    "\<forall>va. PGROUNDDOWN va \<notin> set as \<longrightarrow> pte_of s' pgdir va = pte_of s2 pgdir va"
    "\<forall>k<length as. \<forall>x. PGROUNDDOWN x = qs ! k \<longrightarrow> mem s' x = 0"
    "tab_pages s' pgdir = tab_pages s2 pgdir"
    "same_outside (set (take (length as) qs) \<union> tab_pages s2 pgdir) s2 s'"
    using Cons.IH [OF M(2)] Cons.prems(2,3) ps by auto
  have zero: "mem s' x = 0" if "PGROUNDDOWN x = q" for x
  proof -
    have "q \<notin> set (take (length as) qs)" using K(9) by (meson in_set_takeD)
    then have "mem s' x = mem s2 x" using R(7) that K(11) by (auto simp: same_outside_def M(4))
    also have "\<dots> = mem s1 x" using M(6) that K(11) by (auto simp: same_outside_def)
    also have "\<dots> = 0" using that by (simp add: s1_def memset_page_def)
    finally show ?thesis .
  qed
  have "same_outside (set (take (length (a # as)) ps) \<union> tab_pages s pgdir) s s'"
  proof (rule same_outside_trans [OF same_outside_trans [OF K(7) M(6) subset_refl] R(7)])
  qed (auto simp: ps M(4))
  moreover have "pte_of s' pgdir ((a # as) ! k) = Some (user_pte (ps ! k))" if "k < length (a # as)" for k
    using that R(3,4) Cons.prems(2) a(1) by (cases k) (auto simp: ps M(3) as_upd_def)
  moreover have "pte_of s' pgdir va = pte_of s pgdir va" if "PGROUNDDOWN va \<notin> set (a # as)" for va
    using that R(4) a(1) by (auto simp: M(3) as_upd_def)
  moreover have "mem s' x = 0" if "k < length (a # as)" "PGROUNDDOWN x = ps ! k" for k x
    using that R(5) zero by (cases k) (auto simp: ps)
  ultimately show ?case
    using step R(1,2,6) by (intro exI [of _ s']) (auto simp: ps M(4))
qed

lemma user_pages_ready:
  assumes ok: "user_ok s pgdir ps USERTOP" and tab: "has_tab s pgdir 0" and sz: "newsz \<le> USERTOP"
    and un: "\<forall>a. PGROUNDUP oldsz \<le> a \<and> a < newsz \<longrightarrow> pte_of s pgdir a = None"
    and as: "as = page_range (PGROUNDUP oldsz) newsz"
  shows "distinct as" "x \<in> set as \<longleftrightarrow> page_aligned x \<and> PGROUNDUP oldsz \<le> x \<and> x < newsz"
    "\<forall>a\<in>set as. page_aligned a \<and> a < USERTOP \<and> has_tab s pgdir (PDX a) \<and> pte_of s pgdir a = None"
proof -
  have n: "unat newsz \<le> 4294963200" using sz by (simp add: word_le_nat_alt)
  show "distinct as" unfolding as by (rule page_range_distinct [OF n])
  show m: "x \<in> set as \<longleftrightarrow> page_aligned x \<and> PGROUNDUP oldsz \<le> x \<and> x < newsz" for x
    unfolding as by (rule page_range_mem [OF PGROUNDUP_aligned n])
  show "\<forall>a\<in>set as. page_aligned a \<and> a < USERTOP \<and> has_tab s pgdir (PDX a) \<and> pte_of s pgdir a = None"
  proof
    fix a assume a: "a \<in> set as"
    then have "a < USERTOP" using m sz by (auto intro: less_le_trans)
    moreover from this have "PDX a = 0" by (intro PDX_user) (simp add: word_less_nat_alt)
    ultimately show "page_aligned a \<and> a < USERTOP \<and> has_tab s pgdir (PDX a) \<and> pte_of s pgdir a = None"
      using a m tab un by simp
  qed
qed


lemma page_range_PGROUNDUP_self: "unat a \<le> 4294963200 \<Longrightarrow> page_range (PGROUNDUP a) a = []"
  using PGROUNDUP_bounds(2) [of a] by (simp add: page_range_def word_le_nat_alt)

lemma allocuvm_grow_ok:
  assumes ok: "user_ok s pgdir ps USERTOP" and tab: "has_tab s pgdir 0"
    and sz: "oldsz \<le> newsz" "newsz \<le> shm" "shm \<le> USERTOP"
    and un: "\<forall>a. PGROUNDUP oldsz \<le> a \<and> a < newsz \<longrightarrow> pte_of s pgdir a = None"
    and as: "as = page_range (PGROUNDUP oldsz) newsz" and room: "length as \<le> length ps"
  shows "\<exists>s'. allocuvm shm pgdir oldsz newsz s = Inr (newsz, s') \<and>
     user_ok s' pgdir (drop (length as) ps) USERTOP \<and>
     (\<forall>k<length as. pte_of s' pgdir (as ! k) = Some (user_pte (ps ! k))) \<and>
     (\<forall>va. PGROUNDDOWN va \<notin> set as \<longrightarrow> pte_of s' pgdir va = pte_of s pgdir va) \<and>
     (\<forall>k<length as. \<forall>x. PGROUNDDOWN x = ps ! k \<longrightarrow> mem s' x = 0) \<and>
     same_outside (set (take (length as) ps) \<union> tab_pages s pgdir) s s'"
proof -
  have "newsz \<le> USERTOP" using sz by simp
  note R = user_pages_ready [OF ok tab this un as]
  have "allocuvm shm pgdir oldsz newsz s = allocuvm_loop as pgdir oldsz newsz s"
    using sz by (simp add: allocuvm_def as not_less [symmetric])
  then show ?thesis
    using allocuvm_loop_take [OF ok R(1) room R(3), of "[]" oldsz newsz] by auto
qed

lemma allocuvm_grow_fail:
  assumes ok: "user_ok s pgdir ps USERTOP" and tab: "has_tab s pgdir 0"
    and sz: "oldsz \<le> newsz" "newsz \<le> shm" "shm \<le> USERTOP"
    and un: "\<forall>a. PGROUNDUP oldsz \<le> a \<and> a < newsz \<longrightarrow> pte_of s pgdir a = None"
    and as: "as = page_range (PGROUNDUP oldsz) newsz" and room: "length ps < length as"
  shows "\<exists>s' qs. allocuvm shm pgdir oldsz newsz s = Inr (0, s') \<and> user_ok s' pgdir qs USERTOP \<and>
     set qs = set ps \<and> pte_of s' pgdir = pte_of s pgdir \<and>
     same_outside (set ps \<union> tab_pages s pgdir) s s'"
proof -
  have nU: "newsz \<le> USERTOP" using sz by simp
  note R = user_pages_ready [OF ok tab nU un as]
  let ?n = "length ps"
  obtain b bs where d: "drop ?n as = b # bs" using room by (cases "drop ?n as") auto
  have split: "as = take ?n as @ b # bs" using d by (metis append_take_drop_id)
  have "distinct (take ?n as)" "length (take ?n as) \<le> ?n" using R(1) by simp_all
  moreover have "\<forall>a\<in>set (take ?n as). page_aligned a \<and> a < USERTOP \<and> has_tab s pgdir (PDX a) \<and>
      pte_of s pgdir a = None" using R(3) by (meson in_set_takeD)
  ultimately obtain s1 where A: "allocuvm_loop (take ?n as @ b # bs) pgdir oldsz newsz s =
        allocuvm_loop (b # bs) pgdir oldsz newsz s1" "user_ok s1 pgdir [] USERTOP"
      "\<forall>k<?n. pte_of s1 pgdir (take ?n as ! k) = Some (user_pte (ps ! k))"
      "\<forall>va. PGROUNDDOWN va \<notin> set (take ?n as) \<longrightarrow> pte_of s1 pgdir va = pte_of s pgdir va"
      "tab_pages s1 pgdir = tab_pages s pgdir" "same_outside (set ps \<union> tab_pages s pgdir) s s1"
    using allocuvm_loop_take [OF ok, of "take ?n as" "b # bs" oldsz newsz] room by auto
  have none: "kalloc s1 = (0, s1)"
    using ka.alloc_Nil pt_okD(1) [OF user_okD(1) [OF A(2)]] by blast
  have "oldsz \<noteq> newsz"
    using page_range_PGROUNDUP_self [of newsz] nU room as by (auto simp: word_le_nat_alt)
  then have lt: "oldsz < newsz" using sz by simp
  obtain s2 fs where D: "deallocuvm_loop as pgdir s1 = Inr s2" "user_ok s2 pgdir fs USERTOP"
     "pte_of s2 pgdir = unmap (set as) (pte_of s1 pgdir)" "set fs = frames s1 pgdir (set as)"
     "same_outside (set fs \<union> tab_pages s1 pgdir) s1 s2"
    using deallocuvm_loop_spec [OF A(2), of as] R(3) by auto
  have ev: "allocuvm shm pgdir oldsz newsz s = Inr (0, s2)"
    using sz(1,2) lt A(1) none D(1) split
    by (simp add: allocuvm_def as [symmetric] deallocuvm_def not_less [symmetric])
  have pte: "pte_of s2 pgdir = pte_of s pgdir"
  proof
    fix va
    show "pte_of s2 pgdir va = pte_of s pgdir va"
    proof (cases "PGROUNDDOWN va \<in> set as")
      case True
      then have "pte_of s pgdir (PGROUNDDOWN va) = None" using R(3) by blast
      then have "pte_of s pgdir va = None" using pte_of_page [of "PGROUNDDOWN va" va s pgdir] by simp
      with True show ?thesis by (simp add: D(3) unmap_def)
    next
      case False
      then show ?thesis using A(4) by (auto simp: D(3) unmap_def dest: in_set_takeD)
    qed
  qed
  have al: "PTE_ADDR (user_pte q) = q" if "q \<in> set ps" for q
    unfolding user_pte_def
    using kmem_ok_valid [OF pt_okD(1) [OF user_okD(1) [OF ok]] that] by (intro PTE_ADDR_user) auto
  have fr: "set fs = set ps"
  proof
    show "set fs \<subseteq> set ps"
    proof
      fix f assume "f \<in> set fs"
      then obtain a w where a: "a \<in> set as" "pte_of s1 pgdir a = Some w" "f = PTE_ADDR w"
        by (auto simp: D(4) frames_def)
      then have "a \<in> set (take ?n as)" using A(4) R(3) by (metis PGROUNDDOWN_aligned option.distinct(1))
      then obtain k where "k < ?n" "take ?n as ! k = a" using room by (auto simp: in_set_conv_nth)
      with A(3) a show "f \<in> set ps" using al by auto
    qed
    show "set ps \<subseteq> set fs"
    proof
      fix q assume q: "q \<in> set ps"
      then obtain k where k: "k < ?n" "ps ! k = q" by (auto simp: in_set_conv_nth)
      then have "pte_of s1 pgdir (as ! k) = Some (user_pte q)" "as ! k \<in> set as" using A(3) room by auto
      then show "q \<in> set fs" using al [OF q] by (force simp: D(4) frames_def)
    qed
  qed
  have "same_outside (set ps \<union> tab_pages s pgdir) s s2"
    by (rule same_outside_trans [OF A(6) D(5)]) (auto simp: fr A(5))
  then show ?thesis using ev D(2) pte fr by blast
qed


section \<open>Properties\<close>

text \<open>
  C17. \<^verbatim>\<open>allocuvm\<close> (vm.c) is all or nothing. Growing a well-formed address space from
  \<open>oldsz\<close> to \<open>newsz\<close> bytes, below the shared-memory area: when enough frames are free it
  returns \<open>newsz\<close>, the k-th new page is mapped user-writable to the k-th free frame, which
  is zeroed, no other address changes its mapping, the free list loses exactly those frames,
  and memory outside them and the page tables is untouched; otherwise it returns 0 with the
  address space as before and exactly the same frames free.
\<close>

theorem allocuvm_all_or_nothing:
  assumes "user_ok s pgdir ps USERTOP" "has_tab s pgdir 0"
    and "oldsz \<le> newsz" "newsz \<le> shm" "shm \<le> USERTOP"
    and "\<forall>a. PGROUNDUP oldsz \<le> a \<and> a < newsz \<longrightarrow> pte_of s pgdir a = None"
  shows "let as = page_range (PGROUNDUP oldsz) newsz; n = length as in
     if n \<le> length ps then
       \<exists>s'. allocuvm shm pgdir oldsz newsz s = Inr (newsz, s') \<and>
         user_ok s' pgdir (drop n ps) USERTOP \<and>
         (\<forall>k<n. pte_of s' pgdir (as ! k) = Some (user_pte (ps ! k))) \<and>
         (\<forall>va. PGROUNDDOWN va \<notin> set as \<longrightarrow> pte_of s' pgdir va = pte_of s pgdir va) \<and>
         (\<forall>k<n. \<forall>x. PGROUNDDOWN x = ps ! k \<longrightarrow> mem s' x = 0) \<and>
         same_outside (set (take n ps) \<union> tab_pages s pgdir) s s'
     else
       \<exists>s' qs. allocuvm shm pgdir oldsz newsz s = Inr (0, s') \<and>
         user_ok s' pgdir qs USERTOP \<and> set qs = set ps \<and> pte_of s' pgdir = pte_of s pgdir \<and>
         same_outside (set ps \<union> tab_pages s pgdir) s s'"
  using allocuvm_grow_ok [OF assms refl] allocuvm_grow_fail [OF assms refl]
  by (simp add: Let_def not_le)

text \<open>
  An address space with one page table and nothing mapped, and two free frames, for the
  witnesses.
\<close>

definition demo_space :: kmem where
  "demo_space = \<lparr>mem = (\<lambda>_. 0)(0xFFF000 := 0xFFE007, 0xFFD000 := 0xFFC000),
     freelist = 0xFFD000, freecount = 2, kernel_end = 0xFF0123, kernel_data = 0x108000\<rparr>"

lemma demo_mem:
  "PGROUNDDOWN a = 0xFFE000 \<Longrightarrow> mem demo_space a = 0"
  "mem demo_space 0xFFF000 = 0xFFE007" "mem demo_space 0xFFD000 = 0xFFC000" "mem demo_space 0xFFC000 = 0"
  "PGROUNDDOWN a = 0xFFF000 \<Longrightarrow> a \<noteq> 0xFFF000 \<Longrightarrow> mem demo_space a = 0"
  by (auto simp: demo_space_def PGROUNDDOWN_def)

lemma demo_space_tab: "has_tab demo_space 0xFFF000 i \<longleftrightarrow> i = 0"
proof (cases "unat i < 1024 \<and> i \<noteq> 0")
  case True
  have "PGROUNDDOWN (0xFFF000 + 4 * i) = 0xFFF000"
    using page_cell [of "0xFFF000" i] True by (simp add: page_aligned_def)
  moreover have "4 * i \<noteq> 0" using times_4_inject [of i 0] True by auto
  then have "0xFFF000 + 4 * i \<noteq> 0xFFF000" by simp
  ultimately have "mem demo_space (0xFFF000 + 4 * i) = 0" by (rule demo_mem(5))
  then show ?thesis using True by (simp add: has_tab_def pde_of_def)
next
  case False
  then show ?thesis by (auto simp: has_tab_def pde_of_def demo_mem(2))
qed

lemma demo_space_ok:
  "user_ok demo_space 0xFFF000 [0xFFD000, 0xFFC000] USERTOP"
  "pte_of demo_space 0xFFF000 va = None"
proof -
  have tab: "tab_of demo_space 0xFFF000 0 = 0xFFE000"
    by (simp add: tab_of_def pde_of_def demo_mem(2) PTE_ADDR_def)
  have "mem demo_space (0xFFE000 + 4 * PTX va) = 0" for va
    using page_cell [of "0xFFE000" "PTX va"] PTX_less by (intro demo_mem(1)) (simp add: page_aligned_def)
  then show none: "pte_of demo_space 0xFFF000 va = None" for va
    by (simp add: pte_of_def demo_space_tab tab)
  have one: "{i. has_tab demo_space 0xFFF000 i} = {0}" by (simp add: demo_space_tab)
  then have tp: "tab_pages demo_space 0xFFF000 = {0xFFE000}" by (simp add: tab_pages_def tab)
  have f: "freelist demo_space = 0xFFD000" "kernel_end demo_space = 0xFF0123"
    by (simp_all add: demo_space_def)
  have "kmem_ok demo_space [0xFFD000, 0xFFC000]"
    by (simp add: kmem_ok_def valid_page_def page_aligned_def f demo_mem)
  then have "pt_ok demo_space 0xFFF000 [0xFFD000, 0xFFC000]"
    unfolding pt_ok_def tp one by (simp add: valid_page_def page_aligned_def f)
  then show "user_ok demo_space 0xFFF000 [0xFFD000, 0xFFC000] USERTOP"
    unfolding user_ok_def by (simp add: none)
qed
theorem allocuvm_all_or_nothing_witness:
  "(\<exists>s'. allocuvm 0xA0000 0xFFF000 0x10 0x1801 demo_space = Inr (0x1801, s') \<and>
      pte_of s' 0xFFF000 0x1000 = Some 0xFFD007) \<and>
   (\<exists>s' qs. allocuvm 0xA0000 0xFFF000 0x10 0x4000 demo_space = Inr (0, s') \<and>
      user_ok s' 0xFFF000 qs USERTOP \<and> set qs = {0xFFD000, 0xFFC000})"
proof -
  have r: "page_range (PGROUNDUP 0x10) 0x1801 = [0x1000]"
      "page_range (PGROUNDUP 0x10) 0x4000 = [0x1000, 0x2000, 0x3000]"
    by (simp_all add: page_range_simps PGROUNDUP_def word_le_nat_alt)
  have t: "has_tab demo_space 0xFFF000 0" by (simp add: demo_space_tab)
  note W = allocuvm_all_or_nothing [OF demo_space_ok(1) t, where oldsz = "0x10" and shm = "0xA0000"]
  have un: "\<forall>a. PGROUNDUP 0x10 \<le> a \<and> a < n \<longrightarrow> pte_of demo_space 0xFFF000 a = None" for n
    by (simp only: demo_space_ok(2) simp_thms)
  have le: "(0x10 :: u32) \<le> 0x1801" "(0x1801 :: u32) \<le> 0xA0000" "(0x10 :: u32) \<le> 0x4000"
      "(0x4000 :: u32) \<le> 0xA0000" "(0xA0000 :: u32) \<le> USERTOP" by simp_all
  have len: "length [0x1000 :: u32] \<le> length [0xFFD000 :: u32, 0xFFC000]"
    "\<not> length [0x1000 :: u32, 0x2000, 0x3000] \<le> length [0xFFD000 :: u32, 0xFFC000]"
    "0 < length [0x1000 :: u32]" by simp_all
  note W1 = W [OF le(1,2,5) un, unfolded r Let_def if_P [OF len(1)]]
  note W2 = W [OF le(3,4,5) un, unfolded r Let_def if_not_P [OF len(2)]]
  obtain s' where "allocuvm 0xA0000 0xFFF000 0x10 0x1801 demo_space = Inr (0x1801, s')"
      "pte_of s' 0xFFF000 ([0x1000] ! 0) = Some (user_pte ([0xFFD000, 0xFFC000] ! 0))"
    using W1 len(3) by blast
  moreover have "\<exists>s' qs. allocuvm 0xA0000 0xFFF000 0x10 0x4000 demo_space = Inr (0, s') \<and>
      user_ok s' 0xFFF000 qs USERTOP \<and> set qs = set [0xFFD000, 0xFFC000]"
    using W2 by blast
  moreover have "user_pte 0xFFD000 = 0xFFD007" by (simp add: user_pte_def)
  ultimately show ?thesis by simp
qed

end
