(* ===== verification/Vm_Copy.thy ===== *)
theory Vm_Copy
  imports Vm_Spaces
begin

unbundle bit_operations_syntax

text \<open>
  New address spaces: \<^verbatim>\<open>setupkvm\<close> builds a directory whose kernel part is exactly the
  table \<^verbatim>\<open>kmap\<close> and whose user part is empty (\<open>kernel_space\<close>), and \<^verbatim>\<open>copyuvm\<close>
  gives a child the parent's pages in frames of its own.
\<close>

section \<open>The kernel's part of an address space\<close>

text \<open>
  A segment of \<^verbatim>\<open>kmap\<close> covers the addresses from \<open>p\<close> up to \<open>e\<close>; the end 0 of the
  last segment is the end of the address space, so the distance from \<open>p\<close> is compared.
\<close>

definition in_seg :: "u32 \<times> u32 \<times> u32 \<Rightarrow> u32 \<Rightarrow> bool" where
  "in_seg seg va = (case seg of (p, e, perm) \<Rightarrow> va - p < e - p)"

definition seg_map :: "(u32 \<times> u32 \<times> u32) list \<Rightarrow> (u32 \<Rightarrow> u32 option) \<Rightarrow> u32 \<Rightarrow> u32 option" where
  "seg_map ks f va =
     (case find (\<lambda>seg. in_seg seg va) ks of
        Some (p, e, perm) \<Rightarrow> Some (PGROUNDDOWN va OR perm OR PTE_P)
      | None \<Rightarrow> f va)"

fun segs_ok :: "(u32 \<times> u32 \<times> u32) list \<Rightarrow> bool" where
  "segs_ok [] = True"
| "segs_ok ((p, e, perm) # ks) \<longleftrightarrow>
     page_aligned p \<and> page_aligned e \<and> p \<noteq> e \<and>
     (\<forall>va. in_seg (p, e, perm) va \<longrightarrow> \<not> list_ex (\<lambda>seg. in_seg seg va) ks) \<and> segs_ok ks"

lemma seg_pages:
  assumes "page_aligned p" "page_aligned e" "p \<noteq> e"
  obtains n where "n < 1048576" "mappages d p (e - p) p perm s = mappages_loop n d p p perm s"
    "unat (e - p) = 4096 * Suc n"
proof -
  obtain k where k: "unat (e - p) = 4096 * k" "k < 1048576" "e - p = 4096 * of_nat k"
    using page_aligned_unatE [OF page_aligned_diff [OF assms(2,1)]] by metis
  then obtain n where n: "k = Suc n" using assms(3) by (cases k) auto
  have "p + (e - p) - 1 = e - 1" by simp
  also have "\<dots> = (e - 4096) + 4095" by simp
  finally have "PGROUNDDOWN (p + (e - p) - 1) = PGROUNDDOWN ((e - 4096) + 4095)" by simp
  also have "\<dots> = e - 4096"
    using page_aligned_diff [OF assms(2), of 4096] by (intro PGROUNDDOWN_offset) (simp_all add: page_aligned_def)
  finally have last: "PGROUNDDOWN (p + (e - p) - 1) = e - 4096" .
  have "e - 4096 - p = e - p - 4096" by simp
  moreover have "unat (e - p - 4096) = 4096 * n"
    using k n by (subst unat_sub_small) simp_all
  ultimately have u: "unat (e - 4096 - p) = 4096 * n" by (simp only:)
  have "unat (e - 4096 - p) div 4096 = n" unfolding u by simp
  then have "mappages d p (e - p) p perm s = mappages_loop n d p p perm s"
    using last assms(1) by (simp add: mappages_def)
  then show ?thesis using that k n by simp
qed

lemma as_range_seg:
  assumes "page_aligned p" "unat (e - p) = 4096 * Suc n"
  shows "as_range n p p perm f va =
    (if in_seg (p, e, perm) va then Some (PGROUNDDOWN va OR perm OR PTE_P) else f va)"
proof -
  obtain k where k: "unat (PGROUNDDOWN va - p) = 4096 * k" "PGROUNDDOWN va - p = 4096 * of_nat k"
    using page_aligned_unatE [OF page_aligned_diff [OF page_aligned_PGROUNDDOWN assms(1)]] by metis
  have "va - p = (PGROUNDDOWN va - p) + (va AND 0xFFF)" by (simp add: PGROUNDDOWN_diff)
  then have "PGROUNDDOWN (va - p) = PGROUNDDOWN va - p"
    using page_aligned_diff [OF page_aligned_PGROUNDDOWN assms(1)]
    by (simp only:) (intro PGROUNDDOWN_offset; simp add: unat_and_fff)
  then have "unat (va - p) div 4096 = k"
    using k(1) unat_PGROUNDDOWN [of "va - p"] by simp
  then have "in_seg (p, e, perm) va \<longleftrightarrow> k \<le> n"
    using div_less_iff_less_mult [of 4096 "unat (va - p)" "Suc n"] assms(2)
    by (simp add: in_seg_def word_less_nat_alt less_Suc_eq_le mult.commute)
  moreover have "p + PGSIZE * of_nat k = PGROUNDDOWN va" using k(2) by (simp add: algebra_simps)
  ultimately show ?thesis using k(1) by (simp add: as_range_def Let_def)
qed

lemma setupkvm_loop_cases:
  assumes "pt_ok s d ps" "segs_ok ks"
    and "\<And>va. list_ex (\<lambda>seg. in_seg seg va) ks \<Longrightarrow> pte_of s d va = None"
  shows "\<exists>r s' ps'. setupkvm_loop ks d s = Inr (r, s') \<and> pt_step d s ps s' ps' \<and>
    (r = d \<and> pte_of s' d = seg_map ks (pte_of s d) \<or> r = 0 \<and> ps' = [])"
  using assms
proof (induction ks arbitrary: s ps)
  case Nil
  then show ?case using pt_step_refl by (auto simp: seg_map_def fun_eq_iff)
next
  case (Cons seg ks)
  obtain p e perm where seg: "seg = (p, e, perm)" by (cases seg)
  have ok: "page_aligned p" "page_aligned e" "p \<noteq> e" "segs_ok ks"
    "\<And>va. in_seg (p, e, perm) va \<Longrightarrow> \<not> list_ex (\<lambda>seg. in_seg seg va) ks"
    using Cons.prems(2) by (auto simp: seg)
  obtain n where n: "n < 1048576" "mappages d p (e - p) p perm s = mappages_loop n d p p perm s"
    "unat (e - p) = 4096 * Suc n" using seg_pages [OF ok(1-3)] by blast
  note R = as_range_seg [OF ok(1) n(3), of perm]
  have "pte_of s d (p + PGSIZE * of_nat k) = None" if "k \<le> n" for k
  proof (rule Cons.prems(3))
    have "k < 1048576" using that n(1) by simp
    then have "in_seg (p, e, perm) (p + PGSIZE * of_nat k)"
      using that n(3) by (simp add: in_seg_def word_less_nat_alt unat_pages)
    then show "list_ex (\<lambda>seg. in_seg seg (p + PGSIZE * of_nat k)) (seg # ks)" by (simp add: seg)
  qed
  from mappages_loop_cases [OF Cons.prems(1) ok(1) n(1) this]
  obtain r s1 ps1 where m: "mappages d p (e - p) p perm s = Inr (r, s1)" "pt_step d s ps s1 ps1"
    "r = 0 \<and> pte_of s1 d = as_range n p p perm (pte_of s d) \<or> r = -1 \<and> ps1 = []"
    unfolding n(2) by blast
  from m(3) show ?case
  proof (elim disjE conjE)
    assume "r = -1" "ps1 = []"
    then show ?thesis using m(1,2) by (auto simp: seg)
  next
    assume r: "r = 0" and p1: "pte_of s1 d = as_range n p p perm (pte_of s d)"
    have "pte_of s1 d va = None" if "list_ex (\<lambda>seg. in_seg seg va) ks" for va
      using ok(5) [of va] that Cons.prems(3) [of va] by (auto simp: p1 R)
    then obtain r' s' ps' where "setupkvm_loop ks d s1 = Inr (r', s')" "pt_step d s1 ps1 s' ps'"
      "r' = d \<and> pte_of s' d = seg_map ks (pte_of s1 d) \<or> r' = 0 \<and> ps' = []"
      using Cons.IH [of s1 ps1] m(2) ok(4) by (auto simp: pt_step_def)
    moreover have "seg_map ks (pte_of s1 d) = seg_map (seg # ks) (pte_of s d)"
    proof
      fix va
      show "seg_map ks (pte_of s1 d) va = seg_map (seg # ks) (pte_of s d) va"
      proof (cases "in_seg (p, e, perm) va")
        case True
        then have "find (\<lambda>seg. in_seg seg va) ks = None"
          using ok(5) by (auto simp: find_None_iff list_ex_iff)
        with True show ?thesis by (simp add: seg_map_def p1 R seg)
      next
        case False
        then have "pte_of s1 d va = pte_of s d va" by (simp add: p1 R)
        with False show ?thesis by (simp add: seg_map_def seg split: option.split)
      qed
    qed
    ultimately show ?thesis using m(1) r pt_step_trans [OF m(2)] by (auto simp: seg)
  qed
qed


lemma new_pgdir:
  assumes ok: "kmem_ok s (d # ps)"
    and s1: "s1 = (snd (kalloc s))\<lparr>mem := memset_page d 0 (mem (snd (kalloc s)))\<rparr>"
  shows "fst (kalloc s) = d" "d \<noteq> 0" "pt_ok s1 d ps" "pte_of s1 d va = None" "tab_pages s1 d = {}"
    "same_outside {d} s s1"
proof -
  show "fst (kalloc s) = d" using kalloc_pop [OF ok] by simp
  have d: "valid_page s d" "d \<notin> set ps" using ok by (auto simp: kmem_ok_def)
  then show "d \<noteq> 0" by (simp add: valid_page_def)
  show "same_outside {d} s s1"
    by (rule same_outsideI) (simp_all add: s1 memset_page_def kalloc_mem kalloc_consts)
  have "pde_of s1 d i = 0" if "unat i < 1024" for i
    using page_cell [OF valid_page_aligned [OF d(1)] that] by (simp add: pde_of_def s1 memset_page_def)
  then have none: "\<not> has_tab s1 d i" for i by (auto simp: has_tab_def)
  then show "pte_of s1 d va = None" "tab_pages s1 d = {}" by (simp_all add: pte_of_def tab_pages_def)
  have kq: "kmem_ok (snd (kalloc s)) ps" using kalloc_pop [OF ok] by simp
  have "kmem_ok s1 ps"
  proof (subst kmem_ok_cong [of s1 "snd (kalloc s)"])
    fix p assume "p \<in> set ps"
    then have "PGROUNDDOWN p = p" "p \<noteq> d" using kmem_ok_page [OF kq] d(2) by auto
    then show "mem s1 p = mem (snd (kalloc s)) p" by (simp add: s1 memset_page_def)
  qed (use kq in \<open>simp_all add: s1\<close>)
  moreover have "valid_page s1 d" using d(1) by (simp add: s1 valid_page_def kalloc_consts)
  ultimately show "pt_ok s1 d ps" using d(2) by (simp add: pt_ok_def tab_pages_def none)
qed

lemma tab_pages_card: "card (tab_pages s d) \<le> 1024"
proof -
  have "inj_on unat {i :: u32. has_tab s d i}" by (rule inj_on_subset [OF inj_unsigned]) simp
  moreover have "unat ` {i. has_tab s d i} \<subseteq> {..<1024}" by (auto simp: has_tab_def)
  ultimately have "finite {i. has_tab s d i}" "card {i. has_tab s d i} \<le> 1024"
    using finite_subset [OF _ finite_lessThan, of "unat ` {i. has_tab s d i}" 1024]
      card_mono [OF finite_lessThan, of "unat ` {i. has_tab s d i}" 1024]
    by (auto dest: finite_imageD simp: card_image)
  then show ?thesis unfolding tab_pages_def using card_image_le le_trans by blast
qed

definition kernel_space :: "kmem \<Rightarrow> u32 \<Rightarrow> u32 option" where
  "kernel_space s = seg_map (kmap s) (\<lambda>_. None)"

lemma in_seg_iff: "p \<le> e \<Longrightarrow> in_seg (p, e, perm) va \<longleftrightarrow> p \<le> va \<and> va < e"
  by (auto simp: in_seg_def word_less_nat_alt word_le_nat_alt unat_sub_if')
     (insert u32_bound [of e], linarith)

lemma in_seg_top: "in_seg (0xFE000000, 0, perm) va \<longleftrightarrow> 0xFE000000 \<le> va"
  by (auto simp: in_seg_def word_less_nat_alt word_le_nat_alt unat_sub_if')
     (insert u32_bound [of va], linarith)

lemma kmap_in_seg:
  assumes "0x100000 < kernel_data s" "kernel_data s < PHYSTOP"
  shows "in_seg (0x100000, kernel_data s, perm) va \<longleftrightarrow> 0x100000 \<le> va \<and> va < kernel_data s"
    "in_seg (kernel_data s, PHYSTOP, perm) va \<longleftrightarrow> kernel_data s \<le> va \<and> va < PHYSTOP"
    "in_seg (USERTOP, 0x100000, perm) va \<longleftrightarrow> USERTOP \<le> va \<and> va < 0x100000"
  using assms by (simp_all add: in_seg_iff less_imp_le)

lemma kernel_space_eq:
  assumes "0x100000 < kernel_data s" "kernel_data s < PHYSTOP"
  shows "kernel_space s va =
    (if va < USERTOP then None
     else if va < PHYSTOP then
       Some (PGROUNDDOWN va OR (if 0x100000 \<le> va \<and> va < kernel_data s then 0 else PTE_W) OR PTE_P)
     else if va < 0xFE000000 then None
     else Some (PGROUNDDOWN va OR PTE_W OR PTE_P))"
  unfolding kernel_space_def seg_map_def kmap_def
  using assms by (simp add: kmap_in_seg [OF assms] in_seg_top word_less_nat_alt word_le_nat_alt)

lemma kmap_segs_ok:
  assumes "0x100000 < kernel_data s" "kernel_data s < PHYSTOP" "page_aligned (kernel_data s)"
  shows "segs_ok (kmap s)"
  unfolding kmap_def
  using assms by (auto simp: kmap_in_seg [OF assms(1,2)] in_seg_top page_aligned_def word_less_nat_alt word_le_nat_alt)

lemma setupkvm_cases:
  assumes ok: "kmem_ok s ps" and kd: "page_aligned (kernel_data s)" "0x100000 < kernel_data s"
      "kernel_data s < PHYSTOP"
  shows "\<exists>r s' ps'. setupkvm s = Inr (r, s') \<and>
    (r \<noteq> 0 \<and> pt_ok s' r ps' \<and> pte_of s' r = kernel_space s \<and>
       (\<exists>ds. ps = r # ds @ ps' \<and> tab_pages s' r = set ds \<and> length ds \<le> 1024) \<and>
       same_outside (insert r (tab_pages s' r)) s s'
     \<or> r = 0 \<and> kmem_ok s' [] \<and> length ps \<le> 1025)"
proof (cases ps)
  case Nil
  then show ?thesis using ok ka.alloc_Nil by (auto simp: setupkvm_def)
next
  case (Cons d qs)
  define s1 where "s1 = (snd (kalloc s))\<lparr>mem := memset_page d 0 (mem (snd (kalloc s)))\<rparr>"
  note N = new_pgdir [OF ok [unfolded Cons] s1_def]
  have km: "kmap (snd (kalloc s)) = kmap s" by (simp add: kmap_def kalloc_consts)
  obtain r s' ps' where R: "setupkvm_loop (kmap s) d s1 = Inr (r, s')" "pt_step d s1 qs s' ps'"
    "r = d \<and> pte_of s' d = seg_map (kmap s) (pte_of s1 d) \<or> r = 0 \<and> ps' = []"
    using setupkvm_loop_cases [OF N(3) kmap_segs_ok [OF kd(2,3,1)]] N(4) by blast
  have ev: "setupkvm s = Inr (r, s')"
    using N(1,2) R(1) by (simp add: setupkvm_def split_def Let_def km s1_def)
  obtain ds where ds: "qs = ds @ ps'" "tab_pages s' d = set ds" using R(2) N(5) by (auto simp: pt_step_def)
  have "distinct ds" using ok Cons ds by (auto simp: kmem_ok_def)
  then have len: "length ds \<le> 1024" using tab_pages_card [of s' d] ds(2) distinct_card by metis
  have "pte_of s1 d = (\<lambda>_. None)" using N(4) by blast
  moreover have "same_outside (insert d (tab_pages s' d)) s s'"
    using R(2) by (intro same_outside_trans [OF N(6), of "insert d (tab_pages s' d)"]) (auto simp: pt_step_def)
  moreover have "pt_ok s' d ps'" using R(2) by (simp add: pt_step_def)
  ultimately show ?thesis
    using R(3) ev ds len N(2) Cons pt_okD(1) by (auto simp: kernel_space_def)
qed

section \<open>Copying an address space\<close>

text \<open>
  Two address spaces side by side: \<open>d\<close>, which is being built, shares no page with the
  directory, the page tables and the user pages of \<open>pgdir\<close>.
\<close>

definition apart :: "kmem \<Rightarrow> u32 \<Rightarrow> u32 \<Rightarrow> u32 list \<Rightarrow> bool" where
  "apart s pgdir d ps \<longleftrightarrow>
     user_ok s pgdir ps USERTOP \<and>
     insert pgdir (tab_pages s pgdir) \<inter> insert d (tab_pages s d) = {} \<and>
     (\<forall>va w. va < USERTOP \<and> pte_of s pgdir va = Some w \<longrightarrow> PTE_ADDR w \<notin> insert d (tab_pages s d))"

lemma user_frame:
  assumes ok: "user_ok s pgdir ps U" and out: "same_outside A s s'"
    and A: "pgdir \<notin> A" "tab_pages s pgdir \<inter> A = {}"
    and ps': "kmem_ok s' ps'" "set ps' \<subseteq> set ps"
  shows "user_ok s' pgdir ps' U" "pte_of s' pgdir = pte_of s pgdir" "tab_pages s' pgdir = tab_pages s pgdir"
proof -
  note F = pt_frame [OF user_okD(1) [OF ok] out A]
  show eq: "pte_of s' pgdir = pte_of s pgdir" "tab_pages s' pgdir = tab_pages s pgdir"
    by (rule F(3), rule F(2))
  have "pt_ok s' pgdir ps'"
    using F(4) [OF ps'(1)] user_okD(1) [OF ok] ps'(2) by (auto simp: pt_ok_def)
  moreover have vp: "valid_page s' = valid_page s"
    using out by (simp add: fun_eq_iff valid_page_def same_outside_def)
  ultimately show "user_ok s' pgdir ps' U"
    using ok ps'(2) unfolding user_ok_def eq vp by auto
qed

lemma copyuvm_loop_take:
  assumes "user_ok s d ps USERTOP" "apart s pgdir d ps" "distinct is" "length is \<le> length ps"
    and "\<forall>i\<in>set is. page_aligned i \<and> i < USERTOP \<and> has_tab s d (PDX i) \<and> pte_of s d i = None \<and>
       pte_of s pgdir i \<noteq> None"
  shows "\<exists>s'. copyuvm_loop is shm pgdir d s = Inr (d, s') \<and>
     user_ok s' d (drop (length is) ps) USERTOP \<and> apart s' pgdir d (drop (length is) ps) \<and>
     (\<forall>k<length is. pte_of s' d (is ! k) = Some (user_pte (ps ! k))) \<and>
     (\<forall>k<length is. \<forall>x. PGROUNDDOWN x = ps ! k \<longrightarrow>
        mem s' x = mem s (PTE_ADDR (the (pte_of s pgdir (is ! k))) + (x - ps ! k))) \<and>
     (\<forall>va. PGROUNDDOWN va \<notin> set is \<longrightarrow> pte_of s' d va = pte_of s d va) \<and>
     tab_pages s' d = tab_pages s d \<and>
     same_outside (set (take (length is) ps) \<union> tab_pages s d) s s' \<and>
     pte_of s' pgdir = pte_of s pgdir"
  using assms
proof (induction "is" arbitrary: s ps)
  case Nil
  then show ?case by auto
next
  case (Cons i "is")
  then obtain q qs where ps: "ps = q # qs" by (cases ps) auto
  have i: "page_aligned i" "i < USERTOP" "has_tab s d (PDX i)" "pte_of s d i = None"
    using Cons.prems(5) by auto
  obtain w where w: "pte_of s pgdir i = Some w" using Cons.prems(5) by auto
  have par: "user_ok s pgdir ps USERTOP" using Cons.prems(2) by (simp add: apart_def)
  let ?pa = "PTE_ADDR w"
  note P = user_okD [OF par]
  have pa: "?pa \<notin> set ps" "?pa \<notin> tab_pages s d" "page_aligned ?pa"
    using P(2,3) [OF i(2) w] Cons.prems(2) i(2) w by (auto simp: apart_def)
  define s1 where "s1 = (snd (kalloc s))\<lparr>mem := memmove_page q ?pa (mem (snd (kalloc s)))\<rparr>"
  have mo: "PGROUNDDOWN x \<noteq> q \<Longrightarrow> memmove_page q ?pa (mem (snd (kalloc s))) x = mem s x" for x
    by (simp add: memmove_page_def kalloc_mem)
  note K = kalloc_frame [OF Cons.prems(1) [unfolded ps] s1_def mo]
  obtain s2 where M: "mappages d i PGSIZE q (PTE_W OR PTE_U) s1 = Inr (0, s2)"
     "user_ok s2 d qs USERTOP" "pte_of s2 d = as_upd i (user_pte q) (pte_of s d)"
     "tab_pages s2 d = tab_pages s d" "has_tab s2 d = has_tab s d"
     "same_outside (tab_pages s d) s1 s2"
    using map_user_page [OF K(3) i(1,2), of q] i(3,4) K by (auto simp: user_pte_def)
  have so: "same_outside (insert q (tab_pages s d)) s s2"
    by (rule same_outside_trans [OF K(7) M(6)]) auto
  obtain pte where wk: "walkpgdir pgdir i False s = (pte, s)" by (simp add: walkpgdir_lookup)
  note W = walk_present [OF P(1) wk]
  have "pte \<noteq> 0" "mem s pte = w" "w AND PTE_P \<noteq> 0" using W(2,3) w by auto
  then have step: "copyuvm_loop (i # is) shm pgdir d s = copyuvm_loop is shm pgdir d s2"
    using K(1,2) M(1) by (simp add: wk split_def Let_def s1_def)
  have q: "q \<noteq> pgdir" "q \<notin> tab_pages s pgdir" using P(1) ps by (auto simp: pt_ok_def)
  have A: "pgdir \<notin> insert q (tab_pages s d)" "tab_pages s pgdir \<inter> insert q (tab_pages s d) = {}"
    using q Cons.prems(2) by (auto simp: apart_def)
  have "kmem_ok s2 qs" using M(2) user_okD(1) pt_okD(1) by blast
  note F = user_frame [OF par so A this]
  have F: "user_ok s2 pgdir qs USERTOP" "pte_of s2 pgdir = pte_of s pgdir"
    "tab_pages s2 pgdir = tab_pages s pgdir" using F ps by auto
  have ap: "apart s2 pgdir d qs" using Cons.prems(2) F M(4) by (auto simp: apart_def)
  have "\<forall>b\<in>set is. page_aligned b \<and> b < USERTOP \<and> has_tab s2 d (PDX b) \<and> pte_of s2 d b = None \<and>
       pte_of s2 pgdir b \<noteq> None"
    using Cons.prems(3,5) i(1) by (auto simp: M(3,5) F(2) as_upd_def)
  then obtain s' where R: "copyuvm_loop is shm pgdir d s2 = Inr (d, s')"
    "user_ok s' d (drop (length is) qs) USERTOP" "apart s' pgdir d (drop (length is) qs)"
    "\<forall>k<length is. pte_of s' d (is ! k) = Some (user_pte (qs ! k))"
    "\<forall>k<length is. \<forall>x. PGROUNDDOWN x = qs ! k \<longrightarrow>
        mem s' x = mem s2 (PTE_ADDR (the (pte_of s2 pgdir (is ! k))) + (x - qs ! k))"
    "\<forall>va. PGROUNDDOWN va \<notin> set is \<longrightarrow> pte_of s' d va = pte_of s2 d va"
    "tab_pages s' d = tab_pages s2 d" "same_outside (set (take (length is) qs) \<union> tab_pages s2 d) s2 s'"
    "pte_of s' pgdir = pte_of s2 pgdir"
    using Cons.IH [OF M(2) ap] Cons.prems(3,4) ps by auto
  have copied: "mem s' x = mem s (?pa + (x - q))" if x: "PGROUNDDOWN x = q" for x
  proof -
    have "q \<notin> set (take (length is) qs)" using K(9) by (meson in_set_takeD)
    then have "mem s' x = mem s2 x" using R(8) x K(11) by (auto simp: same_outside_def M(4))
    also have "\<dots> = mem s1 x" using M(6) x K(11) by (auto simp: same_outside_def)
    also have "\<dots> = mem s (?pa + (x - q))" using x by (simp add: s1_def memmove_page_def kalloc_mem)
    finally show ?thesis .
  qed
  have src: "mem s2 (PTE_ADDR (the (pte_of s pgdir b)) + (x - p)) = mem s (PTE_ADDR (the (pte_of s pgdir b)) + (x - p))"
    if "b \<in> set is" "PGROUNDDOWN x = p" for b x p
  proof -
    have "pte_of s pgdir b \<noteq> None" "b < USERTOP" using Cons.prems(5) that(1) by simp_all
    then obtain v where v: "pte_of s pgdir b = Some v" "b < USERTOP" by blast
    have "PTE_ADDR v \<notin> insert q (tab_pages s d)" "page_aligned (PTE_ADDR v)"
      using P(2,3) [OF v(2,1)] Cons.prems(2) v ps by (auto simp: apart_def)
    moreover have "unat (x - p) < 4096" by (simp add: that(2) [symmetric] PGROUNDDOWN_diff unat_and_fff)
    ultimately show ?thesis using so v by (simp add: same_outside_def PGROUNDDOWN_offset)
  qed
  have "same_outside (set (take (length (i # is)) ps) \<union> tab_pages s d) s s'"
    by (rule same_outside_trans [OF so R(8)]) (auto simp: ps M(4))
  moreover have "pte_of s' d ((i # is) ! k) = Some (user_pte (ps ! k))" if "k < length (i # is)" for k
    using that R(4,6) Cons.prems(3) i(1) by (cases k) (auto simp: ps M(3) as_upd_def)
  moreover have "pte_of s' d va = pte_of s d va" if "PGROUNDDOWN va \<notin> set (i # is)" for va
    using that R(6) i(1) by (auto simp: M(3) as_upd_def)
  moreover have "mem s' x = mem s (PTE_ADDR (the (pte_of s pgdir ((i # is) ! k))) + (x - ps ! k))"
    if "k < length (i # is)" "PGROUNDDOWN x = ps ! k" for k x
  proof (cases k)
    case 0
    with that(2) ps have "PGROUNDDOWN x = q" by simp
    from copied [OF this] show ?thesis by (simp add: 0 ps w)
  next
    case (Suc j)
    then have j: "j < length is" "PGROUNDDOWN x = qs ! j" using that ps by simp_all
    have "mem s' x = mem s2 (PTE_ADDR (the (pte_of s2 pgdir (is ! j))) + (x - qs ! j))"
      using R(5) j by blast
    also have "\<dots> = mem s (PTE_ADDR (the (pte_of s pgdir (is ! j))) + (x - qs ! j))"
      unfolding F(2) using j by (intro src) simp_all
    finally show ?thesis by (simp only: Suc ps nth_Cons_Suc)
  qed
  ultimately show ?case
    using step R(1,2,3,7,9) unfolding F(2) M(4)
    by (intro exI [of _ s'] conjI allI impI) (simp_all add: ps)
qed

lemma user_ok_empty:
  "pt_ok s d ps \<Longrightarrow> (\<And>va. va < U \<Longrightarrow> pte_of s d va = None) \<Longrightarrow> user_ok s d ps U"
  by (auto simp: user_ok_def)

lemma kernel_space_user:
  assumes "0x100000 < kernel_data s" "kernel_data s < PHYSTOP"
  shows "va < USERTOP \<Longrightarrow> kernel_space s va = None" "kernel_space s USERTOP \<noteq> None"
  by (simp_all add: kernel_space_eq [OF assms] word_less_nat_alt)

lemma setupkvm_user:
  assumes ok: "kmem_ok s ps" and kd: "page_aligned (kernel_data s)" "0x100000 < kernel_data s"
      "kernel_data s < PHYSTOP" and room: "1025 < length ps"
  obtains d s' ds ps' where "setupkvm s = Inr (d, s')" "d \<noteq> 0" "user_ok s' d ps' USERTOP"
    "has_tab s' d 0" "pte_of s' d = kernel_space s" "ps = d # ds @ ps'" "tab_pages s' d = set ds"
    "length ds \<le> 1024" "same_outside (insert d (set ds)) s s'"
proof -
  obtain d s' ps' ds where S: "setupkvm s = Inr (d, s')" "d \<noteq> 0" "pt_ok s' d ps'"
    "pte_of s' d = kernel_space s" "ps = d # ds @ ps'" "tab_pages s' d = set ds"
    "length ds \<le> 1024" "same_outside (insert d (tab_pages s' d)) s s'"
    using setupkvm_cases [OF ok kd] room by auto
  have "pte_of s' d USERTOP \<noteq> None" using S(4) kernel_space_user(2) [OF kd(2,3)] by simp
  then have "has_tab s' d (PDX USERTOP)" using pte_of_Some(1) by blast
  then have "has_tab s' d 0" by (simp add: PDX_user)
  moreover have "user_ok s' d ps' USERTOP"
    by (rule user_ok_empty [OF S(3)]) (simp add: S(4) kernel_space_user(1) [OF kd(2,3)])
  ultimately show ?thesis using that S by simp
qed

text \<open>
  C5. \<^verbatim>\<open>copyuvm\<close> (vm.c) gives the child a copy of its own. For a parent whose pages
  below \<open>sz\<close> are all mapped, and with enough free frames, it returns a new directory in
  which every page below \<open>sz\<close> is mapped user-writable to a frame that was free, with the
  parent's bytes, every other address is mapped as the kernel table says, and no user frame
  is free, shared or a page table; the parent's mappings are unchanged and no memory outside
  the frames that were free is written.
\<close>

theorem copyuvm_isolates_child:
  assumes ok: "user_ok s pgdir ps USERTOP"
    and kd: "page_aligned (kernel_data s)" "0x100000 < kernel_data s" "kernel_data s < PHYSTOP"
    and sz: "sz \<le> USERTOP" and mapped: "\<forall>va. va < sz \<longrightarrow> pte_of s pgdir va \<noteq> None"
    and room: "1025 + length (page_range 0 sz) < length ps"
  shows "\<exists>d s' qs. copyuvm shm pgdir sz s = Inr (d, s') \<and> d \<noteq> 0 \<and> user_ok s' d qs USERTOP \<and>
     set qs \<subseteq> set ps \<and>
     (\<forall>va. PGROUNDDOWN va < sz \<longrightarrow>
        (\<exists>w q. pte_of s pgdir va = Some w \<and> pte_of s' d va = Some (user_pte q) \<and> q \<in> set ps \<and>
           (\<forall>i. unat i < 4096 \<longrightarrow> mem s' (q + i) = mem s (PTE_ADDR w + i)))) \<and>
     (\<forall>va. \<not> PGROUNDDOWN va < sz \<longrightarrow> pte_of s' d va = kernel_space s va) \<and>
     pte_of s' pgdir = pte_of s pgdir \<and>
     same_outside (set ps) s s'"
proof -
  have "1025 < length ps" using room by simp
  note km = pt_okD(1) [OF user_okD(1) [OF ok]]
  obtain d s1 ds ps1 where S: "setupkvm s = Inr (d, s1)" "d \<noteq> 0" "user_ok s1 d ps1 USERTOP"
    "has_tab s1 d 0" "pte_of s1 d = kernel_space s" "ps = d # ds @ ps1" "tab_pages s1 d = set ds"
    "length ds \<le> 1024" "same_outside (insert d (set ds)) s s1"
    by (rule setupkvm_user [OF km kd \<open>1025 < length ps\<close>])
  have A: "pgdir \<notin> insert d (set ds)" "tab_pages s pgdir \<inter> insert d (set ds) = {}"
    using user_okD(1) [OF ok] S(6) by (auto simp: pt_ok_def)
  have "kmem_ok s1 ps1" using S(3) user_okD(1) pt_okD(1) by blast
  note F = user_frame [OF ok S(9) A this]
  have F: "user_ok s1 pgdir ps1 USERTOP" "pte_of s1 pgdir = pte_of s pgdir"
    "tab_pages s1 pgdir = tab_pages s pgdir" using F S(6) by auto
  have ap: "apart s1 pgdir d ps1"
    unfolding apart_def using F S(6,7) A user_okD(3) [OF ok] by auto
  define as where "as = page_range 0 sz"
  have n: "unat sz \<le> 4294963200" using sz by (simp add: word_le_nat_alt)
  have mem_as: "x \<in> set as \<longleftrightarrow> page_aligned x \<and> x < sz" for x
    unfolding as_def using page_range_mem [OF page_aligned_0 n] by simp
  have "distinct as" unfolding as_def by (rule page_range_distinct [OF n])
  moreover have "length as \<le> length ps1" using room S(6,8) by (simp add: as_def)
  moreover have "\<forall>i\<in>set as. page_aligned i \<and> i < USERTOP \<and> has_tab s1 d (PDX i) \<and> pte_of s1 d i = None \<and>
       pte_of s1 pgdir i \<noteq> None"
  proof
    fix i assume i: "i \<in> set as"
    then have u: "i < USERTOP" "i < sz" using sz mem_as by (auto intro: less_le_trans)
    then have "PDX i = 0" by (intro PDX_user) (simp add: word_less_nat_alt)
    then show "page_aligned i \<and> i < USERTOP \<and> has_tab s1 d (PDX i) \<and> pte_of s1 d i = None \<and>
       pte_of s1 pgdir i \<noteq> None"
      using i u mem_as S(4,5) kernel_space_user(1) [OF kd(2,3)] mapped F(2) by simp
  qed
  ultimately obtain s' where R: "copyuvm_loop as shm pgdir d s1 = Inr (d, s')"
    "user_ok s' d (drop (length as) ps1) USERTOP"
    "\<forall>k<length as. pte_of s' d (as ! k) = Some (user_pte (ps1 ! k))"
    "\<forall>k<length as. \<forall>x. PGROUNDDOWN x = ps1 ! k \<longrightarrow>
        mem s' x = mem s1 (PTE_ADDR (the (pte_of s1 pgdir (as ! k))) + (x - ps1 ! k))"
    "\<forall>va. PGROUNDDOWN va \<notin> set as \<longrightarrow> pte_of s' d va = pte_of s1 d va"
    "same_outside (set (take (length as) ps1) \<union> tab_pages s1 d) s1 s'"
    "pte_of s' pgdir = pte_of s1 pgdir"
    using copyuvm_loop_take [OF S(3) ap, of as shm] by blast
  have page: "\<exists>w q. pte_of s pgdir va = Some w \<and> pte_of s' d va = Some (user_pte q) \<and> q \<in> set ps \<and>
           (\<forall>i. unat i < 4096 \<longrightarrow> mem s' (q + i) = mem s (PTE_ADDR w + i))"
    if va: "PGROUNDDOWN va < sz" for va
  proof -
    from va obtain k where k: "k < length as" "as ! k = PGROUNDDOWN va"
      using mem_as by (metis in_set_conv_nth page_aligned_PGROUNDDOWN)
    have pg: "pte_of t e (as ! k) = pte_of t e va" for t e
      unfolding k(2) by (rule pte_of_page) simp
    have "pte_of s pgdir va \<noteq> None"
      using mapped [rule_format, OF va] pg [of s pgdir] unfolding k(2) by simp
    then obtain w where w: "pte_of s pgdir va = Some w" by blast
    have lp: "k < length ps1" using k(1) room S(6,8) by (simp add: as_def)
    have "ps1 ! k \<in> set ps1" using lp by simp
    then have q: "ps1 ! k \<in> set ps" "page_aligned (ps1 ! k)"
      using S(6) kmem_ok_valid [OF km, of "ps1 ! k"] by auto
    have w2: "PTE_ADDR w \<notin> set ps" "page_aligned (PTE_ADDR w)"
    proof -
      have "pte_of s pgdir (PGROUNDDOWN va) = Some w" using pg [of s pgdir] w k(2) by simp
      moreover have "PGROUNDDOWN va < USERTOP" using va sz by (rule less_le_trans)
      ultimately show "PTE_ADDR w \<notin> set ps" "page_aligned (PTE_ADDR w)"
        using user_okD(2,3) [OF ok] by auto
    qed
    have "mem s' (ps1 ! k + i) = mem s (PTE_ADDR w + i)" if i: "unat i < 4096" for i
    proof -
      have "mem s' (ps1 ! k + i) = mem s1 (PTE_ADDR (the (pte_of s1 pgdir (as ! k))) + ((ps1 ! k + i) - ps1 ! k))"
        using R(4) k(1) PGROUNDDOWN_offset [OF q(2) i] by blast
      also have "\<dots> = mem s1 (PTE_ADDR w + i)" using w by (simp add: F(2) pg)
      also have "\<dots> = mem s (PTE_ADDR w + i)"
        using S(6,9) w2 PGROUNDDOWN_offset [OF w2(2) i] by (auto simp: same_outside_def)
      finally show ?thesis .
    qed
    then show ?thesis using w q(1) R(3) k(1) pg by metis
  qed
  have "copyuvm shm pgdir sz s = Inr (d, s')" using S(1,2) R(1) by (simp add: copyuvm_def as_def)
  moreover have "pte_of s' d va = kernel_space s va" if "\<not> PGROUNDDOWN va < sz" for va
    using R(5) that by (simp add: mem_as S(5))
  moreover have "same_outside (set ps) s s'"
    by (rule same_outside_trans [OF S(9) R(6)]) (auto simp: S(6,7) dest: in_set_takeD)
  moreover have "set (drop (length as) ps1) \<subseteq> set ps" using S(6) by (auto dest: in_set_dropD)
  moreover have "pte_of s' pgdir = pte_of s pgdir" using R(7) F(2) by simp
  ultimately show ?thesis using S(2) R(2) page by blast
qed


text \<open>
  C29. \<^verbatim>\<open>setupkvm\<close> (vm.c) with enough free frames never hits \<^verbatim>\<open>panic("remap")\<close> and
  returns a directory that maps nothing below \<^verbatim>\<open>USERTOP\<close>, maps the memory up to
  \<^verbatim>\<open>PHYSTOP\<close> and the device area above \<^verbatim>\<open>0xFE000000\<close> to itself without
  \<^verbatim>\<open>PTE_U\<close>, with the kernel text read-only, and nothing in between.
\<close>

theorem setupkvm_maps_kernel:
  assumes "kmem_ok s ps" "page_aligned (kernel_data s)" "0x100000 < kernel_data s"
      "kernel_data s < PHYSTOP" "1025 < length ps"
  shows "\<exists>d s' ps'. setupkvm s = Inr (d, s') \<and> d \<noteq> 0 \<and> user_ok s' d ps' USERTOP \<and>
     pte_of s' d = (\<lambda>va.
       if va < USERTOP then None
       else if va < PHYSTOP then
         Some (PGROUNDDOWN va OR (if 0x100000 \<le> va \<and> va < kernel_data s then 0 else PTE_W) OR PTE_P)
       else if va < 0xFE000000 then None
       else Some (PGROUNDDOWN va OR PTE_W OR PTE_P)) \<and>
     set ps' \<subseteq> set ps \<and> length ps \<le> length ps' + 1025 \<and> same_outside (set ps) s s'"
proof -
  obtain d s' ds ps' where S: "setupkvm s = Inr (d, s')" "d \<noteq> 0" "user_ok s' d ps' USERTOP"
    "has_tab s' d 0" "pte_of s' d = kernel_space s" "ps = d # ds @ ps'" "tab_pages s' d = set ds"
    "length ds \<le> 1024" "same_outside (insert d (set ds)) s s'"
    by (rule setupkvm_user [OF assms])
  have "same_outside (set ps) s s'"
    using same_outside_trans [OF S(9) same_outside_refl, of "{}" "set ps"] S(6) by auto
  then show ?thesis
    using S(1,2,3,5,6,8) kernel_space_eq [OF assms(3,4)] by (intro exI [of _ d] exI [of _ s'] exI [of _ ps']) auto
qed

text \<open>A machine with most of its memory free, for the witnesses.\<close>

definition machine :: kmem where
  "machine = boot_kmem\<lparr>kernel_end := 0x110123\<rparr>"

lemma kinit_loop_consts:
  "kinit_loop p s = Inr s' \<Longrightarrow> kernel_end s' = kernel_end s \<and> kernel_data s' = kernel_data s"
proof (induction p s rule: kinit_loop.induct)
  case (1 p s)
  then show ?case
    by (subst (asm) (2) kinit_loop.simps)
       (auto simp: res_simps split: if_splits dest: kfree_state)
qed

lemma machine_booted:
  obtains s ps where "kinit machine = Inr s" "kmem_ok s ps" "length ps = 3823"
    "page_aligned (kernel_data s)" "0x100000 < kernel_data s" "kernel_data s < PHYSTOP"
proof -
  have m: "freelist machine = 0" "kernel_end machine = 0x110123" "kernel_data machine = 0x108000"
    by (simp_all add: machine_def boot_kmem_def)
  have len: "length (pages_from p n) = n" for p n by (induction n arbitrary: p) auto
  have "PGROUNDUP 0x110123 = 0x111000" by (simp add: PGROUNDUP_def)
  then have "(16777216 - unat (PGROUNDUP (kernel_end machine))) div 4096 = 3823" using m by simp
  then obtain s where s: "kinit machine = Inr s"
    "kmem_ok s (rev (pages_from (PGROUNDUP (kernel_end machine)) 3823))"
    using kinit_correct [of machine 3823] m by auto
  have "kernel_data s = 0x108000"
    using s(1) m(3) kinit_loop_consts by (fastforce simp: kinit_def)
  then show ?thesis using that s len by (simp add: page_aligned_def)
qed

theorem setupkvm_maps_kernel_witness:
  "\<exists>s d s'. kinit machine = Inr s \<and> setupkvm s = Inr (d, s') \<and> d \<noteq> 0 \<and> pte_of s' d 0x1234 = None"
proof -
  obtain s ps where b: "kinit machine = Inr s" "kmem_ok s ps" "length ps = 3823"
    "page_aligned (kernel_data s)" "0x100000 < kernel_data s" "kernel_data s < PHYSTOP"
    by (rule machine_booted)
  then show ?thesis using setupkvm_maps_kernel [OF b(2,4,5,6)] by fastforce
qed

theorem copyuvm_isolates_child_witness:
  "\<exists>s0 d s1 s2 c s3. kinit machine = Inr s0 \<and> setupkvm s0 = Inr (d, s1) \<and>
     allocuvm USERTOP d 0 0x1000 s1 = Inr (0x1000, s2) \<and>
     copyuvm USERTOP d 0x1000 s2 = Inr (c, s3) \<and> c \<noteq> 0 \<and> pte_of s3 c 0 \<noteq> None"
proof -
  obtain s ps where b: "kinit machine = Inr s" "kmem_ok s ps" "length ps = 3823"
    "page_aligned (kernel_data s)" "0x100000 < kernel_data s" "kernel_data s < PHYSTOP"
    by (rule machine_booted)
  have "1025 < length ps" using b(3) by simp
  then obtain d s1 ds ps' where S: "setupkvm s = Inr (d, s1)" "user_ok s1 d ps' USERTOP"
    "has_tab s1 d 0" "pte_of s1 d = kernel_space s" "ps = d # ds @ ps'" "length ds \<le> 1024"
    "same_outside (insert d (set ds)) s s1"
    using setupkvm_user [OF b(2,4,5,6)] by metis
  have len: "2797 < length ps'" using S(5,6) b(3) by simp
  have pr: "page_range (PGROUNDUP 0) 0x1000 = [0]" "page_range 0 0x1000 = [0]"
    by (simp_all add: page_range_simps PGROUNDUP_def)
  have "pte_of s1 d va = None" if "va < 0x1000" for va
    using S(4) kernel_space_user(1) [OF b(5,6)] that by (simp add: word_less_nat_alt)
  then obtain s2 where A: "allocuvm USERTOP d 0 0x1000 s1 = Inr (0x1000, s2)"
    "user_ok s2 d (drop 1 ps') USERTOP" "pte_of s2 d 0 = Some (user_pte (ps' ! 0))"
    "same_outside (set (take 1 ps') \<union> tab_pages s1 d) s1 s2"
    using allocuvm_grow_ok [OF S(2,3), of 0 "0x1000" USERTOP "[0]"] pr len by auto
  have kd: "kernel_data s2 = kernel_data s" using S(7) A(4) by (simp add: same_outside_def)
  have "pte_of s2 d va \<noteq> None" if "va < 0x1000" for va
  proof -
    have "PGROUNDDOWN va = PGROUNDDOWN 0"
      using PGROUNDDOWN_offset [of 0 va] that by (simp add: word_less_nat_alt)
    then show ?thesis using pte_of_page [of va 0 s2 d] A(3) by simp
  qed
  then have m: "\<forall>va. va < 0x1000 \<longrightarrow> pte_of s2 d va \<noteq> None" by blast
  have kd2: "page_aligned (kernel_data s2)" "0x100000 < kernel_data s2" "kernel_data s2 < PHYSTOP"
    using kd b(4,5,6) by simp_all
  have sz: "(0x1000 :: u32) \<le> USERTOP" "1025 + length (page_range 0 0x1000) < length (drop 1 ps')"
    using pr len by simp_all
  have p0: "PGROUNDDOWN 0 < 0x1000" by simp
  obtain c s3 where C: "copyuvm USERTOP d 0x1000 s2 = Inr (c, s3)" "c \<noteq> 0"
    "\<forall>va. PGROUNDDOWN va < 0x1000 \<longrightarrow> (\<exists>w q. pte_of s2 d va = Some w \<and> pte_of s3 c va = Some (user_pte q) \<and>
       q \<in> set (drop 1 ps') \<and> (\<forall>i. unat i < 4096 \<longrightarrow> mem s3 (q + i) = mem s2 (PTE_ADDR w + i)))"
    using copyuvm_isolates_child [OF A(2) kd2 sz(1) m sz(2), of USERTOP] by blast
  have "pte_of s3 c 0 \<noteq> None" using C(3) p0 by blast
  then have "\<exists>c s3. copyuvm USERTOP d 0x1000 s2 = Inr (c, s3) \<and> c \<noteq> 0 \<and> pte_of s3 c 0 \<noteq> None"
    using C(1,2) by blast
  then show ?thesis using b(1) S(1) A(1) by blast
qed

end
