(* ===== verification/Proc_State.thy ===== *)
theory Proc_State
  imports Prelude
begin

text \<open>
  The process structure of \<^verbatim>\<open>kernel/proc.h\<close> with the trap frame of
  \<^verbatim>\<open>include/x86.h\<close>. Field names carry the prefix of their structure. A pointer to a
  process, an open file or an inode is an index of the table it points into, \<open>None\<close> for
  the null pointer; \<^verbatim>\<open>p_tf\<close> and \<^verbatim>\<open>p_context\<close> hold the structures that lie on the
  kernel stack of the process.
\<close>

abbreviation (input) NPROC :: nat where "NPROC \<equiv> 64"
abbreviation (input) NPRIOR :: nat where "NPRIOR \<equiv> 4"
abbreviation (input) NOFILE :: nat where "NOFILE \<equiv> 16"
abbreviation (input) TSTARV :: u32 where "TSTARV \<equiv> 100"
abbreviation (input) MAX_SHM_KEY :: nat where "MAX_SHM_KEY \<equiv> 8"
abbreviation (input) MAX_SHM_PGNUM :: nat where "MAX_SHM_PGNUM \<equiv> 4"

datatype procstate = UNUSED | EMBRYO | SLEEPING | RUNNABLE | RUNNING | ZOMBIE

record trapframe =
  tf_edi :: u32
  tf_esi :: u32
  tf_ebp :: u32
  tf_oesp :: u32
  tf_ebx :: u32
  tf_edx :: u32
  tf_ecx :: u32
  tf_eax :: u32
  tf_gs :: u16
  tf_fs :: u16
  tf_es :: u16
  tf_ds :: u16
  tf_trapno :: u32
  tf_err :: u32
  tf_eip :: u32
  tf_cs :: u16
  tf_eflags :: u32
  tf_esp :: u32
  tf_ss :: u16

record cntxt =
  cx_edi :: u32
  cx_esi :: u32
  cx_ebx :: u32
  cx_ebp :: u32
  cx_eip :: u32

record proc =
  p_sz :: u32
  p_pgdir :: u32
  p_kstack :: u32
  p_state :: procstate
  p_pid :: int
  p_parent :: "nat option"
  p_tf :: trapframe
  p_context :: cntxt
  p_chan :: "chan option"
  p_killed :: int
  p_ofile :: "nat option list"
  p_cwd :: "nat option"
  p_name :: "u8 list"
  p_priority :: nat
  p_ticks :: u32
  p_ticks_used :: "u32 list"
  p_last_sched_time :: u32
  p_shm :: u32
  p_shm_key_mask :: u32
  p_shm_va :: "u32 list"
  p_ustack :: u32

definition zero_tf :: trapframe where
  "zero_tf = \<lparr>tf_edi = 0, tf_esi = 0, tf_ebp = 0, tf_oesp = 0, tf_ebx = 0, tf_edx = 0, tf_ecx = 0,
     tf_eax = 0, tf_gs = 0, tf_fs = 0, tf_es = 0, tf_ds = 0, tf_trapno = 0, tf_err = 0, tf_eip = 0,
     tf_cs = 0, tf_eflags = 0, tf_esp = 0, tf_ss = 0\<rparr>"

definition zero_cntxt :: cntxt where
  "zero_cntxt = \<lparr>cx_edi = 0, cx_esi = 0, cx_ebx = 0, cx_ebp = 0, cx_eip = 0\<rparr>"

text \<open>A slot of the process table at boot (static storage is zeroed).\<close>

definition zero_proc :: proc where
  "zero_proc = \<lparr>p_sz = 0, p_pgdir = 0, p_kstack = 0, p_state = UNUSED, p_pid = 0, p_parent = None,
     p_tf = zero_tf, p_context = zero_cntxt, p_chan = None, p_killed = 0,
     p_ofile = replicate NOFILE None, p_cwd = None, p_name = replicate 16 0, p_priority = 0,
     p_ticks = 0, p_ticks_used = replicate NPRIOR 0, p_last_sched_time = 0, p_shm = 0,
     p_shm_key_mask = 0, p_shm_va = replicate MAX_SHM_KEY 0, p_ustack = 0\<rparr>"

end
