(* ===== verification/Shm.thy ===== *)
theory Shm
  imports Vm_Copy Proc_State
begin

unbundle bit_operations_syntax

text \<open>
  Shared memory, the second part of \<^verbatim>\<open>kernel/vm.c\<close>. \<open>shm_tab\<close> is the table of shared
  regions; the area of a process grows down from \<^verbatim>\<open>USERTOP\<close> to \<^verbatim>\<open>proc->shm\<close>.

  The local array \<^verbatim>\<open>phys_addr\<close> of \<^verbatim>\<open>shmgetat\<close> is not initialised in the source: what
  the stack happens to hold is the argument \<open>stack\<close> of the model. The downward loop of
  \<^verbatim>\<open>deallocshm\<close> is \<open>page_range_down\<close>, the source's loop for every lower bound
  other than 0 (\<open>page_range_down_simps\<close>).
\<close>

section \<open>Operations\<close>

record shared_mem =
  shm_count :: int
  shm_num_pages :: int
  shm_phys_addr :: "u32 list"

type_synonym shm_table = "shared_mem list"

definition shm_init :: "shm_table \<Rightarrow> shm_table" where
  "shm_init tab = map (\<lambda>e. e\<lparr>shm_count := 0\<rparr>) tab"

definition shm_key_used :: "int \<Rightarrow> u32 \<Rightarrow> bool" where
  "shm_key_used key msk =
     (if key < 0 \<or> int MAX_SHM_KEY \<le> key then False
      else drop_bit (nat key) msk AND 1 \<noteq> 0)"

definition shm_add :: "int \<Rightarrow> int \<Rightarrow> u32 list \<Rightarrow> shm_table \<Rightarrow> int \<times> shm_table" where
  "shm_add key num_pages phys_addr tab =
     (if key < 0 \<or> int MAX_SHM_KEY \<le> key \<or> num_pages < 0 \<or> int MAX_SHM_PGNUM < num_pages then (-1, tab)
      else
        (0, upd (\<lambda>e. \<lparr>shm_count = 1, shm_num_pages = num_pages,
               shm_phys_addr = take (nat num_pages) phys_addr @ drop (nat num_pages) (shm_phys_addr e)\<rparr>)
             (nat key) tab))"

fun shm_add_count_loop :: "nat list \<Rightarrow> u32 \<Rightarrow> shm_table \<Rightarrow> shm_table" where
  "shm_add_count_loop [] msk tab = tab"
| "shm_add_count_loop (k # ks) msk tab =
     shm_add_count_loop ks msk
       (if shm_key_used (int k) msk then upd (\<lambda>e. e\<lparr>shm_count := shm_count e + 1\<rparr>) k tab else tab)"

definition shm_add_count :: "u32 \<Rightarrow> shm_table \<Rightarrow> shm_table" where
  "shm_add_count msk tab = shm_add_count_loop [0..<MAX_SHM_KEY] msk tab"

definition page_range_down :: "u32 \<Rightarrow> u32 \<Rightarrow> u32 list" where
  "page_range_down lo a =
     (if lo \<le> a then map (\<lambda>i. a - PGSIZE * of_nat i) [0..<Suc ((unat a - unat lo) div 4096)] else [])"

fun deallocshm_loop :: "u32 list \<Rightarrow> u32 \<Rightarrow> kmem \<Rightarrow> kmem res" where
  "deallocshm_loop [] pgdir s = Inr s"
| "deallocshm_loop (a # as) pgdir s =
     (let pte = fst (walkpgdir pgdir a False s) in
      if pte \<noteq> 0 \<and> mem s pte AND PTE_P \<noteq> 0 then
        if PTE_ADDR (mem s pte) = 0 then Inl (Panic ''kfree'')
        else deallocshm_loop as pgdir (s\<lparr>mem := (mem s)(pte := 0)\<rparr>)
      else deallocshm_loop as pgdir s)"

definition deallocshm :: "u32 \<Rightarrow> u32 \<Rightarrow> u32 \<Rightarrow> kmem \<Rightarrow> (u32 \<times> kmem) res" where
  "deallocshm pgdir old_shm new_shm s =
     (if new_shm \<le> old_shm then Inr (old_shm, s)
      else
        bindE (deallocshm_loop (page_range_down old_shm (PGROUNDDOWN (new_shm - PGSIZE))) pgdir s)
          (\<lambda>s. Inr (new_shm, s)))"

fun allocshm_loop ::
  "u32 list \<Rightarrow> nat \<Rightarrow> u32 \<Rightarrow> u32 \<Rightarrow> u32 \<Rightarrow> u32 list \<Rightarrow> kmem \<Rightarrow> (u32 \<times> u32 list \<times> kmem) res" where
  "allocshm_loop [] i pgdir old_shm new_shm phys s = Inr (new_shm, phys, s)"
| "allocshm_loop (a # as) i pgdir old_shm new_shm phys s =
     (let (p, s1) = kalloc s in
      if p = 0 then bindE (deallocshm pgdir new_shm old_shm s1) (\<lambda>(_, s). Inr (0, phys, s))
      else
        bindE (mappages pgdir a PGSIZE p (PTE_W OR PTE_U) (s1\<lparr>mem := memset_page p 0 (mem s1)\<rparr>))
          (\<lambda>(_, s). allocshm_loop as (Suc i) pgdir old_shm new_shm (phys[i := p]) s))"

definition allocshm ::
  "u32 \<Rightarrow> u32 \<Rightarrow> u32 \<Rightarrow> u32 \<Rightarrow> u32 list \<Rightarrow> kmem \<Rightarrow> (u32 \<times> u32 list \<times> kmem) res" where
  "allocshm pgdir old_shm new_shm sz phys s =
     (if old_shm AND 0xFFF \<noteq> 0 \<or> new_shm AND 0xFFF \<noteq> 0 \<or> old_shm > USERTOP \<or> new_shm < sz
      then Inr (0, phys, s)
      else allocshm_loop (page_range new_shm old_shm) 0 pgdir old_shm new_shm phys s)"

fun copyshm_loop :: "u32 list \<Rightarrow> u32 \<Rightarrow> u32 \<Rightarrow> u32 \<Rightarrow> kmem \<Rightarrow> (int \<times> kmem) res" where
  "copyshm_loop [] pgdir_src shm pgdir_dst s = Inr (0, s)"
| "copyshm_loop (i # is) pgdir_src shm pgdir_dst s =
     (let pte = fst (walkpgdir pgdir_src i False s) in
      if pte = 0 then Inl (Panic ''copyshm: pte should exist'')
      else if mem s pte AND PTE_P = 0 then Inl (Panic ''copyshm: page not present'')
      else
        bindE (mappages pgdir_dst i PGSIZE (PTE_ADDR (mem s pte)) (PTE_W OR PTE_U) s)
          (\<lambda>(r, s).
             if r < 0 then bindE (deallocshm pgdir_dst shm USERTOP s) (\<lambda>(_, s). Inr (-1, s))
             else copyshm_loop is pgdir_src shm pgdir_dst s))"

definition copyshm :: "u32 \<Rightarrow> u32 \<Rightarrow> u32 \<Rightarrow> kmem \<Rightarrow> (int \<times> kmem) res" where
  "copyshm pgdir_src shm pgdir_dst s =
     copyshm_loop (page_range shm USERTOP) pgdir_src shm pgdir_dst s"

fun mapshm_loop :: "u32 list \<Rightarrow> u32 list \<Rightarrow> u32 \<Rightarrow> u32 \<Rightarrow> kmem \<Rightarrow> (u32 \<times> kmem) res" where
  "mapshm_loop [] phys pgdir new_shm s = Inr (new_shm, s)"
| "mapshm_loop (a # as) [] pgdir new_shm s = Inl (Undefined ''mapshm: phys_addr out of range'')"
| "mapshm_loop (a # as) (p # phys) pgdir new_shm s =
     bindE (mappages pgdir a PGSIZE p (PTE_W OR PTE_U) s)
       (\<lambda>(_, s). mapshm_loop as phys pgdir new_shm s)"

definition mapshm :: "u32 \<Rightarrow> u32 \<Rightarrow> u32 \<Rightarrow> u32 \<Rightarrow> u32 list \<Rightarrow> kmem \<Rightarrow> (u32 \<times> kmem) res" where
  "mapshm pgdir old_shm new_shm sz phys s =
     (if old_shm AND 0xFFF \<noteq> 0 \<or> new_shm AND 0xFFF \<noteq> 0 \<or> old_shm > USERTOP \<or> new_shm < sz
      then Inr (0, s)
      else mapshm_loop (page_range new_shm old_shm) phys pgdir new_shm s)"

definition shmgetat ::
  "u32 list \<Rightarrow> int \<Rightarrow> int \<Rightarrow> proc \<Rightarrow> shm_table \<Rightarrow> kmem \<Rightarrow> (u32 \<times> proc \<times> shm_table \<times> kmem) res" where
  "shmgetat stack key num_pages p tab s =
     (if key < 0 \<or> int MAX_SHM_KEY \<le> key \<or> num_pages < 0 \<or> int MAX_SHM_PGNUM < num_pages
      then Inr (0xFFFFFFFF, p, tab, s)
      else if drop_bit (nat key) (p_shm_key_mask p) AND 1 \<noteq> 0 then Inr (p_shm_va p ! nat key, p, tab, s)
      else
        let k = nat key;
            attach = (\<lambda>shm tab s. Inr (shm,
              p\<lparr>p_shm_va := (p_shm_va p)[k := shm], p_shm := shm,
                p_shm_key_mask := p_shm_key_mask p OR push_bit k 1\<rparr>, tab, s))
        in
        if shm_count (tab ! k) = 0 then
          bindE (allocshm (p_pgdir p) (p_shm p) (p_shm p - of_int num_pages * PGSIZE) (p_sz p) stack s)
            (\<lambda>(shm, phys, s).
               if shm = 0 then Inr (0xFFFFFFFF, p, tab, s)
               else attach shm (snd (shm_add key num_pages phys tab)) s)
        else
          let phys = take (nat num_pages) (shm_phys_addr (tab ! k)) @ drop (nat num_pages) stack;
              n = shm_num_pages (tab ! k) in
          bindE (mapshm (p_pgdir p) (p_shm p) (p_shm p - of_int n * PGSIZE) (p_sz p) phys s)
            (\<lambda>(shm, s).
               if shm = 0 then Inr (0xFFFFFFFF, p, tab, s)
               else attach shm (upd (\<lambda>e. e\<lparr>shm_count := shm_count e + 1\<rparr>) k tab) s))"

fun kfree_all :: "u32 list \<Rightarrow> kmem \<Rightarrow> kmem res" where
  "kfree_all [] s = Inr s"
| "kfree_all (p # ps) s = bindE (kfree p s) (kfree_all ps)"

definition shm_rm :: "int \<Rightarrow> shm_table \<Rightarrow> kmem \<Rightarrow> (int \<times> shm_table \<times> kmem) res" where
  "shm_rm key tab s =
     (if key < 0 \<or> int MAX_SHM_KEY \<le> key then Inr (-1, tab, s)
      else
        let e = tab ! nat key in
        bindE (kfree_all (take (nat (shm_num_pages e)) (shm_phys_addr e)) s)
          (\<lambda>s. Inr (0, upd (\<lambda>e. e\<lparr>shm_count := 0\<rparr>) (nat key) tab, s)))"

fun shm_release_loop :: "nat list \<Rightarrow> u32 \<Rightarrow> shm_table \<Rightarrow> kmem \<Rightarrow> (shm_table \<times> kmem) res" where
  "shm_release_loop [] msk tab s = Inr (tab, s)"
| "shm_release_loop (k # ks) msk tab s =
     (if shm_key_used (int k) msk then
        let tab = upd (\<lambda>e. e\<lparr>shm_count := shm_count e - 1\<rparr>) k tab in
        if shm_count (tab ! k) = 0 then
          bindE (shm_rm (int k) tab s) (\<lambda>(_, tab, s). shm_release_loop ks msk tab s)
        else shm_release_loop ks msk tab s
      else shm_release_loop ks msk tab s)"

definition shm_release :: "u32 \<Rightarrow> u32 \<Rightarrow> u32 \<Rightarrow> shm_table \<Rightarrow> kmem \<Rightarrow> (int \<times> shm_table \<times> kmem) res" where
  "shm_release pgdir shm key_mask tab s =
     bindE (deallocshm pgdir shm USERTOP s) (\<lambda>(_, s).
     bindE (shm_release_loop [0..<MAX_SHM_KEY] key_mask tab s) (\<lambda>(tab, s).
     Inr (0, tab, s)))"

definition shm_refcount :: "int \<Rightarrow> shm_table \<Rightarrow> int" where
  "shm_refcount key tab =
     (if key < 0 \<or> int MAX_SHM_KEY \<le> key then -1 else shm_count (tab ! nat key))"

section \<open>Loops\<close>

lemma page_range_down_simps:
  assumes "page_aligned a" "0 < lo"
  shows "page_range_down lo a = (if lo \<le> a then a # page_range_down lo (a - PGSIZE) else [])"
proof (cases "lo \<le> a")
  case True
  then have le: "unat lo \<le> unat a" by (simp add: word_le_nat_alt)
  have lo: "0 < unat lo" using assms(2) by (simp add: word_less_nat_alt)
  obtain k where k: "unat a = 4096 * k" using page_aligned_unatE [OF assms(1)] by metis
  have ge: "4096 \<le> unat a" using k lo le by (cases k) auto
  have un: "unat (a - PGSIZE) = unat a - 4096" using ge by (subst unat_sub_small) simp_all
  have step: "a - PGSIZE * of_nat (Suc i) = a - PGSIZE - PGSIZE * of_nat i" for i
    by (simp add: algebra_simps)
  show ?thesis
  proof (cases "lo \<le> a - PGSIZE")
    case True
    then have "unat lo \<le> unat a - 4096" by (simp add: word_le_nat_alt un)
    then have d: "(unat a - unat lo) div 4096 = Suc ((unat (a - PGSIZE) - unat lo) div 4096)"
      using ge le_div_geq [of 4096 "unat a - unat lo"] unfolding un by (simp add: diff_commute)
    have "[0..<Suc ((unat a - unat lo) div 4096)] =
        0 # map Suc [0..<Suc ((unat (a - PGSIZE) - unat lo) div 4096)]"
      unfolding d by (simp add: upt_conv_Cons map_Suc_upt del: upt_Suc)
    then show ?thesis
      using True \<open>lo \<le> a\<close> unfolding page_range_down_def
      by (simp only: if_True list.map map_map o_def step) simp
  next
    case False
    then have "unat a - unat lo < 4096" using le ge by (simp add: word_le_nat_alt un)
    with False \<open>lo \<le> a\<close> show ?thesis by (simp add: page_range_down_def)
  qed
next
  case False
  then show ?thesis by (simp add: page_range_down_def)
qed

lemma page_range_shift:
  assumes "n < 1048576" "4096 * n \<le> unat b"
  shows "page_range (b - PGSIZE * of_nat n) b = map (\<lambda>i. b - PGSIZE * of_nat n + PGSIZE * of_nat i) [0..<n]"
proof -
  have "unat (b - PGSIZE * of_nat n) = unat b - 4096 * n"
    using assms by (subst unat_sub_small) (simp_all add: unat_pages)
  then have "(unat b - unat (b - PGSIZE * of_nat n) + 4095) div 4096 = n" using assms(2) by simp
  then show ?thesis by (simp add: page_range_def)
qed

section \<open>Attaching\<close>

lemma mapshm_loop_spec:
  assumes "pt_ok s pgdir ps" "distinct as" "length as \<le> length phys"
    and "\<forall>a\<in>set as. page_aligned a \<and> has_tab s pgdir (PDX a) \<and> pte_of s pgdir a = None"
  shows "\<exists>s'. mapshm_loop as phys pgdir new_shm s = Inr (new_shm, s') \<and> pt_ok s' pgdir ps \<and>
     (\<forall>k<length as. pte_of s' pgdir (as ! k) = Some (user_pte (phys ! k))) \<and>
     (\<forall>va. PGROUNDDOWN va \<notin> set as \<longrightarrow> pte_of s' pgdir va = pte_of s pgdir va) \<and>
     same_outside (tab_pages s pgdir) s s' \<and> freelist s' = freelist s"
  using assms
proof (induction as arbitrary: s phys)
  case Nil
  then show ?case by auto
next
  case (Cons a as)
  then obtain q qs where ph: "phys = q # qs" by (cases phys) auto
  have a: "page_aligned a" "has_tab s pgdir (PDX a)" "pte_of s pgdir a = None" using Cons.prems(4) by auto
  define s1 where "s1 = set_pte pgdir a (user_pte q) s"
  note S = set_pte_spec [OF Cons.prems(1) a(2) s1_def]
  have m: "mappages pgdir a PGSIZE q (PTE_W OR PTE_U) s = Inr (0, s1)"
    using map_page_has_tab [OF Cons.prems(1) a(2,3)] by (simp add: mappages_page a(1) s1_def user_pte_def)
  have "user_pte q AND PTE_P \<noteq> 0"
    using present_or [of "q OR (PTE_W OR PTE_U)"] by (simp add: user_pte_def or.assoc)
  then have pte: "pte_of s1 pgdir = as_upd a (user_pte q) (pte_of s pgdir)"
    using S(4) by (auto simp: as_upd_def fun_eq_iff)
  have "\<forall>b\<in>set as. page_aligned b \<and> has_tab s1 pgdir (PDX b) \<and> pte_of s1 pgdir b = None"
    using Cons.prems(2,4) a(1) by (auto simp: pte S(5) as_upd_def)
  then obtain s' where R: "mapshm_loop as qs pgdir new_shm s1 = Inr (new_shm, s')" "pt_ok s' pgdir ps"
     "\<forall>k<length as. pte_of s' pgdir (as ! k) = Some (user_pte (qs ! k))"
     "\<forall>va. PGROUNDDOWN va \<notin> set as \<longrightarrow> pte_of s' pgdir va = pte_of s1 pgdir va"
     "same_outside (tab_pages s1 pgdir) s1 s'" "freelist s' = freelist s1"
    using Cons.IH [OF S(1), of qs] Cons.prems(2,3) ph by auto
  have "pte_of s' pgdir ((a # as) ! k) = Some (user_pte (phys ! k))" if "k < length (a # as)" for k
    using that R(3,4) Cons.prems(2) a(1) by (cases k) (auto simp: ph pte as_upd_def)
  moreover have "pte_of s' pgdir va = pte_of s pgdir va" if "PGROUNDDOWN va \<notin> set (a # as)" for va
    using that R(4) a(1) by (auto simp: pte as_upd_def)
  moreover have "same_outside (tab_pages s pgdir) s s'"
    using tab_pagesI [OF a(2)] by (intro same_outside_trans [OF S(3) R(5)]) (auto simp: S(2))
  moreover have "freelist s' = freelist s" using R(6) by (simp add: s1_def set_pte_def)
  ultimately show ?case using m R(1,2) by (intro exI [of _ s']) (simp add: ph)
qed


text \<open>The pages of a region of \<open>n\<close> pages below \<open>shm\<close>, as the attach loops visit them.\<close>

lemma region_pages:
  assumes "page_aligned shm" "shm \<le> USERTOP" "n \<le> 4" "4096 * n \<le> unat shm"
    and tab: "has_tab s pgdir 0"
    and un: "\<forall>a. shm - PGSIZE * of_nat n \<le> a \<and> a < shm \<longrightarrow> pte_of s pgdir a = None"
    and as: "as = page_range (shm - PGSIZE * of_nat n) shm"
  shows "distinct as" "length as = n" "k < n \<Longrightarrow> as ! k = shm - PGSIZE * of_nat n + PGSIZE * of_nat k"
    "\<forall>a\<in>set as. page_aligned a \<and> has_tab s pgdir (PDX a) \<and> pte_of s pgdir a = None"
    "page_aligned (shm - PGSIZE * of_nat n)"
    "va \<in> set as \<longleftrightarrow> page_aligned va \<and> shm - PGSIZE * of_nat n \<le> va \<and> va < shm"
proof -
  have n: "unat shm \<le> 4294963200" using assms(2) by (simp add: word_le_nat_alt)
  have "page_aligned (PGSIZE * of_nat n)" using page_aligned_pages [of 0 n] by simp
  then show al: "page_aligned (shm - PGSIZE * of_nat n)" using assms(1) by (rule page_aligned_diff [rotated])
  show "distinct as" unfolding as by (rule page_range_distinct [OF n])
  show m: "va \<in> set as \<longleftrightarrow> page_aligned va \<and> shm - PGSIZE * of_nat n \<le> va \<and> va < shm" for va
    unfolding as by (rule page_range_mem [OF al n])
  have sh: "as = map (\<lambda>i. shm - PGSIZE * of_nat n + PGSIZE * of_nat i) [0..<n]"
    unfolding as using assms(3,4) by (intro page_range_shift) simp_all
  then show "length as = n" "k < n \<Longrightarrow> as ! k = shm - PGSIZE * of_nat n + PGSIZE * of_nat k" by simp_all
  show "\<forall>a\<in>set as. page_aligned a \<and> has_tab s pgdir (PDX a) \<and> pte_of s pgdir a = None"
  proof
    fix a assume a: "a \<in> set as"
    then have "a < USERTOP" using m assms(2) by (auto intro: less_le_trans)
    then have "PDX a = 0" by (intro PDX_user) (simp add: word_less_nat_alt)
    then show "page_aligned a \<and> has_tab s pgdir (PDX a) \<and> pte_of s pgdir a = None"
      using a m tab un by simp
  qed
qed

lemma key_bit: "drop_bit k (m :: u32) AND 1 \<noteq> 0 \<longleftrightarrow> bit m k"
  by (simp add: and_one_eq odd_iff_mod_2_eq_one bit_iff_odd_drop_bit)

text \<open>
  C23. Attaching to an existing region (\<^verbatim>\<open>shmgetat\<close>, vm.c): the whole region of \<open>n\<close>
  pages is mapped user-writable just below the process's shared area, the address is
  returned and recorded with the key bit, the region's count grows by one, and no other
  mapping changes. The frame behind page \<open>k\<close> is the region's frame only when
  \<open>k < num_pages\<close>, the count the caller passed; beyond that it is whatever the
  uninitialised array \<^verbatim>\<open>phys_addr\<close> held on the kernel stack.
\<close>

theorem shmgetat_attach:
  assumes ok: "pt_ok s (p_pgdir p) ps" and tab: "has_tab s (p_pgdir p) 0"
    and key: "0 \<le> key" "key < 8" and np: "0 \<le> num_pages" "num_pages \<le> 4"
    and new: "\<not> bit (p_shm_key_mask p) (nat key)" and live: "shm_count (tab ! nat key) \<noteq> 0"
    and n: "shm_num_pages (tab ! nat key) = int n" "n \<le> 4"
    and len: "length stack = 4" "length (shm_phys_addr (tab ! nat key)) = 4"
    and shm: "page_aligned (p_shm p)" "p_shm p \<le> USERTOP" "unat (p_sz p) + 4096 * n \<le> unat (p_shm p)"
      "0 < p_shm p - PGSIZE * of_nat n"
    and un: "\<forall>a. p_shm p - PGSIZE * of_nat n \<le> a \<and> a < p_shm p \<longrightarrow> pte_of s (p_pgdir p) a = None"
  shows "let va = p_shm p - PGSIZE * of_nat n;
       phys = take (nat num_pages) (shm_phys_addr (tab ! nat key)) @ drop (nat num_pages) stack in
     \<exists>s'. shmgetat stack key num_pages p tab s =
         Inr (va, p\<lparr>p_shm_va := (p_shm_va p)[nat key := va], p_shm := va,
                    p_shm_key_mask := p_shm_key_mask p OR push_bit (nat key) 1\<rparr>,
              upd (\<lambda>e. e\<lparr>shm_count := shm_count e + 1\<rparr>) (nat key) tab, s') \<and>
       pt_ok s' (p_pgdir p) ps \<and>
       (\<forall>k<n. pte_of s' (p_pgdir p) (va + PGSIZE * of_nat k) = Some (user_pte (phys ! k))) \<and>
       (\<forall>a. \<not> (va \<le> PGROUNDDOWN a \<and> PGROUNDDOWN a < p_shm p) \<longrightarrow>
          pte_of s' (p_pgdir p) a = pte_of s (p_pgdir p) a) \<and>
       same_outside (tab_pages s (p_pgdir p)) s s'"
proof -
  let ?va = "p_shm p - PGSIZE * of_nat n"
  let ?phys = "take (nat num_pages) (shm_phys_addr (tab ! nat key)) @ drop (nat num_pages) stack"
  define as where "as = page_range ?va (p_shm p)"
  have le: "4096 * n \<le> unat (p_shm p)" using shm(3) by linarith
  have k: "n < 1048576" using n(2) by simp
  have va: "unat ?va = unat (p_shm p) - 4096 * n"
    using le k by (subst unat_sub_small) (simp_all add: unat_pages)
  then have sz: "\<not> ?va < p_sz p" using shm(3) by (simp add: word_less_nat_alt)
  note R = region_pages [OF shm(1,2) n(2) le tab un as_def]
  have R: "distinct as" "length as = n" "\<forall>k<n. as ! k = ?va + PGSIZE * of_nat k"
    "\<forall>a\<in>set as. page_aligned a \<and> has_tab s (p_pgdir p) (PDX a) \<and> pte_of s (p_pgdir p) a = None"
    "page_aligned ?va" "\<And>x. x \<in> set as \<longleftrightarrow> page_aligned x \<and> ?va \<le> x \<and> x < p_shm p"
    using R sz by auto
  have lp: "length ?phys = 4" using len np by simp
  obtain s' where M: "mapshm_loop as ?phys (p_pgdir p) ?va s = Inr (?va, s')" "pt_ok s' (p_pgdir p) ps"
     "\<forall>k<length as. pte_of s' (p_pgdir p) (as ! k) = Some (user_pte (?phys ! k))"
     "\<forall>va. PGROUNDDOWN va \<notin> set as \<longrightarrow> pte_of s' (p_pgdir p) va = pte_of s (p_pgdir p) va"
     "same_outside (tab_pages s (p_pgdir p)) s s'"
    using mapshm_loop_spec [OF ok R(1), of ?phys ?va] lp R(2,4) n(2) by auto
  have "mapshm (p_pgdir p) (p_shm p) ?va (p_sz p) ?phys s = Inr (?va, s')"
    using shm(1,2) R(5) sz M(1) by (simp add: mapshm_def as_def page_aligned_def not_less [symmetric])
  moreover have ne: "?va \<noteq> 0" using shm(4) by auto
  ultimately have "shmgetat stack key num_pages p tab s =
         Inr (?va, p\<lparr>p_shm_va := (p_shm_va p)[nat key := ?va], p_shm := ?va,
                    p_shm_key_mask := p_shm_key_mask p OR push_bit (nat key) 1\<rparr>,
              upd (\<lambda>e. e\<lparr>shm_count := shm_count e + 1\<rparr>) (nat key) tab, s')"
    using key np new live n ne unfolding shmgetat_def key_bit
    by (simp add: Let_def mult.commute [of "of_nat n" "4096 :: u32"])
  moreover have "pte_of s' (p_pgdir p) (?va + PGSIZE * of_nat k) = Some (user_pte (?phys ! k))" if "k < n" for k
    using M(3) R(2,3) that by metis
  moreover have "pte_of s' (p_pgdir p) a = pte_of s (p_pgdir p) a"
    if "\<not> (?va \<le> PGROUNDDOWN a \<and> PGROUNDDOWN a < p_shm p)" for a
    using M(4) R(6) that by blast
  ultimately show ?thesis using M(2,5) unfolding Let_def by blast
qed


theorem shmgetat_attach_witness:
  "\<exists>s'. shmgetat [1, 0x5000, 3, 4] 2 1
       (zero_proc\<lparr>p_pgdir := 0xFFF000, p_shm := USERTOP, p_sz := 0x3000\<rparr>)
       (replicate 8 \<lparr>shm_count = 1, shm_num_pages = 2, shm_phys_addr = [0xFFB000, 0xFFA000, 0, 0]\<rparr>)
       demo_space =
     Inr (0x9E000,
       zero_proc\<lparr>p_pgdir := 0xFFF000, p_shm := 0x9E000, p_sz := 0x3000,
         p_shm_va := [0, 0, 0x9E000, 0, 0, 0, 0, 0], p_shm_key_mask := 4\<rparr>,
       upd (\<lambda>e. e\<lparr>shm_count := shm_count e + 1\<rparr>) 2
         (replicate 8 \<lparr>shm_count = 1, shm_num_pages = 2, shm_phys_addr = [0xFFB000, 0xFFA000, 0, 0]\<rparr>), s') \<and>
     pte_of s' 0xFFF000 0x9E000 = Some 0xFFB007 \<and> pte_of s' 0xFFF000 0x9F000 = Some 0x5007"
proof -
  let ?p = "zero_proc\<lparr>p_pgdir := 0xFFF000, p_shm := USERTOP, p_sz := 0x3000\<rparr>"
  let ?e = "\<lparr>shm_count = 1, shm_num_pages = 2, shm_phys_addr = [0xFFB000, 0xFFA000, 0, 0]\<rparr>"
  have t: "(replicate 8 ?e) ! nat 2 = ?e" by simp
  have f: "p_pgdir ?p = 0xFFF000" "p_shm ?p = USERTOP" "p_sz ?p = 0x3000" "p_shm_key_mask ?p = 0"
    "p_shm_va ?p = replicate 8 0"
    by (simp_all add: zero_proc_def)
  have tb: "has_tab demo_space 0xFFF000 0" by (simp add: demo_space_tab)
  note W = shmgetat_attach [of demo_space ?p, unfolded f, OF user_okD(1) [OF demo_space_ok(1)] tb,
      of 2 1 "replicate 8 ?e" 2 "[1, 0x5000, 3, 4]", unfolded t]
  have va: "USERTOP - PGSIZE * of_nat 2 = 0x9E000" by simp
  have "let va = 0x9E000; phys = take (nat 1) [0xFFB000, 0xFFA000, 0, 0] @ drop (nat 1) [1, 0x5000, 3, 4] in
     \<exists>s'. shmgetat [1, 0x5000, 3, 4] 2 1 ?p (replicate 8 ?e) demo_space =
         Inr (va, ?p\<lparr>p_shm_va := (replicate 8 0)[nat 2 := va], p_shm := va,
                    p_shm_key_mask := 0 OR push_bit (nat 2) 1\<rparr>,
              upd (\<lambda>e. e\<lparr>shm_count := shm_count e + 1\<rparr>) (nat 2) (replicate 8 ?e), s') \<and>
       pt_ok s' 0xFFF000 [0xFFD000, 0xFFC000] \<and>
       (\<forall>k<2. pte_of s' 0xFFF000 (va + PGSIZE * of_nat k) = Some (user_pte (phys ! k))) \<and>
       (\<forall>a. \<not> (va \<le> PGROUNDDOWN a \<and> PGROUNDDOWN a < USERTOP) \<longrightarrow>
          pte_of s' 0xFFF000 a = pte_of demo_space 0xFFF000 a) \<and>
       same_outside (tab_pages demo_space 0xFFF000) demo_space s'"
    by (rule W [unfolded va shared_mem.simps]) (simp_all add: demo_space_ok(2) page_aligned_def)
  then obtain s' where E: "shmgetat [1, 0x5000, 3, 4] 2 1 ?p (replicate 8 ?e) demo_space =
         Inr (0x9E000, ?p\<lparr>p_shm_va := (replicate 8 0)[nat 2 := 0x9E000], p_shm := 0x9E000,
                    p_shm_key_mask := 0 OR push_bit (nat 2) 1\<rparr>,
              upd (\<lambda>e. e\<lparr>shm_count := shm_count e + 1\<rparr>) (nat 2) (replicate 8 ?e), s')"
    and M: "\<forall>k<2. pte_of s' 0xFFF000 (0x9E000 + PGSIZE * of_nat k) =
       Some (user_pte ((take (nat 1) [0xFFB000, 0xFFA000, 0, 0] @ drop (nat 1) [1, 0x5000, 3, 4]) ! k))"
    unfolding Let_def by blast
  have "pte_of s' 0xFFF000 0x9E000 = Some 0xFFB007" "pte_of s' 0xFFF000 0x9F000 = Some 0x5007"
    using M [rule_format, of 0] M [rule_format, of 1] by (simp_all add: user_pte_def)
  moreover have "(replicate 8 0)[nat 2 := (0x9E000 :: u32)] = [0, 0, 0x9E000, 0, 0, 0, 0, 0]"
    by (simp add: eval_nat_numeral)
  ultimately show ?thesis using E by (intro exI [of _ s']) simp
qed

section \<open>Reference counts\<close>

text \<open>
  The contract of the table: the count of a key is the number of address spaces whose key
  mask has it. \<open>ms\<close> lists the masks of the address spaces (the threads of one process
  share one).
\<close>

definition shm_users :: "u32 list \<Rightarrow> nat \<Rightarrow> int" where
  "shm_users ms k = int (length (filter (\<lambda>m. shm_key_used (int k) m) ms))"

definition shm_counts :: "shm_table \<Rightarrow> u32 list \<Rightarrow> bool" where
  "shm_counts tab ms \<longleftrightarrow> length tab = MAX_SHM_KEY \<and> (\<forall>k<MAX_SHM_KEY. shm_count (tab ! k) = shm_users ms k)"

definition shm_pages :: "shared_mem \<Rightarrow> u32 list" where
  "shm_pages e = take (nat (shm_num_pages e)) (shm_phys_addr e)"

text \<open>The frames of the live regions are valid, not free and belong to one region only.\<close>

definition shm_frames_ok :: "shm_table \<Rightarrow> kmem \<Rightarrow> u32 list \<Rightarrow> bool" where
  "shm_frames_ok tab s ps \<longleftrightarrow>
     kmem_ok s ps \<and>
     (\<forall>k<length tab. 0 < shm_count (tab ! k) \<longrightarrow>
        distinct (shm_pages (tab ! k)) \<and> (\<forall>p\<in>set (shm_pages (tab ! k)). valid_page s p \<and> p \<notin> set ps)) \<and>
     (\<forall>j<length tab. \<forall>k<length tab. j \<noteq> k \<and> 0 < shm_count (tab ! j) \<and> 0 < shm_count (tab ! k) \<longrightarrow>
        set (shm_pages (tab ! j)) \<inter> set (shm_pages (tab ! k)) = {})"

lemma shm_key_used_bit: "k < 8 \<Longrightarrow> shm_key_used (int k) m \<longleftrightarrow> bit m k"
  by (simp add: shm_key_used_def key_bit)

lemma shm_users_Cons: "shm_users (m # ms) k = (if shm_key_used (int k) m then 1 else 0) + shm_users ms k"
  by (simp add: shm_users_def)

lemma shm_users_nonneg [simp]: "0 \<le> shm_users ms k"
  by (simp add: shm_users_def)

lemma shm_add_count_loop_nth:
  "distinct ks \<Longrightarrow> j < length tab \<Longrightarrow>
   shm_add_count_loop ks m tab ! j =
     (if j \<in> set ks \<and> shm_key_used (int j) m then (tab ! j)\<lparr>shm_count := shm_count (tab ! j) + 1\<rparr> else tab ! j)"
  "length (shm_add_count_loop ks m tab) = length tab"
  by (induction ks arbitrary: tab) (auto simp: nth_upd)

lemma shm_add_count_spec:
  assumes "shm_counts tab ms"
  shows "shm_counts (shm_add_count m tab) (m # ms)"
  using assms
  by (auto simp: shm_counts_def shm_add_count_def shm_add_count_loop_nth shm_users_Cons)

lemma kfree_all_ok:
  assumes "kmem_ok s ps" "distinct xs" "\<forall>p\<in>set xs. valid_page s p \<and> p \<notin> set ps"
  shows "\<exists>s'. kfree_all xs s = Inr s' \<and> kmem_ok s' (rev xs @ ps) \<and> kernel_end s' = kernel_end s \<and>
    same_outside (set xs) s s'"
  using assms
proof (induction xs arbitrary: s ps)
  case Nil
  then show ?case by simp
next
  case (Cons x xs)
  obtain s1 where k: "kfree x s = Inr s1" "kmem_ok s1 (x # ps)"
    using kfree_push [OF Cons.prems(1)] Cons.prems(3) by auto
  note K = kfree_state [OF k(1)]
  have vp: "valid_page s1 = valid_page s" using K by (simp add: fun_eq_iff valid_page_def)
  have "\<forall>p\<in>set xs. valid_page s1 p \<and> p \<notin> set (x # ps)"
    using Cons.prems(2,3) by (auto simp: vp)
  then obtain s' where R: "kfree_all xs s1 = Inr s'" "kmem_ok s' (rev xs @ x # ps)"
      "kernel_end s' = kernel_end s1" "same_outside (set xs) s1 s'"
    using Cons.IH [OF k(2)] Cons.prems(2) by auto
  have "same_outside {x} s s1" using K by (auto intro: same_outsideI)
  then have "same_outside (set (x # xs)) s s'" using same_outside_trans [OF _ R(4), of "{x}" s "set (x # xs)"] by auto
  then show ?case using k(1) R(1,2,3) K by auto
qed

text \<open>Dropping one reference to key \<open>k\<close>: the body of the loop of \<open>shm_release\<close>.\<close>

definition shm_drop :: "nat \<Rightarrow> shm_table \<Rightarrow> shm_table" where
  "shm_drop k tab = upd (\<lambda>e. e\<lparr>shm_count := shm_count e - 1\<rparr>) k tab"

lemma shm_drop_nth: "length (shm_drop k tab) = length tab"
  "j < length tab \<Longrightarrow> shm_drop k tab ! j =
     (if j = k then (tab ! j)\<lparr>shm_count := shm_count (tab ! j) - 1\<rparr> else tab ! j)"
  by (auto simp: shm_drop_def nth_upd)

lemma shm_release_step:
  assumes k: "k < 8" "length tab = 8" and used: "shm_key_used (int k) m" and pos: "0 < shm_count (tab ! k)"
    and ok: "shm_frames_ok tab s ps"
  shows "\<exists>s' fs. shm_release_loop (k # ks) m tab s = shm_release_loop ks m (shm_drop k tab) s' \<and>
     shm_frames_ok (shm_drop k tab) s' (fs @ ps) \<and>
     set fs = (if shm_count (tab ! k) = 1 then set (shm_pages (tab ! k)) else {}) \<and>
     same_outside (set fs) s s'"
proof (cases "shm_count (tab ! k) = 1")
  case False
  then have "shm_frames_ok (shm_drop k tab) s ps"
    using ok k pos unfolding shm_frames_ok_def by (auto simp: shm_drop_nth shm_pages_def)
  moreover have "shm_release_loop (k # ks) m tab s = shm_release_loop ks m (shm_drop k tab) s"
    using False used k by (simp add: shm_drop_def [symmetric] shm_drop_nth Let_def)
  ultimately show ?thesis using False by (auto intro!: exI [of _ s] exI [of _ "[]"])
next
  case True
  let ?xs = "shm_pages (tab ! k)"
  have xs: "distinct ?xs" "\<forall>p\<in>set ?xs. valid_page s p \<and> p \<notin> set ps" "kmem_ok s ps"
    using ok k True by (auto simp: shm_frames_ok_def)
  obtain s' where f: "kfree_all ?xs s = Inr s'" "kmem_ok s' (rev ?xs @ ps)" "kernel_end s' = kernel_end s"
      "same_outside (set ?xs) s s'"
    using kfree_all_ok [OF xs(3,1,2)] by blast
  have vp: "valid_page s' = valid_page s" using f(3) by (simp add: fun_eq_iff valid_page_def)
  have "upd (\<lambda>e. e\<lparr>shm_count := 0\<rparr>) k (shm_drop k tab) = shm_drop k tab"
    using True k by (auto simp: list_eq_iff_nth_eq nth_upd shm_drop_nth)
  then have "shm_release_loop (k # ks) m tab s = shm_release_loop ks m (shm_drop k tab) s'"
    using True used k f(1) by (simp add: shm_drop_def [symmetric] shm_drop_nth Let_def shm_rm_def shm_pages_def)
  moreover have "shm_frames_ok (shm_drop k tab) s' (rev ?xs @ ps)"
  proof -
    have "p \<notin> set ?xs" if "j < 8" "j \<noteq> k" "0 < shm_count (tab ! j)" "p \<in> set (shm_pages (tab ! j))" for j p
      using ok that k True unfolding shm_frames_ok_def by fastforce
    moreover have D: "shm_pages (shm_drop k tab ! j) = shm_pages (tab ! j)"
        "0 < shm_count (shm_drop k tab ! j) \<longleftrightarrow> j \<noteq> k \<and> 0 < shm_count (tab ! j)" if "j < 8" for j
      using that k True by (simp_all add: shm_drop_nth shm_pages_def)
    have P: "distinct (shm_pages (tab ! j)) \<and> (\<forall>p\<in>set (shm_pages (tab ! j)). valid_page s p \<and> p \<notin> set ps)"
      if "j < 8" "0 < shm_count (tab ! j)" for j using ok that k(2) by (simp add: shm_frames_ok_def)
    have Q: "set (shm_pages (tab ! i)) \<inter> set (shm_pages (tab ! j)) = {}"
      if "i < 8" "j < 8" "i \<noteq> j" "0 < shm_count (tab ! i)" "0 < shm_count (tab ! j)" for i j
      using ok that k(2) by (simp add: shm_frames_ok_def)
    ultimately show ?thesis
      unfolding shm_frames_ok_def shm_drop_nth(1) k(2) vp using f(2) P Q by (simp add: D)
  qed
  ultimately show ?thesis using f(4) True by (intro exI [of _ s'] exI [of _ "rev ?xs"]) simp
qed

lemma shm_release_loop_spec:
  assumes "distinct ks" "set ks \<subseteq> {..<8}" "length tab = 8" "shm_frames_ok tab s ps"
    and "\<forall>k\<in>set ks. shm_key_used (int k) m \<longrightarrow> 0 < shm_count (tab ! k)"
  shows "\<exists>s' fs. shm_release_loop ks m tab s = Inr (fold shm_drop (filter (\<lambda>k. shm_key_used (int k) m) ks) tab, s') \<and>
     shm_frames_ok (fold shm_drop (filter (\<lambda>k. shm_key_used (int k) m) ks) tab) s' (fs @ ps) \<and>
     set fs = (\<Union>k\<in>{k \<in> set ks. shm_key_used (int k) m \<and> shm_count (tab ! k) = 1}. set (shm_pages (tab ! k))) \<and>
     same_outside (set fs) s s'"
  using assms
proof (induction ks arbitrary: tab s ps)
  case Nil
  then show ?case by (auto intro!: exI [of _ "[]"])
next
  case (Cons k ks)
  let ?u = "\<lambda>k. shm_key_used (int k) m"
  let ?F = "\<lambda>ks tab. \<Union>k\<in>{k \<in> set ks. ?u k \<and> shm_count (tab ! k) = 1}. set (shm_pages (tab ! k))"
  show ?case
  proof (cases "?u k")
    case False
    have "{j \<in> set (k # ks). ?u j \<and> shm_count (tab ! j) = 1} = {j \<in> set ks. ?u j \<and> shm_count (tab ! j) = 1}"
      using False by auto
    then have "?F (k # ks) tab = ?F ks tab" by (simp only:)
    then show ?thesis using False Cons.IH [OF _ _ Cons.prems(3,4)] Cons.prems by simp
  next
    case True
    have k: "k < 8" "k \<notin> set ks" "0 < shm_count (tab ! k)" using Cons.prems True by auto
    obtain s1 fs1 where 1: "shm_release_loop (k # ks) m tab s = shm_release_loop ks m (shm_drop k tab) s1"
       "shm_frames_ok (shm_drop k tab) s1 (fs1 @ ps)"
       "set fs1 = (if shm_count (tab ! k) = 1 then set (shm_pages (tab ! k)) else {})"
       "same_outside (set fs1) s s1"
      using shm_release_step [OF k(1) Cons.prems(3) True k(3) Cons.prems(4)] by blast
    have same: "shm_drop k tab ! j = tab ! j" if "j \<in> set ks" for j
      using that k(2) Cons.prems(2,3) by (subst shm_drop_nth) auto
    obtain s' fs where 2: "shm_release_loop ks m (shm_drop k tab) s1 =
          Inr (fold shm_drop (filter ?u ks) (shm_drop k tab), s')"
       "shm_frames_ok (fold shm_drop (filter ?u ks) (shm_drop k tab)) s' (fs @ fs1 @ ps)"
       "set fs = ?F ks (shm_drop k tab)" "same_outside (set fs) s1 s'"
      using Cons.IH [OF _ _ _ 1(2)] Cons.prems(1,2,3,5) same by (auto simp: shm_drop_nth)
    have "?F ks (shm_drop k tab) = ?F ks tab" using same by auto
    moreover have "?F (k # ks) tab = set fs1 \<union> ?F ks tab" using True 1(3) by auto
    ultimately have "set (fs @ fs1) = ?F (k # ks) tab" using 2(3) by auto
    moreover have "same_outside (set (fs @ fs1)) s s'" by (rule same_outside_trans [OF 1(4) 2(4)]) auto
    ultimately show ?thesis using 1(1) 2(1,2) True by (intro exI [of _ s'] exI [of _ "fs @ fs1"]) simp
  qed
qed

lemma fold_shm_drop:
  "length (fold shm_drop ks tab) = length tab"
  "distinct ks \<Longrightarrow> j < length tab \<Longrightarrow> fold shm_drop ks tab ! j =
     (if j \<in> set ks then (tab ! j)\<lparr>shm_count := shm_count (tab ! j) - 1\<rparr> else tab ! j)"
  by (induction ks arbitrary: tab) (auto simp: shm_drop_nth)

lemma shmgetat_counts:
  assumes "shm_counts tab (p_shm_key_mask p # ms)"
    and e: "shmgetat stack key num_pages p tab s = Inr (va, p', tab', s')"
  shows "shm_counts tab' (p_shm_key_mask p' # ms)"
proof (cases "p_shm_key_mask p' = p_shm_key_mask p \<and> tab' = tab")
  case True
  then show ?thesis using assms(1) by simp
next
  case False
  let ?k = "nat key"
  from e False have r: "0 \<le> key" "key < 8" "\<not> bit (p_shm_key_mask p) ?k"
    by (auto simp: shmgetat_def key_bit split: if_splits)
  have k8: "?k < 8" using r by simp
  have m: "p_shm_key_mask p' = p_shm_key_mask p OR push_bit ?k 1 \<and>
      (\<forall>j<8. shm_count (tab' ! j) = (if j = ?k then shm_count (tab ! j) + 1 else shm_count (tab ! j))) \<and>
      length tab' = length tab"
    using e False r assms(1)
    by (auto simp: shmgetat_def key_bit Let_def res_simps shm_add_def nth_upd shm_counts_def
        split: if_splits prod.splits)
  have b: "bit (p_shm_key_mask p OR push_bit ?k 1) j \<longleftrightarrow> bit (p_shm_key_mask p) j \<or> j = ?k" if "j < 8" for j
    using that by (auto simp: bit_simps)
  have "shm_users (p_shm_key_mask p' # ms) j = (if j = ?k then shm_users (p_shm_key_mask p # ms) j + 1
      else shm_users (p_shm_key_mask p # ms) j)" if "j < 8" for j
    unfolding shm_users_Cons shm_key_used_bit [OF that] conjunct1 [OF m] b [OF that] using r(3) by simp
  then show ?thesis using m assms(1) by (simp add: shm_counts_def)
qed

lemma deallocshm_loop_spec:
  assumes "pt_ok s pgdir ps" "\<forall>a\<in>set as. page_aligned a"
    and "\<forall>a\<in>set as. \<forall>w. pte_of s pgdir a = Some w \<longrightarrow> PTE_ADDR w \<noteq> 0"
  shows "\<exists>s'. deallocshm_loop as pgdir s = Inr s' \<and> pt_ok s' pgdir ps \<and>
     pte_of s' pgdir = unmap (set as) (pte_of s pgdir) \<and> tab_pages s' pgdir = tab_pages s pgdir \<and>
     same_outside (tab_pages s pgdir) s s'"
  using assms
proof (induction as arbitrary: s)
  case Nil
  then show ?case by (auto simp: unmap_def)
next
  case (Cons a as)
  have a: "page_aligned a" using Cons.prems(2) by simp
  obtain pte where w: "walkpgdir pgdir a False s = (pte, s)" by (simp add: walkpgdir_lookup)
  note W = walk_present [OF Cons.prems(1) w]
  show ?case
  proof (cases "pte_of s pgdir a")
    case None
    with W(2) have "deallocshm_loop (a # as) pgdir s = deallocshm_loop as pgdir s"
      by (auto simp: w Let_def)
    moreover have "pte_of s pgdir va = None" if "PGROUNDDOWN va = a" for va
      using pte_of_page [of va a s pgdir] that None a by simp
    then have "unmap (set (a # as)) (pte_of s pgdir) = unmap (set as) (pte_of s pgdir)"
      by (auto simp: unmap_def fun_eq_iff)
    ultimately show ?thesis using Cons.IH [OF Cons.prems(1)] Cons.prems(2,3) by simp
  next
    case (Some v)
    have has: "has_tab s pgdir (PDX a)" using pte_of_Some(1) [OF Some] .
    define s1 where "s1 = set_pte pgdir a 0 s"
    note S = set_pte_spec [OF Cons.prems(1) has s1_def]
    have pte: "pte_of s1 pgdir = unmap {a} (pte_of s pgdir)" using S(4) a by (auto simp: unmap_def fun_eq_iff)
    have "PTE_ADDR v \<noteq> 0" using Cons.prems(3) Some by simp
    moreover have "pte \<noteq> 0 \<and> mem s pte AND PTE_P \<noteq> 0" using W(2) Some by blast
    moreover have "mem s pte = v" "pte = tab_of s pgdir (PDX a) + 4 * PTX a" using W(3) [OF Some] by auto
    ultimately have "deallocshm_loop (a # as) pgdir s = deallocshm_loop as pgdir s1"
      by (simp add: w Let_def s1_def set_pte_def)
    moreover have "\<forall>b\<in>set as. \<forall>w. pte_of s1 pgdir b = Some w \<longrightarrow> PTE_ADDR w \<noteq> 0"
      using Cons.prems(3) by (auto simp: pte unmap_def split: if_splits)
    moreover from this Cons.IH [OF S(1)] Cons.prems(2) obtain s' where R: "deallocshm_loop as pgdir s1 = Inr s'"
      "pt_ok s' pgdir ps" "pte_of s' pgdir = unmap (set as) (pte_of s1 pgdir)"
      "tab_pages s' pgdir = tab_pages s1 pgdir" "same_outside (tab_pages s1 pgdir) s1 s'" by auto
    moreover have "pte_of s' pgdir = unmap (set (a # as)) (pte_of s pgdir)"
      by (auto simp: R(3) pte unmap_def fun_eq_iff)
    moreover have "same_outside (tab_pages s pgdir) s s'"
      using tab_pagesI [OF has] by (intro same_outside_trans [OF S(3) R(5)]) (auto simp: S(2))
    ultimately show ?thesis using S(2) by simp
  qed
qed

lemma page_range_down_mem:
  assumes a: "page_aligned a" "page_aligned lo"
  shows "x \<in> set (page_range_down lo a) \<longleftrightarrow> page_aligned x \<and> lo \<le> x \<and> x \<le> a"
proof
  assume "x \<in> set (page_range_down lo a)"
  then obtain i where i: "lo \<le> a" "i < Suc ((unat a - unat lo) div 4096)" "x = a - PGSIZE * of_nat i"
    unfolding page_range_down_def by (simp only: set_map set_upt split: if_splits) auto
  have le: "unat lo \<le> unat a" using i(1) by (simp add: word_le_nat_alt)
  have i4: "4096 * i \<le> unat a - unat lo"
    using i(2) by (simp add: less_Suc_eq_le less_eq_div_iff_mult_less_eq mult.commute)
  then have "i < 1048576" using u32_bound [of a] by linarith
  then have u: "unat (PGSIZE * of_nat i) = 4096 * i" by (rule unat_pages)
  then have "unat x = unat a - 4096 * i" using i(3) i4 by (simp add: unat_sub_small)
  then have "lo \<le> x \<and> x \<le> a" using i4 le by (simp add: word_le_nat_alt)
  then show "page_aligned x \<and> lo \<le> x \<and> x \<le> a"
    using page_aligned_diff [OF a(1) page_aligned_pages [of 0 i]] i(3) by simp
next
  assume x: "page_aligned x \<and> lo \<le> x \<and> x \<le> a"
  obtain k where k: "unat (a - x) = 4096 * k" "a - x = 4096 * of_nat k"
    using page_aligned_unatE [OF page_aligned_diff [OF a(1)]] x by metis
  have "unat (a - x) = unat a - unat x" "unat x \<le> unat a" "unat lo \<le> unat x"
    using x by (simp_all add: unat_sub_small word_le_nat_alt)
  then have "4096 * k \<le> unat a - unat lo" using k by linarith
  then have "k < Suc ((unat a - unat lo) div 4096)" by (simp add: less_Suc_eq_le less_eq_div_iff_mult_less_eq)
  moreover have "x = a - PGSIZE * of_nat k" using k(2) by (simp add: algebra_simps)
  moreover have "lo \<le> a" using x by (auto intro: order_trans)
  ultimately show "x \<in> set (page_range_down lo a)" unfolding page_range_down_def
    by (simp only: if_True set_map set_upt) (rule image_eqI [of _ _ k], simp_all)
qed

lemma deallocshm_spec:
  assumes ok: "pt_ok s pgdir ps" and shm: "page_aligned shm" "shm < USERTOP"
    and nz: "\<forall>va w. pte_of s pgdir va = Some w \<and> va < USERTOP \<longrightarrow> PTE_ADDR w \<noteq> 0"
  shows "\<exists>s'. deallocshm pgdir shm USERTOP s = Inr (USERTOP, s') \<and> pt_ok s' pgdir ps \<and>
     pte_of s' pgdir = (\<lambda>va. if shm \<le> va \<and> va < USERTOP then None else pte_of s pgdir va) \<and>
     tab_pages s' pgdir = tab_pages s pgdir \<and> same_outside (tab_pages s pgdir) s s'"
proof -
  let ?as = "page_range_down shm 0x9F000"
  have top: "PGROUNDDOWN (USERTOP - PGSIZE) = 0x9F000" by (simp add: PGROUNDDOWN_def)
  have al: "page_aligned 0x9F000" "page_aligned USERTOP" by (simp_all add: page_aligned_def)
  have mem: "x \<in> set ?as \<longleftrightarrow> page_aligned x \<and> shm \<le> x \<and> x < USERTOP" for x
  proof -
    have "page_aligned x \<Longrightarrow> x \<le> 0x9F000 \<longleftrightarrow> x < USERTOP"
    proof (elim page_aligned_unatE)
      fix k assume "unat x = 4096 * k"
      then show "x \<le> 0x9F000 \<longleftrightarrow> x < USERTOP" by (auto simp: word_le_nat_alt word_less_nat_alt)
    qed
    then show ?thesis using page_range_down_mem [OF al(1) shm(1)] by auto
  qed
  have ev: "deallocshm pgdir shm USERTOP s = bindE (deallocshm_loop ?as pgdir s) (\<lambda>s. Inr (USERTOP, s))"
    using shm(2) unfolding deallocshm_def top by (simp add: not_le [symmetric])
  obtain s' where D: "deallocshm_loop ?as pgdir s = Inr s'" "pt_ok s' pgdir ps"
     "pte_of s' pgdir = unmap (set ?as) (pte_of s pgdir)" "tab_pages s' pgdir = tab_pages s pgdir"
     "same_outside (tab_pages s pgdir) s s'"
    using deallocshm_loop_spec [OF ok, of ?as] mem nz by auto
  have "PGROUNDDOWN va \<in> set ?as \<longleftrightarrow> shm \<le> va \<and> va < USERTOP" for va
    unfolding mem using PGROUNDDOWN_ge [OF shm(1)] PGROUNDDOWN_less [OF al(2)] by simp
  then show ?thesis using ev D by (auto simp: unmap_def)
qed

text \<open>
  C12. The reference counts of shared memory (vm.c). Starting from \<^verbatim>\<open>shm_init\<close>, every
  count is the number of address spaces whose key mask has the key: \<^verbatim>\<open>shm_add_count\<close>
  (fork) accounts for one more address space with that mask, and \<^verbatim>\<open>shmgetat\<close>, whichever
  way it returns, keeps the counts in step with the mask of the calling process.
\<close>

theorem shm_counts_invariant:
  "(length tab0 = MAX_SHM_KEY \<longrightarrow> shm_counts (shm_init tab0) []) \<and>
   (shm_counts tab ms \<longrightarrow> shm_counts (shm_add_count m tab) (m # ms)) \<and>
   (shm_counts tab (p_shm_key_mask p # ms) \<and>
      shmgetat stack key num_pages p tab s = Inr (va, p', tab', s') \<longrightarrow>
      shm_counts tab' (p_shm_key_mask p' # ms))"
proof (intro conjI impI)
  show "shm_counts (shm_init tab0) []" if "length tab0 = MAX_SHM_KEY"
    using that by (simp add: shm_counts_def shm_init_def shm_users_def)
  show "shm_counts (shm_add_count m tab) (m # ms)" if "shm_counts tab ms"
    using that by (rule shm_add_count_spec)
  show "shm_counts tab' (p_shm_key_mask p' # ms)"
    if "shm_counts tab (p_shm_key_mask p # ms) \<and>
      shmgetat stack key num_pages p tab s = Inr (va, p', tab', s')"
    using that shmgetat_counts by (elim conjE)
qed



text \<open>A table with one live region of one page, for the witnesses.\<close>

definition demo_shm :: shm_table where
  "demo_shm = \<lparr>shm_count = 1, shm_num_pages = 1, shm_phys_addr = [0xFFB000, 0, 0, 0]\<rparr> #
     replicate 7 \<lparr>shm_count = 0, shm_num_pages = 0, shm_phys_addr = [0, 0, 0, 0]\<rparr>"

lemma demo_shm_nth: "k < 8 \<Longrightarrow> demo_shm ! k =
    (if k = 0 then \<lparr>shm_count = 1, shm_num_pages = 1, shm_phys_addr = [0xFFB000, 0, 0, 0]\<rparr>
     else \<lparr>shm_count = 0, shm_num_pages = 0, shm_phys_addr = [0, 0, 0, 0]\<rparr>)" "length demo_shm = 8"
  by (auto simp: demo_shm_def nth_Cons')

lemma demo_shm_ok: "shm_counts demo_shm [1]" "shm_frames_ok demo_shm demo_space [0xFFD000, 0xFFC000]"
proof -
  show "shm_counts demo_shm [1]"
    by (auto simp: shm_counts_def demo_shm_nth shm_users_def shm_key_used_bit bit_1_iff)
  have "kmem_ok demo_space [0xFFD000, 0xFFC000]"
    using pt_okD(1) [OF user_okD(1) [OF demo_space_ok(1)]] .
  moreover have "valid_page demo_space 0xFFB000"
    by (simp add: valid_page_def demo_space_def page_aligned_def)
  ultimately show "shm_frames_ok demo_shm demo_space [0xFFD000, 0xFFC000]"
    by (auto simp: shm_frames_ok_def demo_shm_nth shm_pages_def)
qed

theorem shm_counts_invariant_witness:
  "shm_counts (shm_init demo_shm) [] \<and> shm_counts (shm_add_count 5 demo_shm) [5, 1] \<and>
   shmgetat [0, 0, 0, 0] 2 0 (zero_proc\<lparr>p_shm := USERTOP, p_shm_key_mask := 1\<rparr>) demo_shm demo_space =
     Inr (USERTOP, zero_proc\<lparr>p_shm := USERTOP, p_shm_key_mask := 5, p_shm_va := [0, 0, USERTOP, 0, 0, 0, 0, 0]\<rparr>,
          demo_shm[2 := \<lparr>shm_count = 1, shm_num_pages = 0, shm_phys_addr = [0, 0, 0, 0]\<rparr>], demo_space) \<and>
   shm_counts (demo_shm[2 := \<lparr>shm_count = 1, shm_num_pages = 0, shm_phys_addr = [0, 0, 0, 0]\<rparr>]) [5]"
proof -
  let ?p = "zero_proc\<lparr>p_shm := USERTOP, p_shm_key_mask := 1\<rparr>"
  let ?p' = "zero_proc\<lparr>p_shm := USERTOP, p_shm_key_mask := 5, p_shm_va := [0, 0, USERTOP, 0, 0, 0, 0, 0]\<rparr>"
  let ?t = "demo_shm[2 := \<lparr>shm_count = 1, shm_num_pages = 0, shm_phys_addr = [0, 0, 0, 0]\<rparr>]"
  have m: "p_shm_key_mask ?p = 1" "p_shm_key_mask ?p' = 5" "p_shm ?p = USERTOP" "p_shm_va ?p = replicate 8 0"
    "p_sz ?p = 0" by (simp_all add: zero_proc_def)
  have v: "(replicate 8 0)[2 := (USERTOP :: u32)] = [0, 0, USERTOP, 0, 0, 0, 0, 0]"
    by (simp add: eval_nat_numeral)
  have "page_range USERTOP USERTOP = []" by (simp add: page_range_def)
  then have e: "shmgetat [0, 0, 0, 0] 2 0 ?p demo_shm demo_space = Inr (USERTOP, ?p', ?t, demo_space)"
    using m v by (simp add: shmgetat_def key_bit bit_1_iff demo_shm_nth allocshm_def shm_add_def upd_def)
  have "shm_counts (shm_init demo_shm) []" "shm_counts (shm_add_count 5 demo_shm) [5, 1]"
    using shm_counts_invariant [where ?tab0.0 = demo_shm and tab = demo_shm and ms = "[1]" and m = 5]
      demo_shm_ok(1) demo_shm_nth(2) by blast+
  moreover have "shm_counts ?t [p_shm_key_mask ?p']"
    using shm_counts_invariant [where p = ?p and ms = "[]" and tab = demo_shm and p' = ?p' and tab' = ?t]
      e demo_shm_ok(1) unfolding m(1) by blast
  ultimately show ?thesis using e unfolding m(2) by blast
qed


end
