(* ===== verification/Pgdir_Refs.thy ===== *)
theory Pgdir_Refs
  imports Prelude
begin

text \<open>
  Reference counts of page directories (\<^verbatim>\<open>pgdir_table\<close> of \<^verbatim>\<open>kernel/proc.c\<close>): how
  many processes and threads use an address space. The contract is the locale
  \<open>ref_counter\<close>, a map from keys to counts; \<open>pr\<close> interprets it on the table.
\<close>

section \<open>Operations\<close>

record pgdir_ref =
  ref_addr :: u32
  ref_count :: int

definition init_ref :: "pgdir_ref list \<Rightarrow> pgdir_ref list" where
  "init_ref refs = map (\<lambda>r. r\<lparr>ref_count := 0\<rparr>) refs"

definition get_count :: "u32 \<Rightarrow> pgdir_ref list \<Rightarrow> int" where
  "get_count pgdir refs =
     (case first_idx (\<lambda>r. ref_count r > 0 \<and> ref_addr r = pgdir) refs of
        Some i \<Rightarrow> ref_count (refs ! i)
      | None \<Rightarrow> 0)"

definition get_index :: "u32 \<Rightarrow> pgdir_ref list \<Rightarrow> int" where
  "get_index pgdir refs =
     (case first_idx (\<lambda>r. ref_count r > 0 \<and> ref_addr r = pgdir) refs of
        Some i \<Rightarrow> int i
      | None \<Rightarrow> -1)"

definition add_ref :: "u32 \<Rightarrow> pgdir_ref list \<Rightarrow> pgdir_ref list" where
  "add_ref pgdir refs =
     (let i = get_index pgdir refs in
      if i < 0 then
        case first_idx (\<lambda>r. ref_count r = 0) refs of
          Some j \<Rightarrow> upd (\<lambda>r. r\<lparr>ref_count := 1, ref_addr := pgdir\<rparr>) j refs
        | None \<Rightarrow> refs
      else upd (\<lambda>r. r\<lparr>ref_count := ref_count r + 1\<rparr>) (nat i) refs)"

definition delete_ref :: "u32 \<Rightarrow> pgdir_ref list \<Rightarrow> int \<times> pgdir_ref list" where
  "delete_ref pgdir refs =
     (case first_idx (\<lambda>r. ref_addr r = pgdir \<and> ref_count r > 0) refs of
        Some i \<Rightarrow>
          (let refs = upd (\<lambda>r. r\<lparr>ref_count := ref_count r - 1\<rparr>) i refs in (ref_count (refs ! i), refs))
      | None \<Rightarrow> (-1, refs))"

section \<open>The contract of a reference counter\<close>

text \<open>
  \<open>room s k\<close> says that \<open>add k\<close> finds an entry for \<open>k\<close>. A history is a list of keys
  with \<open>True\<close> for an added and \<open>False\<close> for a deleted reference.
\<close>

locale ref_counter =
  fixes count :: "'s \<Rightarrow> 'k \<Rightarrow> int"
    and add :: "'k \<Rightarrow> 's \<Rightarrow> 's"
    and del :: "'k \<Rightarrow> 's \<Rightarrow> int \<times> 's"
    and ok :: "'s \<Rightarrow> bool"
    and room :: "'s \<Rightarrow> 'k \<Rightarrow> bool"
  assumes count_nonneg: "ok s \<Longrightarrow> 0 \<le> count s k"
    and add_ok: "ok s \<Longrightarrow> ok (add k s)"
    and add_count: "ok s \<Longrightarrow> room s k \<Longrightarrow> count (add k s) = (count s)(k := count s k + 1)"
    and del_ok: "ok s \<Longrightarrow> ok (snd (del k s))"
    and del_live: "ok s \<Longrightarrow> 0 < count s k \<Longrightarrow>
       fst (del k s) = count s k - 1 \<and> count (snd (del k s)) = (count s)(k := count s k - 1)"
    and del_dead: "ok s \<Longrightarrow> count s k = 0 \<Longrightarrow> del k s = (-1, s)"
begin

fun run :: "('k \<times> bool) list \<Rightarrow> 's \<Rightarrow> 's" where
  "run [] s = s"
| "run ((k, True) # es) s = run es (add k s)"
| "run ((k, False) # es) s = run es (snd (del k s))"

fun lawful :: "('k \<times> bool) list \<Rightarrow> 's \<Rightarrow> bool" where
  "lawful [] s \<longleftrightarrow> True"
| "lawful ((k, True) # es) s \<longleftrightarrow> room s k \<and> lawful es (add k s)"
| "lawful ((k, False) # es) s \<longleftrightarrow> 0 < count s k \<and> lawful es (snd (del k s))"

definition net :: "('k \<times> bool) list \<Rightarrow> 'k \<Rightarrow> int" where
  "net es k = int (length (filter (\<lambda>e. e = (k, True)) es)) - int (length (filter (\<lambda>e. e = (k, False)) es))"

lemma run_count: "ok s \<Longrightarrow> lawful es s \<Longrightarrow> ok (run es s) \<and> count (run es s) k = count s k + net es k"
proof (induction es s rule: run.induct)
  case (1 s)
  then show ?case by (simp add: net_def)
next
  case (2 k' es s)
  then show ?case using add_ok add_count by (auto simp: net_def)
next
  case (3 k' es s)
  then show ?case using del_ok del_live by (auto simp: net_def)
qed

lemma last_reference:
  assumes "ok s" "lawful es s" "count s k = 0" "net es k = 1"
  shows "fst (del k (run es s)) = 0 \<and> del k (snd (del k (run es s))) = (-1, snd (del k (run es s)))"
proof -
  have r: "ok (run es s)" "count (run es s) k = 1" using run_count [OF assms(1,2)] assms(3,4) by auto
  then have "count (snd (del k (run es s))) k = 0" "fst (del k (run es s)) = 0" using del_live by auto
  then show ?thesis using del_dead del_ok [OF r(1)] by blast
qed

end

section \<open>The table of page directories\<close>

definition refs_ok :: "pgdir_ref list \<Rightarrow> bool" where
  "refs_ok refs \<longleftrightarrow>
     (\<forall>r\<in>set refs. 0 \<le> ref_count r) \<and>
     (\<forall>i<length refs. \<forall>j<length refs.
        0 < ref_count (refs ! i) \<and> 0 < ref_count (refs ! j) \<and> ref_addr (refs ! i) = ref_addr (refs ! j) \<longrightarrow> i = j)"

definition refs_room :: "pgdir_ref list \<Rightarrow> u32 \<Rightarrow> bool" where
  "refs_room refs k \<longleftrightarrow> 0 < get_count k refs \<or> (\<exists>r\<in>set refs. ref_count r = 0)"

definition live :: "pgdir_ref list \<Rightarrow> u32 \<Rightarrow> nat \<Rightarrow> bool" where
  "live refs k i \<longleftrightarrow> i < length refs \<and> 0 < ref_count (refs ! i) \<and> ref_addr (refs ! i) = k"

lemma live_unique: "refs_ok refs \<Longrightarrow> live refs k i \<Longrightarrow> live refs k j \<Longrightarrow> i = j"
  unfolding refs_ok_def live_def by blast

lemma live_first:
  "refs_ok refs \<Longrightarrow> live refs k i \<Longrightarrow> first_idx (\<lambda>r. ref_count r > 0 \<and> ref_addr r = k) refs = Some i"
  "refs_ok refs \<Longrightarrow> live refs k i \<Longrightarrow> first_idx (\<lambda>r. ref_addr r = k \<and> ref_count r > 0) refs = Some i"
proof -
  assume *: "refs_ok refs" "live refs k i"
  have "\<not> live refs k j" if "j < i" for j using live_unique * that by blast
  then show "first_idx (\<lambda>r. ref_count r > 0 \<and> ref_addr r = k) refs = Some i"
    "first_idx (\<lambda>r. ref_addr r = k \<and> ref_count r > 0) refs = Some i"
    using *(2) by (auto simp: first_idx_Some live_def)
qed

lemma dead_first:
  "\<forall>i. \<not> live refs k i \<Longrightarrow> first_idx (\<lambda>r. ref_count r > 0 \<and> ref_addr r = k) refs = None"
  "\<forall>i. \<not> live refs k i \<Longrightarrow> first_idx (\<lambda>r. ref_addr r = k \<and> ref_count r > 0) refs = None"
  by (auto simp: first_idx_None live_def in_set_conv_nth)

lemma get_count_live: "refs_ok refs \<Longrightarrow> live refs k i \<Longrightarrow> get_count k refs = ref_count (refs ! i)"
  by (simp add: get_count_def live_first)

lemma get_count_dead: "\<forall>i. \<not> live refs k i \<Longrightarrow> get_count k refs = 0"
  by (simp add: get_count_def dead_first)

lemma get_count_pos: "refs_ok refs \<Longrightarrow> 0 < get_count k refs \<Longrightarrow> \<exists>i. live refs k i"
  using get_count_dead by fastforce

lemma get_count_nonneg: "refs_ok refs \<Longrightarrow> 0 \<le> get_count k refs"
  using get_count_live get_count_dead by (cases "\<exists>i. live refs k i") (auto simp: live_def)

text \<open>An entry replaced: every change of the table is one.\<close>

lemma refs_upd:
  assumes ok: "refs_ok refs" and i: "i < length refs"
    and old: "ref_count (refs ! i) = 0 \<or> ref_addr (f (refs ! i)) = ref_addr (refs ! i)"
    and new: "0 \<le> ref_count (f (refs ! i))" "\<And>j. live refs (ref_addr (f (refs ! i))) j \<Longrightarrow> j = i"
  shows "refs_ok (upd f i refs)"
    "(\<lambda>k. get_count k (upd f i refs)) =
       (\<lambda>k. get_count k refs)(ref_addr (f (refs ! i)) := ref_count (f (refs ! i)))"
proof -
  let ?k = "ref_addr (f (refs ! i))"
  have lv: "live (upd f i refs) k j \<longleftrightarrow> (if j = i then 0 < ref_count (f (refs ! i)) \<and> ?k = k else live refs k j)" for k j
    using i by (auto simp: live_def nth_upd)
  have "a = b" if "live (upd f i refs) k a" "live (upd f i refs) k b" for a b k
    using that new(2) live_unique [OF ok] by (auto simp: lv split: if_splits)
  then show ok': "refs_ok (upd f i refs)"
    using ok new(1) unfolding refs_ok_def live_def by (auto dest!: set_updE)
  show "(\<lambda>k. get_count k (upd f i refs)) = (\<lambda>k. get_count k refs)(?k := ref_count (f (refs ! i)))"
  proof
    fix k
    show "get_count k (upd f i refs) = ((\<lambda>k. get_count k refs)(?k := ref_count (f (refs ! i)))) k"
    proof (cases "k = ?k")
      case True
      show ?thesis
      proof (cases "0 < ref_count (f (refs ! i))")
        case True
        then have "live (upd f i refs) ?k i" by (simp add: lv)
        then show ?thesis using get_count_live [OF ok'] i \<open>k = ?k\<close> by simp
      next
        case False
        then have "\<forall>j. \<not> live (upd f i refs) ?k j" using new(2) by (auto simp: lv)
        then show ?thesis using get_count_dead False new(1) \<open>k = ?k\<close> by force
      qed
    next
      case False
      then have same: "live (upd f i refs) k j \<longleftrightarrow> live refs k j" for j
        unfolding lv using old by (auto simp: live_def)
      show ?thesis
      proof (cases "\<exists>j. live refs k j")
        case True
        then obtain j where j: "live refs k j" by blast
        then have "live (upd f i refs) k j" by (simp only: same)
        moreover have "j \<noteq> i" using j False old unfolding live_def by auto
        ultimately show ?thesis using get_count_live [OF ok'] get_count_live [OF ok j] False by simp
      next
        case no: False
        then show ?thesis using same get_count_dead False by simp
      qed
    qed
  qed
qed

lemma add_ref_spec:
  assumes ok: "refs_ok refs"
  shows "refs_ok (add_ref k refs)"
    "refs_room refs k \<Longrightarrow> (\<lambda>j. get_count j (add_ref k refs)) = (\<lambda>j. get_count j refs)(k := get_count k refs + 1)"
proof -
  consider i where "live refs k i" | j where "\<forall>i. \<not> live refs k i" "first_idx (\<lambda>r. ref_count r = 0) refs = Some j"
    | "\<forall>i. \<not> live refs k i" "first_idx (\<lambda>r. ref_count r = 0) refs = None" by (metis not_None_eq)
  then have "refs_ok (add_ref k refs) \<and> (refs_room refs k \<longrightarrow>
     (\<lambda>j. get_count j (add_ref k refs)) = (\<lambda>j. get_count j refs)(k := get_count k refs + 1))"
  proof cases
    case (1 i)
    then have i: "i < length refs" "ref_addr (refs ! i) = k" "0 < ref_count (refs ! i)" by (auto simp: live_def)
    have "add_ref k refs = upd (\<lambda>r. r\<lparr>ref_count := ref_count r + 1\<rparr>) i refs"
      using live_first(1) [OF ok 1] by (simp add: add_ref_def get_index_def)
    then show ?thesis
      using refs_upd [OF ok i(1), of "\<lambda>r. r\<lparr>ref_count := ref_count r + 1\<rparr>"] i 1 live_unique [OF ok]
        get_count_live [OF ok 1] by auto
  next
    case (2 j)
    then have j: "j < length refs" "ref_count (refs ! j) = 0" by (auto dest: first_idx_SomeD)
    have "add_ref k refs = upd (\<lambda>r. r\<lparr>ref_count := 1, ref_addr := k\<rparr>) j refs"
      using 2 by (simp add: add_ref_def get_index_def dead_first)
    then show ?thesis
      using refs_upd [OF ok j(1), of "\<lambda>r. r\<lparr>ref_count := 1, ref_addr := k\<rparr>"] j 2(1)
        get_count_dead [OF 2(1)] by auto
  next
    case 3
    then have "add_ref k refs = refs" by (simp add: add_ref_def get_index_def dead_first)
    then show ?thesis using ok 3 get_count_dead [OF 3(1)] by (auto simp: refs_room_def first_idx_None)
  qed
  then show "refs_ok (add_ref k refs)"
    "refs_room refs k \<Longrightarrow> (\<lambda>j. get_count j (add_ref k refs)) = (\<lambda>j. get_count j refs)(k := get_count k refs + 1)"
    by blast+
qed

lemma delete_ref_live:
  assumes ok: "refs_ok refs" and "live refs k i"
  shows "refs_ok (snd (delete_ref k refs))" "fst (delete_ref k refs) = get_count k refs - 1"
    "(\<lambda>j. get_count j (snd (delete_ref k refs))) = (\<lambda>j. get_count j refs)(k := get_count k refs - 1)"
proof -
  have i: "i < length refs" "ref_addr (refs ! i) = k" "0 < ref_count (refs ! i)"
    using assms(2) by (auto simp: live_def)
  have "delete_ref k refs =
      (ref_count (refs ! i) - 1, upd (\<lambda>r. r\<lparr>ref_count := ref_count r - 1\<rparr>) i refs)"
    using live_first(2) [OF assms] i by (simp add: delete_ref_def)
  then show "refs_ok (snd (delete_ref k refs))" "fst (delete_ref k refs) = get_count k refs - 1"
    "(\<lambda>j. get_count j (snd (delete_ref k refs))) = (\<lambda>j. get_count j refs)(k := get_count k refs - 1)"
    using refs_upd [OF ok i(1), of "\<lambda>r. r\<lparr>ref_count := ref_count r - 1\<rparr>"] i assms(2) live_unique [OF ok]
      get_count_live [OF assms] by auto
qed

lemma delete_ref_dead: "\<forall>i. \<not> live refs k i \<Longrightarrow> delete_ref k refs = (-1, refs)"
  by (simp add: delete_ref_def dead_first)

interpretation pr: ref_counter "\<lambda>refs k. get_count k refs" add_ref delete_ref refs_ok refs_room
proof
  fix refs k
  assume ok: "refs_ok refs"
  show "0 \<le> get_count k refs" by (rule get_count_nonneg [OF ok])
  show "refs_ok (add_ref k refs)" by (rule add_ref_spec(1) [OF ok])
  show "(\<lambda>j. get_count j (add_ref k refs)) = (\<lambda>j. get_count j refs)(k := get_count k refs + 1)"
    if "refs_room refs k" by (rule add_ref_spec(2) [OF ok that])
  show "refs_ok (snd (delete_ref k refs))"
    using ok delete_ref_live(1) delete_ref_dead by (cases "\<exists>i. live refs k i") auto
  show "fst (delete_ref k refs) = get_count k refs - 1 \<and>
      (\<lambda>j. get_count j (snd (delete_ref k refs))) = (\<lambda>j. get_count j refs)(k := get_count k refs - 1)"
    if "0 < get_count k refs"
    using get_count_pos [OF ok that] delete_ref_live [OF ok] by blast
  show "delete_ref k refs = (-1, refs)" if "get_count k refs = 0"
    using that get_count_live [OF ok] delete_ref_dead [of refs k] by (fastforce simp: live_def)
qed


section \<open>Property\<close>

text \<open>
  C24. The reference counts of page directories (proc.c) refine a map from directories to
  counts: on a well-formed table \<^verbatim>\<open>add_ref\<close> adds one reference to exactly that directory
  (when it has an entry or a slot is free), \<^verbatim>\<open>delete_ref\<close> takes one away and returns what
  is left, so it returns 0 exactly for the last user, it answers -1 and changes nothing for a
  directory with no users, and the table stays well formed.
\<close>

theorem pgdir_refs_refine_counter:
  assumes "refs_ok refs"
  shows "refs_ok (add_ref k refs) \<and> refs_ok (snd (delete_ref k refs)) \<and>
    (refs_room refs k \<longrightarrow>
       (\<lambda>j. get_count j (add_ref k refs)) = (\<lambda>j. get_count j refs)(k := get_count k refs + 1)) \<and>
    (0 < get_count k refs \<longrightarrow>
       fst (delete_ref k refs) = get_count k refs - 1 \<and>
       (\<lambda>j. get_count j (snd (delete_ref k refs))) = (\<lambda>j. get_count j refs)(k := get_count k refs - 1)) \<and>
    (get_count k refs = 0 \<longrightarrow> delete_ref k refs = (-1, refs))"
  using pr.add_ok [OF assms] pr.del_ok [OF assms] pr.add_count [OF assms] pr.del_live [OF assms]
    pr.del_dead [OF assms] by blast

theorem pgdir_refs_refine_counter_witness:
  "get_count 0x5000 (add_ref 0x5000 (replicate 64 \<lparr>ref_addr = 0, ref_count = 0\<rparr>)) = 1 \<and>
   delete_ref 0x5000 (replicate 64 \<lparr>ref_addr = 0, ref_count = 0\<rparr>) = (-1, replicate 64 \<lparr>ref_addr = 0, ref_count = 0\<rparr>)"
proof -
  let ?r = "replicate 64 \<lparr>ref_addr = 0, ref_count = 0\<rparr>"
  have ok: "refs_ok ?r" "refs_room ?r 0x5000" by (auto simp: refs_ok_def refs_room_def)
  have "get_count 0x5000 ?r = 0" by (rule get_count_dead) (auto simp: live_def)
  then show ?thesis
    using pgdir_refs_refine_counter [OF ok(1), of "0x5000"] ok(2) by (auto dest: fun_cong [of _ _ "0x5000"])
qed

end
