(* ===== verification/Sched.thy ===== *)
theory Sched
  imports Proc_State
begin

text \<open>
  Scheduling, the part of \<^verbatim>\<open>kernel/proc.c\<close> that works on the process table alone: the
  multi-level feedback queue, sleep and wakeup, kill and the status calls.

  \<^verbatim>\<open>ptable.proc\<close> is the list of its slots. \<open>scheduler_round\<close> is one pass of the body
  of \<^verbatim>\<open>scheduler\<close> up to the \<^verbatim>\<open>swtch\<close> into the chosen process; \<open>sleep_enter\<close> is
  \<^verbatim>\<open>sleep\<close> up to its call of \<^verbatim>\<open>sched\<close> and \<open>sleep_leave\<close> what it does to the
  process when it runs again. The context switch itself is assembly and is not modelled.

  In \<^verbatim>\<open>scheduler\<close> and \<^verbatim>\<open>update_ticks\<close> a signed operand meets an unsigned one, so C
  compares unsigned: \<^verbatim>\<open>p->last_sched_time + TSTARV\<close> wraps around at 32 bits.
\<close>

section \<open>Operations\<close>

definition tick_quota :: "nat list" where
  "tick_quota = [5, 5, 10, 20]"

definition starving :: "u32 \<Rightarrow> proc \<Rightarrow> bool" where
  "starving ticks p \<longleftrightarrow>
     p_state p = RUNNABLE \<and> 0 < p_priority p \<and> p_last_sched_time p + TSTARV < ticks"

definition boost :: "u32 \<Rightarrow> proc list \<Rightarrow> proc list" where
  "boost ticks ps = map (\<lambda>p. if starving ticks p then p\<lparr>p_priority := p_priority p - 1\<rparr> else p) ps"

fun pick_loop :: "nat list \<Rightarrow> proc list \<Rightarrow> nat option" where
  "pick_loop [] ps = None"
| "pick_loop (priority # prs) ps =
     (case first_idx (\<lambda>p. \<not> (p_state p \<noteq> RUNNABLE \<or> p_priority p \<noteq> priority)) ps of
        Some i \<Rightarrow> Some i
      | None \<Rightarrow> pick_loop prs ps)"

definition scheduler_round :: "u32 \<Rightarrow> proc list \<Rightarrow> nat option \<times> proc list" where
  "scheduler_round ticks ps =
     (let ps = boost ticks ps in
      case pick_loop [0..<NPRIOR] ps of
        Some i \<Rightarrow> (Some i, upd (\<lambda>p. p\<lparr>p_state := RUNNING, p_last_sched_time := ticks\<rparr>) i ps)
      | None \<Rightarrow> (None, ps))"

definition update_ticks :: "proc \<Rightarrow> proc" where
  "update_ticks p =
     (let p = p\<lparr>p_ticks_used := upd (\<lambda>t. t + 1) (p_priority p) (p_ticks_used p), p_ticks := p_ticks p + 1\<rparr> in
      if p_priority p < NPRIOR - 1 \<and> p_ticks p \<ge> of_nat (tick_quota ! p_priority p)
      then p\<lparr>p_priority := p_priority p + 1, p_ticks := 0\<rparr>
      else p)"

definition yield_proc :: "nat \<Rightarrow> proc list \<Rightarrow> proc list" where
  "yield_proc cur ps = upd (\<lambda>p. update_ticks (p\<lparr>p_state := RUNNABLE\<rparr>)) cur ps"

definition sleep_enter :: "chan \<Rightarrow> nat \<Rightarrow> proc list \<Rightarrow> proc list" where
  "sleep_enter c cur ps = upd (\<lambda>p. p\<lparr>p_chan := Some c, p_state := SLEEPING\<rparr>) cur ps"

definition sleep_leave :: "nat \<Rightarrow> proc list \<Rightarrow> proc list" where
  "sleep_leave cur ps = upd (\<lambda>p. p\<lparr>p_chan := None\<rparr>) cur ps"

definition wakeup1 :: "chan option \<Rightarrow> proc list \<Rightarrow> proc list" where
  "wakeup1 c ps =
     map (\<lambda>p. if p_state p = SLEEPING \<and> p_chan p = c then p\<lparr>p_state := RUNNABLE\<rparr> else p) ps"

definition wakeup :: "chan \<Rightarrow> proc list \<Rightarrow> proc list" where
  "wakeup c ps = wakeup1 (Some c) ps"

definition kill :: "int \<Rightarrow> proc list \<Rightarrow> int \<times> proc list" where
  "kill pid ps =
     (case first_idx (\<lambda>p. p_pid p = pid) ps of
        Some i \<Rightarrow>
          (0, upd (\<lambda>p. let p = p\<lparr>p_killed := 1\<rparr> in
                       if p_state p = SLEEPING then p\<lparr>p_state := RUNNABLE\<rparr> else p) i ps)
      | None \<Rightarrow> (-1, ps))"

record pstat =
  ps_inuse :: "bool list"
  ps_pid :: "int list"
  ps_priority :: "nat list"
  ps_state :: "procstate list"
  ps_ticks :: "u32 list list"

definition pinfo_ticks :: "proc \<Rightarrow> u32 list" where
  "pinfo_ticks p =
     map (\<lambda>pi. if pi < p_priority p then of_nat (tick_quota ! pi)
               else if pi = p_priority p then p_ticks_used p ! pi else 0) [0..<NPRIOR]"

definition getpinfo :: "proc list \<Rightarrow> pstat" where
  "getpinfo ps =
     \<lparr>ps_inuse = map (\<lambda>p. p_state p \<noteq> UNUSED) ps,
      ps_pid = map p_pid ps,
      ps_priority = map p_priority ps,
      ps_state = map p_state ps,
      ps_ticks = map pinfo_ticks ps\<rparr>"

section \<open>Choosing a process\<close>

lemma pick_loop_Some:
  assumes "pick_loop prs ps = Some i"
  shows "i < length ps" "p_state (ps ! i) = RUNNABLE" "p_priority (ps ! i) \<in> set prs"
  using assms by (induction prs) (auto split: option.splits dest: first_idx_SomeD)

lemma pick_loop_None: "pick_loop prs ps = None \<longleftrightarrow> (\<forall>p\<in>set ps. p_state p = RUNNABLE \<longrightarrow> p_priority p \<notin> set prs)"
proof (induction prs)
  case (Cons pr prs)
  show ?case
  proof (cases "first_idx (\<lambda>p. \<not> (p_state p \<noteq> RUNNABLE \<or> p_priority p \<noteq> pr)) ps")
    case None
    then have "\<forall>p\<in>set ps. p_state p = RUNNABLE \<longrightarrow> p_priority p \<noteq> pr" by (auto simp: first_idx_None)
    then show ?thesis using Cons None by auto
  next
    case (Some i)
    then have "ps ! i \<in> set ps" "p_state (ps ! i) = RUNNABLE" "p_priority (ps ! i) = pr"
      by (auto dest: first_idx_SomeD)
    then show ?thesis using Some by auto
  qed
qed simp

lemma pick_loop_min:
  assumes "sorted_wrt (<) prs" "pick_loop prs ps = Some i" "j < length ps" "p_state (ps ! j) = RUNNABLE"
    "p_priority (ps ! j) \<in> set prs"
  shows "p_priority (ps ! i) < p_priority (ps ! j) \<or> (p_priority (ps ! i) = p_priority (ps ! j) \<and> i \<le> j)"
  using assms
proof (induction prs)
  case Nil
  then show ?case by simp
next
  case (Cons pr prs)
  let ?P = "\<lambda>p. \<not> (p_state p \<noteq> RUNNABLE \<or> p_priority p \<noteq> pr)"
  show ?case
  proof (cases "first_idx ?P ps")
    case None
    then have "p_priority (ps ! j) \<noteq> pr" using Cons.prems(3,4) by (auto simp: first_idx_None)
    then show ?thesis using Cons None by simp
  next
    case (Some k)
    then have k: "k = i" "p_priority (ps ! i) = pr" using Cons.prems(2) by (auto dest: first_idx_SomeD)
    show ?thesis
    proof (cases "p_priority (ps ! j) = pr")
      case True
      then have "i \<le> j" using first_idx_SomeD(3) [OF Some, of j] Cons.prems(4) k by (meson not_le)
      then show ?thesis using True k by simp
    next
      case False
      then show ?thesis using Cons.prems(1,5) k by auto
    qed
  qed
qed

lemma length_boost [simp]: "length (boost ticks ps) = length ps"
  by (simp add: boost_def)

lemma boost_nth: "i < length ps \<Longrightarrow> boost ticks ps ! i =
    (if starving ticks (ps ! i) then (ps ! i)\<lparr>p_priority := p_priority (ps ! i) - 1\<rparr> else ps ! i)"
  by (simp add: boost_def)

lemma boost_state [simp]: "i < length ps \<Longrightarrow> p_state (boost ticks ps ! i) = p_state (ps ! i)"
  by (simp add: boost_nth)

lemma length_scheduler_round [simp]: "length (snd (scheduler_round ticks ps)) = length ps"
  by (simp add: scheduler_round_def Let_def split: option.split)

section \<open>Time slices\<close>

definition prio_ok :: "proc \<Rightarrow> bool" where
  "prio_ok p \<longleftrightarrow> p_priority p < NPRIOR \<and> length (p_ticks_used p) = NPRIOR"

lemma update_ticks_prio_ok: "prio_ok p \<Longrightarrow> prio_ok (update_ticks p)"
  by (auto simp: prio_ok_def update_ticks_def Let_def)


text \<open>Where a process stands after \<open>n\<close> ticks of CPU time from a fresh start at level 0.\<close>

definition level_after :: "nat \<Rightarrow> nat" where
  "level_after n = (if n < 5 then 0 else if n < 10 then 1 else if n < 20 then 2 else 3)"

definition spent_at :: "nat \<Rightarrow> nat \<Rightarrow> nat" where
  "spent_at n l =
     (if l = 0 then min n 5 else if l = 1 then min (n - 5) 5 else if l = 2 then min (n - 10) 10 else n - 20)"

lemma update_ticks_fields:
  "p_priority (update_ticks p) =
     (if p_priority p < 3 \<and> of_nat (tick_quota ! p_priority p) \<le> p_ticks p + 1
      then p_priority p + 1 else p_priority p)"
  "p_ticks (update_ticks p) =
     (if p_priority p < 3 \<and> of_nat (tick_quota ! p_priority p) \<le> p_ticks p + 1 then 0 else p_ticks p + 1)"
  "p_ticks_used (update_ticks p) = upd (\<lambda>t. t + 1) (p_priority p) (p_ticks_used p)"
  by (simp_all add: update_ticks_def Let_def)

lemma small_ticks: "n < 2 ^ 32 \<Longrightarrow> m < 2 ^ 32 \<Longrightarrow> (of_nat m :: u32) \<le> of_nat n \<longleftrightarrow> m \<le> n"
  by (simp add: word_le_nat_alt unsigned_of_nat take_bit_eq_mod)

lemma update_ticks_nat:
  assumes "p_ticks p = of_nat t" "t < 1000" "p_priority p < 3"
  shows "p_priority (update_ticks p) =
       (if tick_quota ! p_priority p \<le> Suc t then Suc (p_priority p) else p_priority p)"
    "p_ticks (update_ticks p) = of_nat (if tick_quota ! p_priority p \<le> Suc t then 0 else Suc t)"
proof -
  have "p_priority p = 0 \<or> p_priority p = 1 \<or> p_priority p = 2" using assms(3) by auto
  then have "tick_quota ! p_priority p < 1000" by (auto simp: tick_quota_def)
  then have le: "(of_nat (tick_quota ! p_priority p) :: u32) \<le> p_ticks p + 1 \<longleftrightarrow> tick_quota ! p_priority p \<le> Suc t"
    using small_ticks [of "Suc t" "tick_quota ! p_priority p"] assms(1,2) by (simp add: add.commute)
  then show "p_priority (update_ticks p) =
       (if tick_quota ! p_priority p \<le> Suc t then Suc (p_priority p) else p_priority p)"
    "p_ticks (update_ticks p) = of_nat (if tick_quota ! p_priority p \<le> Suc t then 0 else Suc t)"
    using assms by (simp_all add: update_ticks_fields add.commute)
qed

definition level_start :: "nat \<Rightarrow> nat" where
  "level_start l = (if l = 0 then 0 else if l = 1 then 5 else if l = 2 then 10 else 20)"

lemma update_ticks_run:
  assumes "p_priority p = 0" "p_ticks p = 0"
  shows "p_priority ((update_ticks ^^ n) p) = level_after n"
    "p_ticks ((update_ticks ^^ n) p) = of_nat (n - level_start (level_after n))"
proof (induction n)
  case 0
  show "p_priority ((update_ticks ^^ 0) p) = level_after 0"
    "p_ticks ((update_ticks ^^ 0) p) = of_nat (0 - level_start (level_after 0))"
    using assms by (simp_all add: level_after_def)
next
  case (Suc n)
  let ?q = "(update_ticks ^^ n) p"
  have "p_priority (update_ticks ?q) = level_after (Suc n) \<and>
    p_ticks (update_ticks ?q) = of_nat (Suc n - level_start (level_after (Suc n)))"
  proof (cases "n < 20")
    case True
    then have "p_priority ?q < 3" "n - level_start (level_after n) < 1000"
      using Suc by (simp_all add: level_after_def)
    note U = update_ticks_nat [OF Suc(2) this(2,1)]
    have "tick_quota ! level_after n \<le> Suc (n - level_start (level_after n)) \<longleftrightarrow> Suc n \<in> {5, 10, 20}"
      using True by (auto simp: level_after_def level_start_def tick_quota_def)
    then show ?thesis
      unfolding U Suc(1) using True by (auto simp: level_after_def level_start_def)
  next
    case False
    then show ?thesis using Suc by (auto simp: update_ticks_fields level_after_def level_start_def Suc_diff_le)
  qed
  then show "p_priority ((update_ticks ^^ Suc n) p) = level_after (Suc n)"
    "p_ticks ((update_ticks ^^ Suc n) p) = of_nat (Suc n - level_start (level_after (Suc n)))" by simp_all
qed

lemma spent_at_Suc: "l < 4 \<Longrightarrow> spent_at (Suc n) l = (if l = level_after n then Suc (spent_at n l) else spent_at n l)"
  by (auto simp: spent_at_def level_after_def)

lemma update_ticks_used:
  assumes "p_priority p = 0" "p_ticks p = 0" "length (p_ticks_used p) = 4" "l < 4"
  shows "p_ticks_used ((update_ticks ^^ n) p) ! l = p_ticks_used p ! l + of_nat (spent_at n l) \<and>
    length (p_ticks_used ((update_ticks ^^ n) p)) = 4"
proof (induction n)
  case 0
  then show ?case using assms by (auto simp: spent_at_def)
next
  case (Suc n)
  then show ?case using assms(4)
    by (auto simp: update_ticks_fields nth_upd update_ticks_run(1) [OF assms(1,2)] spent_at_Suc)
qed

section \<open>One CPU\<close>

text \<open>
  The process table with the process the CPU runs (\<^verbatim>\<open>proc\<close>) and the tick counter. The
  steps are the operations above at the points where the kernel performs them:
  \<^verbatim>\<open>scheduler\<close> runs when no process does, \<^verbatim>\<open>yield\<close>, \<^verbatim>\<open>sleep\<close> and \<^verbatim>\<open>exit\<close> give up
  the CPU, and interrupts wake, kill and count ticks at any time. Creating a process
  (\<^verbatim>\<open>allocproc\<close>, then \<^verbatim>\<open>RUNNABLE\<close>) and reaping one (\<^verbatim>\<open>wait\<close>) appear with their
  effect on the scheduler's fields.
\<close>

record cpu =
  procs :: "proc list"
  running :: "nat option"
  now :: u32

definition spawn :: "nat \<Rightarrow> proc list \<Rightarrow> proc list" where
  "spawn i ps = upd (\<lambda>p. p\<lparr>p_state := RUNNABLE, p_priority := 0, p_ticks_used := replicate NPRIOR 0\<rparr>) i ps"

definition set_state :: "procstate \<Rightarrow> nat \<Rightarrow> proc list \<Rightarrow> proc list" where
  "set_state st i ps = upd (\<lambda>p. p\<lparr>p_state := st\<rparr>) i ps"

inductive cpu_step :: "cpu \<Rightarrow> cpu \<Rightarrow> bool" where
  schedule: "running c = None \<Longrightarrow> scheduler_round (now c) (procs c) = (r, ps) \<Longrightarrow>
     cpu_step c (c\<lparr>procs := ps, running := r\<rparr>)"
| yield: "running c = Some i \<Longrightarrow> cpu_step c (c\<lparr>procs := yield_proc i (procs c), running := None\<rparr>)"
| sleep: "running c = Some i \<Longrightarrow> cpu_step c (c\<lparr>procs := sleep_enter ch i (procs c), running := None\<rparr>)"
| resume: "running c = Some i \<Longrightarrow> cpu_step c (c\<lparr>procs := sleep_leave i (procs c)\<rparr>)"
| wake: "cpu_step c (c\<lparr>procs := wakeup ch (procs c)\<rparr>)"
| kill: "cpu_step c (c\<lparr>procs := snd (kill pid (procs c))\<rparr>)"
| tick: "cpu_step c (c\<lparr>procs := wakeup ChanTicks (procs c), now := now c + 1\<rparr>)"
| create: "first_idx (\<lambda>p. p_state p = UNUSED) (procs c) = Some i \<Longrightarrow>
     cpu_step c (c\<lparr>procs := spawn i (procs c)\<rparr>)"
| exit: "running c = Some i \<Longrightarrow> cpu_step c (c\<lparr>procs := set_state ZOMBIE i (procs c), running := None\<rparr>)"
| reap: "i < length (procs c) \<Longrightarrow> p_state (procs c ! i) = ZOMBIE \<Longrightarrow>
     cpu_step c (c\<lparr>procs := set_state UNUSED i (procs c)\<rparr>)"

inductive cpu_reach :: "cpu \<Rightarrow> bool" where
  boot: "cpu_reach \<lparr>procs = replicate NPROC zero_proc, running = None, now = 0\<rparr>"
| step: "cpu_reach c \<Longrightarrow> cpu_step c c' \<Longrightarrow> cpu_reach c'"

definition cpu_ok :: "cpu \<Rightarrow> bool" where
  "cpu_ok c \<longleftrightarrow>
     length (procs c) = NPROC \<and>
     (\<forall>i<NPROC. p_state (procs c ! i) = RUNNING \<longleftrightarrow> running c = Some i) \<and>
     (\<forall>i. running c = Some i \<longrightarrow> i < NPROC) \<and>
     (\<forall>i<NPROC. prio_ok (procs c ! i)) \<and>
     (\<forall>i<NPROC. p_state (procs c ! i) = SLEEPING \<longrightarrow> p_chan (procs c ! i) \<noteq> None)"

lemma prio_ok_state [simp]:
  "prio_ok (p\<lparr>p_state := st\<rparr>) = prio_ok p" "prio_ok (p\<lparr>p_chan := ch\<rparr>) = prio_ok p"
  "prio_ok (p\<lparr>p_killed := k\<rparr>) = prio_ok p" "prio_ok (p\<lparr>p_last_sched_time := t\<rparr>) = prio_ok p"
  by (simp_all add: prio_ok_def)

lemma prio_ok_boost: "prio_ok p \<Longrightarrow> n \<le> p_priority p \<Longrightarrow> prio_ok (p\<lparr>p_priority := n\<rparr>)"
  by (auto simp: prio_ok_def)

lemma update_ticks_state [simp]:
  "p_state (update_ticks p) = p_state p" "p_chan (update_ticks p) = p_chan p"
  by (simp_all add: update_ticks_def Let_def)

text \<open>A slot changed by an operation that keeps it a non-running process with a valid level.\<close>

lemma cpu_ok_upd:
  assumes "cpu_ok c" "i < NPROC"
    and "prio_ok (f (procs c ! i))" "p_state (f (procs c ! i)) \<noteq> RUNNING"
      "p_state (f (procs c ! i)) = SLEEPING \<longrightarrow> p_chan (f (procs c ! i)) \<noteq> None"
      "running c = None \<or> running c = Some i \<or> p_state (procs c ! i) \<noteq> RUNNING"
    and r: "r = (if running c = Some i then None else running c)"
  shows "cpu_ok (c\<lparr>procs := upd f i (procs c), running := r\<rparr>)"
proof -
  have L: "length (procs c) = 64" using assms(1) by (simp add: cpu_ok_def)
  have U: "upd f i (procs c) ! j = (if i = j then f (procs c ! j) else procs c ! j)" if "j < 64" for j
    using that L by (simp add: nth_upd)
  show ?thesis using assms unfolding cpu_ok_def by (auto simp: U)
qed

lemma cpu_okD:
  assumes "cpu_ok c"
  shows "length (procs c) = NPROC" "i < NPROC \<Longrightarrow> p_state (procs c ! i) = RUNNING \<longleftrightarrow> running c = Some i"
    "running c = Some i \<Longrightarrow> i < NPROC" "i < NPROC \<Longrightarrow> prio_ok (procs c ! i)"
    "i < NPROC \<Longrightarrow> p_state (procs c ! i) = SLEEPING \<Longrightarrow> p_chan (procs c ! i) \<noteq> None"
  using assms by (auto simp: cpu_ok_def)

text \<open>Every slot changed by a function that keeps the state or wakes a sleeper.\<close>

lemma cpu_ok_map:
  assumes ok: "cpu_ok c" and ps: "length ps = NPROC"
    and keep: "\<And>i. i < NPROC \<Longrightarrow>
      prio_ok (ps ! i) \<and> p_chan (ps ! i) = p_chan (procs c ! i) \<and>
      (p_state (ps ! i) = p_state (procs c ! i) \<or>
       p_state (procs c ! i) = SLEEPING \<and> p_state (ps ! i) = RUNNABLE)"
  shows "cpu_ok (c\<lparr>procs := ps\<rparr>)"
proof -
  have "p_state (ps ! i) = RUNNING \<longleftrightarrow> p_state (procs c ! i) = RUNNING" if "i < NPROC" for i
    using keep [OF that] by auto
  moreover have "p_chan (ps ! i) \<noteq> None" if "i < NPROC" "p_state (ps ! i) = SLEEPING" for i
    using keep [OF that(1)] that cpu_okD(5) [OF ok that(1)] by auto
  ultimately show ?thesis using ok ps keep unfolding cpu_ok_def by auto
qed

lemma cpu_ok_schedule:
  assumes ok: "cpu_ok c" and idle: "running c = None"
    and r: "scheduler_round (now c) (procs c) = (r, ps)"
  shows "cpu_ok (c\<lparr>procs := ps, running := r\<rparr>)"
proof -
  note D = cpu_okD [OF ok]
  let ?b = "boost (now c) (procs c)"
  have b: "cpu_ok (c\<lparr>procs := ?b\<rparr>)"
    by (rule cpu_ok_map [OF ok]) (use D in \<open>auto simp: boost_nth intro!: prio_ok_boost\<close>)
  show ?thesis
  proof (cases "pick_loop [0..<4] ?b")
    case None
    then have "ps = ?b" "r = None" using r by (simp_all add: scheduler_round_def Let_def)
    then show ?thesis using b idle D(1) unfolding cpu_ok_def by simp
  next
    case (Some i)
    then have i: "i < 64" using pick_loop_Some(1) [OF Some] D(1) by simp
    have ps: "ps = upd (\<lambda>p. p\<lparr>p_state := RUNNING, p_last_sched_time := now c\<rparr>) i ?b" "r = Some i"
      using r Some by (auto simp: scheduler_round_def Let_def)
    have L: "length ?b = 64" using D(1) by simp
    have U: "ps ! j = (if i = j then (?b ! j)\<lparr>p_state := RUNNING, p_last_sched_time := now c\<rparr> else ?b ! j)"
      if "j < 64" for j using that L by (simp add: ps nth_upd)
    show ?thesis
      using b i idle L unfolding cpu_ok_def by (auto simp: U ps(2)) (simp_all add: ps(1))?
  qed
qed

lemma cpu_ok_step: "cpu_step c c' \<Longrightarrow> cpu_ok c \<Longrightarrow> cpu_ok c'"
proof (induction rule: cpu_step.induct)
  case (schedule c r ps)
  then show ?case using cpu_ok_schedule by blast
next
  case (yield c i)
  note D = cpu_okD [OF yield(2)]
  have "cpu_ok (c\<lparr>procs := yield_proc i (procs c), running := None\<rparr>)"
    unfolding yield_proc_def
    by (rule cpu_ok_upd [OF yield(2)]) (use D yield(1) in \<open>auto intro!: update_ticks_prio_ok\<close>)
  then show ?case .
next
  case (sleep c i ch)
  note D = cpu_okD [OF sleep(2)]
  show ?case unfolding sleep_enter_def
    by (rule cpu_ok_upd [OF sleep(2)]) (use D sleep(1) in auto)
next
  case (resume c i)
  note D = cpu_okD [OF resume(2)]
  have i: "i < 64" "p_state (procs c ! i) = RUNNING" using D resume(1) by auto
  then show ?case
    using resume(2) D(1) unfolding cpu_ok_def sleep_leave_def by (auto simp: nth_upd)
next
  case (wake c ch)
  note D = cpu_okD [OF wake]
  show ?case unfolding wakeup_def wakeup1_def
    by (rule cpu_ok_map [OF wake]) (use D in auto)
next
  case (kill c pid)
  note D = cpu_okD [OF kill]
  show ?case
  proof (rule cpu_ok_map [OF kill])
    show "length (snd (kill pid (procs c))) = 64" using D(1) by (simp add: kill_def split: option.split)
    fix i :: nat assume "i < 64"
    then show "prio_ok (snd (kill pid (procs c)) ! i) \<and>
      p_chan (snd (kill pid (procs c)) ! i) = p_chan (procs c ! i) \<and>
      (p_state (snd (kill pid (procs c)) ! i) = p_state (procs c ! i) \<or>
       p_state (procs c ! i) = SLEEPING \<and> p_state (snd (kill pid (procs c)) ! i) = RUNNABLE)"
      using D by (auto simp: kill_def nth_upd Let_def split: option.split)
  qed
next
  case (tick c)
  note D = cpu_okD [OF tick]
  have "cpu_ok (c\<lparr>procs := wakeup ChanTicks (procs c)\<rparr>)" unfolding wakeup_def wakeup1_def
    by (rule cpu_ok_map [OF tick]) (use D in auto)
  then show ?case by (simp add: cpu_ok_def)
next
  case (create c i)
  note D = cpu_okD [OF create(2)]
  have i: "i < 64" "p_state (procs c ! i) = UNUSED" using create(1) D(1) by (auto dest: first_idx_SomeD)
  have "running c \<noteq> Some i" using D(2) [of i] i by simp
  then have "cpu_ok (c\<lparr>procs := spawn i (procs c), running := running c\<rparr>)" unfolding spawn_def
    by (intro cpu_ok_upd [OF create(2)]) (use D i in \<open>auto simp: prio_ok_def\<close>)
  then show ?case by simp
next
  case (exit c i)
  note D = cpu_okD [OF exit(2)]
  show ?case unfolding set_state_def
    by (rule cpu_ok_upd [OF exit(2)]) (use D exit(1) in auto)
next
  case (reap i c)
  note D = cpu_okD [OF reap(3)]
  have "running c \<noteq> Some i" using D(1) D(2) [of i] reap(1,2) by simp
  then have "cpu_ok (c\<lparr>procs := set_state UNUSED i (procs c), running := running c\<rparr>)" unfolding set_state_def
    by (intro cpu_ok_upd [OF reap(3)]) (use D reap(1,2) in auto)
  then show ?case by simp
qed

lemma cpu_ok_reach: "cpu_reach c \<Longrightarrow> cpu_ok c"
proof (induction rule: cpu_reach.induct)
  case boot
  then show ?case by (auto simp: cpu_ok_def zero_proc_def prio_ok_def)
next
  case (step c c')
  then show ?case using cpu_ok_step by blast
qed


section \<open>Properties\<close>

text \<open>
  C7. One round of \<^verbatim>\<open>scheduler\<close> (proc.c) on a table whose levels are in range. If no
  process is runnable nothing changes and none is chosen. Otherwise it runs a process that was
  runnable and that, after the starvation boost, no runnable process beats: all others have a
  higher level number, or the same one and a later slot; that process becomes
  \<^verbatim>\<open>RUNNING\<close> with the time recorded, every other slot is as the boost left it, and the boost
  changes only the level of runnable processes that waited more than \<^verbatim>\<open>TSTARV\<close> ticks, by one.
\<close>

theorem scheduler_runs_best_process:
  assumes "\<forall>p\<in>set ps. p_priority p < NPRIOR"
  shows "case scheduler_round ticks ps of
      (None, ps') \<Rightarrow> (\<forall>p\<in>set ps. p_state p \<noteq> RUNNABLE) \<and> ps' = ps
    | (Some i, ps') \<Rightarrow>
        i < length ps \<and> p_state (ps ! i) = RUNNABLE \<and>
        (\<forall>j<length ps. p_state (ps ! j) = RUNNABLE \<longrightarrow>
           p_priority (boost ticks ps ! i) < p_priority (boost ticks ps ! j) \<or>
           p_priority (boost ticks ps ! i) = p_priority (boost ticks ps ! j) \<and> i \<le> j) \<and>
        ps' = (boost ticks ps)[i := (boost ticks ps ! i)\<lparr>p_state := RUNNING, p_last_sched_time := ticks\<rparr>] \<and>
        (\<forall>j<length ps. boost ticks ps ! j =
           (if p_state (ps ! j) = RUNNABLE \<and> 0 < p_priority (ps ! j) \<and> p_last_sched_time (ps ! j) + TSTARV < ticks
            then (ps ! j)\<lparr>p_priority := p_priority (ps ! j) - 1\<rparr> else ps ! j))"
proof -
  let ?b = "boost ticks ps"
  have lv: "p_priority (?b ! j) \<in> set [0..<4]" if "j < length ps" for j
    using that assms [rule_format, of "ps ! j"] by (auto simp: boost_nth)
  show ?thesis
  proof (cases "pick_loop [0..<4] ?b")
    case None
    then have "\<forall>p\<in>set ?b. p_state p = RUNNABLE \<longrightarrow> p_priority p \<notin> set [0..<4]" by (simp only: pick_loop_None)
    then have no: "\<forall>p\<in>set ps. p_state p \<noteq> RUNNABLE"
      using lv by (metis boost_state in_set_conv_nth length_boost)
    then have "?b = ps" by (auto simp: boost_def starving_def intro!: map_idI)
    then show ?thesis using None no by (simp add: scheduler_round_def Let_def)
  next
    case (Some i)
    have P: "i < length ps" "p_state (ps ! i) = RUNNABLE"
      using pick_loop_Some(1,2) [OF Some] by simp_all
    have B: "?b ! j = (if p_state (ps ! j) = RUNNABLE \<and> 0 < p_priority (ps ! j) \<and>
          p_last_sched_time (ps ! j) + TSTARV < ticks
        then (ps ! j)\<lparr>p_priority := p_priority (ps ! j) - 1\<rparr> else ps ! j)" if "j < length ps" for j
      using that by (simp add: boost_nth starving_def)
    have M: "p_priority (?b ! i) < p_priority (?b ! j) \<or> p_priority (?b ! i) = p_priority (?b ! j) \<and> i \<le> j"
      if "j < length ps" "p_state (ps ! j) = RUNNABLE" for j
      using pick_loop_min [OF _ Some, of j] that lv by simp
    have E: "scheduler_round ticks ps =
        (Some i, ?b[i := (?b ! i)\<lparr>p_state := RUNNING, p_last_sched_time := ticks\<rparr>])"
      using Some by (simp add: scheduler_round_def Let_def upd_def)
    show ?thesis unfolding E prod.case option.case
      by (intro conjI allI impI refl P M B)
  qed
qed

lemma levels: "[0..<4] = [0, 1, 2, 3 :: nat]"
  by (simp add: eval_nat_numeral)

definition demo_procs :: "proc list" where
  "demo_procs =
     [zero_proc\<lparr>p_state := RUNNABLE, p_pid := 1, p_priority := 2, p_last_sched_time := 150\<rparr>,
      zero_proc\<lparr>p_state := SLEEPING, p_pid := 2, p_chan := Some ChanTicks\<rparr>,
      zero_proc\<lparr>p_state := RUNNABLE, p_pid := 3, p_priority := 2, p_last_sched_time := 20\<rparr>]"

theorem scheduler_runs_best_process_witness:
  "scheduler_round 200 demo_procs =
     (Some 2, demo_procs[2 := (demo_procs ! 2)\<lparr>p_priority := 1, p_state := RUNNING, p_last_sched_time := 200\<rparr>]) \<and>
   (case scheduler_round 200 demo_procs of
      (None, ps') \<Rightarrow> False
    | (Some i, ps') \<Rightarrow> p_state (demo_procs ! i) = RUNNABLE)"
proof -
  have "scheduler_round 200 demo_procs =
     (Some 2, demo_procs[2 := (demo_procs ! 2)\<lparr>p_priority := 1, p_state := RUNNING, p_last_sched_time := 200\<rparr>])"
    by (simp add: scheduler_round_def demo_procs_def boost_def starving_def zero_proc_def upd_def levels Let_def)
  moreover have "\<forall>p\<in>set demo_procs. p_priority p < NPRIOR" by (simp add: demo_procs_def zero_proc_def)
  ultimately show ?thesis using scheduler_runs_best_process [of demo_procs 200] by simp
qed

text \<open>
  C28. Demotion in the feedback queue (\<^verbatim>\<open>update_ticks\<close>, proc.c): a process that starts at
  level 0 with a fresh slice is, after \<open>n\<close> ticks of CPU time without a boost, at level 0 for
  its first 5 ticks, at level 1 for the next 5, at level 2 for the next 10 and at level 3 from
  tick 20 on; \<^verbatim>\<open>ticks_used\<close> has grown, level by level, by exactly the ticks spent there.
\<close>

theorem update_ticks_demotes_by_quota:
  assumes "p_priority p = 0" "p_ticks p = 0" "length (p_ticks_used p) = NPRIOR"
  shows "p_priority ((update_ticks ^^ n) p) = level_after n \<and>
    (\<forall>l<NPRIOR. p_ticks_used ((update_ticks ^^ n) p) ! l = p_ticks_used p ! l + of_nat (spent_at n l)) \<and>
    (\<Sum>l<NPRIOR. spent_at n l) = n"
proof -
  have "spent_at n 0 + spent_at n 1 + spent_at n 2 + spent_at n 3 = n" by (auto simp: spent_at_def)
  then have "(\<Sum>l<NPRIOR. spent_at n l) = n" by (simp add: eval_nat_numeral)
  then show ?thesis using update_ticks_run(1) [OF assms(1,2)] update_ticks_used [OF assms] by blast
qed

theorem update_ticks_demotes_by_quota_witness:
  "p_priority ((update_ticks ^^ 12) zero_proc) = 2 \<and> p_ticks_used ((update_ticks ^^ 12) zero_proc) ! 2 = 2"
  using update_ticks_demotes_by_quota [of zero_proc 12]
  by (auto simp: zero_proc_def level_after_def spent_at_def dest: spec [of _ "2 :: nat"])




text \<open>
  The ticks \<^verbatim>\<open>getpinfo\<close> (proc.c) reports. For a process that started at level 0 with
  clear counters and was never boosted, the four numbers are exactly the ticks it spent at
  each level, although the code reports \<^verbatim>\<open>tick_quota\<close> for the levels above the current one
  and 0 for those below instead of reading \<^verbatim>\<open>ticks_used\<close>.
\<close>

theorem getpinfo_exact_without_boost:
  assumes "p_priority p = 0" "p_ticks p = 0" "p_ticks_used p = replicate NPRIOR 0"
  shows "ps_ticks (getpinfo [(update_ticks ^^ n) p]) = [map (\<lambda>l. of_nat (spent_at n l)) [0..<NPRIOR]]"
proof -
  let ?q = "(update_ticks ^^ n) p"
  have len: "length (p_ticks_used p) = NPRIOR" using assms(3) by simp
  have lv: "p_priority ?q = level_after n" by (rule update_ticks_run(1) [OF assms(1,2)])
  have "p_ticks_used ?q ! l = of_nat (spent_at n l)" if "l < 4" for l
    using update_ticks_used [OF assms(1,2) len that, of n] assms(3) that by auto
  moreover have "l < level_after n \<Longrightarrow> tick_quota ! l = spent_at n l"
    "l < 4 \<Longrightarrow> level_after n < l \<Longrightarrow> spent_at n l = 0" for l
  proof -
    assume "l < level_after n"
    then have "l = 0 \<and> 5 \<le> n \<or> l = 1 \<and> 10 \<le> n \<or> l = 2 \<and> 20 \<le> n"
      by (auto simp: level_after_def split: if_splits)
    then show "tick_quota ! l = spent_at n l" by (auto simp: tick_quota_def spent_at_def)
  next
    assume "l < 4" "level_after n < l"
    then show "spent_at n l = 0" by (auto simp: level_after_def spent_at_def split: if_splits)
  qed
  ultimately have "pinfo_ticks ?q = map (\<lambda>l. of_nat (spent_at n l)) [0..<4]"
    unfolding pinfo_ticks_def lv by (intro map_cong refl) auto
  then show ?thesis by (simp add: getpinfo_def)
qed

theorem getpinfo_exact_without_boost_witness:
  "ps_ticks (getpinfo [(update_ticks ^^ 12) zero_proc]) = [[5, 5, 2, 0]]"
  using getpinfo_exact_without_boost [of zero_proc 12]
  by (simp add: zero_proc_def levels spent_at_def)

text \<open>
  After a boost the report and the counters disagree: a process that used 12 ticks and is
  boosted from level 2 to level 1 is reported with nothing at level 2.
\<close>

lemma getpinfo_loses_ticks_after_boost:
  "let p = hd (boost 300 [((update_ticks ^^ 12) zero_proc)\<lparr>p_state := RUNNABLE\<rparr>]) in
   p_priority p = 1 \<and> p_ticks_used p ! 2 = 2 \<and> hd (ps_ticks (getpinfo [p])) ! 2 = 0"
proof -
  let ?q = "(update_ticks ^^ 12) zero_proc"
  have z: "p_priority zero_proc = 0" "p_ticks zero_proc = 0" "length (p_ticks_used zero_proc) = 4"
    "p_ticks_used zero_proc ! 2 = 0" "p_last_sched_time zero_proc = 0"
    by (simp_all add: zero_proc_def)
  have "p_last_sched_time ((update_ticks ^^ n) p) = p_last_sched_time p" for n p
    by (induction n) (simp_all add: update_ticks_def Let_def)
  then have ls: "p_last_sched_time ?q = 0" using z by simp
  have "p_priority ?q = 2" using update_ticks_run(1) [OF z(1,2), of 12] by (simp add: level_after_def)
  moreover have "p_ticks_used ?q ! 2 = 2"
    using update_ticks_used [OF z(1,2,3), of 2 12] z(4) by (simp add: spent_at_def)
  ultimately show ?thesis
    using ls by (simp add: boost_def starving_def getpinfo_def pinfo_ticks_def levels Let_def)
qed

end
