(* ===== verification/Strings.thy ===== *)
theory Strings
  imports Prelude
begin

unbundle bit_operations_syntax

text \<open>
  The C string routines of the kernel (\<^verbatim>\<open>kernel/string.c\<close>) and of the user library
  (\<^verbatim>\<open>user/ulib.c\<close>), over a byte-addressed memory. A counted loop
  \<^verbatim>\<open>while(n-- > 0)\<close> is recursion on the count. The loops of \<^verbatim>\<open>strlen\<close>,
  \<^verbatim>\<open>strcmp\<close>, \<^verbatim>\<open>strcpy\<close>, \<^verbatim>\<open>strchr\<close> and \<^verbatim>\<open>atoi\<close> stop only where memory says so: they are
  partial functions whose value \<open>None\<close> means that the loop does not end.
\<close>

type_synonym bmem = "u32 \<Rightarrow> u8"

section \<open>Operations of the kernel\<close>

fun mem_set :: "u32 \<Rightarrow> u8 \<Rightarrow> nat \<Rightarrow> bmem \<Rightarrow> bmem" where
  "mem_set dst c 0 m = m"
| "mem_set dst c (Suc n) m = mem_set (dst + 1) c n (m(dst := c))"

fun memcmp :: "u32 \<Rightarrow> u32 \<Rightarrow> nat \<Rightarrow> bmem \<Rightarrow> int" where
  "memcmp s1 s2 0 m = 0"
| "memcmp s1 s2 (Suc n) m =
     (if m s1 \<noteq> m s2 then uint (m s1) - uint (m s2) else memcmp (s1 + 1) (s2 + 1) n m)"

fun copy_up :: "u32 \<Rightarrow> u32 \<Rightarrow> nat \<Rightarrow> bmem \<Rightarrow> bmem" where
  "copy_up d s 0 m = m"
| "copy_up d s (Suc n) m = copy_up (d + 1) (s + 1) n (m(d := m s))"

fun copy_down :: "u32 \<Rightarrow> u32 \<Rightarrow> nat \<Rightarrow> bmem \<Rightarrow> bmem" where
  "copy_down d s 0 m = m"
| "copy_down d s (Suc n) m = copy_down (d - 1) (s - 1) n (m(d - 1 := m (s - 1)))"

definition memmove :: "u32 \<Rightarrow> u32 \<Rightarrow> u32 \<Rightarrow> bmem \<Rightarrow> bmem" where
  "memmove dst src n m =
     (if src < dst \<and> src + n > dst then copy_down (dst + n) (src + n) (unat n) m
      else copy_up dst src (unat n) m)"

definition memcpy :: "u32 \<Rightarrow> u32 \<Rightarrow> u32 \<Rightarrow> bmem \<Rightarrow> bmem" where
  "memcpy dst src n m = memmove dst src n m"

fun strncmp :: "u32 \<Rightarrow> u32 \<Rightarrow> nat \<Rightarrow> bmem \<Rightarrow> int" where
  "strncmp p q 0 m = 0"
| "strncmp p q (Suc n) m =
     (if m p \<noteq> 0 \<and> m p = m q then strncmp (p + 1) (q + 1) n m else uint (m p) - uint (m q))"

fun strncpy_loop :: "u32 \<Rightarrow> u32 \<Rightarrow> nat \<Rightarrow> bmem \<Rightarrow> u32 \<times> nat \<times> bmem" where
  "strncpy_loop s t 0 m = (s, 0, m)"
| "strncpy_loop s t (Suc n) m =
     (if m t \<noteq> 0 then strncpy_loop (s + 1) (t + 1) n (m(s := m t)) else (s + 1, n, m(s := m t)))"

definition strncpy :: "u32 \<Rightarrow> u32 \<Rightarrow> int \<Rightarrow> bmem \<Rightarrow> bmem" where
  "strncpy s t n m = (let (s', n', m') = strncpy_loop s t (nat n) m in mem_set s' 0 n' m')"

definition safestrcpy :: "u32 \<Rightarrow> u32 \<Rightarrow> int \<Rightarrow> bmem \<Rightarrow> bmem" where
  "safestrcpy s t n m =
     (if n \<le> 0 then m
      else let (s', n', m') = strncpy_loop s t (nat (n - 1)) m in m'(s' := 0))"

partial_function (option) strlen_loop :: "nat \<Rightarrow> u32 \<Rightarrow> bmem \<Rightarrow> nat option" where
  "strlen_loop n s m = (if m (s + of_nat n) \<noteq> 0 then strlen_loop (Suc n) s m else Some n)"

definition strlen :: "u32 \<Rightarrow> bmem \<Rightarrow> nat option" where
  "strlen s m = strlen_loop 0 s m"

section \<open>Operations of the user library\<close>

partial_function (option) strcpy :: "u32 \<Rightarrow> u32 \<Rightarrow> bmem \<Rightarrow> bmem option" where
  "strcpy s t m = (if m t \<noteq> 0 then strcpy (s + 1) (t + 1) (m(s := m t)) else Some (m(s := m t)))"

partial_function (option) strcmp :: "u32 \<Rightarrow> u32 \<Rightarrow> bmem \<Rightarrow> int option" where
  "strcmp p q m =
     (if m p \<noteq> 0 \<and> m p = m q then strcmp (p + 1) (q + 1) m else Some (uint (m p) - uint (m q)))"

partial_function (option) strchr :: "u32 \<Rightarrow> u8 \<Rightarrow> bmem \<Rightarrow> u32 option" where
  "strchr s c m = (if m s \<noteq> 0 then if m s = c then Some s else strchr (s + 1) c m else Some 0)"

partial_function (option) atoi_loop :: "u32 \<Rightarrow> u32 \<Rightarrow> bmem \<Rightarrow> u32 option" where
  "atoi_loop n s m =
     (if 48 \<le> m s \<and> m s \<le> 57 then atoi_loop (n * 10 + ucast (m s) - 48) (s + 1) m else Some n)"

definition atoi :: "u32 \<Rightarrow> bmem \<Rightarrow> u32 option" where
  "atoi s m = atoi_loop 0 s m"

definition user_memmove :: "u32 \<Rightarrow> u32 \<Rightarrow> int \<Rightarrow> bmem \<Rightarrow> bmem" where
  "user_memmove vdst vsrc n m = copy_up vdst vsrc (nat n) m"

text \<open>
  \<^verbatim>\<open>gets\<close> reads the standard input byte by byte; the input still to come is a list, whose end
  is the end of file. The result is the bytes stored in \<^verbatim>\<open>buf\<close> (the final NUL included)
  and the rest of the input.
\<close>

fun gets_loop :: "nat \<Rightarrow> u8 list \<Rightarrow> u8 list \<times> u8 list" where
  "gets_loop 0 input = ([], input)"
| "gets_loop (Suc k) [] = ([], [])"
| "gets_loop (Suc k) (c # input) =
     (if c = 10 \<or> c = 13 then ([c], input)
      else let (cs, rest) = gets_loop k input in (c # cs, rest))"

definition gets :: "int \<Rightarrow> u8 list \<Rightarrow> u8 list \<times> u8 list" where
  "gets mx input = (let (cs, rest) = gets_loop (nat (mx - 1)) input in (cs @ [0], rest))"

section \<open>Copying\<close>

text \<open>What a copy of \<open>n\<close> bytes means: every byte of the target is the old byte of the source.\<close>

definition copied :: "u32 \<Rightarrow> u32 \<Rightarrow> nat \<Rightarrow> bmem \<Rightarrow> bmem" where
  "copied d s n m = (\<lambda>a. if unat (a - d) < n then m (s + (a - d)) else m a)"

lemma copied_0 [simp]: "copied d s 0 m = m"
  by (simp add: copied_def)

lemma unat_Suc_diff:
  fixes a d :: u32
  assumes "n < 2 ^ 32"
  shows "unat (a - d) < Suc n \<longleftrightarrow> a = d \<or> unat (a - (d + 1)) < n"
proof (cases "a = d")
  case False
  then have "0 < unat (a - d)" by (simp add: unat_gt_0)
  moreover have "a - (d + 1) = (a - d) - 1" by simp
  ultimately have "unat (a - (d + 1)) = unat (a - d) - 1"
    by (simp only:) (subst unat_sub_small, simp_all)
  then show ?thesis using False \<open>0 < unat (a - d)\<close> by auto
qed simp

lemma copy_up_copied:
  assumes "n < 2 ^ 32" "d = s \<or> n \<le> unat (d - s)"
  shows "copy_up d s n m = copied d s n m"
  using assms
proof (induction n arbitrary: d s m)
  case (Suc n)
  have far: "d + 1 = s + 1 \<or> n \<le> unat ((d + 1) - (s + 1))" using Suc.prems(2) by auto
  show ?case
  proof
    fix a
    have "copy_up d s (Suc n) m a = copied (d + 1) (s + 1) n (m(d := m s)) a"
      using Suc.IH [OF _ far] Suc.prems(1) by simp
    also have "\<dots> = copied d s (Suc n) m a"
    proof (cases "unat (a - (d + 1)) < n")
      case True
      have "s + 1 + (a - (d + 1)) = s + (a - d)" by simp
      moreover have "d = s \<or> s + (a - d) \<noteq> d"
      proof (rule ccontr)
        assume "\<not> (d = s \<or> s + (a - d) \<noteq> d)"
        then have "d \<noteq> s" "a - d = d - s" by (auto simp: algebra_simps)
        moreover have "a = d \<or> unat (a - (d + 1)) < n" using True by blast
        then have "unat (a - d) < Suc n" using unat_Suc_diff [of n a d] Suc.prems(1) by simp
        ultimately show False using Suc.prems(2) by simp
      qed
      moreover have "unat (a - d) < Suc n" using True unat_Suc_diff [of n a d] Suc.prems(1) by simp
      ultimately show ?thesis using True by (auto simp: copied_def)
    next
      case False
      then show ?thesis using unat_Suc_diff [of n a d] Suc.prems(1) by (auto simp: copied_def)
    qed
    finally show "copy_up d s (Suc n) m a = copied d s (Suc n) m a" .
  qed
qed simp

lemma copy_down_copied:
  assumes "n < 2 ^ 32" "d = s \<or> unat (d - s) + n \<le> 2 ^ 32"
  shows "copy_down d s n m = copied (d - of_nat n) (s - of_nat n) n m"
  using assms
proof (induction n arbitrary: d s m)
  case (Suc n)
  let ?D = "d - of_nat (Suc n)" and ?S = "s - of_nat (Suc n)" and ?m = "m(d - 1 := m (s - 1))"
  have far: "d - 1 = s - 1 \<or> unat ((d - 1) - (s - 1)) + n \<le> 2 ^ 32" using Suc.prems(2) by auto
  have un: "unat (of_nat n :: u32) = n" using Suc.prems(1) by (simp add: unsigned_of_nat take_bit_eq_mod)
  have ends: "d - 1 - of_nat n = ?D" "s - 1 - of_nat n = ?S" by (simp_all add: algebra_simps)
  show ?case
  proof
    fix a
    have "copy_down d s (Suc n) m a = copied ?D ?S n ?m a"
      using Suc.IH [OF _ far] Suc.prems(1) ends by simp
    also have "\<dots> = copied ?D ?S (Suc n) m a"
    proof (cases "unat (a - ?D) < n")
      case True
      have "d = s \<or> ?S + (a - ?D) \<noteq> d - 1"
      proof (rule ccontr)
        assume "\<not> (d = s \<or> ?S + (a - ?D) \<noteq> d - 1)"
        then have ne: "d \<noteq> s" and eq: "a - ?D = (d - s) + of_nat n" by (auto simp: algebra_simps)
        have "unat ((d - s) + of_nat n) = unat (d - s) + n"
          using Suc.prems(2) ne un by (subst unat_add_small) auto
        then have "unat (a - ?D) = unat (d - s) + n" by (simp only: eq)
        then show False using True by linarith
      qed
      moreover have "?S + (a - ?D) = d - 1 \<Longrightarrow> d = s \<Longrightarrow> a = d - 1" by (simp add: algebra_simps)
      ultimately show ?thesis using True by (auto simp: copied_def)
    next
      case False
      have "unat (a - ?D) < Suc n \<longleftrightarrow> a = d - 1"
      proof
        assume "unat (a - ?D) < Suc n"
        then have "unat (a - ?D) = unat (of_nat n :: u32)" using False un by simp
        then have "a - ?D = of_nat n" by (simp add: word_unat_eq_iff)
        then show "a = d - 1" by (simp add: algebra_simps)
      next
        assume "a = d - 1"
        then have "a - ?D = of_nat n" by (simp add: algebra_simps)
        then show "unat (a - ?D) < Suc n" using un by (simp only:)
      qed
      moreover have "?S + ((d - 1) - ?D) = s - 1" by (simp add: algebra_simps)
      ultimately show ?thesis using False by (auto simp: copied_def)
    qed
    finally show "copy_down d s (Suc n) m a = copied ?D ?S (Suc n) m a" .
  qed
qed simp

lemma mem_set_nth:
  "n < 2 ^ 32 \<Longrightarrow> mem_set d c n m = (\<lambda>a. if unat (a - d) < n then c else m a)"
proof (induction n arbitrary: d m)
  case (Suc n)
  then show ?case using unat_Suc_diff [of n _ d] by (auto simp: fun_eq_iff)
qed simp

section \<open>Strings\<close>

text \<open>A NUL-terminated string in memory.\<close>

definition cstr :: "bmem \<Rightarrow> u32 \<Rightarrow> u8 list \<Rightarrow> bool" where
  "cstr m a xs \<longleftrightarrow>
     (\<forall>i<length xs. m (a + of_nat i) = xs ! i \<and> xs ! i \<noteq> 0) \<and> m (a + of_nat (length xs)) = 0"

lemma cstr_Nil [simp]: "cstr m a [] \<longleftrightarrow> m a = 0"
  by (simp add: cstr_def)

lemma cstr_Cons [simp]: "cstr m a (x # xs) \<longleftrightarrow> m a = x \<and> x \<noteq> 0 \<and> cstr m (a + 1) xs"
  by (auto simp: cstr_def All_less_Suc2 add.assoc)

lemma strlen_cstr: "cstr m s xs \<Longrightarrow> strlen s m = Some (length xs)"
proof -
  have "strlen_loop n a m = Some (n + length xs)" if "cstr m (a + of_nat n) xs" for n a
    using that
  proof (induction xs arbitrary: n)
    case Nil
    then show ?case by (subst strlen_loop.simps) simp
  next
    case (Cons x xs)
    have "a + of_nat n + 1 = a + of_nat (Suc n)" by simp
    with Cons show ?case by (subst strlen_loop.simps) auto
  qed
  from this [of s 0] show "cstr m s xs \<Longrightarrow> strlen s m = Some (length xs)" by (simp add: strlen_def)
qed

lemma strncmp_cstr:
  assumes "cstr m p xs" "cstr m q ys"
  shows "strncmp p q n m = 0 \<longleftrightarrow> take n xs = take n ys"
  using assms
proof (induction n arbitrary: p q xs ys)
  case (Suc n)
  show ?case
  proof (cases xs)
    case Nil
    then show ?thesis using Suc.prems by (cases ys) (auto simp: unsigned_eq_0_iff)
  next
    case (Cons x xs')
    then show ?thesis using Suc.IH [of "p + 1" xs' "q + 1"] Suc.prems
      by (cases ys) (auto simp: word_uint_eq_iff)
  qed
qed simp

lemma strcmp_cstr:
  assumes "cstr m p xs" "cstr m q ys"
  shows "\<exists>r. strcmp p q m = Some r \<and> (r = 0 \<longleftrightarrow> xs = ys)"
  using assms
proof (induction xs arbitrary: p q ys)
  case Nil
  then show ?case by (subst strcmp.simps) (cases ys; auto simp: unsigned_eq_0_iff)
next
  case (Cons x xs)
  then show ?case
    by (subst strcmp.simps) (cases ys; force simp: word_uint_eq_iff)
qed

lemma strchr_cstr:
  assumes "cstr m s xs"
  shows "strchr s c m = Some (case first_idx (\<lambda>x. x = c) xs of Some i \<Rightarrow> s + of_nat i | None \<Rightarrow> 0)"
  using assms
proof (induction xs arbitrary: s)
  case Nil
  then show ?case by (subst strchr.simps) simp
next
  case (Cons x xs)
  then show ?case by (subst strchr.simps) (auto split: option.split simp: algebra_simps)
qed

text \<open>A list of bytes stored at an address.\<close>

definition put :: "u32 \<Rightarrow> u8 list \<Rightarrow> bmem \<Rightarrow> bmem" where
  "put s ys m = (\<lambda>a. if unat (a - s) < length ys then ys ! unat (a - s) else m a)"

lemma put_Nil [simp]: "put s [] m = m"
  by (simp add: put_def)

lemma put_Cons:
  assumes "length ys < 2 ^ 32"
  shows "put s (y # ys) m = put (s + 1) ys (m(s := y))"
proof
  fix a
  show "put s (y # ys) m a = put (s + 1) ys (m(s := y)) a"
  proof (cases "a = s")
    case True
    have "unat (s - (s + 1)) = 2 ^ 32 - 1" by (simp add: unsigned_minus_1_eq_mask mask_eq_exp_minus_1)
    then have "\<not> unat (s - (s + 1)) < length ys" using assms by simp
    then show ?thesis using True by (simp add: put_def)
  next
    case False
    then have "0 < unat (a - s)" by (simp add: unat_gt_0)
    moreover have "a - (s + 1) = (a - s) - 1" by simp
    ultimately have u: "unat (a - (s + 1)) = unat (a - s) - 1"
      by (simp only:) (subst unat_sub_small, simp_all)
    have "unat (a - s) < Suc (length ys) \<longleftrightarrow> unat (a - s) - 1 < length ys"
      using \<open>0 < unat (a - s)\<close> by linarith
    then show ?thesis using False \<open>0 < unat (a - s)\<close>
      unfolding put_def u by (auto simp: nth_Cons')
  qed
qed

lemma mem_set_put: "n < 2 ^ 32 \<Longrightarrow> mem_set s c n m = put s (replicate n c) m"
  by (auto simp: mem_set_nth put_def fun_eq_iff)

lemma put_append:
  "length xs + length ys < 2 ^ 32 \<Longrightarrow> put (s + of_nat (length xs)) ys (put s xs m) = put s (xs @ ys) m"
proof (induction xs arbitrary: s m)
  case (Cons x xs)
  have "put (s + of_nat (length (x # xs))) ys (put s (x # xs) m) =
      put (s + 1 + of_nat (length xs)) ys (put (s + 1) xs (m(s := x)))"
    using Cons.prems by (simp add: put_Cons algebra_simps)
  also have "\<dots> = put s ((x # xs) @ ys) m" using Cons by (simp add: put_Cons)
  finally show ?case .
qed simp

definition apart_bytes :: "u32 \<Rightarrow> nat \<Rightarrow> u32 \<Rightarrow> nat \<Rightarrow> bool" where
  "apart_bytes s n t k \<longleftrightarrow> (\<forall>i<n. \<forall>j<k. s + of_nat i \<noteq> t + of_nat j)"

lemma apart_bytes_Suc:
  assumes "apart_bytes s (Suc n) t (Suc k)"
  shows "apart_bytes (s + 1) n (t + 1) k" "j < Suc k \<Longrightarrow> s \<noteq> t + of_nat j"
proof -
  show "apart_bytes (s + 1) n (t + 1) k"
    unfolding apart_bytes_def
  proof (intro allI impI)
    fix i j assume "i < n" "j < k"
    then have "s + of_nat (Suc i) \<noteq> t + of_nat (Suc j)"
      using assms unfolding apart_bytes_def by blast
    then show "s + 1 + of_nat i \<noteq> t + 1 + of_nat j" by (simp add: algebra_simps)
  qed
  have "s + of_nat 0 \<noteq> t + of_nat j" if "j < Suc k"
    using assms that unfolding apart_bytes_def by blast
  then show "j < Suc k \<Longrightarrow> s \<noteq> t + of_nat j" by simp
qed

lemma cstr_upd:
  assumes "cstr m t xs" "\<And>j. j < Suc (length xs) \<Longrightarrow> s \<noteq> t + of_nat j"
  shows "cstr (m(s := c)) t xs"
proof -
  have "(m(s := c)) (t + of_nat j) = m (t + of_nat j)" if "j < Suc (length xs)" for j
    using assms(2) [OF that] by auto
  then show ?thesis using assms(1) by (auto simp: cstr_def)
qed

lemma strncpy_loop_put:
  assumes "cstr m t xs" "apart_bytes s n t (Suc (length xs))" "n < 2 ^ 32" "length xs < 2 ^ 32 - 1"
  shows "strncpy_loop s t n m =
    (let c = min n (Suc (length xs)) in (s + of_nat c, n - c, put s (take c (xs @ [0])) m))"
  using assms
proof (induction n arbitrary: s t xs m)
  case (Suc n)
  note A = apart_bytes_Suc [OF Suc.prems(2)]
  show ?case
  proof (cases xs)
    case Nil
    then show ?thesis using Suc.prems(1) by (simp add: put_Cons)
  next
    case (Cons x xs')
    have c: "cstr (m(s := x)) (t + 1) xs'"
    proof (rule cstr_upd)
      show "cstr m (t + 1) xs'" using Suc.prems(1) Cons by simp
      fix j assume "j < Suc (length xs')"
      then have "s \<noteq> t + of_nat (Suc j)" using A(2) [of "Suc j"] Cons by simp
      then show "s \<noteq> t + 1 + of_nat j" by (simp add: add.assoc)
    qed
    have ap: "apart_bytes (s + 1) n (t + 1) (Suc (length xs'))" using A(1) Cons by simp
    have "strncpy_loop (s + 1) (t + 1) n (m(s := x)) =
      (let c = min n (Suc (length xs')) in
        (s + 1 + of_nat c, n - c, put (s + 1) (take c (xs' @ [0])) (m(s := x))))"
      by (rule Suc.IH [OF c ap]) (use Suc.prems(3,4) Cons in simp_all)
    moreover define c where "c = min n (Suc (length xs'))"
    moreover have "put s (take (Suc c) (xs @ [0])) m = put (s + 1) (take c (xs' @ [0])) (m(s := x))"
      using put_Cons [of "take c (xs' @ [0])" s x m] Suc.prems(3) Cons by (simp add: c_def)
    moreover have "min (Suc n) (Suc (length xs)) = Suc c" using Cons by (simp add: c_def)
    moreover have "strncpy_loop s t (Suc n) m = strncpy_loop (s + 1) (t + 1) n (m(s := x))"
      using Suc.prems(1) Cons by simp
    ultimately show ?thesis by (simp only: Let_def diff_Suc_Suc of_nat_Suc add.assoc)
  qed
qed simp

lemma put_inside: "i < length ys \<Longrightarrow> length ys < 2 ^ 32 \<Longrightarrow> put s ys m (s + of_nat i) = ys ! i"
  by (simp add: put_def unsigned_of_nat take_bit_eq_mod)

lemma cstr_put:
  assumes "0 \<notin> set xs" "length xs + length ys < 2 ^ 32 - 1"
  shows "cstr (put s (xs @ 0 # ys) m) s xs"
  unfolding cstr_def
proof (intro conjI allI impI)
  fix i assume i: "i < length xs"
  then have "put s (xs @ 0 # ys) m (s + of_nat i) = (xs @ 0 # ys) ! i"
    using assms(2) by (intro put_inside) simp_all
  then show "put s (xs @ 0 # ys) m (s + of_nat i) = xs ! i" using i by (simp add: nth_append)
  show "xs ! i \<noteq> 0" using i assms(1) by (metis nth_mem)
next
  have "put s (xs @ 0 # ys) m (s + of_nat (length xs)) = (xs @ 0 # ys) ! length xs"
    using assms(2) by (intro put_inside) simp_all
  then show "put s (xs @ 0 # ys) m (s + of_nat (length xs)) = 0" by simp
qed

lemma cstr_nonzero: "cstr m t xs \<Longrightarrow> 0 \<notin> set xs"
  by (auto simp: cstr_def in_set_conv_nth)

section \<open>Decimal numbers\<close>

definition digit_value :: "u8 list \<Rightarrow> nat" where
  "digit_value ds = foldl (\<lambda>n d. n * 10 + (unat d - 48)) 0 ds"

definition is_digit :: "u8 \<Rightarrow> bool" where
  "is_digit c \<longleftrightarrow> 48 \<le> c \<and> c \<le> 57"

lemma atoi_loop_digits:
  assumes "\<forall>d\<in>set ds. is_digit d" "\<forall>i<length ds. m (s + of_nat i) = ds ! i"
    "\<not> is_digit (m (s + of_nat (length ds)))"
  shows "atoi_loop (of_nat n) s m = Some (of_nat (foldl (\<lambda>n d. n * 10 + (unat d - 48)) n ds))"
  using assms
proof (induction ds arbitrary: s n)
  case Nil
  then show ?case by (subst atoi_loop.simps) (auto simp: is_digit_def)
next
  case (Cons d ds)
  have d: "m s = d" "is_digit d" using Cons.prems(1) Cons.prems(2) [rule_format, of 0] by auto
  have "48 \<le> unat d" "unat d \<le> 57" using d(2) by (auto simp: is_digit_def word_le_nat_alt)
  have "(ucast d :: u32) = of_nat (unat d)" by (simp add: unsigned_ucast_eq word_unat_eq_iff unsigned_of_nat)
  then have step: "(of_nat n :: u32) * 10 + ucast d - 48 = of_nat (n * 10 + (unat d - 48))"
    using \<open>48 \<le> unat d\<close> by (simp add: of_nat_diff)
  have "\<forall>i<length ds. m (s + 1 + of_nat i) = ds ! i"
    using Cons.prems(2) by (auto simp: All_less_Suc2 add.assoc)
  moreover have "\<not> is_digit (m (s + 1 + of_nat (length ds)))" using Cons.prems(3) by (simp add: add.assoc)
  ultimately have IH: "atoi_loop (of_nat (n * 10 + (unat d - 48))) (s + 1) m =
      Some (of_nat (foldl (\<lambda>n d. n * 10 + (unat d - 48)) (n * 10 + (unat d - 48)) ds))"
    using Cons.prems(1) by (intro Cons.IH) simp_all
  have "atoi_loop (of_nat n) s m = atoi_loop (of_nat n * 10 + ucast d - 48) (s + 1) m"
    using d by (subst atoi_loop.simps) (simp add: is_digit_def)
  then show ?case unfolding step IH by simp
qed

section \<open>Properties\<close>

text \<open>
  C36. \<^verbatim>\<open>memmove\<close> (string.c) is a correct move: for every two ranges inside the address
  space, overlapping or not, each byte of the target ends up with the byte the source had
  before the call, and no other byte changes.
\<close>

theorem memmove_copies:
  assumes "unat src + unat n < 2 ^ 32" "unat dst + unat n < 2 ^ 32"
  shows "memmove dst src n m = (\<lambda>a. if unat (a - dst) < unat n then m (src + (a - dst)) else m a)"
proof (cases "src < dst \<and> src + n > dst")
  case True
  have lt: "unat src < unat dst" using True by (simp add: word_less_nat_alt)
  have "(dst + n) - (src + n) = dst - src" by simp
  moreover have "unat (dst - src) = unat dst - unat src" using lt by (simp add: unat_sub_small)
  ultimately have "unat ((dst + n) - (src + n)) + unat n \<le> 2 ^ 32" using assms(2) by (simp only:)
  then have "copy_down (dst + n) (src + n) (unat n) m =
      copied (dst + n - of_nat (unat n)) (src + n - of_nat (unat n)) (unat n) m"
    using assms(1) by (intro copy_down_copied) simp_all
  then show ?thesis using True by (simp add: memmove_def copied_def)
next
  case False
  have "unat (src + n) = unat src + unat n" using assms(1) by (intro unat_add_small) simp
  then have le: "unat dst \<le> unat src \<or> unat src + unat n \<le> unat dst"
    using False by (auto simp: word_less_nat_alt)
  have "dst = src \<or> unat n \<le> unat (dst - src)"
    using le assms by (auto simp: unat_sub_if' word_unat_eq_iff)
  then have "copy_up dst src (unat n) m = copied dst src (unat n) m"
    using assms(1) by (intro copy_up_copied) simp_all
  then show ?thesis using False unfolding memmove_def by (simp only: if_False copied_def)
qed

theorem memmove_copies_witness:
  "memmove 0x1001 0x1000 3 (\<lambda>a. ucast a) = (\<lambda>a. if unat (a - 0x1001) < 3 then ucast (0x1000 + (a - 0x1001)) else ucast a)"
  using memmove_copies [of "0x1000" 3 "0x1001"] by simp

text \<open>
  \<^verbatim>\<open>safestrcpy\<close> (string.c) with a positive size stores the source string, cut to
  \<open>n - 1\<close> characters, always NUL-terminated, and writes no byte outside the \<open>n\<close> bytes of
  the target; with a size of 0 or less it writes nothing.
\<close>

theorem safestrcpy_bounded:
  assumes "cstr m t xs" "apart_bytes s (nat n) t (Suc (length xs))" "n < 2 ^ 31" "length xs < 2 ^ 31"
  shows "if n \<le> 0 then safestrcpy s t n m = m
    else cstr (safestrcpy s t n m) s (take (nat n - 1) xs) \<and>
      (\<forall>a. \<not> unat (a - s) < nat n \<longrightarrow> safestrcpy s t n m a = m a)"
proof (cases "n \<le> 0")
  case False
  let ?k = "nat n - 1"
  define c where "c = min ?k (Suc (length xs))"
  have ap: "apart_bytes s ?k t (Suc (length xs))" using assms(2) by (auto simp: apart_bytes_def)
  have k: "nat (n - 1) = ?k" "nat n < 2 ^ 32" "?k < 2 ^ 32" using False assms(3) by simp_all
  define ys where "ys = take c (xs @ [0])"
  have ys: "length ys = c" "c \<le> ?k" unfolding ys_def by (subst length_take) (auto simp: c_def)
  have "strncpy_loop s t ?k m = (s + of_nat c, ?k - c, put s ys m)"
    using strncpy_loop_put [OF assms(1) ap] k assms(4) by (simp add: c_def Let_def ys_def)
  moreover have "(put s ys m)(s + of_nat c := 0) = put s (ys @ [0]) m"
    using put_append [of ys "[0]" s m] k ys by (simp add: put_Cons)
  ultimately have e: "safestrcpy s t n m = put s (ys @ [0]) m" using False k by (simp add: safestrcpy_def)
  have "cstr (put s (ys @ [0]) m) s (take ?k xs)"
  proof (cases "?k \<le> length xs")
    case True
    then have "ys @ [0] = take ?k xs @ 0 # []" by (simp add: c_def ys_def)
    moreover have "0 \<notin> set (take ?k xs)" using cstr_nonzero [OF assms(1)] in_set_takeD by metis
    ultimately show ?thesis using cstr_put [of "take ?k xs" "[]" s m] assms(3) by simp
  next
    case long: False
    then have "ys @ [0] = xs @ 0 # [0]" "take ?k xs = xs" by (simp_all add: c_def ys_def)
    then show ?thesis using cstr_put [of xs "[0]" s m] cstr_nonzero [OF assms(1)] assms(4) by simp
  qed
  moreover have "put s (ys @ [0]) m a = m a" if "\<not> unat (a - s) < nat n" for a
  proof -
    have "\<not> unat (a - s) < length (ys @ [0])" using that False ys by auto
    then show ?thesis unfolding put_def by (simp only: if_False)
  qed
  ultimately show ?thesis using False unfolding e by simp
qed (simp add: safestrcpy_def)


text \<open>A memory that holds a string, for the witnesses.\<close>

definition demo_mem_str :: bmem where
  "demo_mem_str = (\<lambda>_. 7)(0x2000 := 105, 0x2001 := 110, 0x2002 := 105, 0x2003 := 116, 0x2004 := 0)"

lemma demo_mem_str: "cstr demo_mem_str 0x2000 [105, 110, 105, 116]"
  by (simp add: demo_mem_str_def)

theorem safestrcpy_bounded_witness:
  "cstr (safestrcpy 0x3000 0x2000 3 demo_mem_str) 0x3000 [105, 110] \<and>
   safestrcpy 0x3000 0x2000 3 demo_mem_str 0x3003 = 7"
proof -
  have "apart_bytes 0x3000 (nat 3) 0x2000 (Suc (length [105 :: u8, 110, 105, 116]))"
    unfolding apart_bytes_def by (simp add: apart_bytes_def All_less_Suc2 numeral_3_eq_3)
  from safestrcpy_bounded [OF demo_mem_str this]
  have "cstr (safestrcpy 0x3000 0x2000 3 demo_mem_str) 0x3000 (take (nat 3 - 1) [105, 110, 105, 116])"
    "\<not> unat (0x3003 - 0x3000 :: u32) < nat 3 \<Longrightarrow>
       safestrcpy 0x3000 0x2000 3 demo_mem_str 0x3003 = demo_mem_str 0x3003"
    by (simp_all del: cstr_Cons)
  moreover have "take (nat 3 - 1) [105, 110, 105, 116 :: u8] = [105, 110]" by (simp add: numeral_2_eq_2)
  moreover have "demo_mem_str 0x3003 = 7" by (simp add: demo_mem_str_def)
  ultimately show ?thesis by simp
qed

text \<open>
  The comparisons agree with equality of strings: \<^verbatim>\<open>strncmp\<close> (string.c) returns 0
  exactly when the first \<open>n\<close> characters agree, and \<^verbatim>\<open>strcmp\<close> (ulib.c), which has no
  bound, always ends on terminated strings and returns 0 exactly when they are equal;
  \<^verbatim>\<open>strlen\<close> ends and counts the characters.
\<close>

theorem string_compare_exact:
  assumes "cstr m p xs" "cstr m q ys"
  shows "(strncmp p q n m = 0 \<longleftrightarrow> take n xs = take n ys) \<and>
    (\<exists>r. strcmp p q m = Some r \<and> (r = 0 \<longleftrightarrow> xs = ys)) \<and> strlen p m = Some (length xs)"
  using strncmp_cstr [OF assms] strcmp_cstr [OF assms] strlen_cstr [OF assms(1)] by blast

theorem string_compare_exact_witness:
  "strncmp 0x2000 0x2002 1 demo_mem_str = 0 \<and> strcmp 0x2000 0x2002 demo_mem_str \<noteq> Some 0 \<and>
   strlen 0x2000 demo_mem_str = Some 4"
proof -
  have "cstr demo_mem_str 0x2002 [105, 116]" by (simp add: demo_mem_str_def)
  from string_compare_exact [OF demo_mem_str this, of 1] show ?thesis by auto
qed

text \<open>
  \<^verbatim>\<open>memmove\<close> of the user library (ulib.c) copies upwards only: moving a range up by
  one byte, the commonest overlapping move, fills the whole target with the first byte instead
  of moving the bytes.
\<close>

theorem user_memmove_smears:
  assumes "0 \<le> n" "n < 2 ^ 31" "i < nat n"
  shows "user_memmove (s + 1) s n m (s + 1 + of_nat i) = m s"
proof -
  have "copy_up (a + 1) a k m = (\<lambda>b. if unat (b - (a + 1)) < k then m a else m b)" if "k < 2 ^ 32" for a k m
    using that
  proof (induction k arbitrary: a m)
    case (Suc k)
    define m' where "m' = m(a + 1 := m a)"
    have k: "k < 2 ^ 32" "m' (a + 1) = m a" using Suc.prems by (simp_all add: m'_def)
    have "copy_up (a + 1) a (Suc k) m =
        (\<lambda>b. if unat (b - (a + 1 + 1)) < k then m a else (m(a + 1 := m a)) b)"
      unfolding copy_up.simps m'_def [symmetric] Suc.IH [OF k(1), of "a + 1" m'] k(2) ..
    also have "\<dots> = (\<lambda>b. if unat (b - (a + 1)) < Suc k then m a else m b)"
    proof
      fix b
      show "(if unat (b - (a + 1 + 1)) < k then m a else (m(a + 1 := m a)) b) =
          (if unat (b - (a + 1)) < Suc k then m a else m b)"
        using unat_Suc_diff [of k b "a + 1"] Suc.prems by (simp only:) auto
    qed
    finally show ?case .
  qed simp
  from this [of "nat n" s m] show ?thesis
    using assms by (simp add: user_memmove_def unsigned_of_nat take_bit_eq_mod)
qed

theorem user_memmove_smears_witness:
  "user_memmove 0x2001 0x2000 3 demo_mem_str (0x2001 + of_nat 2) = 105"
  using user_memmove_smears [of 3 2 "0x2000" demo_mem_str] by (simp add: demo_mem_str_def)

end
