(* ===== verification/Ring.thy ===== *)
theory Ring
  imports Prelude
begin

text \<open>
  Circular buffers with free-running 32-bit indices, as pipes and the console input use them,
  and the contract of a bounded first-in first-out queue (\<open>fifo\<close>) both of them meet.
\<close>

section \<open>The slots between two indices\<close>

definition ring_list :: "nat \<Rightarrow> u8 list \<Rightarrow> u32 \<Rightarrow> nat \<Rightarrow> u8 list" where
  "ring_list N xs r n = map (\<lambda>i. xs ! (unat (r + of_nat i) mod N)) [0..<n]"

lemma length_ring_list [simp]: "length (ring_list N xs r n) = n"
  by (simp add: ring_list_def)

lemma ring_index:
  fixes r :: u32
  assumes "N dvd 2 ^ 32"
  shows "unat (r + of_nat i) mod N = (unat r + i) mod N"
proof -
  have "unat (r + of_nat i) = (unat r + i) mod 2 ^ 32"
    by (simp add: unat_word_ariths unsigned_of_nat take_bit_eq_mod mod_simps)
  then show ?thesis using assms by (simp add: mod_mod_cancel)
qed

lemma ring_list_Suc: "ring_list N xs r (Suc n) = ring_list N xs r n @ [xs ! (unat (r + of_nat n) mod N)]"
  by (simp add: ring_list_def)

lemma ring_list_Cons: "ring_list N xs r (Suc n) = xs ! (unat r mod N) # ring_list N xs (r + 1) n"
proof -
  have "r + of_nat (Suc i) = r + 1 + of_nat i" for i :: nat by (simp add: algebra_simps)
  then show ?thesis
    unfolding ring_list_def upt_conv_Cons [OF zero_less_Suc] map_Suc_upt [symmetric]
    by (simp only: list.map map_map o_def) simp
qed

lemma ring_list_upd:
  assumes "N dvd 2 ^ 32" "n < N" "length xs = N"
  shows "ring_list N (xs[unat (r + of_nat n) mod N := c]) r n = ring_list N xs r n"
proof -
  have "(unat r + i) mod N \<noteq> (unat r + n) mod N" if "i < n" for i
  proof
    assume "(unat r + i) mod N = (unat r + n) mod N"
    then have "(unat r + n) mod N = (unat r + i) mod N" by (rule sym)
    moreover have "unat r + i \<le> unat r + n" using that by simp
    ultimately have "N dvd (unat r + n) - (unat r + i)" by (simp only: mod_eq_dvd_iff_nat)
    then have "N dvd n - i" by simp
    then show False using that assms(2) by (auto dest: dvd_imp_le)
  qed
  from this [THEN not_sym] show ?thesis by (simp add: ring_list_def ring_index [OF assms(1)])
qed

lemma ring_list_snoc:
  assumes "N dvd 2 ^ 32" "n < N" "length xs = N"
  shows "ring_list N (xs[unat (r + of_nat n) mod N := c]) r (Suc n) = ring_list N xs r n @ [c]"
proof -
  have "unat (r + of_nat n) mod N < N" using assms(2) by simp
  then show ?thesis using ring_list_upd [OF assms] assms(3) by (simp add: ring_list_Suc)
qed

lemma index_diff:
  fixes r w :: u32
  assumes "unat (w - r) = n"
  shows "w = r + of_nat n"
proof -
  have "of_nat n = w - r" using assms by auto
  then show ?thesis by simp
qed

text \<open>Storing at the write index and advancing it; taking at the read index and advancing it.\<close>

lemma ring_put:
  fixes r w :: u32
  assumes "N dvd 2 ^ 32" "N < 2 ^ 32" "length xs = N" "unat (w - r) < N"
  shows "unat (w + 1 - r) = Suc (unat (w - r))"
    and "ring_list N (xs[unat w mod N := c]) r (Suc (unat (w - r))) = ring_list N xs r (unat (w - r)) @ [c]"
proof -
  define n where "n = unat (w - r)"
  have n: "n < N" using assms(4) by (simp add: n_def)
  have w: "w = r + of_nat n" using n_def by (intro index_diff) simp
  have "w + 1 - r = of_nat (Suc n)" using w by simp
  then show "unat (w + 1 - r) = Suc (unat (w - r))"
    using n assms(2) unfolding n_def [symmetric]
    by (simp add: unsigned_of_nat take_bit_eq_mod del: of_nat_Suc)
  have "ring_list N (xs[unat (r + of_nat n) mod N := c]) r (Suc n) = ring_list N xs r n @ [c]"
    by (rule ring_list_snoc [OF assms(1) n assms(3)])
  then show "ring_list N (xs[unat w mod N := c]) r (Suc (unat (w - r))) = ring_list N xs r (unat (w - r)) @ [c]"
    unfolding n_def [symmetric] w [symmetric] .
qed

lemma ring_get:
  fixes r w :: u32
  assumes "unat (w - r) = Suc n"
  shows "unat (w - (r + 1)) = n" "ring_list N xs r (Suc n) = xs ! (unat r mod N) # ring_list N xs (r + 1) n"
proof -
  have "w - (r + 1) = of_nat n" using index_diff [OF assms] by simp
  moreover have "n < 2 ^ 32" using u32_bound [of "w - r"] assms by simp
  ultimately show "unat (w - (r + 1)) = n" by (simp add: unsigned_of_nat take_bit_eq_mod)
qed (rule ring_list_Cons)

section \<open>The contract of a bounded queue\<close>

locale fifo =
  fixes contents :: "'s \<Rightarrow> 'a list"
    and put :: "'a \<Rightarrow> 's \<Rightarrow> 's"
    and get :: "'s \<Rightarrow> 'a \<times> 's"
    and ok :: "'s \<Rightarrow> bool"
    and cap :: nat
  assumes put_ok: "ok s \<Longrightarrow> length (contents s) < cap \<Longrightarrow> ok (put x s) \<and> contents (put x s) = contents s @ [x]"
    and get_ok: "ok s \<Longrightarrow> contents s \<noteq> [] \<Longrightarrow>
       ok (snd (get s)) \<and> contents s = fst (get s) # contents (snd (get s))"
    and bounded: "ok s \<Longrightarrow> length (contents s) \<le> cap"
begin

fun puts :: "'a list \<Rightarrow> 's \<Rightarrow> 's" where
  "puts [] s = s"
| "puts (x # xs) s = puts xs (put x s)"

fun gets :: "nat \<Rightarrow> 's \<Rightarrow> 'a list \<times> 's" where
  "gets 0 s = ([], s)"
| "gets (Suc n) s = (let (x, s) = get s; (xs, s) = gets n s in (x # xs, s))"

lemma puts_contents:
  "ok s \<Longrightarrow> length (contents s) + length xs \<le> cap \<Longrightarrow> ok (puts xs s) \<and> contents (puts xs s) = contents s @ xs"
  by (induction xs arbitrary: s) (auto simp: put_ok)

lemma gets_contents:
  "ok s \<Longrightarrow> n \<le> length (contents s) \<Longrightarrow>
   ok (snd (gets n s)) \<and> fst (gets n s) = take n (contents s) \<and> contents (snd (gets n s)) = drop n (contents s)"
proof (induction n arbitrary: s)
  case (Suc n)
  then have ne: "contents s \<noteq> []" by auto
  note G = get_ok [OF Suc.prems(1) ne]
  have "n \<le> length (contents (snd (get s)))" using G Suc.prems(2) by (metis Suc_le_mono length_Cons)
  from Suc.IH [OF conjunct1 [OF G] this] show ?case
    using conjunct2 [OF G] by (simp add: split_def Let_def)
qed simp

lemma first_in_first_out:
  assumes "ok s" "length (contents s) + length xs \<le> cap"
  shows "fst (gets (length (contents s) + length xs) (puts xs s)) = contents s @ xs"
  using puts_contents [OF assms] gets_contents [of "puts xs s" "length (contents s) + length xs"] by simp

end

end
