(* ===== verification/Pipe.thy ===== *)
theory Pipe
  imports Kalloc Ring
begin

text \<open>
  Pipes, \<^verbatim>\<open>kernel/pipe.c\<close>. A pipe lives in a page of its own; \<open>pipes a\<close> is the
  structure in the page at \<open>a\<close>. The two counters run freely and wrap at 32 bits, the slot
  of a byte is its counter modulo \<open>PIPESIZE\<close>.

  \<^verbatim>\<open>pipewrite\<close> and \<^verbatim>\<open>piperead\<close> may sleep. The model runs a call up to the point
  where it returns (\<open>Returns\<close>, with the result) or sleeps (\<open>Blocks\<close>, with the channel and
  what the call has left to do); a woken call runs again on what is left, which is where the
  source's \<^verbatim>\<open>while\<close> re-tests its condition. Both outcomes list the channels the code
  wakes on the way. \<open>pipe_reach\<close> interleaves such segments of any number of processes.
\<close>

section \<open>State and operations\<close>

abbreviation PIPESIZE :: nat where
  "PIPESIZE \<equiv> 512"

record pipe =
  pipe_data :: "u8 list"
  nread :: u32
  nwrite :: u32
  readopen :: int
  writeopen :: int

definition pipe_init :: "pipe \<Rightarrow> pipe" where
  "pipe_init p = p\<lparr>readopen := 1, writeopen := 1, nwrite := 0, nread := 0\<rparr>"

definition pipe_put :: "u8 \<Rightarrow> pipe \<Rightarrow> pipe" where
  "pipe_put c p = p\<lparr>pipe_data := (pipe_data p)[unat (nwrite p) mod PIPESIZE := c], nwrite := nwrite p + 1\<rparr>"

definition pipe_get :: "pipe \<Rightarrow> u8 \<times> pipe" where
  "pipe_get p = (pipe_data p ! (unat (nread p) mod PIPESIZE), p\<lparr>nread := nread p + 1\<rparr>)"

fun pipewrite_loop :: "u32 \<Rightarrow> bool \<Rightarrow> int \<Rightarrow> u8 list \<Rightarrow> pipe \<Rightarrow> (int, u8 list, pipe) outcome" where
  "pipewrite_loop a killed n [] p = Returns n p [ChanNread a]"
| "pipewrite_loop a killed n (c # cs) p =
     (if nwrite p = nread p + of_nat PIPESIZE then
        if readopen p = 0 \<or> killed then Returns (- 1) p []
        else Blocks (ChanNwrite a) (c # cs) p [ChanNread a]
      else pipewrite_loop a killed n cs (pipe_put c p))"

definition pipewrite :: "u32 \<Rightarrow> bool \<Rightarrow> (nat \<Rightarrow> u8) \<Rightarrow> int \<Rightarrow> pipe \<Rightarrow> (int, u8 list, pipe) outcome" where
  "pipewrite a killed addr n p = pipewrite_loop a killed n (map addr [0..<nat n]) p"

fun piperead_loop :: "nat \<Rightarrow> pipe \<Rightarrow> u8 list \<times> pipe" where
  "piperead_loop 0 p = ([], p)"
| "piperead_loop (Suc n) p =
     (if nread p = nwrite p then ([], p)
      else let (c, p) = pipe_get p; (cs, p) = piperead_loop n p in (c # cs, p))"

definition piperead :: "u32 \<Rightarrow> bool \<Rightarrow> int \<Rightarrow> pipe \<Rightarrow> (int \<times> u8 list, int, pipe) outcome" where
  "piperead a killed n p =
     (if nread p = nwrite p \<and> writeopen p \<noteq> 0 then
        if killed then Returns (- 1, []) p []
        else Blocks (ChanNread a) n p []
      else let (cs, p) = piperead_loop (nat n) p in Returns (int (length cs), cs) p [ChanNwrite a])"

definition pipeclose :: "u32 \<Rightarrow> bool \<Rightarrow> (u32 \<Rightarrow> pipe) \<Rightarrow> kmem \<Rightarrow> (chan list \<times> (u32 \<Rightarrow> pipe) \<times> kmem) res" where
  "pipeclose a writable pipes km =
     (let (p, w) = if writable then ((pipes a)\<lparr>writeopen := 0\<rparr>, [ChanNread a])
                   else ((pipes a)\<lparr>readopen := 0\<rparr>, [ChanNwrite a]);
          pipes = pipes(a := p) in
      if readopen p = 0 \<and> writeopen p = 0 then
        bindE (kfree a km) (\<lambda>km. Inr (w, pipes, km))
      else Inr (w, pipes, km))"

section \<open>The pipe as a bounded queue\<close>

definition pipe_contents :: "pipe \<Rightarrow> u8 list" where
  "pipe_contents p = ring_list PIPESIZE (pipe_data p) (nread p) (unat (nwrite p - nread p))"

definition pipe_ok :: "pipe \<Rightarrow> bool" where
  "pipe_ok p \<longleftrightarrow> length (pipe_data p) = PIPESIZE \<and> unat (nwrite p - nread p) \<le> PIPESIZE"

lemma length_pipe_contents: "length (pipe_contents p) = unat (nwrite p - nread p)"
  by (simp add: pipe_contents_def)

lemma pipe_full_iff:
  assumes "pipe_ok p"
  shows "nwrite p = nread p + 512 \<longleftrightarrow> length (pipe_contents p) = PIPESIZE"
proof
  assume "length (pipe_contents p) = PIPESIZE"
  then show "nwrite p = nread p + 512"
    using index_diff [of "nwrite p" "nread p" 512] by (simp add: length_pipe_contents)
qed (simp add: length_pipe_contents)

lemma pipe_empty_iff: "nread p = nwrite p \<longleftrightarrow> pipe_contents p = []"
proof -
  have "pipe_contents p = [] \<longleftrightarrow> unat (nwrite p - nread p) = 0"
    by (metis length_pipe_contents length_0_conv)
  then show ?thesis by (auto simp: unat_eq_zero)
qed

lemma pipe_put_ok:
  assumes "pipe_ok p" and "length (pipe_contents p) < PIPESIZE"
  shows "pipe_ok (pipe_put c p) \<and> pipe_contents (pipe_put c p) = pipe_contents p @ [c]"
  using assms ring_put(1) [of 512 "pipe_data p" "nwrite p" "nread p"]
    ring_put(2) [of 512 "pipe_data p" "nwrite p" "nread p" c]
  by (simp add: pipe_ok_def pipe_put_def pipe_contents_def)

lemma pipe_get_ok:
  assumes "pipe_ok p" and "pipe_contents p \<noteq> []"
  shows "pipe_ok (snd (pipe_get p)) \<and>
         pipe_contents p = fst (pipe_get p) # pipe_contents (snd (pipe_get p))"
proof -
  obtain n where n: "unat (nwrite p - nread p) = Suc n"
    using assms(2) by (metis length_pipe_contents length_0_conv not0_implies_Suc)
  show ?thesis using assms(1) n ring_get [OF n] by (simp add: pipe_ok_def pipe_get_def pipe_contents_def)
qed

interpretation pq: fifo pipe_contents pipe_put pipe_get pipe_ok PIPESIZE
proof
  show "length (pipe_contents p) \<le> PIPESIZE" if "pipe_ok p" for p
    using that by (simp add: pipe_ok_def length_pipe_contents)
qed (rule pipe_put_ok pipe_get_ok, assumption+)+

lemma pipe_flags [simp]:
  "readopen (pipe_put c p) = readopen p" "writeopen (pipe_put c p) = writeopen p"
  "nread (pipe_put c p) = nread p" "nwrite (snd (pipe_get p)) = nwrite p"
  by (simp_all add: pipe_put_def pipe_get_def)

lemma pipe_puts_flags [simp]:
  "readopen (pq.puts cs p) = readopen p" "writeopen (pq.puts cs p) = writeopen p"
  by (induction cs arbitrary: p) simp_all

section \<open>Writing and reading\<close>

definition pipe_room :: "pipe \<Rightarrow> nat" where
  "pipe_room p = PIPESIZE - length (pipe_contents p)"

lemma pipewrite_loop_exact:
  assumes "pipe_ok p"
  shows "pipewrite_loop a killed n cs p =
    (if length cs \<le> pipe_room p then Returns n (pq.puts cs p) [ChanNread a]
     else let q = pq.puts (take (pipe_room p) cs) p in
       if readopen p = 0 \<or> killed then Returns (- 1) q []
       else Blocks (ChanNwrite a) (drop (pipe_room p) cs) q [ChanNread a])"
  using assms
proof (induction cs arbitrary: p)
  case (Cons c cs)
  show ?case
  proof (cases "length (pipe_contents p) = PIPESIZE")
    case True
    then show ?thesis using pipe_full_iff [OF Cons.prems] by (simp add: pipe_room_def)
  next
    case False
    then have lt: "length (pipe_contents p) < PIPESIZE" using pq.bounded [OF Cons.prems] by simp
    note P = pipe_put_ok [OF Cons.prems lt]
    have room: "pipe_room p = Suc (pipe_room (pipe_put c p))"
      using lt P by (simp add: pipe_room_def)
    have "pipewrite_loop a killed n (c # cs) p = pipewrite_loop a killed n cs (pipe_put c p)"
      using False pipe_full_iff [OF Cons.prems] by simp
    then show ?thesis unfolding Cons.IH [OF conjunct1 [OF P]] Let_def room by simp
  qed
qed simp

lemma piperead_loop_exact:
  assumes "pipe_ok p"
  shows "piperead_loop n p = pq.gets (min n (length (pipe_contents p))) p"
  using assms
proof (induction n arbitrary: p)
  case (Suc n)
  show ?case
  proof (cases "pipe_contents p = []")
    case True
    then show ?thesis using pipe_empty_iff [of p] by simp
  next
    case False
    note G = pipe_get_ok [OF Suc.prems False]
    have "length (pipe_contents p) = Suc (length (pipe_contents (snd (pipe_get p))))"
      using conjunct2 [OF G] by (metis length_Cons)
    then show ?thesis
      using False pipe_empty_iff [of p] Suc.IH [OF conjunct1 [OF G]] by (simp add: split_def Let_def)
  qed
qed simp

lemma pipewrite_contents:
  assumes "pipe_ok p"
  shows "pipe_ok (post (pipewrite_loop a killed n cs p)) \<and>
         pipe_contents (post (pipewrite_loop a killed n cs p)) = pipe_contents p @ take (pipe_room p) cs"
proof -
  have "post (pipewrite_loop a killed n cs p) = pq.puts (take (pipe_room p) cs) p"
    by (simp add: pipewrite_loop_exact [OF assms] Let_def)
  moreover have "length (pipe_contents p) + length (take (pipe_room p) cs) \<le> PIPESIZE"
    using pq.bounded [OF assms] by (simp add: pipe_room_def)
  ultimately show ?thesis using pq.puts_contents [OF assms] by simp
qed

lemma piperead_contents:
  assumes "pipe_ok p"
  shows "pipe_ok (post (piperead a killed n p)) \<and>
         (case piperead a killed n p of
            Returns (k, cs) q w \<Rightarrow> pipe_contents p = cs @ pipe_contents q
          | Blocks c k q w \<Rightarrow> q = p)"
proof (cases "nread p = nwrite p \<and> writeopen p \<noteq> 0")
  case True
  then show ?thesis using assms by (simp add: piperead_def)
next
  case False
  define k where "k = min (nat n) (length (pipe_contents p))"
  have "k \<le> length (pipe_contents p)" by (simp add: k_def)
  from pq.gets_contents [OF assms this] show ?thesis
    using False piperead_loop_exact [OF assms, of "nat n"]
    by (auto simp: piperead_def k_def [symmetric] split_def Let_def)
qed

section \<open>Interleavings\<close>

text \<open>
  The states of one pipe under any interleaving of segments of reads and writes and closes,
  with the bytes the writers have put in (\<open>sent\<close>) and the readers have taken out (\<open>got\<close>).
  The number of bytes a segment puts in is how far it moves \<^verbatim>\<open>nwrite\<close>.
\<close>

inductive pipe_reach :: "u32 \<Rightarrow> pipe \<Rightarrow> u8 list \<Rightarrow> u8 list \<Rightarrow> bool" for a :: u32 where
  opened: "length (pipe_data p) = PIPESIZE \<Longrightarrow> pipe_reach a (pipe_init p) [] []"
| wrote: "pipe_reach a p sent got \<Longrightarrow> q = post (pipewrite_loop a killed n cs p) \<Longrightarrow>
     pipe_reach a q (sent @ take (unat (nwrite q - nwrite p)) cs) got"
| did_read: "pipe_reach a p sent got \<Longrightarrow> piperead a killed n p = Returns (k, cs) q w \<Longrightarrow>
     pipe_reach a q sent (got @ cs)"
| closed: "pipe_reach a (pipes a) sent got \<Longrightarrow> pipeclose a writable pipes km = Inr (w, pipes', km') \<Longrightarrow>
     pipe_reach a (pipes' a) sent got"

lemma pipewrite_nread [simp]: "nread (post (pipewrite_loop a killed n cs p)) = nread p"
  by (induction a killed n cs p rule: pipewrite_loop.induct) simp_all

lemma pipewrite_accepts:
  assumes "pipe_ok p"
  shows "take (unat (nwrite (post (pipewrite_loop a killed n cs p)) - nwrite p)) cs = take (pipe_room p) cs"
proof -
  define q where "q = post (pipewrite_loop a killed n cs p)"
  have q: "pipe_contents q = pipe_contents p @ take (pipe_room p) cs" "nread q = nread p"
    using pipewrite_contents [OF assms] by (simp_all add: q_def)
  define k where "k = length (take (pipe_room p) cs)"
  have k: "k \<le> 512" by (simp add: k_def pipe_room_def)
  have "unat (nwrite q - nread p) = unat (nwrite p - nread p) + k"
    using arg_cong [OF q(1), of length] q(2) by (simp add: length_pipe_contents k_def)
  from index_diff [OF this] index_diff [OF refl, of "nwrite p" "nread p"]
  have "nwrite q - nwrite p = of_nat k" by (simp add: algebra_simps)
  then have "unat (nwrite q - nwrite p) = k"
    using k by (simp add: unsigned_of_nat take_bit_eq_mod)
  moreover have "take k cs = take (pipe_room p) cs" by (simp add: k_def min_def)
  ultimately show ?thesis by (simp add: q_def)
qed

lemma pipe_contents_flags [simp]:
  "pipe_contents (p\<lparr>readopen := x\<rparr>) = pipe_contents p" "pipe_contents (p\<lparr>writeopen := x\<rparr>) = pipe_contents p"
  "pipe_ok (p\<lparr>readopen := x\<rparr>) = pipe_ok p" "pipe_ok (p\<lparr>writeopen := x\<rparr>) = pipe_ok p"
  by (simp_all add: pipe_contents_def pipe_ok_def)

lemma pipeclose_contents:
  "pipeclose a writable pipes km = Inr (w, pipes', km') \<Longrightarrow>
   pipe_ok (pipes' a) = pipe_ok (pipes a) \<and> pipe_contents (pipes' a) = pipe_contents (pipes a)"
  by (auto simp: pipeclose_def Let_def bindE_eq_Inr split: if_splits)

text \<open>
  C4. A pipe delivers every byte once and in order. In every interleaving of writers, readers
  and closes, the bytes the writers have put into the pipe are the bytes the readers have taken
  out followed by the bytes still in the buffer, which number at most \<^verbatim>\<open>PIPESIZE\<close>; so also
  after the 32-bit counters have wrapped, and when a writer was stopped half way.
\<close>

theorem pipe_delivers:
  assumes "pipe_reach a p sent got"
  shows "sent = got @ pipe_contents p \<and> length (pipe_contents p) \<le> PIPESIZE"
proof -
  have "pipe_ok p \<and> sent = got @ pipe_contents p" using assms
  proof (induction rule: pipe_reach.induct)
    case (opened p)
    then show ?case by (simp add: pipe_init_def pipe_ok_def pipe_contents_def ring_list_def)
  next
    case (wrote p sent got q killed n cs)
    then show ?case
      using pipewrite_contents [of p a killed n cs] pipewrite_accepts [of p a killed n cs] by simp
  next
    case (did_read p sent got killed n k cs q w)
    then show ?case using piperead_contents [of p a killed n] by simp
  next
    case (closed pipes sent got writable km w pipes' km')
    then show ?case using pipeclose_contents [of a writable pipes km] by simp
  qed
  then show ?thesis using pq.bounded [of p] by simp
qed

definition demo_pipe :: pipe where
  "demo_pipe = \<lparr>pipe_data = replicate 512 7, nread = 0, nwrite = 0, readopen = 0, writeopen = 0\<rparr>"

theorem pipe_delivers_witness:
  "\<exists>p. pipe_reach 0x1000 p [1, 2, 3] [1, 2] \<and> [1, 2, 3] = [1, 2] @ pipe_contents p \<and>
       length (pipe_contents p) \<le> PIPESIZE"
proof -
  define p where "p = post (pipewrite_loop 0x1000 False 3 [1, 2, 3] (pipe_init demo_pipe))"
  have "pipe_reach 0x1000 (pipe_init demo_pipe) [] []" by (rule opened) (simp add: demo_pipe_def)
  from wrote [OF this p_def]
  have "pipe_reach 0x1000 p [1, 2, 3] []"
    by (simp add: p_def pipe_init_def demo_pipe_def pipe_put_def)
  moreover have "piperead 0x1000 False 2 p = Returns (2, [1, 2]) (p\<lparr>nread := 2\<rparr>) [ChanNwrite 0x1000]"
  proof -
    have two: "piperead_loop (nat 2) q = piperead_loop (Suc (Suc 0)) q" for q
      by (simp add: numeral_2_eq_2)
    show ?thesis
      unfolding piperead_def two
      by (simp add: p_def pipe_init_def demo_pipe_def pipe_put_def pipe_get_def)
  qed
  ultimately have "pipe_reach 0x1000 (p\<lparr>nread := 2\<rparr>) [1, 2, 3] ([] @ [1, 2])" by (rule did_read)
  then have "pipe_reach 0x1000 (p\<lparr>nread := 2\<rparr>) [1, 2, 3] [1, 2]" by simp
  with pipe_delivers [OF this] show ?thesis by blast
qed

section \<open>Progress\<close>

text \<open>
  One writer and one reader taking turns: the writer runs until it returns or sleeps; when it
  sleeps the reader is run with chunks of \<open>m\<close> bytes, and must wake the channel the writer
  sleeps on. \<open>None\<close> is a reader that sleeps too, a wakeup that is missed, or too little fuel.
\<close>

fun pump :: "nat \<Rightarrow> u32 \<Rightarrow> int \<Rightarrow> int \<Rightarrow> u8 list \<Rightarrow> pipe \<Rightarrow> u8 list \<Rightarrow> (int \<times> u8 list \<times> pipe) option" where
  "pump 0 a n m cs p got = None"
| "pump (Suc fuel) a n m cs p got =
     (case pipewrite_loop a False n cs p of
        Returns k q w \<Rightarrow> Some (k, got, q)
      | Blocks c rest q w \<Rightarrow>
          (case piperead a False m q of
             Returns (k, bs) q' w' \<Rightarrow>
               if c \<in> set w' \<and> ChanNread a \<in> set w then pump fuel a n m rest q' (got @ bs) else None
           | Blocks c' n' q' w' \<Rightarrow> None))"

lemma piperead_loop_readopen: "readopen (snd (piperead_loop n q)) = readopen q"
  by (induction n q rule: piperead_loop.induct) (simp_all add: pipe_get_def split_def Let_def)

lemma piperead_full:
  assumes "pipe_ok q" "length (pipe_contents q) = PIPESIZE" "0 < m"
  obtains k bs q' where "piperead a False m q = Returns (k, bs) q' [ChanNwrite a]" "bs \<noteq> []"
    "pipe_ok q'" "pipe_contents q = bs @ pipe_contents q'" "readopen q' = readopen q"
proof -
  have ne: "\<not> (nread q = nwrite q \<and> writeopen q \<noteq> 0)" using assms(2) pipe_empty_iff [of q] by auto
  obtain bs q' where L: "piperead_loop (nat m) q = (bs, q')" by fastforce
  then have R: "piperead a False m q = Returns (int (length bs), bs) q' [ChanNwrite a]"
    using ne by (simp only: piperead_def if_False Let_def split)
  have "bs = take (min (nat m) 512) (pipe_contents q)"
    using L piperead_loop_exact [OF assms(1), of "nat m"] assms(2)
      pq.gets_contents [OF assms(1), of "min (nat m) 512"] by simp
  then have "bs \<noteq> []" using assms(2, 3) by (auto simp: take_eq_Nil2)
  moreover have "readopen q' = readopen q" using piperead_loop_readopen [of "nat m" q] L by simp
  ultimately show ?thesis
    using that [OF R] piperead_contents [OF assms(1), of a False m] R by simp
qed

lemma pump_completes:
  assumes "pipe_ok p" "readopen p \<noteq> 0" "0 < m"
    and "length cs + (if pipe_room p = 0 then 1 else 0) < fuel"
  shows "\<exists>got' q. pump fuel a n m cs p got = Some (n, got', q) \<and>
           got' @ pipe_contents q = got @ pipe_contents p @ cs"
  using assms(1, 2, 4)
proof (induction fuel arbitrary: cs p got)
  case (Suc fuel)
  note C = pipewrite_contents [OF Suc.prems(1), of a False n cs]
  show ?case
  proof (cases "length cs \<le> pipe_room p")
    case True
    then show ?thesis using C by (simp add: pipewrite_loop_exact [OF Suc.prems(1)])
  next
    case False
    define q where "q = pq.puts (take (pipe_room p) cs) p"
    have W: "pipewrite_loop a False n cs p = Blocks (ChanNwrite a) (drop (pipe_room p) cs) q [ChanNread a]"
      using False Suc.prems(2) by (simp add: pipewrite_loop_exact [OF Suc.prems(1)] q_def)
    have q: "pipe_ok q" "pipe_contents q = pipe_contents p @ take (pipe_room p) cs" using C W by simp_all
    have "length (pipe_contents q) = PIPESIZE"
      using q(2) False pq.bounded [OF Suc.prems(1)] by (simp add: pipe_room_def)
    from piperead_full [OF q(1) this assms(3)] obtain k bs q' where
      R: "piperead a False m q = Returns (k, bs) q' [ChanNwrite a]" "bs \<noteq> []"
         "pipe_ok q'" "pipe_contents q = bs @ pipe_contents q'" "readopen q' = readopen q" .
    have "pipe_room q' \<noteq> 0"
      using R(2, 4) pq.bounded [OF q(1)] by (cases bs) (auto simp: pipe_room_def)
    moreover have "length (drop (pipe_room p) cs) < fuel"
      using Suc.prems(3) False by (auto split: if_splits)
    moreover have "readopen q' \<noteq> 0" using R(5) Suc.prems(2) by (simp add: q_def)
    ultimately obtain got' r where
      "pump fuel a n m (drop (pipe_room p) cs) q' (got @ bs) = Some (n, got', r)"
      "got' @ pipe_contents r = (got @ bs) @ pipe_contents q' @ drop (pipe_room p) cs"
      using Suc.IH [OF R(3), of "drop (pipe_room p) cs" "got @ bs"] by auto
    moreover have "bs @ pipe_contents q' @ drop (pipe_room p) cs = pipe_contents p @ cs"
      using R(4) q(2) by (metis append.assoc append_take_drop_id)
    ultimately show ?thesis using W R(1) by simp
  qed
qed simp

text \<open>
  C26. A write to a pipe that somebody reads always completes. With a writer and a reader taking
  turns, reading any positive number of bytes at a time, the reader never sleeps while the
  writer does, each side wakes the channel the other one sleeps on, and after at most
  \<open>n + 1\<close> sleeps \<^verbatim>\<open>pipewrite\<close> returns \<open>n\<close>, all its bytes read or in the buffer behind the
  ones that were there before.
\<close>

theorem pipewrite_completes:
  assumes "pipe_ok p" "readopen p \<noteq> 0" "0 < m" "0 \<le> n"
  shows "\<exists>got q. pump (nat n + 2) a n m (map addr [0..<nat n]) p [] = Some (n, got, q) \<and>
           got @ pipe_contents q = pipe_contents p @ map addr [0..<nat n]"
  using pump_completes [of p m "map addr [0..<nat n]" "nat n + 2" a n "[]"] assms by auto

theorem pipewrite_completes_witness:
  "pipe_ok (pipe_init demo_pipe) \<and> readopen (pipe_init demo_pipe) \<noteq> 0 \<and>
   (\<exists>got q. pump (nat 600 + 2) 0x1000 600 7 (map (\<lambda>i. of_nat i) [0..<nat 600]) (pipe_init demo_pipe) [] =
        Some (600, got, q) \<and>
      got @ pipe_contents q = pipe_contents (pipe_init demo_pipe) @ map (\<lambda>i. of_nat i) [0..<nat 600])"
proof -
  have "pipe_ok (pipe_init demo_pipe)" "readopen (pipe_init demo_pipe) \<noteq> 0"
    by (simp_all add: pipe_ok_def pipe_init_def demo_pipe_def)
  with pipewrite_completes [of "pipe_init demo_pipe" 7 600 "0x1000" "\<lambda>i. of_nat i"] show ?thesis by simp
qed

end
