(* ===== verification/Printing.thy ===== *)
theory Printing
  imports Strings
begin

text \<open>
  Formatted output: \<^verbatim>\<open>printint\<close> and \<^verbatim>\<open>cprintf\<close> of \<^verbatim>\<open>kernel/console.c\<close>,
  \<^verbatim>\<open>printint\<close> and \<^verbatim>\<open>printf\<close> of \<^verbatim>\<open>user/printf.c\<close>. A format is the list of its bytes
  before the terminating NUL, the variable arguments are a list of words, and the value is the
  sequence of characters handed to \<^verbatim>\<open>consputc\<close> (as C integers) or to \<^verbatim>\<open>putc\<close>. \<open>None\<close> is
  a call that does not return: a missing argument, or a string argument without an end.

  \<open>nat_digits\<close> is the reference: the numeral of a number in a base, most significant digit
  first.
\<close>

section \<open>Operations\<close>

abbreviation ascii :: "string \<Rightarrow> u8 list" where
  "ascii s \<equiv> map of_char s"

text \<open>The \<^verbatim>\<open>do\<close>-\<^verbatim>\<open>while\<close> loop of both versions of \<^verbatim>\<open>printint\<close>.\<close>

partial_function (option) digits_loop :: "u8 list \<Rightarrow> u32 \<Rightarrow> u32 \<Rightarrow> u8 list \<Rightarrow> u8 list option" where
  "digits_loop digits base x buf =
     (let buf = buf @ [digits ! unat (x mod base)]; x = x div base in
      if x \<noteq> 0 then digits_loop digits base x buf else Some buf)"

definition printint :: "u32 \<Rightarrow> u32 \<Rightarrow> bool \<Rightarrow> u8 list option" where
  "printint xx base sign =
     (let sign = sign \<and> sint xx < 0;
          x = if sign then - xx else xx in
      map_option (\<lambda>buf. rev (if sign then buf @ [45] else buf))
        (digits_loop (ascii ''0123456789abcdef'') base x []))"

definition user_printint :: "u32 \<Rightarrow> u32 \<Rightarrow> bool \<Rightarrow> u8 list option" where
  "user_printint xx base sign =
     (let (neg, x) = if sign \<and> sint xx < 0 then (True, - xx) else (False, xx) in
      map_option (\<lambda>buf. rev (if neg then buf @ [45] else buf))
        (digits_loop (ascii ''0123456789ABCDEF'') base x []))"

partial_function (option) string_loop :: "u32 \<Rightarrow> bmem \<Rightarrow> u8 list \<Rightarrow> u8 list option" where
  "string_loop s m out = (if m s \<noteq> 0 then string_loop (s + 1) m (out @ [m s]) else Some out)"

definition string_arg :: "u32 \<Rightarrow> bmem \<Rightarrow> u8 list option" where
  "string_arg s m = (if s = 0 then Some (ascii ''(null)'') else string_loop s m [])"

text \<open>
  The characters of a number or string are \<^verbatim>\<open>char\<close> values, signed; those of the format are
  masked with \<^verbatim>\<open>0xff\<close>.
\<close>

fun cprintf_loop :: "bmem \<Rightarrow> u8 list \<Rightarrow> u32 list \<Rightarrow> int list option" where
  "cprintf_loop m [] args = Some []"
| "cprintf_loop m (c # fmt) args =
     (if c \<noteq> 37 then map_option ((#) (uint c)) (cprintf_loop m fmt args)
      else case fmt of
        [] \<Rightarrow> Some []
      | d # fmt \<Rightarrow>
          if d = of_char CHR ''d'' then
            (case args of [] \<Rightarrow> None | x # args \<Rightarrow>
               Option.bind (printint x 10 True) (\<lambda>cs. map_option ((@) (map sint cs)) (cprintf_loop m fmt args)))
          else if d = of_char CHR ''x'' \<or> d = of_char CHR ''p'' then
            (case args of [] \<Rightarrow> None | x # args \<Rightarrow>
               Option.bind (printint x 16 False) (\<lambda>cs. map_option ((@) (map sint cs)) (cprintf_loop m fmt args)))
          else if d = of_char CHR ''s'' then
            (case args of [] \<Rightarrow> None | x # args \<Rightarrow>
               Option.bind (string_arg x m) (\<lambda>cs. map_option ((@) (map sint cs)) (cprintf_loop m fmt args)))
          else if d = 37 then map_option ((#) 37) (cprintf_loop m fmt args)
          else map_option ((@) [37, uint d]) (cprintf_loop m fmt args))"

definition cprintf :: "bmem \<Rightarrow> u8 list \<Rightarrow> u32 list \<Rightarrow> int list option" where
  "cprintf m fmt args = cprintf_loop m fmt args"

text \<open>The loop of \<^verbatim>\<open>printf\<close> keeps in \<open>pct\<close> whether the variable \<^verbatim>\<open>state\<close> is a percent sign.\<close>

fun printf_loop :: "bmem \<Rightarrow> bool \<Rightarrow> u8 list \<Rightarrow> u32 list \<Rightarrow> u8 list option" where
  "printf_loop m pct [] ap = Some []"
| "printf_loop m pct (c # fmt) ap =
     (if \<not> pct then
        if c = 37 then printf_loop m True fmt ap
        else map_option ((#) c) (printf_loop m False fmt ap)
      else if c = of_char CHR ''d'' then
        (case ap of [] \<Rightarrow> None | x # ap \<Rightarrow>
           Option.bind (user_printint x 10 True) (\<lambda>cs. map_option ((@) cs) (printf_loop m False fmt ap)))
      else if c = of_char CHR ''x'' \<or> c = of_char CHR ''p'' then
        (case ap of [] \<Rightarrow> None | x # ap \<Rightarrow>
           Option.bind (user_printint x 16 False) (\<lambda>cs. map_option ((@) cs) (printf_loop m False fmt ap)))
      else if c = of_char CHR ''s'' then
        (case ap of [] \<Rightarrow> None | x # ap \<Rightarrow>
           Option.bind (string_arg x m) (\<lambda>cs. map_option ((@) cs) (printf_loop m False fmt ap)))
      else if c = of_char CHR ''c'' then
        (case ap of [] \<Rightarrow> None | x # ap \<Rightarrow> map_option ((#) (ucast x)) (printf_loop m False fmt ap))
      else if c = 37 then map_option ((#) c) (printf_loop m False fmt ap)
      else map_option ((@) [37, c]) (printf_loop m False fmt ap))"

definition printf :: "bmem \<Rightarrow> u8 list \<Rightarrow> u32 list \<Rightarrow> u8 list option" where
  "printf m fmt ap = printf_loop m False fmt ap"

section \<open>Numerals\<close>

function nat_digits :: "nat \<Rightarrow> nat \<Rightarrow> nat list" where
  "nat_digits b n = (if n < b \<or> b < 2 then [n] else nat_digits b (n div b) @ [n mod b])"
  by pat_completeness auto
termination by (relation "measure snd") auto

declare nat_digits.simps [simp del]

lemma nat_digits_value:
  "2 \<le> b \<Longrightarrow> foldl (\<lambda>v d. v * b + d) 0 (nat_digits b n) = n"
proof (induction b n rule: nat_digits.induct)
  case (1 b n)
  then show ?case by (subst nat_digits.simps) auto
qed

lemma nat_digits_less: "2 \<le> b \<Longrightarrow> d \<in> set (nat_digits b n) \<Longrightarrow> d < b"
proof (induction b n rule: nat_digits.induct)
  case (1 b n)
  from 1(3) show ?case
    by (subst (asm) nat_digits.simps) (use 1 in \<open>auto split: if_splits\<close>)
qed

lemma nat_digits_length: "2 \<le> b \<Longrightarrow> n < b ^ Suc k \<Longrightarrow> length (nat_digits b n) \<le> Suc k"
proof (induction k arbitrary: n)
  case 0
  then show ?case by (subst nat_digits.simps) simp
next
  case (Suc k)
  show ?case
  proof (cases "n < b")
    case True
    then show ?thesis by (subst nat_digits.simps) simp
  next
    case False
    have "n div b < b ^ Suc k"
      using Suc.prems by (intro less_mult_imp_div_less) (simp add: mult.commute)
    then have "length (nat_digits b (n div b)) \<le> Suc k" by (rule Suc.IH [OF Suc.prems(1)])
    then show ?thesis using False Suc.prems(1) by (subst nat_digits.simps) simp
  qed
qed

lemma digits_loop_exact:
  assumes "2 \<le> unat base"
  shows "digits_loop digits base x buf =
         Some (buf @ rev (map ((!) digits) (nat_digits (unat base) (unat x))))"
  using assms
proof (induction "unat base" "unat x" arbitrary: x buf rule: nat_digits.induct)
  case 1
  have mod: "unat (x mod base) = unat x mod unat base" and div: "unat (x div base) = unat x div unat base"
    by (simp_all add: unat_mod unat_div)
  show ?case
  proof (cases "unat x < unat base")
    case True
    then have "unat (x div base) = 0" by (simp add: div)
    then have "x div base = 0" by (simp only: unat_eq_zero)
    then show ?thesis
      using True by (subst digits_loop.simps, subst nat_digits.simps) (simp add: mod Let_def)
  next
    case False
    have "unat (x div base) \<noteq> 0" using False 1(2) by (simp add: div div_eq_0_iff)
    then have "x div base \<noteq> 0" by auto
    moreover have "digits_loop digits base (x div base) b' =
        Some (b' @ rev (map ((!) digits) (nat_digits (unat base) (unat (x div base)))))" for b'
      by (rule 1(1)) (use False 1(2) in \<open>simp_all add: div\<close>)
    ultimately show ?thesis
      using False 1(2)
      by (subst digits_loop.simps, subst nat_digits.simps) (simp add: mod div Let_def)
  qed
qed

section \<open>Signs and digits\<close>

lemma sint_cases:
  fixes x :: u32
  shows "sint x = (if sint x < 0 then uint x - 2 ^ 32 else uint x)"
proof -
  have "sint x = (if bit x 31 then uint x - 2 ^ 32 else uint x)"
    by (simp add: sint_uint signed_take_bit_eq_take_bit_minus bit_uint_iff take_bit_int_eq_self_iff
        uint_lt2p [of x, simplified])
  moreover have "0 \<le> uint x" "uint x < 2 ^ 32" using uint_lt2p [of x] by simp_all
  ultimately show ?thesis by (auto split: if_splits)
qed

lemma unat_abs_sint:
  fixes x :: u32
  shows "unat (if sint x < 0 then - x else x) = nat \<bar>sint x\<bar>"
proof (cases "sint x < 0")
  case True
  then have "uint x \<noteq> 0" by (auto simp: unsigned_eq_0_iff)
  moreover have "uint x mod 2 ^ 32 = uint x" using uint_lt2p [of x] by (intro mod_pos_pos_trivial) simp_all
  ultimately have "uint (- x) = 2 ^ 32 - uint x" by (simp add: uint_word_ariths zmod_zminus1_eq_if)
  then show ?thesis using True sint_cases [of x] by (simp add: unat_eq_nat_uint)
next
  case False
  have "sint x = uint x" using sint_cases [of x] unfolding if_not_P [OF False] .
  moreover have "\<bar>sint x\<bar> = sint x" using False by linarith
  ultimately have "nat \<bar>sint x\<bar> = unat x" by (simp only: unat_eq_nat_uint)
  then show ?thesis unfolding if_not_P [OF False] by (rule sym)
qed

lemma decimal_digit: "d < 10 \<Longrightarrow> ascii ''0123456789abcdef'' ! d = 48 + of_nat d"
  "d < 10 \<Longrightarrow> ascii ''0123456789ABCDEF'' ! d = 48 + of_nat d"
  by (auto simp: less_Suc_eq numeral_eq_Suc)

definition decimal :: "u32 \<Rightarrow> u8 list" where
  "decimal x = (if sint x < 0 then [45] else []) @
     map (\<lambda>d. 48 + of_nat d) (nat_digits 10 (nat \<bar>sint x\<bar>))"

definition hexadecimal :: "string \<Rightarrow> u32 \<Rightarrow> u8 list" where
  "hexadecimal digits x = map (\<lambda>d. of_char (digits ! d)) (nat_digits 16 (unat x))"

lemma printint_decimal: "printint x 10 True = Some (decimal x)" "user_printint x 10 True = Some (decimal x)"
proof -
  have "d < 10" if "d \<in> set (nat_digits 10 n)" for d n using nat_digits_less [of 10 d n] that by simp
  then have "map ((!) (ascii ''0123456789abcdef'')) (nat_digits 10 n) = map (\<lambda>d. 48 + of_nat d) (nat_digits 10 n)"
    "map ((!) (ascii ''0123456789ABCDEF'')) (nat_digits 10 n) = map (\<lambda>d. 48 + of_nat d) (nat_digits 10 n)" for n
    unfolding map_eq_conv using decimal_digit by blast+
  note digits = this
  have ten: "unat (10 :: u32) = 10" by simp
  show "printint x 10 True = Some (decimal x)" "user_printint x 10 True = Some (decimal x)"
    using unat_abs_sint [of x]
    by (simp_all add: printint_def user_printint_def digits_loop_exact digits decimal_def Let_def
        split: if_splits del: list.map)
qed

lemma printint_hexadecimal:
  "printint x 16 False = Some (hexadecimal ''0123456789abcdef'' x)"
  "user_printint x 16 False = Some (hexadecimal ''0123456789ABCDEF'' x)"
proof -
  have "map ((!) (map of_char cs)) (nat_digits 16 n) = map (\<lambda>d. of_char (cs ! d)) (nat_digits 16 n)"
    if "length cs = 16" for cs n
    using that nat_digits_less [of 16 _ n] by (auto simp: map_eq_conv)
  from this [of "''0123456789abcdef''"] this [of "''0123456789ABCDEF''"]
  show "printint x 16 False = Some (hexadecimal ''0123456789abcdef'' x)"
    "user_printint x 16 False = Some (hexadecimal ''0123456789ABCDEF'' x)"
    by (simp_all add: printint_def user_printint_def digits_loop_exact hexadecimal_def Let_def del: list.map)
qed

lemma abs_sint_bound: "nat \<bar>sint (x :: u32)\<bar> < 10 ^ Suc 9"
proof -
  have "\<bar>sint x\<bar> \<le> 2 ^ 31" using sint_ge [of x] sint_lt [of x] by auto
  then show ?thesis by simp
qed

section \<open>Properties\<close>

text \<open>
  Numbers are printed right and fit their buffer. For every 32-bit value both versions of
  \<^verbatim>\<open>printint\<close> return; base 10 gives a minus sign for a negative value (the smallest integer
  included) and the decimal numeral of its absolute value, base 16 the hexadecimal numeral of
  the unsigned value; and the characters number at most 11, inside \<^verbatim>\<open>char buf[16]\<close>.
\<close>

theorem printint_exact:
  "printint x 10 True = Some (decimal x) \<and> user_printint x 10 True = Some (decimal x) \<and>
   printint x 16 False = Some (hexadecimal ''0123456789abcdef'' x) \<and>
   user_printint x 16 False = Some (hexadecimal ''0123456789ABCDEF'' x) \<and>
   length (decimal x) \<le> 11 \<and> length (hexadecimal digits x) \<le> 8"
proof (intro conjI printint_decimal printint_hexadecimal)
  show "length (decimal x) \<le> 11"
  proof -
    have "length (nat_digits 10 (nat \<bar>sint x\<bar>)) \<le> Suc 9"
      by (rule nat_digits_length [OF _ abs_sint_bound]) simp
    moreover have "length (if sint x < 0 then [45 :: u8] else []) \<le> 1" by simp
    ultimately show ?thesis unfolding decimal_def length_append length_map by linarith
  qed
  show "length (hexadecimal digits x) \<le> 8"
    using nat_digits_length [of 16 "unat x" 7] u32_bound [of x] by (simp add: hexadecimal_def)
qed

text \<open>
  C34. \<^verbatim>\<open>atoi\<close> reads back what \<^verbatim>\<open>printf\<close> prints. If \<^verbatim>\<open>printf\<close> with the format
  \<^verbatim>\<open>%d\<close> prints a number that is not negative, and the printed characters are a string in
  memory, \<^verbatim>\<open>atoi\<close> of that string is the number.
\<close>

theorem printf_atoi_roundtrip:
  assumes "0 \<le> sint x" "printf m (ascii ''%d'') [x] = Some out" "cstr m' a out"
  shows "atoi a m' = Some x"
proof -
  define ds where "ds = nat_digits 10 (nat (sint x))"
  have less: "d < 10" if "d \<in> set ds" for d using nat_digits_less [of 10 d] that by (simp add: ds_def)
  have out: "out = map (\<lambda>d. 48 + of_nat d) ds"
    using assms(1, 2) by (simp add: printf_def printint_decimal decimal_def ds_def)
  have u: "unat (48 + of_nat d :: u8) = 48 + d" if "d < 10" for d
    using that by (simp add: unat_word_ariths unsigned_of_nat take_bit_eq_mod)
  have "is_digit (48 + of_nat d)" if "d < 10" for d
    using that u [OF that] by (simp add: is_digit_def word_le_nat_alt)
  with less have dig: "\<forall>c\<in>set out. is_digit c" by (auto simp: out)
  have "foldl (\<lambda>n d. n * 10 + (unat d - 48)) n (map (\<lambda>d. 48 + of_nat d :: u8) ks) =
      foldl (\<lambda>v d. v * 10 + d) n ks" if "\<forall>d\<in>set ks. d < 10" for ks n
    using that by (induction ks arbitrary: n) (simp_all add: u)
  then have val: "foldl (\<lambda>n d. n * 10 + (unat d - 48)) 0 out = nat (sint x)"
    using less nat_digits_value [of 10 "nat (sint x)"] by (simp add: out ds_def)
  have "atoi_loop (of_nat 0) a m' = Some (of_nat (nat (sint x)))"
    unfolding val [symmetric]
  proof (rule atoi_loop_digits [OF dig])
    show "\<forall>i<length out. m' (a + of_nat i) = out ! i" using assms(3) by (simp add: cstr_def)
    show "\<not> is_digit (m' (a + of_nat (length out)))" using assms(3) by (simp add: cstr_def is_digit_def)
  qed
  moreover have "of_nat (nat (sint x)) = x" using assms(1) by simp
  ultimately show ?thesis by (simp add: atoi_def)
qed

theorem printf_atoi_roundtrip_witness:
  "0 \<le> sint (305 :: u32) \<and> printf (\<lambda>_. 0) (ascii ''%d'') [305] = Some (ascii ''305'') \<and>
   cstr (put 0x100 (ascii ''305'') (\<lambda>_. 0)) 0x100 (ascii ''305'') \<and>
   atoi 0x100 (put 0x100 (ascii ''305'') (\<lambda>_. 0)) = Some 305"
proof -
  have 1: "0 \<le> sint (305 :: u32)" by simp
  have 2: "printf (\<lambda>_. 0) (ascii ''%d'') [305] = Some (ascii ''305'')"
    by (simp add: printf_def printint_decimal decimal_def nat_digits.simps)
  have 3: "cstr (put 0x100 (ascii ''305'') (\<lambda>_. 0)) 0x100 (ascii ''305'')"
    by (simp add: cstr_def put_def All_less_Suc2)
  from 1 2 3 printf_atoi_roundtrip [OF 1 2 3] show ?thesis by blast
qed

fun common_format :: "u8 list \<Rightarrow> bool" where
  "common_format (c # d # fmt) =
     (if c = 37 then d \<notin> set (ascii ''xpc'') \<and> common_format fmt else common_format (d # fmt))"
| "common_format fmt = True"

text \<open>
  The kernel's and the user's formatter agree. On every format in which no percent sign is
  followed by \<^verbatim>\<open>x\<close>, \<^verbatim>\<open>p\<close> (digits of the other case) or \<^verbatim>\<open>c\<close> (which only
  \<^verbatim>\<open>printf\<close> knows), the two state machines print the same characters or both fail to return.
\<close>

theorem printf_agrees_with_cprintf:
  assumes "common_format fmt"
  shows "printf m fmt args = map_option (map word_of_int) (cprintf m fmt args)"
proof -
  have "printf_loop m False fmt args = map_option (map word_of_int) (cprintf_loop m fmt args)"
    using assms
  proof (induction fmt arbitrary: args rule: common_format.induct)
    case (1 c d fmt)
    show ?case
    proof (cases "c = 37")
      case True
      then have IH: "printf_loop m False fmt as = map_option (map word_of_int) (cprintf_loop m fmt as)" for as
        using 1(1) [OF True] 1(3) by simp
      have d: "d \<noteq> of_char CHR ''x''" "d \<noteq> of_char CHR ''p''" "d \<noteq> of_char CHR ''c''"
        using 1(3) True by auto
      have bnd: "Option.bind r (\<lambda>cs. map_option (\<lambda>x. cs @ map word_of_int x) y) =
          map_option (map word_of_int) (Option.bind r (\<lambda>cs. map_option ((@) (map sint cs)) y))"
        for r :: "u8 list option" and y
        by (cases r; cases y) (simp_all add: o_def)
      show ?thesis
        using True d IH printint_decimal
        by (simp add: bnd option.map_comp o_def split: list.split)
    next
      case False
      then show ?thesis using 1(2) [OF False] 1(3) by (simp add: option.map_comp o_def)
    qed
  qed simp_all
  then show ?thesis by (simp add: printf_def cprintf_def)
qed

theorem printf_agrees_with_cprintf_witness:
  "common_format (ascii ''pid %d: %s%%'') \<and>
   printf (\<lambda>_. 0) (ascii ''pid %d: %s%%'') [7, 0] =
   map_option (map word_of_int) (cprintf (\<lambda>_. 0) (ascii ''pid %d: %s%%'') [7, 0])"
proof -
  have 1: "common_format (ascii ''pid %d: %s%%'')" by simp
  from 1 printf_agrees_with_cprintf [OF 1, of "\<lambda>_. 0" "[7, 0]"] show ?thesis by blast
qed

end
