(* ===== verification/Console.thy ===== *)
theory Console
  imports Ring Printing
begin

unbundle bit_operations_syntax

text \<open>
  The console, \<^verbatim>\<open>kernel/console.c\<close>: the screen and serial output (\<open>console\<close>), and the
  line-edited input buffer (\<open>input\<close>). \<open>crt\<close> is the memory at \<^verbatim>\<open>0xb8000\<close> as an array of
  16-bit cells, \<open>cursor\<close> the cursor register of the display, \<open>serial\<close> the bytes sent to the
  serial port. An operation of value \<open>None\<close> spins forever (output after a panic) or clears
  memory with a negative length.

  Input indices run freely, like those of a pipe: the buffer holds the bytes from \<open>ir\<close> to
  \<open>ie\<close>, of which those before \<open>iw\<close> are complete lines. The reference is a line editor on
  two lists, the committed bytes and the line being edited.
\<close>

section \<open>Output\<close>

record console =
  crt :: "nat \<Rightarrow> u16"
  cursor :: u16
  serial :: "u8 list"
  uart :: bool
  panicked :: bool

abbreviation BACKSPACE :: int where
  "BACKSPACE \<equiv> 0x100"

definition cgaputc :: "int \<Rightarrow> console \<Rightarrow> console option" where
  "cgaputc c s =
     (let pos = uint (cursor s);
          (pos, m) =
            (if c = 10 then (pos + (80 - pos mod 80), crt s)
             else if c = BACKSPACE then (if pos > 0 then pos - 1 else pos, crt s)
             else (pos + 1, (crt s)(nat pos := (word_of_int c AND 0xFF) OR 0x0700))) in
      Option.bind
        (if pos div 80 \<ge> 24 then
           let m = (\<lambda>i. if i < 23 * 80 then m (i + 80) else m i);
               pos = pos - 80 in
           if pos > 24 * 80 then None
           else Some (pos, \<lambda>i. if nat pos \<le> i \<and> i < 24 * 80 then 0 else m i)
         else Some (pos, m))
        (\<lambda>(pos, m). Some (s\<lparr>cursor := word_of_int pos, crt := m(nat pos := 0x20 OR 0x0700)\<rparr>)))"

definition uartputc :: "int \<Rightarrow> console \<Rightarrow> console" where
  "uartputc c s = (if \<not> uart s then s else s\<lparr>serial := serial s @ [word_of_int c]\<rparr>)"

definition consputc :: "int \<Rightarrow> console \<Rightarrow> console option" where
  "consputc c s =
     (if panicked s then None
      else cgaputc c
        (if c = BACKSPACE then uartputc 8 (uartputc 32 (uartputc 8 s)) else uartputc c s))"

fun consputs :: "int list \<Rightarrow> console \<Rightarrow> console option" where
  "consputs [] s = Some s"
| "consputs (c # cs) s = Option.bind (consputc c s) (consputs cs)"

definition consolewrite_loop :: "(nat \<Rightarrow> u8) \<Rightarrow> int \<Rightarrow> console \<Rightarrow> (int \<times> console) option" where
  "consolewrite_loop buf n s =
     map_option (Pair n) (consputs (map (\<lambda>i. uint (buf i)) [0..<nat n]) s)"

definition console_print :: "bmem \<Rightarrow> u8 list \<Rightarrow> u32 list \<Rightarrow> console \<Rightarrow> console option" where
  "console_print m fmt args s = Option.bind (cprintf m fmt args) (\<lambda>cs. consputs cs s)"

fun print_pcs :: "bmem \<Rightarrow> u32 list \<Rightarrow> console \<Rightarrow> console option" where
  "print_pcs m [] s = Some s"
| "print_pcs m (pc # pcs) s = Option.bind (console_print m (ascii '' %p'') [pc] s) (print_pcs m pcs)"

definition panic :: "bmem \<Rightarrow> u32 \<Rightarrow> u8 list \<Rightarrow> u32 list \<Rightarrow> console \<Rightarrow> console option" where
  "panic m cpuid msg pcs s =
     Option.bind (console_print m (ascii ''cpu%d: panic: '') [cpuid] s) (\<lambda>s.
     Option.bind (console_print m msg [] s) (\<lambda>s.
     Option.bind (console_print m [10] [] s) (\<lambda>s.
     Option.bind (print_pcs m pcs s) (\<lambda>s.
     Some (s\<lparr>panicked := True\<rparr>)))))"

section \<open>Input\<close>

abbreviation INPUT_BUF :: nat where
  "INPUT_BUF \<equiv> 128"

record input =
  ibuf :: "u8 list"
  ir :: u32
  iw :: u32
  ie :: u32

datatype cevent = Putc int | Procdump | Wakeup chan

definition input_put :: "u8 \<Rightarrow> input \<Rightarrow> input" where
  "input_put c i = i\<lparr>ibuf := (ibuf i)[unat (ie i) mod INPUT_BUF := c], ie := ie i + 1\<rparr>"

definition input_get :: "input \<Rightarrow> u8 \<times> input" where
  "input_get i = (ibuf i ! (unat (ir i) mod INPUT_BUF), i\<lparr>ir := ir i + 1\<rparr>)"

function kill_line :: "input \<Rightarrow> input \<times> cevent list" where
  "kill_line i =
     (if ie i \<noteq> iw i \<and> ibuf i ! (unat (ie i - 1) mod INPUT_BUF) \<noteq> 10 then
        let (i, ev) = kill_line (i\<lparr>ie := ie i - 1\<rparr>) in (i, Putc BACKSPACE # ev)
      else (i, []))"
  by pat_completeness auto
termination
proof (relation "measure (\<lambda>i. unat (ie i - iw i))", goal_cases)
  case (2 i)
  then have "ie i - iw i \<noteq> 0" by simp
  then have "unat (ie i - iw i - 1) < unat (ie i - iw i)" by (simp add: measure_unat)
  then show ?case by (simp add: algebra_simps)
qed simp

declare kill_line.simps [simp del]

definition consoleintr_char :: "int \<Rightarrow> input \<Rightarrow> input \<times> cevent list" where
  "consoleintr_char c i =
     (if c = 16 then (i, [Procdump])
      else if c = 21 then kill_line i
      else if c = 8 \<or> c = 0x7f then
        if ie i \<noteq> iw i then (i\<lparr>ie := ie i - 1\<rparr>, [Putc BACKSPACE]) else (i, [])
      else if c \<noteq> 0 \<and> ie i - ir i < of_nat INPUT_BUF then
        let c = (if c = 13 then 10 else c);
            i = input_put (word_of_int c) i in
        if c = 10 \<or> c = 4 \<or> ie i = ir i + of_nat INPUT_BUF then
          (i\<lparr>iw := ie i\<rparr>, [Putc c, Wakeup ChanInput])
        else (i, [Putc c])
      else (i, []))"

text \<open>The argument is what successive calls of \<^verbatim>\<open>getc\<close> return before a negative value.\<close>

fun consoleintr :: "int list \<Rightarrow> input \<Rightarrow> input \<times> cevent list" where
  "consoleintr [] i = (i, [])"
| "consoleintr (c # cs) i =
     (let (i, ev) = consoleintr_char c i; (i, ev') = consoleintr cs i in (i, ev @ ev'))"

text \<open>
  The loop of \<^verbatim>\<open>consoleread\<close>; \<open>n\<close> counts down from \<open>target\<close>, \<open>dst\<close> is what has been
  stored so far. A call that sleeps is run again on what is left.
\<close>

fun consoleread_loop :: "bool \<Rightarrow> nat \<Rightarrow> nat \<Rightarrow> u8 list \<Rightarrow> input \<Rightarrow> (int \<times> u8 list, nat \<times> u8 list, input) outcome" where
  "consoleread_loop killed target 0 dst i = Returns (int target, dst) i []"
| "consoleread_loop killed target (Suc n) dst i =
     (if ir i = iw i then
        if killed then Returns (- 1, dst) i []
        else Blocks ChanInput (Suc n, dst) i []
      else
        let (c, i) = input_get i in
        if c = 4 then
          Returns (int target - int (Suc n), dst) (if Suc n < target then i\<lparr>ir := ir i - 1\<rparr> else i) []
        else if c = 10 then Returns (int target - int n, dst @ [c]) i []
        else consoleread_loop killed target n (dst @ [c]) i)"

section \<open>The screen\<close>

definition screen_ok :: "console \<Rightarrow> bool" where
  "screen_ok s \<longleftrightarrow> cursor s < 24 * 80 \<and> \<not> panicked s"

lemma cgaputc_ok:
  assumes "screen_ok s"
  shows "\<exists>s'. cgaputc c s = Some s' \<and> screen_ok s' \<and> (\<forall>i\<ge>24 * 80. crt s' i = crt s i)"
proof -
  define pos where "pos = uint (cursor s)"
  have pos: "0 \<le> pos" "pos < 1920"
    using assms by (simp_all add: screen_ok_def pos_def word_less_alt)
  define qm where "qm = (if c = 10 then (pos + (80 - pos mod 80), crt s)
             else if c = BACKSPACE then (if pos > 0 then pos - 1 else pos, crt s)
             else (pos + 1, (crt s)(nat pos := (word_of_int c AND 0xFF) OR 0x0700)))"
  obtain q m where q: "qm = (q, m)" by fastforce
  have "pos mod 80 \<ge> 0" "pos mod 80 < 80" by simp_all
  moreover have "pos + (80 - pos mod 80) = (pos div 80 + 1) * 80"
    by presburger
  moreover have "pos div 80 < 24" using pos by linarith
  ultimately have q_le: "0 \<le> q" "q \<le> 1920" using q pos by (auto simp: qm_def split: if_splits)
  have m: "\<forall>i\<ge>1920. m i = crt s i" using q pos by (auto simp: qm_def split: if_splits)
  have small: "(word_of_int k :: u16) < 1920" if "0 \<le> k" "k < 1920" for k
    using that by (simp add: word_less_alt uint_word_of_int mod_pos_pos_trivial)
  show ?thesis
  proof (cases "q div 80 \<ge> 24")
    case True
    then have "q = 1920" using q_le by linarith
    then show ?thesis
      using True q m assms small [of 1840]
      by (simp add: cgaputc_def pos_def [symmetric] qm_def [symmetric] screen_ok_def Let_def)
  next
    case False
    then have "q < 1920" by linarith
    then show ?thesis
      using False q q_le m assms small [of q]
      by (auto simp: cgaputc_def pos_def [symmetric] qm_def [symmetric] screen_ok_def Let_def nat_less_iff)
  qed
qed

lemma uartputc_frame [simp]:
  "crt (uartputc c s) = crt s" "cursor (uartputc c s) = cursor s" "panicked (uartputc c s) = panicked s"
  "uart (uartputc c s) = uart s"
  by (simp_all add: uartputc_def)

lemma consputc_ok:
  assumes "screen_ok s"
  shows "\<exists>s'. consputc c s = Some s' \<and> screen_ok s' \<and> (\<forall>i\<ge>24 * 80. crt s' i = crt s i)"
proof -
  define t where "t = (if c = BACKSPACE then uartputc 8 (uartputc 32 (uartputc 8 s)) else uartputc c s)"
  have t: "crt t = crt s" "screen_ok t" using assms by (simp_all add: t_def screen_ok_def)
  have "consputc c s = cgaputc c t" using assms by (simp add: consputc_def t_def screen_ok_def)
  then show ?thesis using cgaputc_ok [OF t(2), of c] t(1) by simp
qed

text \<open>
  C39. Output stays on the screen. From a cursor inside the 24 by 80 text area, any sequence of
  characters, newlines and backspaces is printed to the end (no negative clear length, no
  endless loop), the cursor is inside the area again, and no cell of video memory beyond the
  area is written.
\<close>

theorem console_output_stays_on_screen:
  assumes "screen_ok s"
  shows "\<exists>s'. consputs cs s = Some s' \<and> screen_ok s' \<and> (\<forall>i\<ge>24 * 80. crt s' i = crt s i)"
  using assms
proof (induction cs arbitrary: s)
  case (Cons c cs)
  from consputc_ok [OF Cons.prems, of c] obtain t where
    t: "consputc c s = Some t" "screen_ok t" "\<forall>i\<ge>24 * 80. crt t i = crt s i" by blast
  from Cons.IH [OF t(2)] t(1, 3) show ?case by auto
qed simp

definition demo_console :: console where
  "demo_console = \<lparr>crt = (\<lambda>_. 0), cursor = 1919, serial = [], uart = True, panicked = False\<rparr>"

theorem console_output_stays_on_screen_witness:
  "screen_ok demo_console \<and>
   (\<exists>s'. consputs [104, 105, 10, BACKSPACE] demo_console = Some s' \<and> screen_ok s' \<and>
      (\<forall>i\<ge>24 * 80. crt s' i = crt demo_console i))"
proof -
  have "screen_ok demo_console" by (simp add: screen_ok_def demo_console_def)
  with console_output_stays_on_screen [OF this] show ?thesis by blast
qed

section \<open>The input buffer as a queue\<close>

definition input_all :: "input \<Rightarrow> u8 list" where
  "input_all i = ring_list INPUT_BUF (ibuf i) (ir i) (unat (ie i - ir i))"

definition input_ok :: "input \<Rightarrow> bool" where
  "input_ok i \<longleftrightarrow> length (ibuf i) = INPUT_BUF \<and> unat (ie i - ir i) \<le> INPUT_BUF"

lemma length_input_all: "length (input_all i) = unat (ie i - ir i)"
  by (simp add: input_all_def)

lemma input_put_ok:
  assumes "input_ok i" and "length (input_all i) < INPUT_BUF"
  shows "input_ok (input_put c i) \<and> input_all (input_put c i) = input_all i @ [c]"
  using assms ring_put(1) [of 128 "ibuf i" "ie i" "ir i"] ring_put(2) [of 128 "ibuf i" "ie i" "ir i" c]
  by (simp add: input_ok_def input_put_def input_all_def)

lemma input_get_ok:
  assumes "input_ok i" and "input_all i \<noteq> []"
  shows "input_ok (snd (input_get i)) \<and>
         input_all i = fst (input_get i) # input_all (snd (input_get i))"
proof -
  obtain n where n: "unat (ie i - ir i) = Suc n"
    using assms(2) by (metis length_input_all length_0_conv not0_implies_Suc)
  show ?thesis using assms(1) n ring_get [OF n] by (simp add: input_ok_def input_get_def input_all_def)
qed

interpretation iq: fifo input_all input_put input_get input_ok INPUT_BUF
proof
  show "length (input_all i) \<le> INPUT_BUF" if "input_ok i" for i
    using that by (simp add: input_ok_def length_input_all)
qed (rule input_put_ok input_get_ok, assumption+)+

section \<open>The line editor\<close>

definition committed :: "input \<Rightarrow> u8 list" where
  "committed i = take (unat (iw i - ir i)) (input_all i)"

definition editing :: "input \<Rightarrow> u8 list" where
  "editing i = drop (unat (iw i - ir i)) (input_all i)"

definition input_wf :: "input \<Rightarrow> bool" where
  "input_wf i \<longleftrightarrow> input_ok i \<and> unat (iw i - ir i) \<le> unat (ie i - ir i) \<and> 10 \<notin> set (editing i)"

definition editor :: "int \<Rightarrow> u8 list \<times> u8 list \<Rightarrow> u8 list \<times> u8 list" where
  "editor c s =
     (let (ls, ed) = s in
      if c = 16 then (ls, ed)
      else if c = 21 then (ls, [])
      else if c = 8 \<or> c = 127 then (ls, butlast ed)
      else if c \<noteq> 0 \<and> length ls + length ed < INPUT_BUF then
        let c = (if c = 13 then 10 else c); ed = ed @ [word_of_int c] in
        if c = 10 \<or> c = 4 \<or> length ls + length ed = INPUT_BUF then (ls @ ed, []) else (ls, ed)
      else (ls, ed))"

lemma input_split: "input_all i = committed i @ editing i"
  by (simp add: committed_def editing_def)

lemma editing_Nil_iff:
  assumes "input_wf i"
  shows "editing i = [] \<longleftrightarrow> ie i = iw i"
proof -
  have "editing i = [] \<longleftrightarrow> unat (ie i - ir i) \<le> unat (iw i - ir i)"
    by (simp add: editing_def length_input_all)
  also have "\<dots> \<longleftrightarrow> unat (ie i - ir i) = unat (iw i - ir i)" using assms by (auto simp: input_wf_def)
  also have "\<dots> \<longleftrightarrow> ie i = iw i" by (simp add: word_unat_eq_iff [symmetric])
  finally show ?thesis .
qed

text \<open>Taking the last byte out again, as backspace and kill do.\<close>

lemma input_unput:
  assumes "input_wf i" "ie i \<noteq> iw i"
  defines "j \<equiv> i\<lparr>ie := ie i - 1\<rparr>"
  shows "input_wf j" "committed j = committed i"
    "editing i = editing j @ [ibuf i ! (unat (ie i - 1) mod INPUT_BUF)]"
proof -
  have ne: "editing i \<noteq> []" using assms(2) editing_Nil_iff [OF assms(1)] by simp
  then have lt: "unat (iw i - ir i) < unat (ie i - ir i)" by (simp add: editing_def length_input_all)
  then obtain k where k: "unat (ie i - ir i) = Suc k" by (cases "unat (ie i - ir i)") auto
  have e: "ie i - 1 = ir i + of_nat k" using index_diff [OF k] by simp
  have "k < 2 ^ 32" using k u32_bound [of "ie i - ir i"] by simp
  then have "unat (ie i - 1 - ir i) = k" unfolding e by (simp add: unsigned_of_nat take_bit_eq_mod)
  then have all: "input_all i = input_all j @ [ibuf i ! (unat (ie i - 1) mod 128)]" "length (input_all j) = k"
    by (simp_all add: input_all_def j_def k ring_list_Suc e)
  have le: "unat (iw i - ir i) \<le> k" using lt k by simp
  show c: "committed j = committed i" using all le by (simp add: committed_def j_def)
  show e': "editing i = editing j @ [ibuf i ! (unat (ie i - 1) mod INPUT_BUF)]"
    using all le by (simp add: editing_def j_def)
  have "input_ok j" using assms(1) all(2) k by (simp add: input_wf_def input_ok_def j_def length_input_all)
  then show "input_wf j" using assms(1) e' le all(2) by (simp add: input_wf_def j_def length_input_all)
qed

lemma kill_line_refines:
  assumes "input_wf i"
  shows "input_wf (fst (kill_line i)) \<and> committed (fst (kill_line i)) = committed i \<and>
         editing (fst (kill_line i)) = []"
  using assms
proof (induction i rule: kill_line.induct)
  case (1 i)
  show ?case
  proof (cases "ie i = iw i")
    case True
    then show ?thesis using 1(2) editing_Nil_iff by (subst (1 2 3) kill_line.simps) simp
  next
    case False
    note U = input_unput [OF 1(2) False]
    have "ibuf i ! (unat (ie i - 1) mod INPUT_BUF) \<noteq> 10" using U(3) 1(2) by (auto simp: input_wf_def)
    with False have step: "ie i \<noteq> iw i \<and> ibuf i ! (unat (ie i - 1) mod INPUT_BUF) \<noteq> 10" by blast
    have "fst (kill_line i) = fst (kill_line (i\<lparr>ie := ie i - 1\<rparr>))"
      using step by (subst kill_line.simps) (simp add: split_def Let_def)
    then show ?thesis using 1(1) [OF step U(1)] U(2) by simp
  qed
qed

lemma input_full_iff:
  assumes "input_ok i"
  shows "ie i = ir i + 128 \<longleftrightarrow> length (input_all i) = INPUT_BUF"
proof
  assume "length (input_all i) = INPUT_BUF"
  then show "ie i = ir i + 128"
    using index_diff [of "ie i" "ir i" 128] by (simp add: length_input_all)
qed (simp add: length_input_all)

lemma input_put_refines:
  assumes "input_wf i" "length (input_all i) < INPUT_BUF" "c \<noteq> 10"
  shows "input_wf (input_put c i) \<and> committed (input_put c i) = committed i \<and>
         editing (input_put c i) = editing i @ [c]"
proof -
  have ok: "input_ok i" using assms(1) by (simp add: input_wf_def)
  note P = input_put_ok [OF ok assms(2), of c]
  have le: "unat (iw i - ir i) \<le> length (input_all i)"
    using assms(1) by (simp add: input_wf_def length_input_all)
  have fr: "iw (input_put c i) = iw i" "ir (input_put c i) = ir i" by (simp_all add: input_put_def)
  have "committed (input_put c i) = committed i" "editing (input_put c i) = editing i @ [c]"
    using P le by (simp_all add: committed_def editing_def fr)
  moreover have "unat (iw i - ir i) \<le> unat (ie (input_put c i) - ir i)"
    using P le length_input_all [of "input_put c i"] by (simp add: fr)
  ultimately show ?thesis using assms P by (simp add: input_wf_def fr)
qed

lemma input_commit_refines:
  assumes "input_ok i"
  shows "input_wf (i\<lparr>iw := ie i\<rparr>) \<and> committed (i\<lparr>iw := ie i\<rparr>) = input_all i \<and> editing (i\<lparr>iw := ie i\<rparr>) = []"
proof -
  have "input_all (i\<lparr>iw := ie i\<rparr>) = input_all i" by (simp add: input_all_def)
  then show ?thesis
    using assms by (simp add: input_wf_def committed_def editing_def length_input_all input_ok_def)
qed

lemma consoleintr_char_refines:
  assumes "input_wf i" "0 \<le> c" "c < 256"
  shows "input_wf (fst (consoleintr_char c i)) \<and>
         (committed (fst (consoleintr_char c i)), editing (fst (consoleintr_char c i))) =
         editor c (committed i, editing i)"
proof -
  have ok: "input_ok i" using assms(1) by (simp add: input_wf_def)
  have len: "length (input_all i) = length (committed i) + length (editing i)"
    by (simp add: input_split)
  consider (dump) "c = 16" | (kill) "c = 21" | (erase) "c = 8 \<or> c = 127"
    | (none) "c \<notin> {16, 21, 8, 127}" "c = 0 \<or> \<not> length (input_all i) < INPUT_BUF"
    | (store) "c \<notin> {16, 21, 8, 127}" "c \<noteq> 0" "length (input_all i) < INPUT_BUF" by auto
  then show ?thesis
  proof cases
    case erase
    show ?thesis
    proof (cases "ie i = iw i")
      case True
      then show ?thesis using erase assms(1) editing_Nil_iff [OF assms(1)]
        by (auto simp: consoleintr_char_def editor_def)
    next
      case False
      note U = input_unput [OF assms(1) False]
      have "butlast (editing i) = editing (i\<lparr>ie := ie i - 1\<rparr>)" by (subst U(3)) simp
      then show ?thesis using erase False U(1, 2) by (auto simp: consoleintr_char_def editor_def)
    qed
  next
    case none
    have "\<not> (c \<noteq> 0 \<and> ie i - ir i < 128)"
      using none(2) by (auto simp: length_input_all word_less_nat_alt)
    then show ?thesis using none len assms(1) by (auto simp: consoleintr_char_def editor_def)
  next
    case store
    define d where "d = (if c = 13 then 10 else c)"
    define j where "j = input_put (word_of_int d) i"
    note P = input_put_ok [OF ok store(3), of "word_of_int d", folded j_def]
    have room: "c \<noteq> 0 \<and> ie i - ir i < 128"
      using store(2, 3) by (simp add: length_input_all word_less_nat_alt)
    have fr: "ir j = ir i" by (simp add: j_def input_put_def)
    have full: "ie j = ir i + 128 \<longleftrightarrow> length (committed i) + length (editing i) + 1 = INPUT_BUF"
      using input_full_iff [of j] P len fr by simp
    have C: "consoleintr_char c i =
        (if d = 10 \<or> d = 4 \<or> ie j = ir i + 128 then (j\<lparr>iw := ie j\<rparr>, [Putc d, Wakeup ChanInput])
         else (j, [Putc d]))"
      using store(1) room unfolding consoleintr_char_def d_def [symmetric] j_def [symmetric] Let_def
      by (simp add: fr)
    have E: "editor c (committed i, editing i) =
        (if d = 10 \<or> d = 4 \<or> ie j = ir i + 128 then (committed i @ editing i @ [word_of_int d], [])
         else (committed i, editing i @ [word_of_int d]))"
      using store len full by (simp add: editor_def d_def Let_def)
    show ?thesis
    proof (cases "d = 10 \<or> d = 4 \<or> ie j = ir i + 128")
      case True
      then show ?thesis unfolding C E using input_commit_refines [of j] P input_split [of i] by simp
    next
      case False
      have "word_of_int d \<noteq> (10 :: u8)"
      proof
        assume "word_of_int d = (10 :: u8)"
        then have "uint (word_of_int d :: u8) = 10" by simp
        then have "d mod 256 = 10" by (simp add: uint_word_of_int)
        moreover have "0 \<le> d" "d < 256" using assms(2, 3) by (auto simp: d_def)
        ultimately show False using False by simp
      qed
      from input_put_refines [OF assms(1) store(3) this]
      show ?thesis unfolding C E using False by (simp add: j_def)
    qed
  qed (use assms(1) kill_line_refines [OF assms(1)] in \<open>simp_all add: consoleintr_char_def editor_def\<close>)
qed

lemma consoleintr_refines:
  assumes "input_wf i" "\<forall>c\<in>set cs. 0 \<le> c \<and> c < 256"
  shows "input_wf (fst (consoleintr cs i)) \<and>
         (committed (fst (consoleintr cs i)), editing (fst (consoleintr cs i))) =
         fold editor cs (committed i, editing i)"
  using assms
proof (induction cs arbitrary: i)
  case (Cons c cs)
  have "input_wf (fst (consoleintr_char c i))"
    "(committed (fst (consoleintr_char c i)), editing (fst (consoleintr_char c i))) =
     editor c (committed i, editing i)"
    using consoleintr_char_refines [OF Cons.prems(1), of c] Cons.prems(2) by simp_all
  with Cons.IH [of "fst (consoleintr_char c i)"] Cons.prems(2) show ?case
    by (simp add: split_def Let_def)
qed simp

text \<open>
  C16. Console input is a line editor. Whatever bytes arrive, \<^verbatim>\<open>consoleintr\<close> transforms the
  circular buffer, under its three wrapping indices, exactly as the editor transforms its pair
  of lists: backspace and kill touch only the line being edited, a newline, an end-of-file mark
  or a full buffer commits it, and bytes that do not fit are dropped.
\<close>

theorem consoleintr_refines_editor:
  assumes "input_wf i" "\<forall>c\<in>set cs. 0 \<le> c \<and> c < 256"
  shows "input_wf (fst (consoleintr cs i)) \<and>
         (committed (fst (consoleintr cs i)), editing (fst (consoleintr cs i))) =
         fold editor cs (committed i, editing i)"
  using assms by (rule consoleintr_refines)

definition demo_input :: input where
  "demo_input = \<lparr>ibuf = replicate 128 0, ir = -2, iw = -2, ie = -2\<rparr>"

lemma demo_input_wf: "input_wf demo_input" "committed demo_input = []" "editing demo_input = []"
  by (simp_all add: input_wf_def input_ok_def editing_def committed_def input_all_def ring_list_def demo_input_def)

theorem consoleintr_refines_editor_witness:
  "input_wf demo_input \<and>
   (committed (fst (consoleintr [108, 115, 8, 100, 13, 120] demo_input)),
    editing (fst (consoleintr [108, 115, 8, 100, 13, 120] demo_input))) = ([108, 100, 10], [120])"
  using consoleintr_refines_editor [OF demo_input_wf(1), of "[108, 115, 8, 100, 13, 120]"] demo_input_wf
  by (simp add: editor_def)

section \<open>Reading a line\<close>

lemma input_get_committed:
  assumes "input_wf i" "committed i = c # cs"
  shows "ir i \<noteq> iw i" "fst (input_get i) = c" "input_wf (snd (input_get i))"
    "committed (snd (input_get i)) = cs" "editing (snd (input_get i)) = editing i"
proof -
  have ok: "input_ok i" using assms(1) by (simp add: input_wf_def)
  have le: "unat (iw i - ir i) \<le> unat (ie i - ir i)" using assms(1) by (simp add: input_wf_def)
  have "length (committed i) = unat (iw i - ir i)"
    using le by (simp add: committed_def length_input_all)
  then obtain n where n: "unat (iw i - ir i) = Suc n" "length cs = n" using assms(2) by simp
  then show ne: "ir i \<noteq> iw i" by auto
  have all: "input_all i = c # cs @ editing i" using input_split [of i] assms(2) by simp
  note G = input_get_ok [OF ok, unfolded all, simplified]
  show c: "fst (input_get i) = c" using G by simp
  define j where "j = snd (input_get i)"
  have j: "iw j = iw i" "ir j = ir i + 1" "input_all j = cs @ editing i" "input_ok j"
    using G by (simp_all add: j_def input_get_def)
  note R = ring_get(1) [OF n(1)]
  show "committed (snd (input_get i)) = cs" "editing (snd (input_get i)) = editing i"
    using n(2) j R by (simp_all add: j_def [symmetric] committed_def editing_def)
  then show "input_wf (snd (input_get i))"
    using j R n assms(1) length_input_all [of j] by (simp add: j_def [symmetric] input_wf_def)
qed

lemma consoleread_line:
  assumes "input_wf i" "committed i = cs @ 10 # rest" "set cs \<inter> {4, 10} = {}" "length cs < n" "n \<le> target"
  shows "\<exists>i'. consoleread_loop killed target n dst i =
      Returns (int target - int n + int (length cs) + 1, dst @ cs @ [10]) i' [] \<and>
      input_wf i' \<and> committed i' = rest \<and> editing i' = editing i"
  using assms
proof (induction cs arbitrary: i n dst)
  case Nil
  then obtain m where n: "n = Suc m" by (cases n) auto
  have "committed i = 10 # rest" using Nil.prems(2) by simp
  from input_get_committed [OF Nil.prems(1) this] show ?case
    by (simp add: n split_def Let_def)
next
  case (Cons c cs)
  then obtain m where n: "n = Suc m" by (cases n) auto
  have "committed i = c # cs @ 10 # rest" using Cons.prems(2) by simp
  note G = input_get_committed [OF Cons.prems(1) this]
  have "consoleread_loop killed target n dst i =
      consoleread_loop killed target m (dst @ [c]) (snd (input_get i))"
    using G(1, 2) Cons.prems(3) by (simp add: n split_def Let_def)
  moreover have "\<exists>i'. consoleread_loop killed target m (dst @ [c]) (snd (input_get i)) =
      Returns (int target - int m + int (length cs) + 1, (dst @ [c]) @ cs @ [10]) i' [] \<and>
      input_wf i' \<and> committed i' = rest \<and> editing i' = editing (snd (input_get i))"
    by (rule Cons.IH) (use G Cons.prems n in auto)
  moreover have "int target - int n + int (length (c # cs)) + 1 = int target - int m + int (length cs) + 1"
    by (simp add: n)
  ultimately show ?case unfolding G(5) by (simp only: append_assoc append_Cons append_Nil)
qed

definition plain_char :: "u8 \<Rightarrow> bool" where
  "plain_char c \<longleftrightarrow> c \<notin> {0, 4, 8, 10, 13, 16, 21, 127}"

lemma editor_plain:
  assumes "\<forall>c\<in>set cs. plain_char c" "length ls + length ed + length cs < INPUT_BUF"
  shows "fold editor (map uint cs) (ls, ed) = (ls, ed @ cs)"
  using assms
proof (induction cs arbitrary: ed)
  case (Cons c cs)
  have "uint c \<noteq> k" if "c \<noteq> word_of_int k" for k using that by auto
  from this [of 16] this [of 21] this [of 8] this [of 127] this [of 0] this [of 13] this [of 10] this [of 4]
  have "uint c \<notin> {16, 21, 8, 127, 0, 13, 10, 4}" using Cons.prems(1) by (simp add: plain_char_def)
  then have "editor (uint c) (ls, ed) = (ls, ed @ [c])" using Cons.prems(2) by (simp add: editor_def)
  with Cons show ?case by simp
qed simp

text \<open>
  C33. A typed line is what the program reads. On an empty buffer, type some text, kill it, type
  another line and press return: a \<^verbatim>\<open>consoleread\<close> with a large enough count returns without
  sleeping exactly that line with its newline, and leaves the buffer empty.
\<close>

theorem console_line_roundtrip:
  assumes "input_wf i" "committed i = []" "editing i = []"
    and "\<forall>c\<in>set junk. plain_char c" "length junk < INPUT_BUF"
    and "\<forall>c\<in>set line. plain_char c" "length line < INPUT_BUF" "length line < n"
  shows "\<exists>i'. consoleread_loop killed n n []
           (fst (consoleintr (map uint junk @ [21] @ map uint line @ [13]) i)) =
         Returns (int (length line) + 1, line @ [10]) i' [] \<and> committed i' = [] \<and> editing i' = []"
proof -
  define typed where "typed = map uint junk @ [21] @ map uint line @ [13]"
  define j where "j = fst (consoleintr typed i)"
  have byte: "0 \<le> uint c \<and> uint c < 256" for c :: u8 using uint_lt2p [of c] by simp
  have "fold editor typed ([], []) = (line @ [10], [])"
    using assms(4-7) by (simp add: typed_def editor_plain) (simp add: editor_def editor_plain)
  moreover have "input_wf j \<and> (committed j, editing j) = fold editor typed (committed i, editing i)"
    unfolding j_def by (rule consoleintr_refines [OF assms(1)]) (auto simp: typed_def byte)
  ultimately have j: "input_wf j" "committed j = line @ 10 # []" "editing j = []"
    using assms(2, 3) by simp_all
  have "set line \<inter> {4, 10} = {}" using assms(6) by (auto simp: plain_char_def)
  from consoleread_line [OF j(1, 2) this assms(8) order_refl, of killed "[]"]
  show ?thesis using j(3) by (auto simp: j_def typed_def)
qed

theorem console_line_roundtrip_witness:
  "\<exists>i'. consoleread_loop False 100 100 []
      (fst (consoleintr (map uint (ascii ''rm'') @ [21] @ map uint (ascii ''ls'') @ [13]) demo_input)) =
    Returns (3, ascii ''ls'' @ [10]) i' [] \<and> committed i' = [] \<and> editing i' = []"
  using console_line_roundtrip [OF demo_input_wf, of "ascii ''rm''" "ascii ''ls''" 100 False]
  by (simp add: plain_char_def)

end
