(* ===== verification/Kbd.thy ===== *)
theory Kbd
  imports Console
begin

text \<open>
  The keyboard driver, \<^verbatim>\<open>kernel/kbd.c\<close> with the tables of \<^verbatim>\<open>kernel/kbd.h\<close>. The static
  variable \<^verbatim>\<open>shift\<close> is threaded through \<open>kbdgetc\<close>, whose first two arguments are what the
  status port and the data port return.
\<close>

section \<open>Constants and tables\<close>

abbreviation (input) SHIFT :: u8 where "SHIFT \<equiv> 0x01"
abbreviation (input) CTL :: u8 where "CTL \<equiv> 0x02"
abbreviation (input) ALT :: u8 where "ALT \<equiv> 0x04"
abbreviation (input) CAPSLOCK :: u8 where "CAPSLOCK \<equiv> 0x08"
abbreviation (input) NUMLOCK :: u8 where "NUMLOCK \<equiv> 0x10"
abbreviation (input) SCROLLLOCK :: u8 where "SCROLLLOCK \<equiv> 0x20"
abbreviation (input) E0ESC :: u32 where "E0ESC \<equiv> 0x40"

text \<open>An array initialiser: leading values, designated elements, zero elsewhere.\<close>

definition table :: "u8 list \<Rightarrow> (nat \<times> u8) list \<Rightarrow> u8 list" where
  "table xs ds = fold (\<lambda>(i, v) t. t[i := v]) ds (xs @ replicate (256 - length xs) 0)"

definition keypad :: "(nat \<times> u8) list" where
  "keypad = [(0xC8, 0xE2), (0xD0, 0xE3), (0xC9, 0xE6), (0xD1, 0xE7), (0xCB, 0xE4), (0xCD, 0xE5),
             (0x97, 0xE0), (0xCF, 0xE1), (0xD2, 0xE8), (0xD3, 0xE9)]"

definition shiftcode :: "u8 list" where
  "shiftcode = table [] [(0x1D, CTL), (0x2A, SHIFT), (0x36, SHIFT), (0x38, ALT), (0x9D, CTL), (0xB8, ALT)]"

definition togglecode :: "u8 list" where
  "togglecode = table [] [(0x3A, CAPSLOCK), (0x45, NUMLOCK), (0x46, SCROLLLOCK)]"

definition normalmap :: "u8 list" where
  "normalmap = table
     ([0, 0x1B] @ ascii ''1234567890-='' @ [8, 9] @ ascii ''qwertyuiop[]'' @ [10, 0] @
      ascii ''asdfghjkl;'' @ [0x27, 0x60, 0, 0x5C] @ ascii ''zxcvbnm,./'' @ [0] @ ascii ''*'' @ [0] @
      ascii '' '' @ replicate 13 0 @ ascii ''789-456+1230.'' @ replicate 4 0)
     ([(0x9C, 10), (0xB5, of_char CHR ''/'')] @ keypad)"

definition shiftmap :: "u8 list" where
  "shiftmap = table
     ([0, 0x1B] @ ascii ''!@#$%^&*()_+'' @ [8, 9] @ ascii ''QWERTYUIOP{}'' @ [10, 0] @
      ascii ''ASDFGHJKL:'' @ [0x22, 0x7E, 0, 0x7C] @ ascii ''ZXCVBNM<>?'' @ [0] @ ascii ''*'' @ [0] @
      ascii '' '' @ replicate 13 0 @ ascii ''789-456+1230.'' @ replicate 4 0)
     ([(0x9C, 10), (0xB5, of_char CHR ''/'')] @ keypad)"

definition ctl :: "u8 \<Rightarrow> u8" where
  "ctl x = x - of_char CHR ''@''"

definition ctlmap :: "u8 list" where
  "ctlmap = table
     (replicate 16 0 @ map ctl (ascii ''QWERTYUIOP'') @ [0, 0, 13, 0] @ map ctl (ascii ''ASDFGHJKL'') @
      [0, 0, 0, 0, ctl 0x5C] @ map ctl (ascii ''ZXCVBNM'') @ [0, 0, ctl (of_char CHR ''/''), 0, 0])
     ([(0x9C, 13), (0xB5, ctl (of_char CHR ''/''))] @ keypad)"

section \<open>Reading a scan code\<close>

definition charcode :: "u32 \<Rightarrow> u8 list" where
  "charcode i = [normalmap, shiftmap, ctlmap, ctlmap] ! unat i"

definition kbdgetc :: "u8 \<Rightarrow> u8 \<Rightarrow> u32 \<Rightarrow> int \<times> u32" where
  "kbdgetc st data shift =
     (if st AND 0x01 = 0 then (- 1, shift)
      else if data = 0xE0 then (0, shift OR E0ESC)
      else if data AND 0x80 \<noteq> 0 then
        let data = (if shift AND E0ESC \<noteq> 0 then data else data AND 0x7F) in
        (0, shift AND NOT (ucast (shiftcode ! unat data) OR E0ESC))
      else
        let (data, shift) =
              (if shift AND E0ESC \<noteq> 0 then (data OR 0x80, shift AND NOT E0ESC) else (data, shift));
            shift = shift OR ucast (shiftcode ! unat data);
            shift = shift XOR ucast (togglecode ! unat data);
            c = charcode (shift AND ucast (CTL OR SHIFT)) ! unat data;
            c = (if shift AND ucast CAPSLOCK \<noteq> 0 then
                   if of_char CHR ''a'' \<le> c \<and> c \<le> of_char CHR ''z'' then c - 32
                   else if of_char CHR ''A'' \<le> c \<and> c \<le> of_char CHR ''Z'' then c + 32
                   else c
                 else c) in
        (uint c, shift))"

text \<open>\<^verbatim>\<open>kbdintr\<close>: the console takes the scan codes the controller holds, as \<open>kbdgetc\<close> decodes them.\<close>

fun kbd_codes :: "u8 list \<Rightarrow> u32 \<Rightarrow> int list \<times> u32" where
  "kbd_codes [] shift = ([], shift)"
| "kbd_codes (d # ds) shift =
     (let (c, shift) = kbdgetc 1 d shift; (cs, shift) = kbd_codes ds shift in (c # cs, shift))"

definition kbdintr :: "u8 list \<Rightarrow> u32 \<Rightarrow> input \<Rightarrow> input \<times> cevent list \<times> u32" where
  "kbdintr ds shift i =
     (let (cs, shift) = kbd_codes ds shift; (i, ev) = consoleintr cs i in (i, ev, shift))"

section \<open>The tables\<close>

lemma length_table: "length xs \<le> 256 \<Longrightarrow> length (table xs ds) = 256"
proof -
  have "length (fold (\<lambda>(i, v) t. t[i := v]) ds t) = length t" for t :: "u8 list"
    by (induction ds arbitrary: t) auto
  then show "length xs \<le> 256 \<Longrightarrow> length (table xs ds) = 256" by (simp add: table_def)
qed

lemma length_maps [simp]:
  "length shiftcode = 256" "length togglecode = 256" "length normalmap = 256" "length shiftmap = 256"
  "length ctlmap = 256"
  by (simp_all add: shiftcode_def togglecode_def normalmap_def shiftmap_def ctlmap_def length_table)

lemma shiftcode_values: "d < 256 \<Longrightarrow> shiftcode ! d \<in> {0, SHIFT, CTL, ALT}"
  by (simp add: shiftcode_def table_def nth_list_update)

lemma togglecode_values: "d < 256 \<Longrightarrow> togglecode ! d \<in> {0, CAPSLOCK, NUMLOCK, SCROLLLOCK}"
  by (simp add: togglecode_def table_def nth_list_update)

text \<open>The letter keys: scan code and lower-case character.\<close>

definition letter_keys :: "(u8 \<times> u8) list" where
  "letter_keys = zip (map of_nat ([0x10..<0x1A] @ [0x1E..<0x27] @ [0x2C..<0x33]))
     (ascii ''qwertyuiopasdfghjklzxcvbnm'')"

lemma letter_keys_table:
  "list_all (\<lambda>(d, c). normalmap ! unat d = c \<and> shiftmap ! unat d = c - 32 \<and> shiftcode ! unat d = 0 \<and>
     togglecode ! unat d = 0 \<and> d AND 0x80 = 0 \<and> d \<noteq> 0xE0 \<and> of_char CHR ''a'' \<le> c \<and> c \<le> of_char CHR ''z'' \<and>
     \<not> of_char CHR ''a'' \<le> c - 32 \<and> of_char CHR ''A'' \<le> c - 32 \<and> c - 32 \<le> of_char CHR ''Z'') letter_keys"
  by code_simp

lemma release_codes:
  "list_all (\<lambda>n. let d = of_nat n :: u8 in (d OR 0x80) AND 0x80 \<noteq> 0 \<and> (d OR 0x80) AND 0x7F = d \<and>
     d AND 0x80 = 0 \<and> d \<noteq> 0xE0 \<and> (d OR 0x80 = 0xE0 \<longrightarrow> d = 0x60)) [0..<128]"
  by code_simp

lemma release_code:
  fixes d :: u8
  assumes "d < 0x80" "d \<noteq> 0x60"
  shows "(d OR 0x80) AND 0x80 \<noteq> 0" "(d OR 0x80) AND 0x7F = d" "d AND 0x80 = 0" "d \<noteq> 0xE0" "d OR 0x80 \<noteq> 0xE0"
proof -
  have "unat d \<in> set [0..<128]" using assms(1) by (simp add: word_less_nat_alt)
  with release_codes [unfolded list_all_iff, rule_format, of "unat d"]
  show "(d OR 0x80) AND 0x80 \<noteq> 0" "(d OR 0x80) AND 0x7F = d" "d AND 0x80 = 0" "d \<noteq> 0xE0" "d OR 0x80 \<noteq> 0xE0"
    using assms(2) by (auto simp: Let_def)
qed

lemma mask_release:
  fixes s a t e :: u32
  assumes "s AND e = 0" "a AND e = 0" "t AND e = 0" "a AND t = 0"
  shows "((s OR a) XOR t) AND NOT (a OR e) = (s XOR t) AND NOT a"
    "((s OR a) XOR t) AND e = 0"
proof -
  have disj: "\<not> (bit s n \<and> bit e n)" "\<not> (bit a n \<and> bit e n)" "\<not> (bit t n \<and> bit e n)" "\<not> (bit a n \<and> bit t n)" for n
    using assms [THEN arg_cong, of "\<lambda>w. bit w n"] by (simp_all add: bit_and_iff)
  show "((s OR a) XOR t) AND NOT (a OR e) = (s XOR t) AND NOT a"
    by (rule bit_word_eqI) (use disj in \<open>auto simp: bit_simps\<close>)
  show "((s OR a) XOR t) AND e = 0"
    by (rule bit_word_eqI) (use disj in \<open>auto simp: bit_simps\<close>)
qed

section \<open>Properties\<close>

text \<open>
  C40. No key gets stuck. Pressing and releasing any key that is not part of an escape sequence
  leaves the modifier of that key off, flips the lock the key toggles, if it has one, and
  changes no other bit of the keyboard's state.
\<close>

theorem kbd_release_undoes_press:
  assumes "st AND 1 \<noteq> 0" "d < 0x80" "d \<noteq> 0x60" "shift AND E0ESC = 0"
  shows "snd (kbdgetc st (d OR 0x80) (snd (kbdgetc st d shift))) =
         (shift XOR ucast (togglecode ! unat d)) AND NOT (ucast (shiftcode ! unat d))"
proof -
  note R = release_code [OF assms(2, 3)]
  define a :: u32 where "a = ucast (shiftcode ! unat d)"
  define t :: u32 where "t = ucast (togglecode ! unat d)"
  have "shiftcode ! unat d \<in> {0, SHIFT, CTL, ALT}" by (rule shiftcode_values) simp
  moreover have "togglecode ! unat d \<in> {0, CAPSLOCK, NUMLOCK, SCROLLLOCK}" by (rule togglecode_values) simp
  ultimately have at: "a AND E0ESC = 0" "t AND E0ESC = 0" "a AND t = 0" by (auto simp: a_def t_def)
  have press: "snd (kbdgetc st d shift) = (shift OR a) XOR t"
    using assms(1, 4) R by (simp add: kbdgetc_def Let_def a_def t_def)
  have E: "((shift OR a) XOR t) AND E0ESC = 0" by (rule mask_release(2)) (use assms(4) at in auto)
  have "snd (kbdgetc st (d OR 0x80) ((shift OR a) XOR t)) = ((shift OR a) XOR t) AND NOT (a OR E0ESC)"
    using assms(1) R E by (simp add: kbdgetc_def Let_def a_def)
  also have "\<dots> = (shift XOR t) AND NOT a" by (rule mask_release(1)) (use assms(4) at in auto)
  finally show ?thesis by (simp add: press a_def t_def)
qed

theorem kbd_release_undoes_press_witness:
  "snd (kbdgetc 1 (0x3A OR 0x80) (snd (kbdgetc 1 0x3A 1))) =
   (1 XOR ucast (togglecode ! unat (0x3A :: u8))) AND NOT (ucast (shiftcode ! unat (0x3A :: u8)))"
  by (rule kbd_release_undoes_press) simp_all

text \<open>
  Shift and caps lock. With neither control nor an escape pending, the key of a letter
  gives its capital when exactly one of shift and caps lock is on and the small letter
  otherwise, and leaves the keyboard's state alone.
\<close>

theorem kbd_letter_case:
  assumes "(d, c) \<in> set letter_keys" "st AND 1 \<noteq> 0" "shift AND ucast CTL = 0" "shift AND E0ESC = 0"
  shows "kbdgetc st d shift =
    (uint (if (shift AND ucast SHIFT \<noteq> 0) \<noteq> (shift AND ucast CAPSLOCK \<noteq> 0) then c - 32 else c), shift)"
proof -
  note T = letter_keys_table [unfolded list_all_iff, rule_format, OF assms(1), unfolded prod.case]
  have idx: "shift AND 3 = shift AND 1"
  proof -
    have "shift AND 3 = (shift AND 1) OR (shift AND 2)"
      unfolding bit.conj_disj_distrib [symmetric] by simp
    then show ?thesis using assms(3) by simp
  qed
  have one: "shift AND 1 = 0 \<or> shift AND 1 = 1" by (simp add: and_one_eq mod_2_eq_odd)
  have "charcode 0 ! unat d = c" "charcode 1 ! unat d = c - 32" using T by (simp_all add: charcode_def)
  then show ?thesis
    using one T assms(2, 4) unfolding kbdgetc_def Let_def by (elim disjE) (simp_all add: idx)
qed

theorem kbd_letter_case_witness:
  "(0x1E, 97) \<in> set letter_keys \<and> kbdgetc 1 0x1E (ucast SHIFT) = (65, ucast SHIFT)"
proof -
  have 1: "(0x1E, 97) \<in> set letter_keys" by code_simp
  from 1 kbd_letter_case [OF 1, of 1 "ucast SHIFT"] show ?thesis by simp
qed

end
