(* ===== verification/Spinlock.thy ===== *)
theory Spinlock
  imports Prelude
begin

text \<open>
  Mutual exclusion: the kernel's spin locks (\<^verbatim>\<open>kernel/spinlock.c\<close>) and the locks of user
  threads (\<^verbatim>\<open>user/ulib.c\<close>, \<^verbatim>\<open>include/thread.h\<close>). Each call is cut at its memory accesses
  to the lock word, and the step relations \<open>lock_step\<close> and \<open>thread_step\<close> interleave any
  number of CPUs or threads, each of which repeatedly acquires and releases the lock. \<open>xchg\<close>
  is one atomic step. The locale \<open>mutex\<close> is the contract both implement.

  A CPU is its number; the \<^verbatim>\<open>cpu\<close> pointer of a free lock is \<open>None\<close>.
\<close>

section \<open>Interrupt nesting\<close>

record cpu =
  intr_on :: bool
  ncli :: int
  intena :: bool

definition pushcli :: "cpu \<Rightarrow> cpu" where
  "pushcli c =
     (let eflags = intr_on c; c = c\<lparr>intr_on := False\<rparr>; n = ncli c; c = c\<lparr>ncli := n + 1\<rparr> in
      if n = 0 then c\<lparr>intena := eflags\<rparr> else c)"

definition popcli :: "cpu \<Rightarrow> cpu res" where
  "popcli c =
     (if intr_on c then Inl (Panic ''popcli - interruptible'')
      else let c = c\<lparr>ncli := ncli c - 1\<rparr> in
        if ncli c < 0 then Inl (Panic ''popcli'')
        else if ncli c = 0 \<and> intena c then Inr (c\<lparr>intr_on := True\<rparr>) else Inr c)"

section \<open>The kernel's lock\<close>

record spinlock =
  locked :: u32
  lk_name :: string
  lk_cpu :: "nat option"
  lk_pcs :: "u32 list"

definition initlock :: "string \<Rightarrow> spinlock \<Rightarrow> spinlock" where
  "initlock nm lk = lk\<lparr>lk_name := nm, locked := 0, lk_cpu := None\<rparr>"

definition holding :: "nat \<Rightarrow> spinlock \<Rightarrow> bool" where
  "holding me lk \<longleftrightarrow> locked lk \<noteq> 0 \<and> lk_cpu lk = Some me"

text \<open>\<open>m\<close> is memory by word address; \<open>n\<close> is the number of slots of \<^verbatim>\<open>pcs\<close> left to fill.\<close>

fun callerpcs_loop :: "nat \<Rightarrow> u32 \<Rightarrow> (u32 \<Rightarrow> u32) \<Rightarrow> u32 list" where
  "callerpcs_loop 0 ebp m = []"
| "callerpcs_loop (Suc n) ebp m =
     (if ebp = 0 \<or> ebp < 0x100000 \<or> ebp = 0xffffffff then replicate (Suc n) 0
      else m (ebp + 4) # callerpcs_loop n (m ebp) m)"

definition getcallerpcs :: "u32 \<Rightarrow> (u32 \<Rightarrow> u32) \<Rightarrow> u32 list" where
  "getcallerpcs v m = callerpcs_loop 10 (v - 8) m"

definition xchg :: "spinlock \<Rightarrow> u32 \<Rightarrow> u32 \<times> spinlock" where
  "xchg lk v = (locked lk, lk\<lparr>locked := v\<rparr>)"

text \<open>\<^verbatim>\<open>acquire\<close> up to its loop, one round of the loop is \<open>xchg lk 1\<close>, and what follows it.\<close>

definition acquire_enter :: "nat \<Rightarrow> spinlock \<Rightarrow> cpu \<Rightarrow> cpu res" where
  "acquire_enter me lk c =
     (let c = pushcli c in if holding me lk then Inl (Panic ''acquire'') else Inr c)"

definition acquire_record :: "nat \<Rightarrow> u32 \<Rightarrow> (u32 \<Rightarrow> u32) \<Rightarrow> spinlock \<Rightarrow> spinlock" where
  "acquire_record me frame m lk = lk\<lparr>lk_cpu := Some me, lk_pcs := getcallerpcs frame m\<rparr>"

text \<open>\<^verbatim>\<open>release\<close> up to its \<^verbatim>\<open>xchg\<close>, which is \<open>xchg lk 0\<close>, followed by \<open>popcli\<close>.\<close>

definition release_enter :: "nat \<Rightarrow> spinlock \<Rightarrow> spinlock res" where
  "release_enter me lk =
     (if \<not> holding me lk then Inl (Panic ''release'')
      else Inr (lk\<lparr>lk_pcs := (lk_pcs lk)[0 := 0], lk_cpu := None\<rparr>))"

section \<open>CPUs using a lock\<close>

datatype lockpc = Idle | Spinning | Taken | Critical | Leaving | Popping

record lockst =
  lock :: spinlock
  cpus :: "nat \<Rightarrow> cpu"
  pc_at :: "nat \<Rightarrow> lockpc"

inductive lock_step :: "lockst \<Rightarrow> lockst res \<Rightarrow> bool" where
  enter: "pc_at s i = Idle \<Longrightarrow> acquire_enter i (lock s) (cpus s i) = Inr c \<Longrightarrow>
     lock_step s (Inr (s\<lparr>cpus := (cpus s)(i := c), pc_at := (pc_at s)(i := Spinning)\<rparr>))"
| enter_panic: "pc_at s i = Idle \<Longrightarrow> acquire_enter i (lock s) (cpus s i) = Inl e \<Longrightarrow> lock_step s (Inl e)"
| spin: "pc_at s i = Spinning \<Longrightarrow> xchg (lock s) 1 = (v, lk) \<Longrightarrow> v \<noteq> 0 \<Longrightarrow> lock_step s (Inr (s\<lparr>lock := lk\<rparr>))"
| take_lock: "pc_at s i = Spinning \<Longrightarrow> xchg (lock s) 1 = (0, lk) \<Longrightarrow>
     lock_step s (Inr (s\<lparr>lock := lk, pc_at := (pc_at s)(i := Taken)\<rparr>))"
| record_holder: "pc_at s i = Taken \<Longrightarrow>
     lock_step s (Inr (s\<lparr>lock := acquire_record i frame m (lock s), pc_at := (pc_at s)(i := Critical)\<rparr>))"
| leave: "pc_at s i = Critical \<Longrightarrow> release_enter i (lock s) = Inr lk \<Longrightarrow>
     lock_step s (Inr (s\<lparr>lock := lk, pc_at := (pc_at s)(i := Leaving)\<rparr>))"
| leave_panic: "pc_at s i = Critical \<Longrightarrow> release_enter i (lock s) = Inl e \<Longrightarrow> lock_step s (Inl e)"
| unlock: "pc_at s i = Leaving \<Longrightarrow>
     lock_step s (Inr (s\<lparr>lock := snd (xchg (lock s) 0), pc_at := (pc_at s)(i := Popping)\<rparr>))"
| pop: "pc_at s i = Popping \<Longrightarrow> popcli (cpus s i) = Inr c \<Longrightarrow>
     lock_step s (Inr (s\<lparr>cpus := (cpus s)(i := c), pc_at := (pc_at s)(i := Idle)\<rparr>))"
| pop_panic: "pc_at s i = Popping \<Longrightarrow> popcli (cpus s i) = Inl e \<Longrightarrow> lock_step s (Inl e)"

definition lock_start :: "lockst \<Rightarrow> bool" where
  "lock_start s \<longleftrightarrow> (\<exists>nm lk. lock s = initlock nm lk) \<and>
     (\<forall>i. pc_at s i = Idle \<and> 0 \<le> ncli (cpus s i) \<and> (0 < ncli (cpus s i) \<longrightarrow> \<not> intr_on (cpus s i)))"

inductive lock_reach :: "lockst \<Rightarrow> bool" where
  start: "lock_start s \<Longrightarrow> lock_reach s"
| step: "lock_reach s \<Longrightarrow> lock_step s (Inr t) \<Longrightarrow> lock_reach t"

section \<open>Threads using a user lock\<close>

record lock_t =
  t_locked :: u32

definition lock_init :: "lock_t \<Rightarrow> lock_t" where
  "lock_init lk = lk\<lparr>t_locked := 0\<rparr>"

definition lock_try :: "lock_t \<Rightarrow> u32 \<times> lock_t" where
  "lock_try lk = (t_locked lk, lk\<lparr>t_locked := 1\<rparr>)"

definition lock_release :: "lock_t \<Rightarrow> lock_t" where
  "lock_release lk = lk\<lparr>t_locked := 0\<rparr>"

datatype threadpc = Outside | Waiting | Inside

inductive thread_step :: "lock_t \<times> (nat \<Rightarrow> threadpc) \<Rightarrow> lock_t \<times> (nat \<Rightarrow> threadpc) \<Rightarrow> bool" where
  call: "pc i = Outside \<Longrightarrow> thread_step (lk, pc) (lk, pc(i := Waiting))"
| again: "pc i = Waiting \<Longrightarrow> lock_try lk = (v, lk') \<Longrightarrow> v \<noteq> 0 \<Longrightarrow> thread_step (lk, pc) (lk', pc)"
| got: "pc i = Waiting \<Longrightarrow> lock_try lk = (0, lk') \<Longrightarrow> thread_step (lk, pc) (lk', pc(i := Inside))"
| done_release: "pc i = Inside \<Longrightarrow> thread_step (lk, pc) (lock_release lk, pc(i := Outside))"

inductive thread_reach :: "lock_t \<times> (nat \<Rightarrow> threadpc) \<Rightarrow> bool" where
  start: "(\<forall>i. pc i = Outside) \<Longrightarrow> thread_reach (lock_init lk, pc)"
| step: "thread_reach s \<Longrightarrow> thread_step s t \<Longrightarrow> thread_reach t"

section \<open>The contract of a mutual exclusion lock\<close>

text \<open>
  A reachability predicate, the agents that own the lock in a state, and the lock word: owning
  begins where the word was clear and sets it, ends by clearing it, and nothing else changes
  either.
\<close>

locale mutex =
  fixes reach :: "'s \<Rightarrow> bool"
    and step :: "'s \<Rightarrow> 's \<Rightarrow> bool"
    and init :: "'s \<Rightarrow> bool"
    and owns :: "'s \<Rightarrow> nat \<Rightarrow> bool"
    and is_set :: "'s \<Rightarrow> bool"
  assumes reach_induct: "reach s \<Longrightarrow> (\<And>s. init s \<Longrightarrow> P s) \<Longrightarrow>
       (\<And>s t. reach s \<Longrightarrow> P s \<Longrightarrow> step s t \<Longrightarrow> P t) \<Longrightarrow> P s"
    and init_clear: "init s \<Longrightarrow> \<not> is_set s \<and> \<not> owns s i"
    and step_cases: "step s t \<Longrightarrow>
       owns t = owns s \<and> is_set t = is_set s
       \<or> (\<exists>i. \<not> is_set s \<and> owns t = (owns s)(i := True) \<and> is_set t)
       \<or> (\<exists>i. owns s i \<and> owns t = (owns s)(i := False) \<and> \<not> is_set t)"
begin

lemma set_iff_owned:
  assumes "reach s"
  shows "(is_set s \<longleftrightarrow> (\<exists>i. owns s i)) \<and> (\<forall>i j. owns s i \<longrightarrow> owns s j \<longrightarrow> i = j)"
  using assms
proof (rule reach_induct)
  show "(is_set s \<longleftrightarrow> (\<exists>i. owns s i)) \<and> (\<forall>i j. owns s i \<longrightarrow> owns s j \<longrightarrow> i = j)" if "init s" for s
    using init_clear [OF that] by blast
next
  fix s t
  assume IH: "(is_set s \<longleftrightarrow> (\<exists>i. owns s i)) \<and> (\<forall>i j. owns s i \<longrightarrow> owns s j \<longrightarrow> i = j)" and "step s t"
  from step_cases [OF this(2)] IH
  show "(is_set t \<longleftrightarrow> (\<exists>i. owns t i)) \<and> (\<forall>i j. owns t i \<longrightarrow> owns t j \<longrightarrow> i = j)"
    by (auto split: if_splits)
qed

lemma exclusive: "reach s \<Longrightarrow> owns s i \<Longrightarrow> owns s j \<Longrightarrow> i = j"
  using set_iff_owned by blast

lemma free_when_unowned: "reach s \<Longrightarrow> \<forall>i. \<not> owns s i \<Longrightarrow> \<not> is_set s"
  using set_iff_owned by blast

end

definition lock_owner :: "lockst \<Rightarrow> nat \<Rightarrow> bool" where
  "lock_owner s i \<longleftrightarrow> pc_at s i \<in> {Taken, Critical, Leaving}"

definition inside :: "lock_t \<times> (nat \<Rightarrow> threadpc) \<Rightarrow> nat \<Rightarrow> bool" where
  "inside s i \<longleftrightarrow> snd s i = Inside"

interpretation kl: mutex lock_reach "\<lambda>s t. lock_step s (Inr t)" lock_start lock_owner "\<lambda>s. locked (lock s) \<noteq> 0"
proof
  show "P s" if "lock_reach s" "\<And>s. lock_start s \<Longrightarrow> P s"
    "\<And>s t. lock_reach s \<Longrightarrow> P s \<Longrightarrow> lock_step s (Inr t) \<Longrightarrow> P t" for P s
    using that(1) by (induction rule: lock_reach.induct) (use that(2, 3) in blast)+
  show "\<not> locked (lock s) \<noteq> 0 \<and> \<not> lock_owner s i" if "lock_start s" for s i
    using that by (auto simp: lock_start_def initlock_def lock_owner_def)
  show "lock_owner t = lock_owner s \<and> (locked (lock t) \<noteq> 0) = (locked (lock s) \<noteq> 0)
       \<or> (\<exists>i. \<not> locked (lock s) \<noteq> 0 \<and> lock_owner t = (lock_owner s)(i := True) \<and> locked (lock t) \<noteq> 0)
       \<or> (\<exists>i. lock_owner s i \<and> lock_owner t = (lock_owner s)(i := False) \<and> \<not> locked (lock t) \<noteq> 0)"
    if "lock_step s (Inr t)" for s t
    using that
    by (cases rule: lock_step.cases)
       (auto simp: lock_owner_def fun_eq_iff xchg_def acquire_record_def release_enter_def split: if_splits)
qed

interpretation tl: mutex thread_reach thread_step
  "\<lambda>s. (\<forall>i. snd s i = Outside) \<and> (\<exists>lk. fst s = lock_init lk)" inside "\<lambda>s. t_locked (fst s) \<noteq> 0"
proof
  show "P s" if "thread_reach s" "\<And>s. (\<forall>i. snd s i = Outside) \<and> (\<exists>lk. fst s = lock_init lk) \<Longrightarrow> P s"
    "\<And>s t. thread_reach s \<Longrightarrow> P s \<Longrightarrow> thread_step s t \<Longrightarrow> P t" for P s
    using that(1)
  proof (induction rule: thread_reach.induct)
    case (start pc lk)
    show ?case by (rule that(2)) (use start in auto)
  next
    case (step s t)
    show ?case by (rule that(3) [OF step(1, 3, 2)])
  qed
  show "\<not> t_locked (fst s) \<noteq> 0 \<and> \<not> inside s i"
    if "(\<forall>i. snd s i = Outside) \<and> (\<exists>lk. fst s = lock_init lk)" for s i
    using that by (auto simp: lock_init_def inside_def)
  show "inside t = inside s \<and> (t_locked (fst t) \<noteq> 0) = (t_locked (fst s) \<noteq> 0)
       \<or> (\<exists>i. \<not> t_locked (fst s) \<noteq> 0 \<and> inside t = (inside s)(i := True) \<and> t_locked (fst t) \<noteq> 0)
       \<or> (\<exists>i. inside s i \<and> inside t = (inside s)(i := False) \<and> \<not> t_locked (fst t) \<noteq> 0)"
    if "thread_step s t" for s t
    using that
    by (cases rule: thread_step.cases) (auto simp: inside_def fun_eq_iff lock_try_def lock_release_def)
qed

section \<open>The kernel's lock never panics\<close>

definition intr_ok :: "cpu \<Rightarrow> bool" where
  "intr_ok c \<longleftrightarrow> 0 \<le> ncli c \<and> (0 < ncli c \<longrightarrow> \<not> intr_on c)"

definition lock_inv :: "lockst \<Rightarrow> bool" where
  "lock_inv s \<longleftrightarrow>
     (\<forall>i. pc_at s i = Critical \<longleftrightarrow> lk_cpu (lock s) = Some i) \<and>
     (\<forall>i. intr_ok (cpus s i) \<and> (pc_at s i \<noteq> Idle \<longrightarrow> 0 < ncli (cpus s i)))"

lemma pushcli_ok: "intr_ok c \<Longrightarrow> intr_ok (pushcli c) \<and> 0 < ncli (pushcli c)"
  by (simp add: intr_ok_def pushcli_def Let_def)

lemma popcli_ok: "intr_ok c \<Longrightarrow> 0 < ncli c \<Longrightarrow> \<exists>c'. popcli c = Inr c' \<and> intr_ok c' \<and> ncli c' = ncli c - 1"
  by (auto simp: intr_ok_def popcli_def Let_def)

lemma lock_step_inv:
  assumes "lock_reach s" "lock_inv s" "lock_step s (Inr t)"
  shows "lock_inv t"
proof -
  have crit: "pc_at s i = Critical \<longleftrightarrow> lk_cpu (lock s) = Some i" for i
    using assms(2) by (simp add: lock_inv_def)
  have cpu: "intr_ok (cpus s i)" "pc_at s i \<noteq> Idle \<longrightarrow> 0 < ncli (cpus s i)" for i
    using assms(2) by (simp_all add: lock_inv_def)
  have owner: "lk_cpu (lock s) = None" if "pc_at s i = Taken" for i
  proof (cases "lk_cpu (lock s)")
    case (Some j)
    then have "i = j" using crit [of j] that by (intro kl.exclusive [OF assms(1)]) (simp_all add: lock_owner_def)
    then show ?thesis using Some crit [of j] that by simp
  qed simp
  from assms(3) show ?thesis
  proof cases
    case (enter i c)
    then show ?thesis
      using crit crit [of i] cpu pushcli_ok [OF cpu(1), of i]
      by (auto simp: lock_inv_def acquire_enter_def Let_def split: if_splits)
  next
    case (pop i c)
    then show ?thesis
      using crit crit [of i] cpu popcli_ok [OF cpu(1), of i] by (auto simp: lock_inv_def)
  next
    case (record_holder i frame m)
    then show ?thesis using crit crit [of i] cpu owner [of i] by (auto simp: lock_inv_def acquire_record_def)
  next
    case (leave i lk)
    have "0 < ncli (cpus s i)" using cpu(2) [of i] leave(2) by simp
    with leave show ?thesis using crit cpu by (auto simp: lock_inv_def release_enter_def split: if_splits)
  next
    case (take_lock i lk)
    then show ?thesis using crit crit [of i] cpu cpu(2) [of i] by (auto simp: lock_inv_def xchg_def)
  next
    case (unlock i)
    then show ?thesis using crit crit [of i] cpu cpu(2) [of i] by (auto simp: lock_inv_def xchg_def)
  next
    case (spin i v lk)
    then show ?thesis using crit cpu by (auto simp: lock_inv_def xchg_def)
  qed
qed

lemma lock_reach_inv: "lock_reach s \<Longrightarrow> lock_inv s"
proof (induction rule: lock_reach.induct)
  case (start s)
  then show ?case by (auto simp: lock_start_def lock_inv_def intr_ok_def initlock_def)
next
  case (step s t)
  then show ?case by (auto intro: lock_step_inv)
qed

section \<open>Properties\<close>

text \<open>
  C9. Spin locks exclude. However any number of CPUs interleave the memory accesses of
  \<^verbatim>\<open>acquire\<close> and \<^verbatim>\<open>release\<close>, at most one of them is past the acquiring \<^verbatim>\<open>xchg\<close> and not
  yet past the releasing one; a CPU is inside \<^verbatim>\<open>acquire\<close> or \<^verbatim>\<open>release\<close> or the critical
  section only with interrupts off; and none of the four panics of the code is reachable.
\<close>

theorem spinlock_excludes:
  assumes "lock_reach s"
  shows "(\<forall>i j. lock_owner s i \<longrightarrow> lock_owner s j \<longrightarrow> i = j) \<and>
         (\<forall>i. pc_at s i \<noteq> Idle \<longrightarrow> \<not> intr_on (cpus s i)) \<and>
         (\<forall>e. \<not> lock_step s (Inl e))"
proof (intro conjI allI impI)
  note inv = lock_reach_inv [OF assms]
  have cpu: "intr_ok (cpus s i)" "pc_at s i \<noteq> Idle \<longrightarrow> 0 < ncli (cpus s i)" for i
    using inv by (simp_all add: lock_inv_def)
  show "i = j" if "lock_owner s i" "lock_owner s j" for i j using kl.exclusive [OF assms that] .
  show "\<not> intr_on (cpus s i)" if "pc_at s i \<noteq> Idle" for i using cpu [of i] that by (auto simp: intr_ok_def)
  show "\<not> lock_step s (Inl e)" for e
  proof
    assume "lock_step s (Inl e)"
    then show False
    proof cases
      case (enter_panic i)
      then have "lk_cpu (lock s) = Some i" by (simp add: acquire_enter_def holding_def Let_def split: if_splits)
      then have "pc_at s i = Critical" using inv unfolding lock_inv_def by blast
      then show False using enter_panic by simp
    next
      case (leave_panic i)
      then have "lk_cpu (lock s) = Some i" using inv by (simp add: lock_inv_def)
      moreover have "locked (lock s) \<noteq> 0"
        using kl.set_iff_owned [OF assms] leave_panic(1) by (auto simp: lock_owner_def)
      ultimately show False using leave_panic(2) by (simp add: release_enter_def holding_def)
    next
      case (pop_panic i)
      then show False using popcli_ok [OF cpu(1), of i] cpu(2) [of i] by simp
    qed
  qed
qed

definition demo_locks :: lockst where
  "demo_locks =
     \<lparr>lock = initlock ''demo'' \<lparr>locked = 7, lk_name = [], lk_cpu = None, lk_pcs = replicate 10 0\<rparr>,
      cpus = (\<lambda>_. \<lparr>intr_on = True, ncli = 0, intena = False\<rparr>), pc_at = (\<lambda>_. Idle)\<rparr>"

theorem spinlock_excludes_witness:
  "\<exists>s. lock_reach s \<and> pc_at s 3 = Spinning \<and> (\<forall>e. \<not> lock_step s (Inl e))"
proof -
  have start: "lock_reach demo_locks"
    by (rule lock_reach.start) (auto simp: lock_start_def demo_locks_def)
  have e: "acquire_enter 3 (lock demo_locks) (cpus demo_locks 3) = Inr (pushcli (cpus demo_locks 3))"
    by (simp add: acquire_enter_def holding_def demo_locks_def initlock_def Let_def)
  define t where "t = demo_locks\<lparr>cpus := (cpus demo_locks)(3 := pushcli (cpus demo_locks 3)),
          pc_at := (pc_at demo_locks)(3 := Spinning)\<rparr>"
  have "lock_step demo_locks (Inr t)"
    unfolding t_def by (rule lock_step.enter [OF _ e]) (simp add: demo_locks_def)
  then have t: "lock_reach t" by (rule lock_reach.step [OF start])
  have "pc_at t 3 = Spinning" by (simp add: t_def)
  with t spinlock_excludes [OF t] show ?thesis by blast
qed

fun popclis :: "nat \<Rightarrow> cpu \<Rightarrow> cpu res" where
  "popclis 0 c = Inr c"
| "popclis (Suc n) c = bindE (popcli c) (popclis n)"

lemma pushclis:
  "0 \<le> ncli c \<Longrightarrow> (pushcli ^^ Suc n) c =
     c\<lparr>intr_on := False, ncli := ncli c + int n + 1, intena := (if ncli c = 0 then intr_on c else intena c)\<rparr>"
  by (induction n) (simp_all add: pushcli_def Let_def)

lemma popclis_down:
  "\<not> intr_on c \<Longrightarrow> ncli c = k + int n + 1 \<Longrightarrow> 0 \<le> k \<Longrightarrow>
   popclis (Suc n) c = Inr (c\<lparr>ncli := k, intr_on := (k = 0 \<and> intena c)\<rparr>)"
proof (induction n arbitrary: c)
  case 0
  then show ?case by (auto simp: popcli_def Let_def)
next
  case (Suc n)
  have "popcli c = Inr (c\<lparr>ncli := k + int n + 1\<rparr>)" using Suc.prems by (simp add: popcli_def Let_def)
  then have "popclis (Suc (Suc n)) c = popclis (Suc n) (c\<lparr>ncli := k + int n + 1\<rparr>)" by (subst popclis.simps) simp
  also have "\<dots> = Inr (c\<lparr>ncli := k, intr_on := (k = 0 \<and> intena c)\<rparr>)"
    using Suc.prems by (subst Suc.IH) simp_all
  finally show ?case .
qed

text \<open>
  \<^verbatim>\<open>pushcli\<close> and \<^verbatim>\<open>popcli\<close> are matched, as their comment says. Interrupts are off after
  any positive number of pushes, as many pops undo them without panicking, and after the last
  one the interrupt flag and the nesting depth are what they were, so that a pair made with
  interrupts off leaves them off.
\<close>

theorem popcli_undoes_pushcli:
  assumes "0 \<le> ncli c" "0 < ncli c \<longrightarrow> \<not> intr_on c"
  shows "(0 < n \<longrightarrow> \<not> intr_on ((pushcli ^^ n) c)) \<and>
         (\<exists>c'. popclis n ((pushcli ^^ n) c) = Inr c' \<and> intr_on c' = intr_on c \<and> ncli c' = ncli c)"
proof (cases n)
  case (Suc k)
  note P = pushclis [OF assms(1), of k]
  show ?thesis
    unfolding Suc P using assms by (subst popclis_down [of _ "ncli c"]) auto
qed simp

theorem popcli_undoes_pushcli_witness:
  "\<exists>c'. popclis 2 ((pushcli ^^ 2) \<lparr>intr_on = True, ncli = 0, intena = False\<rparr>) = Inr c' \<and>
        intr_on c' \<and> ncli c' = 0"
  using popcli_undoes_pushcli [of "\<lparr>intr_on = True, ncli = 0, intena = False\<rparr>" 2] by simp

text \<open>
  C35. Thread locks exclude and do not deadlock. With threads that acquire before they release,
  at most one is between \<^verbatim>\<open>lock_acquire\<close> and \<^verbatim>\<open>lock_release\<close> in every interleaving, and
  while none is, the next \<^verbatim>\<open>xchg\<close> of any waiting thread lets it in.
\<close>

theorem thread_lock_excludes:
  assumes "thread_reach (lk, pc)"
  shows "(\<forall>i j. pc i = Inside \<longrightarrow> pc j = Inside \<longrightarrow> i = j) \<and>
         ((\<forall>i. pc i \<noteq> Inside) \<longrightarrow>
          (\<forall>i. pc i = Waiting \<longrightarrow> thread_step (lk, pc) (lk\<lparr>t_locked := 1\<rparr>, pc(i := Inside))))"
proof (intro conjI allI impI)
  show "i = j" if "pc i = Inside" "pc j = Inside" for i j
    using tl.exclusive [OF assms, of i j] that by (simp add: inside_def)
  show "thread_step (lk, pc) (lk\<lparr>t_locked := 1\<rparr>, pc(i := Inside))"
    if "\<forall>i. pc i \<noteq> Inside" "pc i = Waiting" for i
    using tl.free_when_unowned [OF assms] that by (intro got) (simp_all add: inside_def lock_try_def)
qed

theorem thread_lock_excludes_witness:
  "\<exists>lk pc. thread_reach (lk, pc) \<and> pc 1 = Waiting \<and>
     thread_step (lk, pc) (lk\<lparr>t_locked := 1\<rparr>, pc(1 := Inside))"
proof -
  define pc where "pc = (\<lambda>i :: nat. Outside)(1 := Waiting)"
  define lk where "lk = lock_init \<lparr>t_locked = 5\<rparr>"
  have "thread_reach (lk, \<lambda>_. Outside)" unfolding lk_def by (rule thread_reach.start) simp
  moreover have "thread_step (lk, \<lambda>_. Outside) (lk, pc)" unfolding pc_def by (rule call) simp
  ultimately have r: "thread_reach (lk, pc)" by (rule thread_reach.step)
  have "\<forall>i. pc i \<noteq> Inside" "pc 1 = Waiting" by (simp_all add: pc_def)
  with thread_lock_excludes [OF r] r show ?thesis by blast
qed

end
