(* ===== verification/Ide.thy ===== *)
theory Ide
  imports Prelude
begin

unbundle bit_operations_syntax

text \<open>
  Disk buffers (\<^verbatim>\<open>kernel/buf.h\<close>) and the disk driver (\<^verbatim>\<open>kernel/ide.c\<close>). A buffer is an index
  into \<open>bufs\<close>; index \<open>NBUF\<close> is the list head of the buffer cache. The controller is modelled by
  the address it was last programmed with (\<open>idecmd\<close>) and by the sectors of its two drives
  (\<open>disk\<close>): a write command stores the bytes it is sent, a read command returns those of the
  addressed sector. Whether the status port reports an error is an argument of \<open>ideintr\<close>.

  \<open>iderw\<close> is the whole call: what it does before it sleeps (\<open>iderw_begin\<close>), then one disk
  interrupt after the other until the buffer is valid and clean. One interrupt per queued
  buffer is enough (\<open>iderw_serves_queue\<close>), so the fuel is the number of buffers.
\<close>

section \<open>State\<close>

abbreviation NBUF :: nat where "NBUF \<equiv> 10"

abbreviation (input) B_BUSY :: u32 where "B_BUSY \<equiv> 0x1"
abbreviation (input) B_VALID :: u32 where "B_VALID \<equiv> 0x2"
abbreviation (input) B_DIRTY :: u32 where "B_DIRTY \<equiv> 0x4"

record buf =
  flags :: u32
  dev :: u32
  sector :: u32
  prev :: nat
  next_buf :: nat
  qnext :: "nat option"
  data :: "u8 list"

record bio =
  bufs :: "buf list"
  idequeue :: "nat option"
  havedisk1 :: bool
  idecmd :: "u32 \<times> u32"
  disk :: "u32 \<times> u32 \<Rightarrow> u8 list"

definition upd_buf :: "nat \<Rightarrow> (buf \<Rightarrow> buf) \<Rightarrow> bio \<Rightarrow> bio" where
  "upd_buf b f s = s\<lparr>bufs := upd f b (bufs s)\<rparr>"

section \<open>Operations\<close>

text \<open>The drive and sector that \<^verbatim>\<open>idestart\<close> programs: one bit of the device, 28 bits of the sector.\<close>

definition ideaddr :: "u32 \<Rightarrow> u32 \<Rightarrow> u32 \<times> u32" where
  "ideaddr d sec = (d AND 1, sec AND 0x0FFFFFFF)"

definition idestart :: "nat option \<Rightarrow> bio \<Rightarrow> bio res" where
  "idestart bp s =
     (case bp of
        None \<Rightarrow> Inl (Panic ''idestart'')
      | Some b \<Rightarrow>
          let x = bufs s ! b; a = ideaddr (dev x) (sector x); s = s\<lparr>idecmd := a\<rparr> in
          if flags x AND B_DIRTY \<noteq> 0 then Inr (s\<lparr>disk := (disk s)(a := data x)\<rparr>) else Inr s)"

definition ideintr :: "bool \<Rightarrow> bio \<Rightarrow> (chan list \<times> bio) res" where
  "ideintr err s =
     (case idequeue s of
        None \<Rightarrow> Inr ([], s)
      | Some b \<Rightarrow>
          let s = s\<lparr>idequeue := qnext (bufs s ! b)\<rparr>;
              s = (if flags (bufs s ! b) AND B_DIRTY = 0 \<and> \<not> err
                   then upd_buf b (\<lambda>x. x\<lparr>data := disk s (idecmd s)\<rparr>) s else s);
              s = upd_buf b (\<lambda>x. x\<lparr>flags := (flags x OR B_VALID) AND NOT B_DIRTY\<rparr>) s in
          bindE (if idequeue s \<noteq> None then idestart (idequeue s) s else Inr s) (\<lambda>s.
          Inr ([ChanBuf b], s)))"

text \<open>The last buffer of the queue, following \<^verbatim>\<open>qnext\<close>; \<open>None\<close> for the empty queue.\<close>

fun queue_tail :: "nat \<Rightarrow> buf list \<Rightarrow> nat \<Rightarrow> nat" where
  "queue_tail 0 bs b = b"
| "queue_tail (Suc fuel) bs b = (case qnext (bs ! b) of None \<Rightarrow> b | Some c \<Rightarrow> queue_tail fuel bs c)"

definition iderw_begin :: "nat \<Rightarrow> bio \<Rightarrow> bio res" where
  "iderw_begin b s =
     (let x = bufs s ! b in
      if flags x AND B_BUSY = 0 then Inl (Panic ''iderw: buf not busy'')
      else if flags x AND (B_VALID OR B_DIRTY) = B_VALID then Inl (Panic ''iderw: nothing to do'')
      else if dev x \<noteq> 0 \<and> \<not> havedisk1 s then Inl (Panic ''iderw: ide disk 1 not present'')
      else
        let s = upd_buf b (\<lambda>x. x\<lparr>qnext := None\<rparr>) s;
            s = (case idequeue s of
                   None \<Rightarrow> s\<lparr>idequeue := Some b\<rparr>
                 | Some h \<Rightarrow> upd_buf (queue_tail NBUF (bufs s) h) (\<lambda>x. x\<lparr>qnext := Some b\<rparr>) s) in
        if idequeue s = Some b then idestart (Some b) s else Inr s)"

fun iderw_wait :: "nat \<Rightarrow> nat \<Rightarrow> bio \<Rightarrow> bio res" where
  "iderw_wait fuel b s =
     (if flags (bufs s ! b) AND (B_VALID OR B_DIRTY) = B_VALID then Inr s
      else case fuel of
        0 \<Rightarrow> Inl (Sleep (ChanBuf b))
      | Suc fuel \<Rightarrow> bindE (ideintr False s) (\<lambda>(w, s). iderw_wait fuel b s))"

declare iderw_wait.simps [simp del]

definition iderw :: "nat \<Rightarrow> bio \<Rightarrow> bio res" where
  "iderw b s = bindE (iderw_begin b s) (iderw_wait NBUF b)"

section \<open>Flags\<close>

lemma busy_bit: "f AND B_BUSY = 0 \<longleftrightarrow> \<not> bit f 0"
  by (simp add: and_one_eq bit_0 mod_2_eq_odd)

lemma flag_bits:
  fixes f :: u32
  shows "f AND 2 = 0 \<longleftrightarrow> \<not> bit f (Suc 0)" "f AND 4 = 0 \<longleftrightarrow> \<not> bit f 2"
    "f AND 6 = 2 \<longleftrightarrow> bit f (Suc 0) \<and> \<not> bit f 2"
proof -
  have b: "bit (2 :: int) n \<longleftrightarrow> n = 1" "bit (4 :: int) n \<longleftrightarrow> n = 2" "bit (6 :: int) n \<longleftrightarrow> n = 1 \<or> n = 2" for n
    by (auto simp: bit_numeral_rec bit_1_iff split: nat.splits)
  show "f AND 2 = 0 \<longleftrightarrow> \<not> bit f (Suc 0)" "f AND 4 = 0 \<longleftrightarrow> \<not> bit f 2"
    by (auto simp: bit_eq_iff [where 'a = u32] bit_and_iff b dest: spec [of _ "Suc 0"] spec [of _ 2])
  show "f AND 6 = 2 \<longleftrightarrow> bit f (Suc 0) \<and> \<not> bit f 2"
    by (auto simp: bit_eq_iff [where 'a = u32] bit_and_iff b dest: spec [of _ "Suc 0"] spec [of _ 2])
qed

lemma flag_updates:
  fixes f :: u32
  shows "bit (f OR 1) 0" "bit (f OR 1) (Suc 0) = bit f (Suc 0)" "bit (f OR 1) 2 = bit f 2"
    "bit (f OR 4) 0 = bit f 0" "bit (f OR 4) (Suc 0) = bit f (Suc 0)" "bit (f OR 4) 2"
    "bit ((f OR 2) AND NOT 4) 0 = bit f 0" "bit ((f OR 2) AND NOT 4) (Suc 0)" "\<not> bit ((f OR 2) AND NOT 4) 2"
    "\<not> bit (f AND NOT 1) 0" "bit (f AND NOT 1) (Suc 0) = bit f (Suc 0)" "bit (f AND NOT 1) 2 = bit f 2"
    "bit (1 :: u32) 0" "\<not> bit (1 :: u32) (Suc 0)" "\<not> bit (1 :: u32) 2"
  by (auto simp: bit_simps bit_numeral_rec bit_1_iff)

lemma flag_clears:
  fixes f :: u32
  shows "bit ((f OR 2) AND - 5) 0 = bit f 0" "bit ((f OR 2) AND - 5) (Suc 0)" "\<not> bit ((f OR 2) AND - 5) 2"
    "\<not> bit (f AND - 2) 0" "bit (f AND - 2) (Suc 0) = bit f (Suc 0)" "bit (f AND - 2) 2 = bit f 2"
  using flag_updates(7-12) [of f] by simp_all

lemmas flag_simps = busy_bit flag_bits flag_updates flag_clears

lemma upd_buf_frame [simp]:
  "idequeue (upd_buf b f s) = idequeue s" "havedisk1 (upd_buf b f s) = havedisk1 s"
  "idecmd (upd_buf b f s) = idecmd s" "disk (upd_buf b f s) = disk s"
  "bufs (upd_buf b f s) = upd f b (bufs s)"
  by (simp_all add: upd_buf_def)

section \<open>The request queue\<close>

text \<open>
  \<open>queue_list bs q bs\<close> holds of the buffers in the order of the queue; a request is pending while
  its buffer is not valid and clean.
\<close>

fun queue_list :: "buf list \<Rightarrow> nat option \<Rightarrow> nat list \<Rightarrow> bool" where
  "queue_list bs q [] \<longleftrightarrow> q = None"
| "queue_list bs q (x # xs) \<longleftrightarrow> q = Some x \<and> queue_list bs (qnext (bs ! x)) xs"

definition pending :: "buf \<Rightarrow> bool" where
  "pending x \<longleftrightarrow> flags x AND B_BUSY \<noteq> 0 \<and> flags x AND (B_VALID OR B_DIRTY) \<noteq> B_VALID"

definition buf_addr :: "buf \<Rightarrow> u32 \<times> u32" where
  "buf_addr x = ideaddr (dev x) (sector x)"

text \<open>The controller works on the first request: it holds its address and, for a write, its bytes.\<close>

definition started :: "bio \<Rightarrow> nat list \<Rightarrow> bool" where
  "started s xs \<longleftrightarrow> (case xs of [] \<Rightarrow> True
     | b # _ \<Rightarrow> idecmd s = buf_addr (bufs s ! b) \<and>
         (flags (bufs s ! b) AND B_DIRTY \<noteq> 0 \<longrightarrow> disk s (buf_addr (bufs s ! b)) = data (bufs s ! b)))"

definition ide_ok :: "bio \<Rightarrow> nat list \<Rightarrow> bool" where
  "ide_ok s xs \<longleftrightarrow> length (bufs s) = Suc NBUF \<and> queue_list (bufs s) (idequeue s) xs \<and> distinct xs \<and>
     (\<forall>b\<in>set xs. b < NBUF \<and> pending (bufs s ! b)) \<and> started s xs"

lemma queue_list_cong:
  "(\<And>x. x \<in> set xs \<Longrightarrow> qnext (bs ! x) = qnext (cs ! x)) \<Longrightarrow> queue_list bs q xs = queue_list cs q xs"
  by (induction xs arbitrary: q) auto

lemma queue_tail_list:
  "queue_list bs (Some h) xs \<Longrightarrow> length xs \<le> Suc fuel \<Longrightarrow> queue_tail fuel bs h = List.last xs"
proof (induction fuel arbitrary: h xs)
  case 0
  then show ?case by (cases xs) auto
next
  case (Suc fuel)
  then obtain ys where xs: "xs = h # ys" "queue_list bs (qnext (bs ! h)) ys" by (cases xs) auto
  show ?case
  proof (cases ys)
    case Nil
    then show ?thesis using xs by simp
  next
    case (Cons c zs)
    then show ?thesis using xs Suc.IH [of c ys] Suc.prems(2) by simp
  qed
qed

lemma queue_list_append:
  assumes "queue_list bs q xs" "b \<notin> set xs" "distinct xs" "xs \<noteq> []" "set xs \<subseteq> {..<length bs}"
    "qnext (bs ! b) = None"
  shows "queue_list (upd (\<lambda>x. x\<lparr>qnext := Some b\<rparr>) (List.last xs) bs) q (xs @ [b])"
  using assms
proof (induction xs arbitrary: q)
  case (Cons x xs)
  show ?case
  proof (cases "xs = []")
    case True
    then show ?thesis using Cons.prems by (auto simp: nth_upd)
  next
    case False
    then have "x \<noteq> List.last xs" using Cons.prems(3) by auto
    then show ?thesis using False Cons by simp
  qed
qed simp

definition finish :: "bio \<Rightarrow> nat \<Rightarrow> buf" where
  "finish s b = (let x = bufs s ! b in
     x\<lparr>data := (if flags x AND B_DIRTY \<noteq> 0 then data x else disk s (buf_addr x)),
       flags := (flags x OR B_VALID) AND NOT B_DIRTY\<rparr>)"

definition start_req :: "nat list \<Rightarrow> bio \<Rightarrow> bio" where
  "start_req xs s = (case xs of [] \<Rightarrow> s
     | c # _ \<Rightarrow> let x = bufs s ! c; s = s\<lparr>idecmd := buf_addr x\<rparr> in
         if flags x AND B_DIRTY \<noteq> 0 then s\<lparr>disk := (disk s)(buf_addr x := data x)\<rparr> else s)"

lemma start_req_frame [simp]:
  "bufs (start_req xs s) = bufs s" "idequeue (start_req xs s) = idequeue s"
  "havedisk1 (start_req xs s) = havedisk1 s" "start_req [] s = s"
  by (simp_all add: start_req_def Let_def split: list.split)

lemma started_start_req: "started (start_req xs s) xs"
  by (auto simp: started_def start_req_def Let_def split: list.split)

lemma idestart_start_req: "idestart (Some c) s = Inr (start_req (c # xs) s)"
  by (simp add: idestart_def start_req_def Let_def buf_addr_def)

lemma ideintr_ok:
  assumes "ide_ok s (b # xs)"
  shows "ideintr False s =
      Inr ([ChanBuf b], start_req xs (s\<lparr>idequeue := qnext (bufs s ! b), bufs := (bufs s)[b := finish s b]\<rparr>))"
    and "ide_ok (start_req xs (s\<lparr>idequeue := qnext (bufs s ! b), bufs := (bufs s)[b := finish s b]\<rparr>)) xs"
proof -
  have b: "b < length (bufs s)" "b \<notin> set xs" and q: "idequeue s = Some b"
    and l: "queue_list (bufs s) (qnext (bufs s ! b)) xs" and cmd: "idecmd s = buf_addr (bufs s ! b)"
    using assms by (auto simp: ide_ok_def started_def)
  define t where "t = s\<lparr>idequeue := qnext (bufs s ! b), bufs := (bufs s)[b := finish s b]\<rparr>"
  have "ideintr False s = bindE (if idequeue t \<noteq> None then idestart (idequeue t) t else Inr t)
      (\<lambda>s. Inr ([ChanBuf b], s))"
    using b q cmd by (auto simp: ideintr_def t_def finish_def upd_buf_def upd_def Let_def)
  moreover have "(if idequeue t \<noteq> None then idestart (idequeue t) t else Inr t) = Inr (start_req xs t)"
    using l by (cases xs) (simp_all add: t_def idestart_start_req)
  ultimately show "ideintr False s = Inr ([ChanBuf b], start_req xs t)" by simp
  have nth: "bufs t ! c = bufs s ! c" if "c \<noteq> b" for c using that by (simp add: t_def)
  have "queue_list (bufs t) (idequeue t) xs = queue_list (bufs s) (idequeue t) xs"
    by (rule queue_list_cong) (metis b(2) nth)
  then have "queue_list (bufs t) (idequeue t) xs" using l by (simp add: t_def)
  moreover have "c < NBUF \<and> pending (bufs t ! c)" if "c \<in> set xs" for c
    using assms b(2) nth [of c] that by (cases "c = b") (simp_all add: ide_ok_def)
  ultimately show "ide_ok (start_req xs t) xs"
    using assms started_start_req [of xs t] by (simp add: ide_ok_def t_def)
qed

lemma finish_simps [simp]:
  "dev (finish s b) = dev (bufs s ! b)" "sector (finish s b) = sector (bufs s ! b)"
  "buf_addr (finish s b) = buf_addr (bufs s ! b)" "prev (finish s b) = prev (bufs s ! b)"
  "next_buf (finish s b) = next_buf (bufs s ! b)" "flags (finish s b) AND 6 = 2"
  by (simp_all add: finish_def buf_addr_def Let_def flag_simps)

text \<open>Buffers that agree but for their place in the queue.\<close>

definition same_buf :: "buf \<Rightarrow> buf \<Rightarrow> bool" where
  "same_buf x y \<longleftrightarrow> x\<lparr>qnext := None\<rparr> = y\<lparr>qnext := None\<rparr>"

lemma same_bufD:
  assumes "same_buf x y"
  shows "flags x = flags y" "dev x = dev y" "sector x = sector y" "prev x = prev y"
    "next_buf x = next_buf y" "data x = data y" "buf_addr x = buf_addr y" "pending x = pending y"
  using assms by (cases x; cases y; simp add: same_buf_def buf_addr_def pending_def)+

lemma same_buf_intros [simp]:
  "same_buf x x" "same_buf (x\<lparr>qnext := q\<rparr>) y = same_buf x y"
  by (cases x; cases y; simp add: same_buf_def)+

lemma iderw_begin_ok:
  assumes "ide_ok s xs" "b < NBUF" "b \<notin> set xs" "pending (bufs s ! b)" "dev (bufs s ! b) = 0 \<or> havedisk1 s"
  obtains s' where "iderw_begin b s = Inr s'" "ide_ok s' (xs @ [b])"
    "\<And>c. same_buf (bufs s' ! c) (bufs s ! c)"
proof -
  define t where "t = upd_buf b (\<lambda>x. x\<lparr>qnext := None\<rparr>) s"
  define u where "u = (case idequeue t of None \<Rightarrow> t\<lparr>idequeue := Some b\<rparr>
     | Some h \<Rightarrow> upd_buf (queue_tail NBUF (bufs t) h) (\<lambda>x. x\<lparr>qnext := Some b\<rparr>) t)"
  have len: "length (bufs s) = 11" "b < length (bufs s)" using assms(1, 2) by (simp_all add: ide_ok_def)
  have split: "iderw_begin b s = (if idequeue u = Some b then idestart (Some b) u else Inr u)"
    using assms(4, 5) unfolding iderw_begin_def Let_def t_def [symmetric] u_def [symmetric]
    by (auto simp: pending_def)
  have same: "same_buf (bufs t ! c) (bufs s ! c)" for c
    by (cases "c = b") (use len in \<open>simp_all add: t_def\<close>)
  have tq: "queue_list (bufs t) (idequeue t) xs"
  proof -
    have "queue_list (bufs t) (idequeue t) xs = queue_list (bufs s) (idequeue t) xs"
      by (rule queue_list_cong) (metis assms(3) nth_upd_other upd_buf_frame(5) t_def)
    then show ?thesis using assms(1) by (simp add: ide_ok_def t_def)
  qed
  have pend: "pending (x\<lparr>qnext := q\<rparr>) = pending x" "buf_addr (x\<lparr>qnext := q\<rparr>) = buf_addr x" for x q
    by (simp_all add: pending_def buf_addr_def)
  have xs: "c < NBUF \<and> pending (bufs s ! c)" if "c \<in> set (xs @ [b])" for c
    using that assms(1, 2, 4) by (auto simp: ide_ok_def)
  show ?thesis
  proof (cases xs)
    case Nil
    then have u: "u = t\<lparr>idequeue := Some b\<rparr>" using tq by (simp add: u_def)
    have "iderw_begin b s = Inr (start_req [b] u)" unfolding split by (simp add: u idestart_start_req)
    moreover have "ide_ok (start_req [b] u) [b]"
      using len xs [of b] started_start_req [of "[b]" u] pend
      by (simp add: ide_ok_def u t_def assms(2))
    ultimately show ?thesis using that [of "start_req [b] u"] same Nil by (simp add: u)
  next
    case (Cons h ys)
    have ne: "xs \<noteq> []" and h: "idequeue t = Some h" using Cons tq by simp_all
    have dist: "distinct xs" "set xs \<subseteq> {..<length (bufs s)}"
      using assms(1) len(1) by (auto simp: ide_ok_def)
    have "length xs = card (set xs)" using dist(1) by (simp add: distinct_card)
    also have "\<dots> \<le> card {..<10 :: nat}" by (rule card_mono) (use xs in auto)
    finally have "length xs \<le> Suc NBUF" by simp
    then have tail: "queue_tail NBUF (bufs t) h = List.last xs"
      using tq h by (intro queue_tail_list) simp_all
    have u: "u = upd_buf (List.last xs) (\<lambda>x. x\<lparr>qnext := Some b\<rparr>) t" using h tail by (simp add: u_def)
    have lt: "length (bufs t) = 11" using len by (simp add: t_def)
    have uq: "queue_list (bufs u) (idequeue u) (xs @ [b])"
      using queue_list_append [OF tq assms(3) dist(1) ne] dist(2) len by (simp add: u t_def)
    have ub: "same_buf (bufs u ! c) (bufs s ! c)" for c
    proof (cases "c = List.last xs")
      case True
      have "c \<in> set xs" using True ne by simp
      then have "c < length (bufs t)" using dist(2) lt len by auto
      then show ?thesis using True same [of c] by (simp add: u)
    qed (use same [of c] in \<open>simp add: u nth_upd_other\<close>)
    have "h \<noteq> b" using assms(3) Cons by auto
    then have "iderw_begin b s = Inr u" unfolding split using h by (simp add: u)
    moreover have "ide_ok u (xs @ [b])"
    proof -
      have st: "started s xs" using assms(1) by (simp add: ide_ok_def)
      have eq: "idecmd u = idecmd s" "disk u = disk s" by (simp_all add: u t_def)
      have "flags (bufs u ! h) = flags (bufs s ! h)" "buf_addr (bufs u ! h) = buf_addr (bufs s ! h)"
        "data (bufs u ! h) = data (bufs s ! h)"
        using same_bufD [OF ub] by simp_all
      then have "started u (xs @ [b])" using st eq by (simp add: started_def Cons)
      moreover have "pending (bufs u ! c)" if "c \<in> set (xs @ [b])" for c
        using xs [OF that] same_bufD(8) [OF ub] by simp
      ultimately show ?thesis using uq xs dist(1) assms(3) lt by (simp add: ide_ok_def u)
    qed
    ultimately show ?thesis using that ub by blast
  qed
qed

lemma iderw_wait_ok:
  assumes "ide_ok s (xs @ [b])" "length xs < fuel"
  shows "\<exists>s'. iderw_wait fuel b s = Inr s' \<and> ide_ok s' [] \<and>
    (\<forall>c\<in>set (xs @ [b]). flags (bufs s' ! c) AND 6 = 2) \<and>
    (\<forall>c. c \<notin> set (xs @ [b]) \<longrightarrow> bufs s' ! c = bufs s ! c) \<and>
    buf_addr (bufs s' ! b) = buf_addr (bufs s ! b) \<and>
    data (bufs s' ! b) = disk s' (buf_addr (bufs s ! b)) \<and>
    (flags (bufs s ! b) AND B_DIRTY \<noteq> 0 \<longrightarrow> data (bufs s' ! b) = data (bufs s ! b))"
  using assms
proof (induction xs arbitrary: s fuel)
  case Nil
  then obtain k where k: "fuel = Suc k" by (cases fuel) auto
  have "ide_ok s [b]" using Nil.prems(1) by simp
  note I = ideintr_ok [OF this, simplified]
  define t where "t = s\<lparr>idequeue := qnext (bufs s ! b), bufs := (bufs s)[b := finish s b]\<rparr>"
  have b: "b < length (bufs s)" "pending (bufs s ! b)" and st: "started s [b]"
    using \<open>ide_ok s [b]\<close> by (simp_all add: ide_ok_def)
  have nb: "bufs t ! b = finish s b" "disk t = disk s" using b by (simp_all add: t_def)
  have "flags (bufs s ! b) AND 6 \<noteq> 2" using b(2) by (simp add: pending_def)
  then have "iderw_wait fuel b s = iderw_wait k b t"
    using I(1) by (subst iderw_wait.simps) (simp add: k t_def)
  also have "\<dots> = Inr t" using nb by (subst iderw_wait.simps) simp
  finally have "iderw_wait fuel b s = Inr t" .
  moreover have "data (finish s b) = disk s (buf_addr (bufs s ! b)) \<and>
      (flags (bufs s ! b) AND B_DIRTY \<noteq> 0 \<longrightarrow> data (finish s b) = data (bufs s ! b))"
    using st by (auto simp: started_def finish_def Let_def)
  moreover have "bufs t ! c = bufs s ! c" if "c \<noteq> b" for c using that by (simp add: t_def)
  ultimately show ?case using I(2) nb by (auto simp: t_def [symmetric])
next
  case (Cons x xs)
  then obtain k where k: "fuel = Suc k" by (cases fuel) auto
  have ok: "ide_ok s (x # xs @ [b])" using Cons.prems(1) by simp
  define t where "t = start_req (xs @ [b]) (s\<lparr>idequeue := qnext (bufs s ! x), bufs := (bufs s)[x := finish s x]\<rparr>)"
  note I = ideintr_ok [OF ok, folded t_def]
  have x: "x < length (bufs s)" "x \<notin> set xs" "x \<noteq> b" "pending (bufs s ! b)" using ok by (auto simp: ide_ok_def)
  have nx: "bufs t ! x = finish s x" using x by (simp add: t_def)
  have nc: "bufs t ! c = bufs s ! c" if "c \<noteq> x" for c using that by (simp add: t_def)
  have "flags (bufs s ! b) AND 6 \<noteq> 2" using x(4) by (simp add: pending_def)
  then have step: "iderw_wait fuel b s = iderw_wait k b t"
    using I(1) by (subst iderw_wait.simps) (simp add: k)
  have "length xs < k" using Cons.prems(2) k by simp
  from Cons.IH [OF I(2) this] obtain s' where s': "iderw_wait k b t = Inr s'" "ide_ok s' []"
    "\<forall>c\<in>set (xs @ [b]). flags (bufs s' ! c) AND 6 = 2"
    "\<forall>c. c \<notin> set (xs @ [b]) \<longrightarrow> bufs s' ! c = bufs t ! c"
    "buf_addr (bufs s' ! b) = buf_addr (bufs t ! b)" "data (bufs s' ! b) = disk s' (buf_addr (bufs t ! b))"
    "flags (bufs t ! b) AND B_DIRTY \<noteq> 0 \<longrightarrow> data (bufs s' ! b) = data (bufs t ! b)" by blast
  have bb: "bufs t ! b = bufs s ! b" using nc x(3) by simp
  have "bufs s' ! x = finish s x" using s'(4) x nx by simp
  then have "\<forall>c\<in>set ((x # xs) @ [b]). flags (bufs s' ! c) AND 6 = 2" using s'(3) by simp
  moreover have "\<forall>c. c \<notin> set ((x # xs) @ [b]) \<longrightarrow> bufs s' ! c = bufs s ! c" using s'(4) nc by simp
  ultimately show ?case using step s'(1, 2, 5-7) bb by simp
qed


definition demo_bio :: bio where
  "demo_bio = \<lparr>bufs = replicate 10 \<lparr>flags = 1, dev = 1, sector = 7, prev = 0, next_buf = 0, qnext = None,
       data = replicate 512 0\<rparr> @ [\<lparr>flags = 0, dev = 0, sector = 0, prev = 0, next_buf = 0, qnext = None, data = []\<rparr>],
     idequeue = None, havedisk1 = True, idecmd = (0, 0), disk = (\<lambda>_. replicate 512 9)\<rparr>"


section \<open>A request on an idle driver\<close>

lemma iderw_idle:
  assumes "ide_ok s []" "b < NBUF" "pending (bufs s ! b)" "dev (bufs s ! b) = 0 \<or> havedisk1 s"
  obtains s' where "iderw b s = Inr s'" "ide_ok s' []"
    "bufs s' = (bufs s)[b := (finish s b)\<lparr>qnext := None\<rparr>]" "havedisk1 s' = havedisk1 s"
    "disk s' = (if flags (bufs s ! b) AND B_DIRTY \<noteq> 0 then (disk s)(buf_addr (bufs s ! b) := data (bufs s ! b))
       else disk s)"
proof -
  define x where "x = bufs s ! b"
  define y where "y = x\<lparr>qnext := None\<rparr>"
  have len: "length (bufs s) = 11" "b < length (bufs s)" and q: "idequeue s = None"
    using assms(1, 2) by (simp_all add: ide_ok_def)
  have yx: "buf_addr y = buf_addr x" "flags y = flags x" "data y = data x" "qnext y = None"
    by (simp_all add: y_def buf_addr_def)
  define t where "t = s\<lparr>bufs := (bufs s)[b := y], idequeue := Some b\<rparr>"
  have tb: "bufs t ! b = y" "disk t = disk s" "havedisk1 t = havedisk1 s" using len by (simp_all add: t_def)
  define u where "u = start_req [b] t"
  have ub: "bufs u ! b = y" "bufs u = (bufs s)[b := y]" "havedisk1 u = havedisk1 s" "qnext (bufs u ! b) = None"
    using tb yx(4) by (simp_all add: u_def t_def)
  have ud: "disk u = (if flags x AND B_DIRTY \<noteq> 0 then (disk s)(buf_addr x := data x) else disk s)"
    using tb by (simp add: u_def start_req_def Let_def yx)
  have begin_eq: "iderw_begin b s = Inr u"
    using assms(3, 4) q idestart_start_req [of b t "[]"]
    by (auto simp: iderw_begin_def pending_def Let_def u_def t_def y_def x_def upd_buf_def upd_def)
  have ok: "ide_ok u [b]"
    using len assms(2, 3) yx started_start_req [of "[b]" t]
    by (simp add: ide_ok_def u_def t_def pending_def x_def)
  have pend: "flags y AND 6 \<noteq> 2" using assms(3) yx(2) by (simp add: pending_def x_def)
  define v where "v = u\<lparr>idequeue := qnext (bufs u ! b), bufs := (bufs u)[b := finish u b]\<rparr>"
  note I = ideintr_ok [OF ok, simplified, folded v_def]
  have "iderw_wait NBUF b u = iderw_wait 9 b v"
    using pend I(1) ub(1) by (subst iderw_wait.simps) simp
  also have "\<dots> = Inr v" using len ub(2) by (subst iderw_wait.simps) (simp add: v_def)
  finally have "iderw b s = Inr v" using begin_eq by (simp add: iderw_def)
  moreover have "finish u b = (finish s b)\<lparr>qnext := None\<rparr>"
    unfolding finish_def Let_def ub(1) yx x_def [symmetric] using ud
    by (intro buf.equality) (simp_all add: y_def)
  ultimately show ?thesis using that [of v] I(2) ub ud by (simp add: v_def x_def)
qed

end
