(* ===== verification/Bio.thy ===== *)
theory Bio
  imports Ide
begin

unbundle bit_operations_syntax

text \<open>
  The buffer cache, \<^verbatim>\<open>kernel/bio.c\<close>. The buffers are linked both ways through \<open>prev\<close> and
  \<open>next_buf\<close> in a ring with the head \<open>NBUF\<close>; \<open>lru_ring\<close> relates the links to the list of the
  buffers from the most to the least recently used. \<open>cache_ok s xs H\<close> is the invariant of a
  cache whose busy buffers are \<open>H\<close>: no block is cached twice, and every valid buffer nobody
  holds has the bytes of the disk.

  The locale \<open>buffer_cache\<close> is the contract the file system relies on.
\<close>

section \<open>Operations\<close>

fun binit_loop :: "nat list \<Rightarrow> bio \<Rightarrow> bio" where
  "binit_loop [] s = s"
| "binit_loop (b # bs) s =
     (let h = next_buf (bufs s ! NBUF);
          s = upd_buf b (\<lambda>x. x\<lparr>next_buf := h, prev := NBUF, dev := - 1\<rparr>) s;
          s = upd_buf h (\<lambda>x. x\<lparr>prev := b\<rparr>) s;
          s = upd_buf NBUF (\<lambda>x. x\<lparr>next_buf := b\<rparr>) s in
      binit_loop bs s)"

definition binit :: "bio \<Rightarrow> bio" where
  "binit s = binit_loop [0..<NBUF] (upd_buf NBUF (\<lambda>x. x\<lparr>prev := NBUF, next_buf := NBUF\<rparr>) s)"

text \<open>The two scans of \<^verbatim>\<open>bget\<close>; a ring has at most \<open>NBUF\<close> buffers to visit.\<close>

fun scan :: "nat \<Rightarrow> (buf \<Rightarrow> nat) \<Rightarrow> (buf \<Rightarrow> bool) \<Rightarrow> buf list \<Rightarrow> nat \<Rightarrow> nat option" where
  "scan 0 link P bs b = None"
| "scan (Suc fuel) link P bs b =
     (if b = NBUF then None else if P (bs ! b) then Some b else scan fuel link P bs (link (bs ! b)))"

definition bget :: "u32 \<Rightarrow> u32 \<Rightarrow> bio \<Rightarrow> (nat \<times> bio) res" where
  "bget d sec s =
     (case scan (Suc NBUF) next_buf (\<lambda>x. dev x = d \<and> sector x = sec) (bufs s) (next_buf (bufs s ! NBUF)) of
        Some b \<Rightarrow>
          if flags (bufs s ! b) AND B_BUSY = 0 then
            Inr (b, upd_buf b (\<lambda>x. x\<lparr>flags := flags x OR B_BUSY\<rparr>) s)
          else Inl (Sleep (ChanBuf b))
      | None \<Rightarrow>
          (case scan (Suc NBUF) prev (\<lambda>x. flags x AND B_BUSY = 0) (bufs s) (prev (bufs s ! NBUF)) of
             Some b \<Rightarrow> Inr (b, upd_buf b (\<lambda>x. x\<lparr>dev := d, sector := sec, flags := B_BUSY\<rparr>) s)
           | None \<Rightarrow> Inl (Panic ''bget: no buffers'')))"

definition bread :: "u32 \<Rightarrow> u32 \<Rightarrow> bio \<Rightarrow> (nat \<times> bio) res" where
  "bread d sec s =
     bindE (bget d sec s) (\<lambda>(b, s).
     if flags (bufs s ! b) AND B_VALID = 0 then bindE (iderw b s) (\<lambda>s. Inr (b, s)) else Inr (b, s))"

definition bwrite :: "nat \<Rightarrow> bio \<Rightarrow> bio res" where
  "bwrite b s =
     (if flags (bufs s ! b) AND B_BUSY = 0 then Inl (Panic ''bwrite'')
      else iderw b (upd_buf b (\<lambda>x. x\<lparr>flags := flags x OR B_DIRTY\<rparr>) s))"

text \<open>
  \<^verbatim>\<open>brelse\<close> wakes the processes that sleep on the buffer; the list of channels is returned
  by \<open>brelse_wakes\<close>, \<open>brelse\<close> is the change to the cache.
\<close>

definition brelse_wakes :: "nat \<Rightarrow> bio \<Rightarrow> (chan list \<times> bio) res" where
  "brelse_wakes b s =
     (if flags (bufs s ! b) AND B_BUSY = 0 then Inl (Panic ''brelse'')
      else
        let s = upd_buf (next_buf (bufs s ! b)) (\<lambda>x. x\<lparr>prev := prev (bufs s ! b)\<rparr>) s;
            s = upd_buf (prev (bufs s ! b)) (\<lambda>x. x\<lparr>next_buf := next_buf (bufs s ! b)\<rparr>) s;
            s = upd_buf b (\<lambda>x. x\<lparr>next_buf := next_buf (bufs s ! NBUF), prev := NBUF\<rparr>) s;
            s = upd_buf (next_buf (bufs s ! NBUF)) (\<lambda>x. x\<lparr>prev := b\<rparr>) s;
            s = upd_buf NBUF (\<lambda>x. x\<lparr>next_buf := b\<rparr>) s;
            s = upd_buf b (\<lambda>x. x\<lparr>flags := flags x AND NOT B_BUSY\<rparr>) s in
        Inr ([ChanBuf b], s))"

definition brelse :: "nat \<Rightarrow> bio \<Rightarrow> bio res" where
  "brelse b s = bindE (brelse_wakes b s) (\<lambda>(w, s). Inr s)"

text \<open>What the file system does to a buffer it holds: \<^verbatim>\<open>b->data\<close> is assigned.\<close>

definition set_data :: "nat \<Rightarrow> u8 list \<Rightarrow> bio \<Rightarrow> bio" where
  "set_data b xs s = upd_buf b (\<lambda>x. x\<lparr>data := xs\<rparr>) s"

section \<open>The ring\<close>

definition adjacent :: "nat list \<Rightarrow> (nat \<times> nat) set" where
  "adjacent xs = set (zip (NBUF # xs) (xs @ [NBUF]))"

definition linked :: "(nat \<Rightarrow> nat) \<Rightarrow> (nat \<Rightarrow> nat) \<Rightarrow> nat list \<Rightarrow> bool" where
  "linked nx pv xs \<longleftrightarrow> (\<forall>(a, b)\<in>adjacent xs. nx a = b \<and> pv b = a)"

definition lru_ring :: "buf list \<Rightarrow> nat list \<Rightarrow> bool" where
  "lru_ring bs xs \<longleftrightarrow> length bs = Suc NBUF \<and> distinct xs \<and> set xs = {..<NBUF} \<and>
     linked (\<lambda>i. next_buf (bs ! i)) (\<lambda>i. prev (bs ! i)) xs"

lemma zip_snoc_Cons: "zip (a # xs) (xs @ [z]) = zip (a # xs) xs @ [(List.last (a # xs), z)]"
  by (induction xs arbitrary: a) auto

text \<open>The pairs of neighbours, seen from one element.\<close>

lemma adjacent_split:
  "adjacent (as @ b # cs) =
   set (zip (NBUF # as) as) \<union> {(List.last (NBUF # as), b), (b, hd (cs @ [NBUF]))} \<union> set (zip cs (tl (cs @ [NBUF])))"
proof -
  have "zip (NBUF # as @ b # cs) ((as @ b # cs) @ [NBUF]) =
      zip (NBUF # as) (as @ [b]) @ zip (b # cs) (cs @ [NBUF])"
    using zip_append [of "NBUF # as" "as @ [b]" "b # cs" "cs @ [NBUF]"] by simp
  also have "zip (b # cs) (cs @ [NBUF]) = (b, hd (cs @ [NBUF])) # zip cs (tl (cs @ [NBUF]))"
    by (cases cs) auto
  finally show ?thesis unfolding adjacent_def zip_snoc_Cons [of NBUF as b] by auto
qed

lemma adjacent_append:
  "adjacent (as @ cs) =
   set (zip (NBUF # as) as) \<union> {(List.last (NBUF # as), hd (cs @ [NBUF]))} \<union> set (zip cs (tl (cs @ [NBUF])))"
proof (cases cs)
  case Nil
  then show ?thesis by (simp add: adjacent_def zip_snoc_Cons)
next
  case (Cons c cs')
  have "zip cs (tl (cs @ [NBUF])) = (c, hd (cs' @ [NBUF])) # zip cs' (tl (cs' @ [NBUF]))"
    using Cons by (cases cs') auto
  then show ?thesis unfolding Cons adjacent_split by auto
qed

lemma zip_inner:
  assumes "distinct (a # xs)" "(x, y) \<in> set (zip (a # xs) xs)"
  shows "x \<noteq> List.last (a # xs)" "y \<in> set xs"
  using assms
proof (induction xs arbitrary: a)
  case (Cons b xs)
  { case 1 then show ?case using Cons(1) [of b] by (auto dest: set_zip_leftD split: if_splits) }
  { case 2 then show ?case by (auto dest: set_zip_rightD) }
qed simp_all

lemma zip_tl:
  assumes "distinct (xs @ [z])" "(x, y) \<in> set (zip xs (tl (xs @ [z])))"
  shows "x \<in> set xs" "y \<noteq> hd (xs @ [z])" "y \<in> set xs \<union> {z}"
proof -
  show "x \<in> set xs" using assms(2) by (rule set_zip_leftD)
  have y: "y \<in> set (tl (xs @ [z]))" using assms(2) by (rule set_zip_rightD)
  then show "y \<noteq> hd (xs @ [z])" using assms(1) by (cases xs) auto
  show "y \<in> set xs \<union> {z}" using y by (cases xs) auto
qed

lemma linkedD: "linked nx pv xs \<Longrightarrow> (x, y) \<in> adjacent xs \<Longrightarrow> nx x = y \<and> pv y = x"
  by (auto simp: linked_def)

lemma linkedI: "(\<And>x y. (x, y) \<in> adjacent xs \<Longrightarrow> nx x = y \<and> pv y = x) \<Longrightarrow> linked nx pv xs"
  by (auto simp: linked_def)

lemma linked_neighbours:
  assumes "linked nx pv (as @ b # cs)"
  shows "nx (List.last (NBUF # as)) = b" "pv b = List.last (NBUF # as)"
    "nx b = hd (cs @ [NBUF])" "pv (hd (cs @ [NBUF])) = b"
  using assms by (auto simp: linked_def adjacent_split)

lemma linked_remove:
  assumes "linked nx pv (as @ b # cs)" "distinct (NBUF # as @ b # cs)"
  defines "p \<equiv> List.last (NBUF # as)" and "n \<equiv> hd (cs @ [NBUF])"
  shows "linked (nx(p := n)) (pv(n := p)) (as @ cs)"
proof -
  have p: "p \<in> set (NBUF # as)" unfolding p_def by (rule last_in_set) simp
  have n: "n \<in> set (cs @ [NBUF])" unfolding n_def by (rule hd_in_set) simp
  have "(nx(p := n)) x = y \<and> (pv(n := p)) y = x" if xy: "(x, y) \<in> adjacent (as @ cs)" for x y
  proof -
    consider (inner) "(x, y) \<in> set (zip (NBUF # as) as)" | (gap) "x = p" "y = n"
      | (outer) "(x, y) \<in> set (zip cs (tl (cs @ [NBUF])))"
      using xy unfolding adjacent_append p_def n_def by blast
    then show ?thesis
    proof cases
      case inner
      have "nx x = y \<and> pv y = x" by (rule linkedD [OF assms(1)]) (use inner in \<open>simp only: adjacent_split Un_iff simp_thms\<close>)
      moreover have "x \<noteq> p" unfolding p_def by (rule zip_inner(1) [OF _ inner]) (use assms(2) in auto)
      moreover have "y \<in> set as" by (rule zip_inner(2) [OF _ inner]) (use assms(2) in auto)
      then have "y \<noteq> n" using n assms(2) by auto
      ultimately show ?thesis by simp
    next
      case gap
      then show ?thesis by simp
    next
      case outer
      have "nx x = y \<and> pv y = x" by (rule linkedD [OF assms(1)]) (use outer in \<open>simp only: adjacent_split Un_iff simp_thms\<close>)
      moreover have d: "distinct (cs @ [NBUF])" using assms(2) by auto
      have "x \<noteq> p" using zip_tl(1) [OF d outer] p assms(2) by auto
      moreover have "y \<noteq> n" using zip_tl(2) [OF d outer] by (simp add: n_def)
      ultimately show ?thesis by simp
    qed
  qed
  then show ?thesis by (rule linkedI)
qed

lemma linked_push:
  assumes "linked nx pv ys" "distinct (NBUF # b # ys)"
  defines "h \<equiv> hd (ys @ [NBUF])"
  shows "linked (nx(b := h, NBUF := b)) (pv(b := NBUF, h := b)) (b # ys)"
proof -
  have adj: "adjacent (b # ys) = {(NBUF, b), (b, h)} \<union> set (zip ys (tl (ys @ [NBUF])))"
    using adjacent_split [of "[]" b ys] by (simp add: h_def)
  have "(nx(b := h, NBUF := b)) x = y \<and> (pv(b := NBUF, h := b)) y = x" if xy: "(x, y) \<in> adjacent (b # ys)" for x y
  proof -
    consider (first) "x = NBUF" "y = b" | (second) "x = b" "y = h" | (outer) "(x, y) \<in> set (zip ys (tl (ys @ [NBUF])))"
      using xy unfolding adj by blast
    then show ?thesis
    proof cases
      case first
      have "h \<noteq> b" using assms(2) hd_in_set [of "ys @ [NBUF]"] by (auto simp: h_def)
      then show ?thesis using first by simp
    next
      case second
      then show ?thesis using assms(2) by simp
    next
      case outer
      have d: "distinct (ys @ [NBUF])" using assms(2) by auto
      have "nx x = y \<and> pv y = x"
        by (rule linkedD [OF assms(1)]) (use outer adjacent_append [of "[]" ys] in simp)
      moreover have "x \<noteq> b" "x \<noteq> NBUF" using zip_tl(1) [OF d outer] assms(2) by auto
      moreover have "y \<noteq> h" using zip_tl(2) [OF d outer] by (simp add: h_def)
      moreover have "y \<noteq> b" using zip_tl(3) [OF d outer] assms(2) by auto
      ultimately show ?thesis by simp
    qed
  qed
  then show ?thesis by (rule linkedI)
qed

lemma scan_forward:
  assumes "\<forall>(a, b)\<in>set (zip (x # xs) (xs @ [NBUF])). next_buf (bs ! a) = b" "NBUF \<notin> set xs" "length xs < fuel"
  shows "scan fuel next_buf P bs (next_buf (bs ! x)) = find (\<lambda>i. P (bs ! i)) xs"
  using assms
proof (induction xs arbitrary: x fuel)
  case Nil
  then show ?case by (cases fuel) auto
next
  case (Cons y ys)
  then obtain k where k: "fuel = Suc k" by (cases fuel) auto
  have "next_buf (bs ! x) = y" "y \<noteq> NBUF" using Cons.prems(1, 2) by auto
  moreover have "scan k next_buf P bs (next_buf (bs ! y)) = find (\<lambda>i. P (bs ! i)) ys"
    by (rule Cons.IH) (use Cons.prems k in auto)
  ultimately show ?case by (simp add: k)
qed

lemma scan_backward:
  assumes "\<forall>(a, b)\<in>set (zip (NBUF # xs) (xs @ [x])). prev (bs ! b) = a" "NBUF \<notin> set xs" "length xs < fuel"
  shows "scan fuel prev P bs (prev (bs ! x)) = find (\<lambda>i. P (bs ! i)) (rev xs)"
  using assms
proof (induction xs arbitrary: x fuel rule: rev_induct)
  case Nil
  then show ?case by (cases fuel) auto
next
  case (snoc y ys)
  then obtain k where k: "fuel = Suc k" by (cases fuel) auto
  have z: "zip (NBUF # ys @ [y]) ((ys @ [y]) @ [x]) = zip (NBUF # ys) (ys @ [y]) @ [(y, x)]"
    using zip_append [of "NBUF # ys" "ys @ [y]" "[y]" "[x]"] by simp
  have "prev (bs ! x) = y" "y \<noteq> NBUF" using snoc.prems(1, 2) unfolding z by auto
  moreover have "scan k prev P bs (prev (bs ! y)) = find (\<lambda>i. P (bs ! i)) (rev ys)"
    by (rule snoc.IH) (use snoc.prems k z in auto)
  ultimately show ?case by (simp add: k)
qed

lemma lru_scans:
  assumes "lru_ring bs xs"
  shows "scan (Suc NBUF) next_buf P bs (next_buf (bs ! NBUF)) = find (\<lambda>i. P (bs ! i)) xs"
    and "scan (Suc NBUF) prev P bs (prev (bs ! NBUF)) = find (\<lambda>i. P (bs ! i)) (rev xs)"
proof -
  have "length xs = card {..<NBUF}" using assms distinct_card [of xs] by (simp add: lru_ring_def)
  then have len: "length xs < Suc NBUF" by simp
  have "NBUF \<notin> set xs" using assms by (simp add: lru_ring_def)
  moreover have "\<forall>(a, b)\<in>set (zip (NBUF # xs) (xs @ [NBUF])). next_buf (bs ! a) = b \<and> prev (bs ! b) = a"
    using assms by (auto simp: lru_ring_def linked_def adjacent_def)
  ultimately show "scan (Suc NBUF) next_buf P bs (next_buf (bs ! NBUF)) = find (\<lambda>i. P (bs ! i)) xs"
    "scan (Suc NBUF) prev P bs (prev (bs ! NBUF)) = find (\<lambda>i. P (bs ! i)) (rev xs)"
    using len by (intro scan_forward scan_backward; fastforce)+
qed

lemma lru_ring_cong:
  assumes "lru_ring bs xs" "length cs = length bs"
    "\<And>i. i < length bs \<Longrightarrow> next_buf (cs ! i) = next_buf (bs ! i) \<and> prev (cs ! i) = prev (bs ! i)"
  shows "lru_ring cs xs"
proof -
  have L: "length bs = 11" "set xs = {..<10}" using assms(1) by (simp_all add: lru_ring_def)
  have "next_buf (cs ! x) = y \<and> prev (cs ! y) = x" if "(x, y) \<in> adjacent xs" for x y
  proof -
    have "linked (\<lambda>i. next_buf (bs ! i)) (\<lambda>i. prev (bs ! i)) xs" using assms(1) by (simp add: lru_ring_def)
    from linkedD [OF this that] have eq: "next_buf (bs ! x) = y \<and> prev (bs ! y) = x" .
    have mem: "(x, y) \<in> set (zip (NBUF # xs) (xs @ [NBUF]))" using that by (simp only: adjacent_def)
    have "x < length bs" using set_zip_leftD [OF mem] unfolding L(1) by (auto simp: L(2))
    moreover have "y < length bs" using set_zip_rightD [OF mem] unfolding L(1) by (auto simp: L(2))
    ultimately show ?thesis using assms(3) eq by simp
  qed
  then have "linked (\<lambda>i. next_buf (cs ! i)) (\<lambda>i. prev (cs ! i)) xs" by (rule linkedI)
  then show ?thesis using assms(1, 2) by (simp add: lru_ring_def)
qed

lemma upd_field: "k < length bs \<Longrightarrow> (\<lambda>i. g (upd f k bs ! i)) = (\<lambda>i. g (bs ! i))(k := g (f (bs ! k)))"
  by (auto simp: fun_eq_iff)

lemma nth_upd_field: "(\<And>x. g (f x) = g x) \<Longrightarrow> g (upd f k bs ! i) = g (bs ! i)"
  by (cases "k < length bs"; cases "i = k") (auto simp: upd_def list_update_beyond not_less)

definition to_front :: "nat \<Rightarrow> nat list \<Rightarrow> nat list" where
  "to_front b xs = b # remove1 b xs"

lemma brelse_ring:
  assumes "lru_ring (bufs s) xs" "b < NBUF" "flags (bufs s ! b) AND B_BUSY \<noteq> 0"
  obtains s' where "brelse_wakes b s = Inr ([ChanBuf b], s')" "lru_ring (bufs s') (to_front b xs)"
    "idequeue s' = idequeue s" "havedisk1 s' = havedisk1 s" "disk s' = disk s" "idecmd s' = idecmd s"
    "\<And>c. flags (bufs s' ! c) = (if c = b then flags (bufs s ! b) AND NOT B_BUSY else flags (bufs s ! c))"
    "\<And>c. dev (bufs s' ! c) = dev (bufs s ! c) \<and> sector (bufs s' ! c) = sector (bufs s ! c) \<and>
       data (bufs s' ! c) = data (bufs s ! c) \<and> qnext (bufs s' ! c) = qnext (bufs s ! c)"
proof -
  have R: "length (bufs s) = 11" "distinct xs" "set xs = {..<NBUF}"
    "linked (\<lambda>i. next_buf (bufs s ! i)) (\<lambda>i. prev (bufs s ! i)) xs"
    using assms(1) by (simp_all add: lru_ring_def)
  obtain as cs where xs: "xs = as @ b # cs" using split_list [of b xs] R(3) assms(2) by auto
  define p where "p = List.last (NBUF # as)"
  define n where "n = hd (cs @ [NBUF])"
  define h where "h = hd ((as @ cs) @ [NBUF])"
  note N = linked_neighbours [OF R(4) [unfolded xs], folded p_def n_def]
  have "NBUF \<notin> set xs" using R(3) by simp
  then have dist: "distinct (NBUF # as @ b # cs)" using R(2) by (simp add: xs)
  have p: "p \<in> set (NBUF # as)" unfolding p_def by (rule last_in_set) simp
  have n: "n \<in> set (cs @ [NBUF])" unfolding n_def by (rule hd_in_set) simp
  have h: "h \<in> set ((as @ cs) @ [NBUF])" unfolding h_def by (rule hd_in_set) simp
  have "x < 11" if "x = NBUF \<or> x \<in> set as \<or> x \<in> set cs" for x
  proof (cases "x = NBUF")
    case False
    then have "x \<in> set xs" using that by (simp add: xs)
    then show ?thesis using R(3) by simp
  qed simp
  then have lt: "p < 11" "n < 11" "h < 11" "b < 11" using p n h assms(2) by auto
  have ne: "n \<noteq> b" "p \<noteq> b" "h \<noteq> b" using p n h dist by auto
  define t1 where "t1 = upd (\<lambda>x. x\<lparr>prev := p\<rparr>) n (bufs s)"
  define t2 where "t2 = upd (\<lambda>x. x\<lparr>next_buf := n\<rparr>) p t1"
  define t3 where "t3 = upd (\<lambda>x. x\<lparr>next_buf := h, prev := NBUF\<rparr>) b t2"
  define t4 where "t4 = upd (\<lambda>x. x\<lparr>prev := b\<rparr>) h t3"
  define t5 where "t5 = upd (\<lambda>x. x\<lparr>next_buf := b\<rparr>) NBUF t4"
  define t6 where "t6 = upd (\<lambda>x. x\<lparr>flags := flags x AND NOT B_BUSY\<rparr>) b t5"
  have len: "length t1 = 11" "length t2 = 11" "length t3 = 11" "length t4 = 11" "length t5 = 11" "length t6 = 11"
    using R(1) by (simp_all add: t1_def t2_def t3_def t4_def t5_def t6_def)
  have nx2: "(\<lambda>i. next_buf (t2 ! i)) = (\<lambda>i. next_buf (bufs s ! i))(p := n)"
    unfolding t2_def using len lt by (subst upd_field) (simp_all add: t1_def nth_upd_field)
  have pv2: "(\<lambda>i. prev (t2 ! i)) = (\<lambda>i. prev (bufs s ! i))(n := p)"
  proof -
    have "(\<lambda>i. prev (t2 ! i)) = (\<lambda>i. prev (t1 ! i))" by (simp add: t2_def nth_upd_field)
    also have "\<dots> = (\<lambda>i. prev (bufs s ! i))(n := p)" unfolding t1_def using R(1) lt by (subst upd_field) simp_all
    finally show ?thesis .
  qed
  have link2: "linked (\<lambda>i. next_buf (t2 ! i)) (\<lambda>i. prev (t2 ! i)) (as @ cs)"
    unfolding nx2 pv2 by (rule linked_remove [OF R(4) [unfolded xs] dist, folded p_def n_def])
  have head2: "next_buf (t2 ! NBUF) = h"
  proof -
    have "(NBUF, h) \<in> adjacent (as @ cs)" using adjacent_append [of "[]" "as @ cs"] by (simp add: h_def)
    from linkedD [OF link2 this] show ?thesis by simp
  qed
  have nx6: "(\<lambda>i. next_buf (t6 ! i)) = (\<lambda>i. next_buf (t2 ! i))(b := h, NBUF := b)"
  proof -
    have "(\<lambda>i. next_buf (t6 ! i)) = (\<lambda>i. next_buf (t4 ! i))(NBUF := b)"
    proof -
      have "(\<lambda>i. next_buf (t6 ! i)) = (\<lambda>i. next_buf (t5 ! i))" by (simp add: t6_def nth_upd_field)
      also have "\<dots> = (\<lambda>i. next_buf (t4 ! i))(NBUF := b)" unfolding t5_def using len by (subst upd_field) simp_all
      finally show ?thesis .
    qed
    moreover have "(\<lambda>i. next_buf (t4 ! i)) = (\<lambda>i. next_buf (t2 ! i))(b := h)"
    proof -
      have "(\<lambda>i. next_buf (t4 ! i)) = (\<lambda>i. next_buf (t3 ! i))" by (simp add: t4_def nth_upd_field)
      also have "\<dots> = (\<lambda>i. next_buf (t2 ! i))(b := h)" unfolding t3_def using len lt by (subst upd_field) simp_all
      finally show ?thesis .
    qed
    ultimately show ?thesis by simp
  qed
  have pv6: "(\<lambda>i. prev (t6 ! i)) = (\<lambda>i. prev (t2 ! i))(b := NBUF, h := b)"
  proof -
    have "(\<lambda>i. prev (t6 ! i)) = (\<lambda>i. prev (t4 ! i))"
      by (simp add: t6_def t5_def nth_upd_field)
    moreover have "(\<lambda>i. prev (t4 ! i)) = (\<lambda>i. prev (t3 ! i))(h := b)"
      unfolding t4_def using len lt by (subst upd_field) simp_all
    moreover have "(\<lambda>i. prev (t3 ! i)) = (\<lambda>i. prev (t2 ! i))(b := NBUF)"
      unfolding t3_def using len lt by (subst upd_field) simp_all
    ultimately show ?thesis by simp
  qed
  have link6: "linked (\<lambda>i. next_buf (t6 ! i)) (\<lambda>i. prev (t6 ! i)) (b # as @ cs)"
    unfolding nx6 pv6 by (rule linked_push [OF link2, of b, folded h_def]) (use dist in auto)
  have keep: "flags (t5 ! c) = flags (bufs s ! c)" "dev (t6 ! c) = dev (bufs s ! c)"
    "sector (t6 ! c) = sector (bufs s ! c)" "data (t6 ! c) = data (bufs s ! c)"
    "qnext (t6 ! c) = qnext (bufs s ! c)" for c
    by (simp_all add: t6_def t5_def t4_def t3_def t2_def t1_def nth_upd_field)
  have fl: "flags (t6 ! c) = (if c = b then flags (bufs s ! b) AND NOT B_BUSY else flags (bufs s ! c))" for c
    using keep(1) len lt by (simp add: t6_def)
  define s' where "s' = s\<lparr>bufs := t6\<rparr>"
  have "brelse_wakes b s = Inr ([ChanBuf b], s')"
  proof -
    have e1: "next_buf (bufs s ! b) = n" "prev (bufs s ! b) = p" using N by simp_all
    have e2: "next_buf (t1 ! b) = n" "prev (t1 ! b) = p" using e1 ne by (simp_all add: t1_def)
    have e3: "next_buf (t3 ! NBUF) = h" using head2 assms(2) by (simp add: t3_def)
    show ?thesis
      using assms(3) unfolding brelse_wakes_def Let_def upd_buf_def
      by (simp add: e1 t1_def [symmetric] e2 t2_def [symmetric] head2 t3_def [symmetric] e3
          t4_def [symmetric] t5_def [symmetric] t6_def [symmetric, simplified] s'_def)
  qed
  moreover have "lru_ring (bufs s') (to_front b xs)"
    using link6 len dist R xs assms(2) by (simp add: s'_def lru_ring_def to_front_def remove1_append)
  ultimately show ?thesis by (rule that) (simp_all add: s'_def fl keep)
qed

section \<open>The invariant of the cache\<close>

definition block_addr :: "u32 \<Rightarrow> u32 \<Rightarrow> bool" where
  "block_addr d sec \<longleftrightarrow> d \<le> 1 \<and> sec < 0x10000000"

definition buf_ok :: "bio \<Rightarrow> nat set \<Rightarrow> nat \<Rightarrow> bool" where
  "buf_ok s H b \<longleftrightarrow> (let x = bufs s ! b in
     (flags x AND B_BUSY \<noteq> 0 \<longleftrightarrow> b \<in> H) \<and> flags x AND B_DIRTY = 0 \<and>
     (if flags x AND B_VALID = 0 then dev x = - 1 \<and> b \<notin> H
      else block_addr (dev x) (sector x) \<and> (dev x = 0 \<or> havedisk1 s) \<and> length (data x) = 512 \<and>
           (b \<notin> H \<longrightarrow> data x = disk s (dev x, sector x))))"

definition cache_ok :: "bio \<Rightarrow> nat list \<Rightarrow> nat set \<Rightarrow> bool" where
  "cache_ok s xs H \<longleftrightarrow> lru_ring (bufs s) xs \<and> ide_ok s [] \<and> H \<subseteq> {..<NBUF} \<and>
     (\<forall>a. length (disk s a) = 512) \<and> (\<forall>b<NBUF. buf_ok s H b) \<and>
     (\<forall>b<NBUF. \<forall>c<NBUF. flags (bufs s ! b) AND B_VALID \<noteq> 0 \<longrightarrow> flags (bufs s ! c) AND B_VALID \<noteq> 0 \<longrightarrow>
        dev (bufs s ! b) = dev (bufs s ! c) \<longrightarrow> sector (bufs s ! b) = sector (bufs s ! c) \<longrightarrow> b = c)"

text \<open>The block a buffer stands for.\<close>

definition block_of :: "bio \<Rightarrow> nat \<Rightarrow> u32 \<times> u32" where
  "block_of s b = (dev (bufs s ! b), sector (bufs s ! b))"

lemma ideaddr_id:
  assumes "block_addr d sec"
  shows "ideaddr d sec = (d, sec)"
proof -
  have "unat d \<le> 1" using assms by (simp add: block_addr_def word_le_nat_alt)
  then have "unat d = unat (0 :: u32) \<or> unat d = unat (1 :: u32)" by auto
  then have "d = 0 \<or> d = 1" by (simp only: word_unat_eq_iff)
  moreover have "uint sec < 2 ^ 28" using assms by (simp add: block_addr_def word_less_alt)
  then have "sec AND mask 28 = sec" by (simp only: mask_eq_iff)
  then have "sec AND 0x0FFFFFFF = sec" by (simp add: mask_eq_exp_minus_1)
  ultimately show ?thesis by (auto simp: ideaddr_def)
qed

lemma ide_ok_Nil: "ide_ok s [] \<longleftrightarrow> length (bufs s) = Suc NBUF \<and> idequeue s = None"
  by (auto simp: ide_ok_def started_def)

lemma cache_okD:
  assumes "cache_ok s xs H"
  shows "lru_ring (bufs s) xs" "length (bufs s) = 11" "idequeue s = None" "H \<subseteq> {..<NBUF}"
    "length (disk s a) = 512" "b < NBUF \<Longrightarrow> buf_ok s H b"
  using assms unfolding cache_ok_def ide_ok_Nil by (blast, simp, blast+)

lemma cache_ok_uniq:
  assumes "cache_ok s xs H" "b < NBUF" "c < NBUF" "block_of s b = block_of s c"
    "flags (bufs s ! b) AND B_VALID \<noteq> 0" "flags (bufs s ! c) AND B_VALID \<noteq> 0"
  shows "b = c"
  using assms unfolding cache_ok_def block_of_def by blast

text \<open>An operation changes one buffer, the order of the ring, and at most the disk block of that buffer.\<close>

lemma cache_ok_upd:
  assumes ok: "cache_ok s xs H"
    and ring: "lru_ring (bufs s') xs'" and idle: "idequeue s' = None" "havedisk1 s' = havedisk1 s"
    and disk: "\<And>a. length (disk s' a) = 512" "\<And>a. a \<noteq> block_of s' b \<Longrightarrow> disk s' a = disk s a"
    and held: "H' \<subseteq> {..<NBUF}" "\<And>c. c \<noteq> b \<Longrightarrow> c \<in> H' \<longleftrightarrow> c \<in> H"
    and same: "\<And>c. c \<noteq> b \<Longrightarrow> flags (bufs s' ! c) = flags (bufs s ! c) \<and> dev (bufs s' ! c) = dev (bufs s ! c) \<and>
       sector (bufs s' ! c) = sector (bufs s ! c) \<and> data (bufs s' ! c) = data (bufs s ! c)"
    and fresh: "\<And>c. c < NBUF \<Longrightarrow> c \<noteq> b \<Longrightarrow> flags (bufs s ! c) AND B_VALID \<noteq> 0 \<Longrightarrow> block_of s c \<noteq> block_of s' b"
    and b: "buf_ok s' H' b"
  shows "cache_ok s' xs' H'"
proof -
  have valid: "flags (bufs s' ! c) AND B_VALID \<noteq> 0 \<Longrightarrow> c < NBUF \<Longrightarrow> c \<noteq> b \<Longrightarrow>
      block_of s' c = block_of s c \<and> block_of s c \<noteq> block_of s' b" for c
    using same [of c] fresh [of c] by (simp add: block_of_def)
  have "buf_ok s' H' c" if c: "c < NBUF" "c \<noteq> b" for c
  proof -
    note S = same [OF c(2)]
    have "disk s' (dev (bufs s ! c), sector (bufs s ! c)) = disk s (dev (bufs s ! c), sector (bufs s ! c))"
      if "flags (bufs s ! c) AND B_VALID \<noteq> 0"
      using fresh [OF c that] disk(2) by (simp add: block_of_def)
    then show ?thesis
      using cache_okD(6) [OF ok c(1)] S held(2) [OF c(2)] idle(2) by (auto simp: buf_ok_def Let_def)
  qed
  moreover have "length (bufs s') = Suc NBUF" using ring by (simp add: lru_ring_def)
  moreover have "x = y"
    if xy: "x < NBUF" "y < NBUF" "flags (bufs s' ! x) AND B_VALID \<noteq> 0" "flags (bufs s' ! y) AND B_VALID \<noteq> 0"
      "block_of s' x = block_of s' y" for x y
  proof (cases "x = b \<or> y = b")
    case True
    then show ?thesis using valid [of x] valid [of y] xy by metis
  next
    case False
    then show ?thesis using cache_ok_uniq [OF ok xy(1, 2)] valid [of x] valid [of y] xy same [of x] same [of y] by auto
  qed
  ultimately show ?thesis
    using ring idle(1) disk(1) held(1) b unfolding cache_ok_def ide_ok_Nil block_of_def by blast
qed

section \<open>The operations keep the invariant\<close>

lemma buf_okD:
  assumes "cache_ok s xs H" "b < NBUF"
  shows "flags (bufs s ! b) AND B_BUSY \<noteq> 0 \<longleftrightarrow> b \<in> H" "flags (bufs s ! b) AND B_DIRTY = 0"
    "flags (bufs s ! b) AND B_VALID = 0 \<Longrightarrow> dev (bufs s ! b) = - 1 \<and> b \<notin> H"
    "flags (bufs s ! b) AND B_VALID \<noteq> 0 \<Longrightarrow> block_addr (dev (bufs s ! b)) (sector (bufs s ! b)) \<and>
       (dev (bufs s ! b) = 0 \<or> havedisk1 s) \<and> length (data (bufs s ! b)) = 512 \<and>
       (b \<notin> H \<longrightarrow> data (bufs s ! b) = disk s (block_of s b))"
  using cache_okD(6) [OF assms] unfolding buf_ok_def Let_def block_of_def by presburger+

lemma held_valid:
  assumes "cache_ok s xs H" "b \<in> H"
  shows "b < NBUF" "flags (bufs s ! b) AND B_VALID \<noteq> 0" "flags (bufs s ! b) AND B_BUSY \<noteq> 0"
  using cache_okD(4) [OF assms(1)] buf_okD [OF assms(1), of b] assms(2) by auto

lemma lru_ring_set: "lru_ring bs xs \<Longrightarrow> b \<in> set xs \<longleftrightarrow> b < NBUF"
  by (simp add: lru_ring_def)

lemma find_SomeD: "find P xs = Some x \<Longrightarrow> x \<in> set xs \<and> P x"
  by (induction xs) (auto split: if_splits)

lemma bread_hit:
  assumes ok: "cache_ok s xs H" and addr: "block_addr d sec"
    and free: "\<And>c. c \<in> H \<Longrightarrow> block_of s c \<noteq> (d, sec)"
    and b: "b < NBUF" "block_of s b = (d, sec)"
  defines "s' \<equiv> upd_buf b (\<lambda>x. x\<lparr>flags := flags x OR B_BUSY\<rparr>) s"
  shows "flags (bufs s ! b) AND B_BUSY = 0" "flags (bufs s' ! b) AND B_VALID \<noteq> 0"
    "cache_ok s' xs (insert b H)" "data (bufs s' ! b) = disk s (d, sec)"
proof -
  have len: "length (bufs s) = 11" by (rule cache_okD(2) [OF ok])
  have nH: "b \<notin> H" using free b(2) by blast
  then show nb: "flags (bufs s ! b) AND B_BUSY = 0" using buf_okD(1) [OF ok b(1)] by blast
  have "d \<noteq> - 1" using addr
    by (auto simp: block_addr_def word_le_nat_alt unsigned_minus_1_eq_mask mask_eq_exp_minus_1)
  then have v: "flags (bufs s ! b) AND B_VALID \<noteq> 0" using buf_okD(3) [OF ok b(1)] b(2) by (auto simp: block_of_def)
  note V = buf_okD(4) [OF ok b(1) v]
  have nb': "bufs s' ! b = (bufs s ! b)\<lparr>flags := flags (bufs s ! b) OR B_BUSY\<rparr>"
    using len b(1) by (simp add: s'_def)
  show v': "flags (bufs s' ! b) AND B_VALID \<noteq> 0" using v by (simp add: nb' flag_simps)
  show "data (bufs s' ! b) = disk s (d, sec)" using V nH b(2) by (simp add: nb')
  have blk: "block_of s' b = block_of s b" by (simp add: block_of_def nb')
  have hd: "havedisk1 s' = havedisk1 s" by (simp add: s'_def)
  show "cache_ok s' xs (insert b H)"
  proof (rule cache_ok_upd [OF ok, where b = b])
    show "lru_ring (bufs s') xs"
      by (rule lru_ring_cong [OF cache_okD(1) [OF ok]]) (simp_all add: s'_def nth_upd_field)
    show "insert b H \<subseteq> {..<NBUF}" using cache_okD(4) [OF ok] b(1) by simp
    show "block_of s c \<noteq> block_of s' b" if "c < NBUF" "c \<noteq> b" "flags (bufs s ! c) AND B_VALID \<noteq> 0" for c
      using cache_ok_uniq [OF ok that(1) b(1) _ that(3) v] that(2) unfolding blk by blast
    show "buf_ok s' (insert b H) b"
      using V v v' buf_okD(2) [OF ok b(1)] hd by (simp add: buf_ok_def nb' flag_simps Let_def)
  qed (use cache_okD(3, 5) [OF ok] in \<open>simp_all add: s'_def\<close>)
qed

lemma bread_miss:
  assumes ok: "cache_ok s xs H" and addr: "block_addr d sec" "d = 0 \<or> havedisk1 s"
    and none: "\<And>c. c < NBUF \<Longrightarrow> block_of s c \<noteq> (d, sec)" and b: "b < NBUF" "b \<notin> H"
  obtains s' where
    "iderw b (upd_buf b (\<lambda>x. x\<lparr>dev := d, sector := sec, flags := B_BUSY\<rparr>) s) = Inr s'"
    "cache_ok s' xs (insert b H)" "block_of s' b = (d, sec)" "data (bufs s' ! b) = disk s (d, sec)"
    "disk s' = disk s" "havedisk1 s' = havedisk1 s" "\<And>c. c \<noteq> b \<Longrightarrow> bufs s' ! c = bufs s ! c"
proof -
  define t where "t = upd_buf b (\<lambda>x. x\<lparr>dev := d, sector := sec, flags := B_BUSY\<rparr>) s"
  have len: "length (bufs s) = 11" by (rule cache_okD(2) [OF ok])
  have tb: "bufs t ! b = (bufs s ! b)\<lparr>dev := d, sector := sec, flags := B_BUSY\<rparr>"
    using len b(1) by (simp add: t_def)
  have "ide_ok t []" using len cache_okD(3) [OF ok] by (simp add: ide_ok_Nil t_def)
  moreover have "pending (bufs t ! b)" by (simp add: pending_def tb)
  moreover have "dev (bufs t ! b) = 0 \<or> havedisk1 t" using addr(2) by (simp add: tb) (simp add: t_def)
  ultimately obtain s' where s': "iderw b t = Inr s'" "ide_ok s' []"
    "bufs s' = (bufs t)[b := (finish t b)\<lparr>qnext := None\<rparr>]" "havedisk1 s' = havedisk1 t"
    "disk s' = disk t"
    using iderw_idle [of t b] b(1) by (auto simp: tb flag_simps)
  have adr: "buf_addr (bufs t ! b) = (d, sec)" using ideaddr_id [OF addr(1)] by (simp add: tb buf_addr_def)
  have dt: "disk t = disk s" by (simp add: t_def)
  have sb: "bufs s' ! b = (finish t b)\<lparr>qnext := None\<rparr>" using len b(1) by (simp add: s'(3) t_def)
  have fin: "flags (finish t b) = 3" "data (finish t b) = disk s (d, sec)" "dev (finish t b) = d" "sector (finish t b) = sec"
    unfolding finish_def Let_def adr using dt by (simp_all add: tb)
  have oth: "bufs s' ! c = bufs s ! c" if "c \<noteq> b" for c using that by (simp add: s'(3) t_def)
  have eqs: "disk s' = disk s" "havedisk1 s' = havedisk1 s" using s'(4, 5) by (simp_all add: t_def)
  have blk: "block_of s' b = (d, sec)" by (simp add: block_of_def sb tb)
  have "cache_ok s' xs (insert b H)"
  proof (rule cache_ok_upd [OF ok, where b = b])
    show "lru_ring (bufs s') xs"
    proof (rule lru_ring_cong [OF cache_okD(1) [OF ok]])
      show "length (bufs s') = length (bufs s)" by (simp add: s'(3) t_def)
      show "next_buf (bufs s' ! i) = next_buf (bufs s ! i) \<and> prev (bufs s' ! i) = prev (bufs s ! i)" for i
        by (cases "i = b") (simp_all add: oth sb tb)
    qed
    show "insert b H \<subseteq> {..<NBUF}" using cache_okD(4) [OF ok] b(1) by simp
    show "block_of s c \<noteq> block_of s' b" if "c < NBUF" "c \<noteq> b" "flags (bufs s ! c) AND B_VALID \<noteq> 0" for c
      using none [OF that(1)] by (simp add: blk)
    show "buf_ok s' (insert b H) b"
      using addr eqs cache_okD(5) [OF ok] by (simp add: buf_ok_def sb tb fin Let_def)
  qed (use cache_okD(5) [OF ok] s'(2) oth eqs in \<open>simp_all add: ide_ok_Nil\<close>)
  then show ?thesis using that s'(1) blk eqs oth fin(2) sb by (simp add: t_def)
qed

lemma bread_ok:
  assumes ok: "cache_ok s xs H" and addr: "block_addr d sec" "d = 0 \<or> havedisk1 s"
    and free: "\<And>c. c \<in> H \<Longrightarrow> block_of s c \<noteq> (d, sec)" and room: "card H < NBUF"
  obtains b s' where "bread d sec s = Inr (b, s')" "b < NBUF" "b \<notin> H" "cache_ok s' xs (insert b H)"
    "block_of s' b = (d, sec)" "data (bufs s' ! b) = disk s (d, sec)" "disk s' = disk s"
    "havedisk1 s' = havedisk1 s" "\<And>c. c \<noteq> b \<Longrightarrow> bufs s' ! c = bufs s ! c"
proof -
  note ring = cache_okD(1) [OF ok]
  define P where "P = (\<lambda>i. dev (bufs s ! i) = d \<and> sector (bufs s ! i) = sec)"
  define Q where "Q = (\<lambda>i. flags (bufs s ! i) AND B_BUSY = 0)"
  show ?thesis
  proof (cases "find P xs")
    case (Some b)
    then have b: "b < NBUF" "block_of s b = (d, sec)"
      using find_SomeD [OF Some] lru_ring_set [OF ring, of b] by (auto simp: P_def block_of_def)
    note B = bread_hit [OF ok addr(1) free b]
    define s' where "s' = upd_buf b (\<lambda>x. x\<lparr>flags := flags x OR B_BUSY\<rparr>) s"
    have "bread d sec s = Inr (b, s')"
      using B(1, 2) Some lru_scans(1) [OF ring] by (simp add: bread_def bget_def P_def s'_def)
    moreover have "b \<notin> H" using free b(2) by blast
    moreover have "block_of s' b = (d, sec)" using b(2) by (simp add: block_of_def s'_def nth_upd_field)
    moreover have "\<And>c. c \<noteq> b \<Longrightarrow> bufs s' ! c = bufs s ! c" by (simp add: s'_def)
    ultimately show ?thesis using that [of b s'] b(1) B(3, 4) by (simp add: s'_def)
  next
    case None
    then have none: "block_of s c \<noteq> (d, sec)" if "c < NBUF" for c
      using lru_ring_set [OF ring, of c] that by (auto simp: find_None_iff P_def block_of_def)
    have "\<exists>i\<in>set (rev xs). Q i"
    proof -
      have "H \<noteq> {..<NBUF}" using room by auto
      then obtain i where "i < NBUF" "i \<notin> H" using cache_okD(4) [OF ok] by auto
      then show ?thesis using buf_okD(1) [OF ok] lru_ring_set [OF ring, of i] by (auto simp: Q_def)
    qed
    then obtain b where find: "find Q (rev xs) = Some b" using find_None_iff [of Q "rev xs"] by auto
    then have b: "b < NBUF" "b \<notin> H"
      using find_SomeD [OF find] lru_ring_set [OF ring, of b] buf_okD(1) [OF ok, of b] by (auto simp: Q_def)
    obtain s' where s': "iderw b (upd_buf b (\<lambda>x. x\<lparr>dev := d, sector := sec, flags := B_BUSY\<rparr>) s) = Inr s'"
      "cache_ok s' xs (insert b H)" "block_of s' b = (d, sec)" "data (bufs s' ! b) = disk s (d, sec)"
      "disk s' = disk s" "havedisk1 s' = havedisk1 s" "\<And>c. c \<noteq> b \<Longrightarrow> bufs s' ! c = bufs s ! c"
      using bread_miss [OF ok addr none b] by blast
    have "bread d sec s = Inr (b, s')"
      using None find s'(1) b(1) cache_okD(2) [OF ok] lru_scans [OF ring]
      by (simp add: bread_def bget_def P_def Q_def)
    then show ?thesis using that b s' by blast
  qed
qed

lemma bwrite_ok:
  assumes ok: "cache_ok s xs H" and b: "b \<in> H"
  obtains s' where "bwrite b s = Inr s'" "cache_ok s' xs H" "block_of s' b = block_of s b"
    "data (bufs s' ! b) = data (bufs s ! b)" "disk s' = (disk s)(block_of s b := data (bufs s ! b))"
    "havedisk1 s' = havedisk1 s" "\<And>c. c \<noteq> b \<Longrightarrow> bufs s' ! c = bufs s ! c"
proof -
  note B = held_valid [OF ok b]
  note V = buf_okD(4) [OF ok B(1, 2)]
  define t where "t = upd_buf b (\<lambda>x. x\<lparr>flags := flags x OR B_DIRTY\<rparr>) s"
  have len: "length (bufs s) = 11" by (rule cache_okD(2) [OF ok])
  have tb: "bufs t ! b = (bufs s ! b)\<lparr>flags := flags (bufs s ! b) OR B_DIRTY\<rparr>"
    using len B(1) by (simp add: t_def)
  have dt: "disk t = disk s" "havedisk1 t = havedisk1 s" by (simp_all add: t_def)
  have adr: "buf_addr (bufs t ! b) = block_of s b"
    using ideaddr_id [of "dev (bufs s ! b)" "sector (bufs s ! b)"] V by (simp add: tb buf_addr_def block_of_def)
  have "ide_ok t []" using len cache_okD(3) [OF ok] by (simp add: ide_ok_Nil t_def)
  moreover have "pending (bufs t ! b)" using B(3) by (simp add: pending_def tb flag_simps)
  moreover have "dev (bufs t ! b) = 0 \<or> havedisk1 t" using V dt by (simp add: tb)
  moreover have "flags (bufs t ! b) AND B_DIRTY \<noteq> 0" by (simp add: tb flag_simps)
  ultimately obtain s' where s': "iderw b t = Inr s'" "ide_ok s' []"
    "bufs s' = (bufs t)[b := (finish t b)\<lparr>qnext := None\<rparr>]" "havedisk1 s' = havedisk1 t"
    "disk s' = (disk t)(buf_addr (bufs t ! b) := data (bufs t ! b))"
    using iderw_idle [of t b] B(1) by (metis (no_types, lifting))
  have sb: "bufs s' ! b = (finish t b)\<lparr>qnext := None\<rparr>" using len B(1) by (simp add: s'(3) t_def)
  have fin: "flags (finish t b) = ((flags (bufs s ! b) OR 4) OR 2) AND NOT 4" "data (finish t b) = data (bufs s ! b)"
    unfolding finish_def Let_def by (simp_all add: tb flag_simps)
  have oth: "bufs s' ! c = bufs s ! c" if "c \<noteq> b" for c using that by (simp add: s'(3) t_def)
  have blk: "block_of s' b = block_of s b" by (simp add: block_of_def sb tb)
  have eqs: "disk s' = (disk s)(block_of s b := data (bufs s ! b))" "havedisk1 s' = havedisk1 s"
    using s'(4, 5) adr dt by (simp_all add: tb)
  have "cache_ok s' xs H"
  proof (rule cache_ok_upd [OF ok, where b = b])
    show "lru_ring (bufs s') xs"
    proof (rule lru_ring_cong [OF cache_okD(1) [OF ok]])
      show "length (bufs s') = length (bufs s)" by (simp add: s'(3) t_def)
      show "next_buf (bufs s' ! i) = next_buf (bufs s ! i) \<and> prev (bufs s' ! i) = prev (bufs s ! i)" for i
        by (cases "i = b") (simp_all add: oth sb tb)
    qed
    show "block_of s c \<noteq> block_of s' b" if "c < NBUF" "c \<noteq> b" "flags (bufs s ! c) AND B_VALID \<noteq> 0" for c
      using cache_ok_uniq [OF ok that(1) B(1) _ that(3) B(2)] that(2) unfolding blk by blast
    show "buf_ok s' H b"
      using V B b eqs by (simp add: buf_ok_def sb tb fin Let_def flag_simps)
    show "length (disk s' a) = 512" for a using cache_okD(5) [OF ok] V by (simp add: eqs)
    show "disk s' a = disk s a" if "a \<noteq> block_of s' b" for a using that by (simp add: eqs blk)
    show "H \<subseteq> {..<NBUF}" by (rule cache_okD(4) [OF ok])
  qed (use s'(2) oth eqs in \<open>simp_all add: ide_ok_Nil\<close>)
  moreover have "bwrite b s = Inr s'" using B(3) s'(1) by (simp add: bwrite_def t_def)
  ultimately show ?thesis using that blk eqs oth fin(2) sb by simp
qed

lemma set_data_ok:
  assumes ok: "cache_ok s xs H" and b: "b \<in> H" and ys: "length ys = 512"
  shows "cache_ok (set_data b ys s) xs H" "data (bufs (set_data b ys s) ! b) = ys"
    "block_of (set_data b ys s) c = block_of s c"
    "c \<noteq> b \<Longrightarrow> bufs (set_data b ys s) ! c = bufs s ! c"
    "disk (set_data b ys s) = disk s" "havedisk1 (set_data b ys s) = havedisk1 s"
proof -
  note B = held_valid [OF ok b]
  note V = buf_okD(4) [OF ok B(1, 2)]
  define t where "t = set_data b ys s"
  have len: "length (bufs s) = 11" by (rule cache_okD(2) [OF ok])
  have tb: "bufs t ! b = (bufs s ! b)\<lparr>data := ys\<rparr>" using len B(1) by (simp add: t_def set_data_def)
  have hd: "havedisk1 t = havedisk1 s" by (simp add: t_def set_data_def)
  show blk: "block_of t c = block_of s c" for c
    by (simp add: block_of_def t_def set_data_def nth_upd_field)
  show "data (bufs t ! b) = ys" by (simp add: tb)
  show "c \<noteq> b \<Longrightarrow> bufs t ! c = bufs s ! c" "disk t = disk s" "havedisk1 t = havedisk1 s"
    by (simp_all add: t_def set_data_def)
  show "cache_ok t xs H"
  proof (rule cache_ok_upd [OF ok, where b = b])
    show "lru_ring (bufs t) xs"
      by (rule lru_ring_cong [OF cache_okD(1) [OF ok]]) (simp_all add: t_def set_data_def nth_upd_field)
    show "block_of s c \<noteq> block_of t b" if "c < NBUF" "c \<noteq> b" "flags (bufs s ! c) AND B_VALID \<noteq> 0" for c
      using cache_ok_uniq [OF ok that(1) B(1) _ that(3) B(2)] that(2) unfolding blk by blast
    show "buf_ok t H b"
      using V B b ys hd buf_okD(2) [OF ok B(1)] by (simp add: buf_ok_def tb Let_def flag_simps)
    show "H \<subseteq> {..<NBUF}" by (rule cache_okD(4) [OF ok])
  qed (use cache_okD(3, 5) [OF ok] in \<open>simp_all add: t_def set_data_def\<close>)
qed

lemma brelse_ok:
  assumes ok: "cache_ok s xs H" and b: "b \<in> H" "data (bufs s ! b) = disk s (block_of s b)"
  obtains s' where "brelse b s = Inr s'" "cache_ok s' (to_front b xs) (H - {b})" "disk s' = disk s"
    "havedisk1 s' = havedisk1 s"
    "\<And>c. block_of s' c = block_of s c \<and> data (bufs s' ! c) = data (bufs s ! c)"
proof -
  note B = held_valid [OF ok b(1)]
  note V = buf_okD(4) [OF ok B(1, 2)]
  obtain s' where s': "brelse_wakes b s = Inr ([ChanBuf b], s')" "lru_ring (bufs s') (to_front b xs)"
    "idequeue s' = idequeue s" "havedisk1 s' = havedisk1 s" "disk s' = disk s" "idecmd s' = idecmd s"
    "\<And>c. flags (bufs s' ! c) = (if c = b then flags (bufs s ! b) AND NOT B_BUSY else flags (bufs s ! c))"
    "\<And>c. dev (bufs s' ! c) = dev (bufs s ! c) \<and> sector (bufs s' ! c) = sector (bufs s ! c) \<and>
       data (bufs s' ! c) = data (bufs s ! c) \<and> qnext (bufs s' ! c) = qnext (bufs s ! c)"
    using brelse_ring [OF cache_okD(1) [OF ok] B(1, 3)] by blast
  have blk: "block_of s' c = block_of s c" for c using s'(8) [of c] by (simp add: block_of_def)
  have "cache_ok s' (to_front b xs) (H - {b})"
  proof (rule cache_ok_upd [OF ok, where b = b])
    show "block_of s c \<noteq> block_of s' b" if "c < NBUF" "c \<noteq> b" "flags (bufs s ! c) AND B_VALID \<noteq> 0" for c
      using cache_ok_uniq [OF ok that(1) B(1) _ that(3) B(2)] that(2) unfolding blk by blast
    show "buf_ok s' (H - {b}) b"
      using V B(2) b(2) s'(4, 5) s'(7) [of b] s'(8) [of b] buf_okD(2) [OF ok B(1)]
      by (simp add: buf_ok_def Let_def flag_simps block_of_def)
    show "H - {b} \<subseteq> {..<NBUF}" using cache_okD(4) [OF ok] by auto
    show "flags (bufs s' ! c) = flags (bufs s ! c) \<and> dev (bufs s' ! c) = dev (bufs s ! c) \<and>
       sector (bufs s' ! c) = sector (bufs s ! c) \<and> data (bufs s' ! c) = data (bufs s ! c)" if "c \<noteq> b" for c
      using s'(7) [of c] s'(8) [of c] that by simp
  qed (use s'(2-5) cache_okD(3, 5) [OF ok] in simp_all)
  then show ?thesis using that s'(1, 4, 5, 8) blk by (simp add: brelse_def)
qed

section \<open>The fresh cache\<close>

lemma binit_loop_ok:
  assumes "linked (\<lambda>i. next_buf (bufs s ! i)) (\<lambda>i. prev (bufs s ! i)) ys" "distinct (NBUF # bs @ ys)"
    "set bs \<subseteq> {..<NBUF}" "set ys \<subseteq> {..<NBUF}" "length (bufs s) = 11"
  shows "linked (\<lambda>i. next_buf (bufs (binit_loop bs s) ! i)) (\<lambda>i. prev (bufs (binit_loop bs s) ! i)) (rev bs @ ys) \<and>
    length (bufs (binit_loop bs s)) = 11 \<and> idequeue (binit_loop bs s) = idequeue s \<and>
    havedisk1 (binit_loop bs s) = havedisk1 s \<and> disk (binit_loop bs s) = disk s \<and>
    (\<forall>c. flags (bufs (binit_loop bs s) ! c) = flags (bufs s ! c)) \<and>
    (\<forall>c. dev (bufs (binit_loop bs s) ! c) = (if c \<in> set bs then - 1 else dev (bufs s ! c)))"
  using assms
proof (induction bs arbitrary: s ys)
  case (Cons b bs)
  define h where "h = next_buf (bufs s ! NBUF)"
  define t1 where "t1 = upd (\<lambda>x. x\<lparr>next_buf := h, prev := NBUF, dev := - 1\<rparr>) b (bufs s)"
  define t2 where "t2 = upd (\<lambda>x. x\<lparr>prev := b\<rparr>) h t1"
  define t3 where "t3 = upd (\<lambda>x. x\<lparr>next_buf := b\<rparr>) NBUF t2"
  have "(NBUF, hd (ys @ [NBUF])) \<in> adjacent ys" using adjacent_append [of "[]" ys] by simp
  from linkedD [OF Cons.prems(1) this] have h: "h = hd (ys @ [NBUF])" by (simp add: h_def)
  have "h \<in> set (ys @ [NBUF])" unfolding h by (rule hd_in_set) simp
  then have lt: "h < 11" "b < 11" using Cons.prems(3, 4) by auto
  have len: "length t1 = 11" "length t2 = 11" "length t3 = 11" using Cons.prems(5) by (simp_all add: t1_def t2_def t3_def)
  have nx: "(\<lambda>i. next_buf (t3 ! i)) = (\<lambda>i. next_buf (bufs s ! i))(b := h, NBUF := b)"
  proof -
    have "(\<lambda>i. next_buf (t3 ! i)) = (\<lambda>i. next_buf (t2 ! i))(NBUF := b)"
      unfolding t3_def using len by (subst upd_field) simp_all
    moreover have "(\<lambda>i. next_buf (t2 ! i)) = (\<lambda>i. next_buf (t1 ! i))" by (simp add: t2_def nth_upd_field)
    moreover have "(\<lambda>i. next_buf (t1 ! i)) = (\<lambda>i. next_buf (bufs s ! i))(b := h)"
      unfolding t1_def using Cons.prems(5) lt by (subst upd_field) simp_all
    ultimately show ?thesis by simp
  qed
  have pv: "(\<lambda>i. prev (t3 ! i)) = (\<lambda>i. prev (bufs s ! i))(b := NBUF, h := b)"
  proof -
    have "(\<lambda>i. prev (t3 ! i)) = (\<lambda>i. prev (t2 ! i))" by (simp add: t3_def nth_upd_field)
    moreover have "(\<lambda>i. prev (t2 ! i)) = (\<lambda>i. prev (t1 ! i))(h := b)"
      unfolding t2_def using len lt by (subst upd_field) simp_all
    moreover have "(\<lambda>i. prev (t1 ! i)) = (\<lambda>i. prev (bufs s ! i))(b := NBUF)"
      unfolding t1_def using Cons.prems(5) lt by (subst upd_field) simp_all
    ultimately show ?thesis by simp
  qed
  have dist: "distinct (NBUF # b # ys)" "distinct (NBUF # bs @ b # ys)" using Cons.prems(2) by auto
  have "linked (\<lambda>i. next_buf (t3 ! i)) (\<lambda>i. prev (t3 ! i)) (b # ys)"
    unfolding nx pv h by (rule linked_push [OF Cons.prems(1) dist(1)])
  then have IH: "linked (\<lambda>i. next_buf (bufs (binit_loop bs (s\<lparr>bufs := t3\<rparr>)) ! i))
        (\<lambda>i. prev (bufs (binit_loop bs (s\<lparr>bufs := t3\<rparr>)) ! i)) (rev bs @ b # ys) \<and>
      length (bufs (binit_loop bs (s\<lparr>bufs := t3\<rparr>))) = 11 \<and> idequeue (binit_loop bs (s\<lparr>bufs := t3\<rparr>)) = idequeue s \<and>
      havedisk1 (binit_loop bs (s\<lparr>bufs := t3\<rparr>)) = havedisk1 s \<and> disk (binit_loop bs (s\<lparr>bufs := t3\<rparr>)) = disk s \<and>
      (\<forall>c. flags (bufs (binit_loop bs (s\<lparr>bufs := t3\<rparr>)) ! c) = flags (t3 ! c)) \<and>
      (\<forall>c. dev (bufs (binit_loop bs (s\<lparr>bufs := t3\<rparr>)) ! c) = (if c \<in> set bs then - 1 else dev (t3 ! c)))"
    using Cons.IH [of "s\<lparr>bufs := t3\<rparr>" "b # ys"] dist(2) Cons.prems(3, 4) len by simp
  have loop: "binit_loop (b # bs) s = binit_loop bs (s\<lparr>bufs := t3\<rparr>)"
    by (simp add: upd_buf_def Let_def t3_def t2_def t1_def h_def)
  have fl: "flags (t3 ! c) = flags (bufs s ! c)" for c by (simp add: t3_def t2_def t1_def nth_upd_field)
  have dv: "dev (t3 ! c) = (if c = b then - 1 else dev (bufs s ! c))" for c
    using Cons.prems(5) lt by (simp add: t3_def t2_def nth_upd_field) (simp add: t1_def)
  show ?case unfolding loop using IH fl dv by auto
qed simp

lemma binit_ok:
  assumes "length (bufs s) = Suc NBUF" "\<forall>b<NBUF. flags (bufs s ! b) = 0" "idequeue s = None" "\<forall>a. length (disk s a) = 512"
  shows "cache_ok (binit s) (rev [0..<NBUF]) {}"
proof -
  define t where "t = upd_buf NBUF (\<lambda>x. x\<lparr>prev := NBUF, next_buf := NBUF\<rparr>) s"
  have "linked (\<lambda>i. next_buf (bufs t ! i)) (\<lambda>i. prev (bufs t ! i)) []"
    using assms(1) by (simp add: linked_def adjacent_def t_def)
  note L = binit_loop_ok [OF this, of "[0..<NBUF]", simplified, unfolded atLeast0LessThan]
  have t: "length (bufs t) = 11" "idequeue t = None" "disk t = disk s" "\<forall>b<NBUF. flags (bufs t ! b) = 0"
    using assms by (simp_all add: t_def)
  have eq: "binit s = binit_loop [0..<NBUF] t" by (simp add: binit_def t_def)
  note M = L [OF order_refl t(1), folded eq]
  have fl: "flags (bufs (binit s) ! b) = 0 \<and> dev (bufs (binit s) ! b) = - 1" if "b < NBUF" for b using M t(4) that by simp
  have "lru_ring (bufs (binit s)) (rev [0..<NBUF])"
    unfolding lru_ring_def using M by (simp add: atLeast0LessThan)
  moreover have "buf_ok (binit s) {} b" if "b < NBUF" for b using fl [OF that] by (simp add: buf_ok_def)
  ultimately show ?thesis using M t(2, 3) assms(4) fl by (auto simp: cache_ok_def ide_ok_Nil)
qed

section \<open>The contract of a buffer cache\<close>

text \<open>
  \<open>ok s H\<close> is a cache whose busy buffers are \<open>H\<close>, \<open>contents\<close> the block device behind it,
  \<open>held\<close> the block and the bytes of a busy buffer, \<open>block\<close> the addresses the device has. The
  clients read a block, may change its bytes and write it back, and release it.
\<close>

locale buffer_cache =
  fixes ok :: "'s \<Rightarrow> nat set \<Rightarrow> bool"
    and contents :: "'s \<Rightarrow> u32 \<times> u32 \<Rightarrow> u8 list"
    and held :: "'s \<Rightarrow> nat \<Rightarrow> (u32 \<times> u32) \<times> u8 list"
    and block :: "'s \<Rightarrow> u32 \<times> u32 \<Rightarrow> bool"
    and get :: "u32 \<Rightarrow> u32 \<Rightarrow> 's \<Rightarrow> (nat \<times> 's) res"
    and put :: "nat \<Rightarrow> u8 list \<Rightarrow> 's \<Rightarrow> 's"
    and flush :: "nat \<Rightarrow> 's \<Rightarrow> 's res"
    and drop_buf :: "nat \<Rightarrow> 's \<Rightarrow> 's res"
  assumes get_ok: "ok s H \<Longrightarrow> block s (d, n) \<Longrightarrow> (\<forall>c\<in>H. fst (held s c) \<noteq> (d, n)) \<Longrightarrow> card H < NBUF \<Longrightarrow>
       \<exists>b s'. get d n s = Inr (b, s') \<and> b \<notin> H \<and> ok s' (insert b H) \<and> held s' b = ((d, n), contents s (d, n)) \<and>
         contents s' = contents s \<and> block s' = block s \<and> (\<forall>c\<in>H. held s' c = held s c)"
    and put_ok: "ok s H \<Longrightarrow> b \<in> H \<Longrightarrow> length xs = 512 \<Longrightarrow>
       ok (put b xs s) H \<and> held (put b xs s) b = (fst (held s b), xs) \<and> contents (put b xs s) = contents s \<and>
       block (put b xs s) = block s \<and> (\<forall>c\<in>H - {b}. held (put b xs s) c = held s c)"
    and flush_ok: "ok s H \<Longrightarrow> b \<in> H \<Longrightarrow>
       \<exists>s'. flush b s = Inr s' \<and> ok s' H \<and> contents s' = (contents s)(fst (held s b) := snd (held s b)) \<and>
         block s' = block s \<and> (\<forall>c\<in>H. held s' c = held s c)"
    and drop_ok: "ok s H \<Longrightarrow> b \<in> H \<Longrightarrow> snd (held s b) = contents s (fst (held s b)) \<Longrightarrow>
       \<exists>s'. drop_buf b s = Inr s' \<and> ok s' (H - {b}) \<and> contents s' = contents s \<and> block s' = block s \<and>
         (\<forall>c\<in>H - {b}. held s' c = held s c)"
begin

text \<open>Reading a block and releasing it.\<close>

lemma read_block:
  assumes "ok s H" "block s (d, n)" "\<forall>c\<in>H. fst (held s c) \<noteq> (d, n)" "card H < NBUF"
  shows "\<exists>b s1 s2. get d n s = Inr (b, s1) \<and> snd (held s1 b) = contents s (d, n) \<and> drop_buf b s1 = Inr s2 \<and>
    ok s2 H \<and> contents s2 = contents s \<and> block s2 = block s \<and> (\<forall>c\<in>H. held s2 c = held s c)"
proof -
  from get_ok [OF assms] obtain b s1 where
    g: "get d n s = Inr (b, s1)" "b \<notin> H" "ok s1 (insert b H)" "held s1 b = ((d, n), contents s (d, n))"
      "contents s1 = contents s" "block s1 = block s" "\<forall>c\<in>H. held s1 c = held s c" by blast
  have "snd (held s1 b) = contents s1 (fst (held s1 b))" using g(4, 5) by simp
  from drop_ok [OF g(3) insertI1 this] obtain s2 where
    r: "drop_buf b s1 = Inr s2" "ok s2 (insert b H - {b})" "contents s2 = contents s1" "block s2 = block s1"
      "\<forall>c\<in>insert b H - {b}. held s2 c = held s1 c" by blast
  have "insert b H - {b} = H" using g(2) by simp
  then show ?thesis using g r by auto
qed

text \<open>Reading a block, changing its bytes, writing it back and releasing it.\<close>

lemma update_block:
  assumes "ok s H" "block s (d, n)" "\<forall>c\<in>H. fst (held s c) \<noteq> (d, n)" "card H < NBUF"
    "length (f (contents s (d, n))) = 512"
  shows "\<exists>b s1 s2 s3. get d n s = Inr (b, s1) \<and> snd (held s1 b) = contents s (d, n) \<and>
    flush b (put b (f (contents s (d, n))) s1) = Inr s2 \<and> drop_buf b s2 = Inr s3 \<and>
    ok s3 H \<and> contents s3 = (contents s)((d, n) := f (contents s (d, n))) \<and> block s3 = block s \<and>
    (\<forall>c\<in>H. held s3 c = held s c)"
proof -
  from get_ok [OF assms(1-4)] obtain b s1 where
    g: "get d n s = Inr (b, s1)" "b \<notin> H" "ok s1 (insert b H)" "held s1 b = ((d, n), contents s (d, n))"
      "contents s1 = contents s" "block s1 = block s" "\<forall>c\<in>H. held s1 c = held s c" by blast
  define ys where "ys = f (contents s (d, n))"
  define t where "t = put b ys s1"
  have p: "ok t (insert b H)" "held t b = ((d, n), ys)" "contents t = contents s" "block t = block s"
    "\<forall>c\<in>H. held t c = held s c"
    using put_ok [OF g(3) insertI1, of ys] assms(5) g by (auto simp: t_def ys_def)
  from flush_ok [OF p(1) insertI1] p(2, 3) obtain s2 where
    w: "flush b t = Inr s2" "ok s2 (insert b H)" "contents s2 = (contents s)((d, n) := ys)" "block s2 = block t"
      "\<forall>c\<in>insert b H. held s2 c = held t c" by auto
  have "snd (held s2 b) = contents s2 (fst (held s2 b))" using w(3, 5) p(2) by simp
  from drop_ok [OF w(2) insertI1 this] obtain s3 where
    r: "drop_buf b s2 = Inr s3" "ok s3 (insert b H - {b})" "contents s3 = contents s2" "block s3 = block s2"
      "\<forall>c\<in>insert b H - {b}. held s3 c = held s2 c" by blast
  have eq: "insert b H - {b} = H" using g(2) by simp
  have "\<forall>c\<in>H. held s3 c = held s c" using r(5) w(5) p(5) unfolding eq by auto
  then show ?thesis using g(1, 4) w(1, 3, 4) r(1-4) p(4) unfolding eq ys_def t_def by (intro exI conjI) auto
qed

end

definition bcache_ok :: "bio \<Rightarrow> nat set \<Rightarrow> bool" where
  "bcache_ok s H \<longleftrightarrow> (\<exists>xs. cache_ok s xs H)"

definition held_buf :: "bio \<Rightarrow> nat \<Rightarrow> (u32 \<times> u32) \<times> u8 list" where
  "held_buf s b = (block_of s b, data (bufs s ! b))"

definition has_block :: "bio \<Rightarrow> u32 \<times> u32 \<Rightarrow> bool" where
  "has_block s a \<longleftrightarrow> block_addr (fst a) (snd a) \<and> (fst a = 0 \<or> havedisk1 s)"

lemma held_bufI: "bufs s' ! c = bufs s ! c \<Longrightarrow> held_buf s' c = held_buf s c"
  by (simp add: held_buf_def block_of_def)

interpretation bc: buffer_cache bcache_ok disk held_buf has_block bread set_data bwrite brelse
proof
  fix s H d n
  assume ok: "bcache_ok s H" and blk: "has_block s (d, n)" and free: "\<forall>c\<in>H. fst (held_buf s c) \<noteq> (d, n)"
    and room: "card H < NBUF"
  from ok obtain xs where xs: "cache_ok s xs H" by (auto simp: bcache_ok_def)
  have addr: "block_addr d n" "d = 0 \<or> havedisk1 s" using blk by (simp_all add: has_block_def)
  have "block_of s c \<noteq> (d, n)" if "c \<in> H" for c using free that by (simp add: held_buf_def)
  from bread_ok [OF xs addr this room] obtain b s' where
    r: "bread d n s = Inr (b, s')" "b < NBUF" "b \<notin> H" "cache_ok s' xs (insert b H)"
    "block_of s' b = (d, n)" "data (bufs s' ! b) = disk s (d, n)" "disk s' = disk s"
    "havedisk1 s' = havedisk1 s" "\<And>c. c \<noteq> b \<Longrightarrow> bufs s' ! c = bufs s ! c" by blast
  have "\<forall>c\<in>H. held_buf s' c = held_buf s c" by (metis r(3, 9) held_bufI)
  moreover have "has_block s' = has_block s" using r(8) by (simp add: has_block_def fun_eq_iff)
  ultimately show "\<exists>b s'. bread d n s = Inr (b, s') \<and> b \<notin> H \<and> bcache_ok s' (insert b H) \<and>
      held_buf s' b = ((d, n), disk s (d, n)) \<and> disk s' = disk s \<and> has_block s' = has_block s \<and>
      (\<forall>c\<in>H. held_buf s' c = held_buf s c)"
    using r(1, 3-7) by (auto simp: bcache_ok_def held_buf_def)
next
  fix s H b and ys :: "u8 list"
  assume ok: "bcache_ok s H" and b: "b \<in> H" and ys: "length ys = 512"
  from ok obtain xs where xs: "cache_ok s xs H" by (auto simp: bcache_ok_def)
  note S = set_data_ok [OF xs b ys]
  have "\<forall>c\<in>H - {b}. held_buf (set_data b ys s) c = held_buf s c" by (metis S(4) DiffD2 held_bufI singletonI)
  moreover have "has_block (set_data b ys s) = has_block s" using S(6) by (simp add: has_block_def fun_eq_iff)
  ultimately show "bcache_ok (set_data b ys s) H \<and> held_buf (set_data b ys s) b = (fst (held_buf s b), ys) \<and>
      disk (set_data b ys s) = disk s \<and> has_block (set_data b ys s) = has_block s \<and>
      (\<forall>c\<in>H - {b}. held_buf (set_data b ys s) c = held_buf s c)"
    using S(1, 2, 3, 5) by (auto simp: bcache_ok_def held_buf_def)
next
  fix s H b
  assume ok: "bcache_ok s H" and b: "b \<in> H"
  from ok obtain xs where xs: "cache_ok s xs H" by (auto simp: bcache_ok_def)
  from bwrite_ok [OF xs b] obtain s' where
    w: "bwrite b s = Inr s'" "cache_ok s' xs H" "block_of s' b = block_of s b"
    "data (bufs s' ! b) = data (bufs s ! b)" "disk s' = (disk s)(block_of s b := data (bufs s ! b))"
    "havedisk1 s' = havedisk1 s" "\<And>c. c \<noteq> b \<Longrightarrow> bufs s' ! c = bufs s ! c" by blast
  have "held_buf s' c = held_buf s c" for c
    by (cases "c = b") (use w in \<open>simp_all add: held_buf_def block_of_def\<close>)
  moreover have "has_block s' = has_block s" using w(6) by (simp add: has_block_def fun_eq_iff)
  ultimately show "\<exists>s'. bwrite b s = Inr s' \<and> bcache_ok s' H \<and>
      disk s' = (disk s)(fst (held_buf s b) := snd (held_buf s b)) \<and> has_block s' = has_block s \<and>
      (\<forall>c\<in>H. held_buf s' c = held_buf s c)"
    using w by (auto simp: bcache_ok_def held_buf_def)
next
  fix s H b
  assume ok: "bcache_ok s H" and b: "b \<in> H" and eq: "snd (held_buf s b) = disk s (fst (held_buf s b))"
  from ok obtain xs where xs: "cache_ok s xs H" by (auto simp: bcache_ok_def)
  have "data (bufs s ! b) = disk s (block_of s b)" using eq by (simp add: held_buf_def)
  from brelse_ok [OF xs b this] obtain s' where
    r: "brelse b s = Inr s'" "cache_ok s' (to_front b xs) (H - {b})" "disk s' = disk s" "havedisk1 s' = havedisk1 s"
    "\<And>c. block_of s' c = block_of s c \<and> data (bufs s' ! c) = data (bufs s ! c)" by blast
  have "held_buf s' c = held_buf s c" for c using r(5) by (simp add: held_buf_def)
  moreover have "has_block s' = has_block s" using r(4) by (simp add: has_block_def fun_eq_iff)
  ultimately show "\<exists>s'. brelse b s = Inr s' \<and> bcache_ok s' (H - {b}) \<and> disk s' = disk s \<and> has_block s' = has_block s \<and>
      (\<forall>c\<in>H - {b}. held_buf s' c = held_buf s c)"
    using r by (auto simp: bcache_ok_def)
qed

section \<open>Properties\<close>


text \<open>The cache just after boot, over a given disk image.\<close>

definition fresh_cache :: "(u32 \<times> u32 \<Rightarrow> u8 list) \<Rightarrow> bio" where
  "fresh_cache D = binit
     \<lparr>bufs = replicate 11 \<lparr>flags = 0, dev = 0, sector = 0, prev = 0, next_buf = 0, qnext = None, data = []\<rparr>,
      idequeue = None, havedisk1 = True, idecmd = (0, 0), disk = D\<rparr>"

lemma fresh_cache_ok:
  assumes "\<And>a. length (D a) = 512"
  shows "bcache_ok (fresh_cache D) {}" "disk (fresh_cache D) = D"
    "has_block (fresh_cache D) a \<longleftrightarrow> block_addr (fst a) (snd a)"
proof -
  define s where "s = \<lparr>bufs = replicate 11 \<lparr>flags = 0, dev = 0, sector = 0, prev = 0, next_buf = 0, qnext = None, data = []\<rparr>,
      idequeue = None, havedisk1 = True, idecmd = (0, 0), disk = D\<rparr>"
  have "cache_ok (binit s) (rev [0..<NBUF]) {}" by (rule binit_ok) (simp_all add: s_def assms)
  then show "bcache_ok (fresh_cache D) {}" unfolding bcache_ok_def fresh_cache_def s_def by blast
  have "havedisk1 (binit_loop bs s) = havedisk1 s \<and> disk (binit_loop bs s) = disk s" for bs and s :: bio
    by (induction bs s rule: binit_loop.induct) (simp_all add: Let_def)
  then show "disk (fresh_cache D) = D" "has_block (fresh_cache D) a \<longleftrightarrow> block_addr (fst a) (snd a)"
    by (simp_all add: fresh_cache_def binit_def has_block_def)
qed


end
