(* ===== verification/Layout.thy ===== *)
theory Layout
  imports Prelude
begin

unbundle bit_operations_syntax

text \<open>
  The layout of structures in blocks of bytes: little-endian integers at an offset of a byte
  list, replacing a stretch of bytes, and the on-disk structures of \<^verbatim>\<open>include/fs.h\<close>
  (super block, inode, directory entry) as records with their encoding.
\<close>

section \<open>Integers in bytes\<close>

definition splice :: "nat \<Rightarrow> 'a list \<Rightarrow> 'a list \<Rightarrow> 'a list" where
  "splice off xs ys = take off ys @ xs @ drop (off + length xs) ys"

definition slice :: "nat \<Rightarrow> nat \<Rightarrow> 'a list \<Rightarrow> 'a list" where
  "slice off n xs = take n (drop off xs)"

definition bytes16 :: "u16 \<Rightarrow> u8 list" where
  "bytes16 w = [ucast w, ucast (drop_bit 8 w)]"

definition bytes32 :: "u32 \<Rightarrow> u8 list" where
  "bytes32 w = [ucast w, ucast (drop_bit 8 w), ucast (drop_bit 16 w), ucast (drop_bit 24 w)]"

definition load16 :: "nat \<Rightarrow> u8 list \<Rightarrow> u16" where
  "load16 off xs = ucast (xs ! off) OR push_bit 8 (ucast (xs ! (off + 1)))"

definition load32 :: "nat \<Rightarrow> u8 list \<Rightarrow> u32" where
  "load32 off xs = ucast (xs ! off) OR push_bit 8 (ucast (xs ! (off + 1))) OR
     push_bit 16 (ucast (xs ! (off + 2))) OR push_bit 24 (ucast (xs ! (off + 3)))"

lemma length_splice: "off + length xs \<le> length ys \<Longrightarrow> length (splice off xs ys) = length ys"
  by (simp add: splice_def)

lemma nth_splice:
  "off + length xs \<le> length ys \<Longrightarrow> i < length ys \<Longrightarrow>
   splice off xs ys ! i = (if off \<le> i \<and> i < off + length xs then xs ! (i - off) else ys ! i)"
  by (auto simp: splice_def nth_append min_def)

lemma slice_splice_same: "off + length xs \<le> length ys \<Longrightarrow> slice off (length xs) (splice off xs ys) = xs"
  by (simp add: slice_def splice_def)

lemma length_slice: "off + n \<le> length xs \<Longrightarrow> length (slice off n xs) = n"
  by (simp add: slice_def)

lemma nth_slice: "off + n \<le> length xs \<Longrightarrow> i < n \<Longrightarrow> slice off n xs ! i = xs ! (off + i)"
  by (simp add: slice_def)

lemma slice_splice_other:
  assumes "off + length xs \<le> length ys" "i + n \<le> length ys" "i + n \<le> off \<or> off + length xs \<le> i"
  shows "slice i n (splice off xs ys) = slice i n ys"
  by (rule nth_equalityI) (use assms in \<open>auto simp: length_slice length_splice nth_slice nth_splice\<close>)

lemma bytes_lengths [simp]: "length (bytes16 w) = 2" "length (bytes32 v) = 4"
  by (simp_all add: bytes16_def bytes32_def)

lemma load16_bytes16: "load16 0 (bytes16 w) = w"
  unfolding load16_def bytes16_def
  by (rule bit_word_eqI) (auto simp: bit_simps)

lemma load32_bytes32: "load32 0 (bytes32 w) = w"
proof (rule bit_word_eqI)
  fix n :: nat
  assume "n < LENGTH(32)"
  then consider "n < 8" | "8 \<le> n" "n < 16" | "16 \<le> n" "n < 24" | "24 \<le> n" "n < 32" by fastforce
  then show "bit (load32 0 (bytes32 w)) n = bit w n"
    by cases (auto simp: load32_def bytes32_def bit_simps)
qed

lemma load16_slice: "off + 2 \<le> length xs \<Longrightarrow> load16 off xs = load16 0 (slice off 2 xs)"
  by (simp add: load16_def nth_slice)

lemma load32_slice: "off + 4 \<le> length xs \<Longrightarrow> load32 off xs = load32 0 (slice off 4 xs)"
  by (simp add: load32_def nth_slice)

lemma load_splice_same [simp]:
  "off + 2 \<le> length xs \<Longrightarrow> load16 off (splice off (bytes16 v) xs) = v"
  "off + 4 \<le> length xs \<Longrightarrow> load32 off (splice off (bytes32 w) xs) = w"
proof -
  assume "off + 2 \<le> length xs"
  then show "load16 off (splice off (bytes16 v) xs) = v"
    using slice_splice_same [of off "bytes16 v" xs] by (subst load16_slice) (simp_all add: length_splice load16_bytes16)
next
  assume "off + 4 \<le> length xs"
  then show "load32 off (splice off (bytes32 w) xs) = w"
    using slice_splice_same [of off "bytes32 w" xs] by (subst load32_slice) (simp_all add: length_splice load32_bytes32)
qed

lemma load_splice_other:
  "off + length ys \<le> length xs \<Longrightarrow> i + 2 \<le> length xs \<Longrightarrow> i + 2 \<le> off \<or> off + length ys \<le> i \<Longrightarrow>
   load16 i (splice off ys xs) = load16 i xs"
  "off + length ys \<le> length xs \<Longrightarrow> i + 4 \<le> length xs \<Longrightarrow> i + 4 \<le> off \<or> off + length ys \<le> i \<Longrightarrow>
   load32 i (splice off ys xs) = load32 i xs"
  by (subst load16_slice load32_slice, simp add: length_splice, subst slice_splice_other, auto simp: load16_slice [symmetric] load32_slice [symmetric])+

section \<open>On-disk structures\<close>

abbreviation BSIZE :: nat where "BSIZE \<equiv> 512"
abbreviation NDIRECT :: nat where "NDIRECT \<equiv> 12"
abbreviation NINDIRECT :: nat where "NINDIRECT \<equiv> 128"
abbreviation MAXFILE :: nat where "MAXFILE \<equiv> NDIRECT + NINDIRECT"
abbreviation DIRSIZ :: nat where "DIRSIZ \<equiv> 14"

record superblock =
  sb_size :: u32
  sb_nblocks :: u32
  sb_ninodes :: u32

definition get_superblock :: "u8 list \<Rightarrow> superblock" where
  "get_superblock xs = \<lparr>sb_size = load32 0 xs, sb_nblocks = load32 4 xs, sb_ninodes = load32 8 xs\<rparr>"

definition superblock_bytes :: "superblock \<Rightarrow> u8 list" where
  "superblock_bytes sb = bytes32 (sb_size sb) @ bytes32 (sb_nblocks sb) @ bytes32 (sb_ninodes sb)"

record dinode =
  d_type :: u16
  d_major :: u16
  d_minor :: u16
  d_nlink :: u16
  d_size :: u32
  d_addrs :: "u32 list"

definition dinode_bytes :: "dinode \<Rightarrow> u8 list" where
  "dinode_bytes d = bytes16 (d_type d) @ bytes16 (d_major d) @ bytes16 (d_minor d) @ bytes16 (d_nlink d) @
     bytes32 (d_size d) @ concat (map bytes32 (d_addrs d))"

definition decode_dinode :: "u8 list \<Rightarrow> dinode" where
  "decode_dinode xs = \<lparr>d_type = load16 0 xs, d_major = load16 2 xs, d_minor = load16 4 xs, d_nlink = load16 6 xs,
     d_size = load32 8 xs, d_addrs = map (\<lambda>k. load32 (12 + 4 * k) xs) [0..<NDIRECT + 1]\<rparr>"

definition zero_dinode :: dinode where
  "zero_dinode = \<lparr>d_type = 0, d_major = 0, d_minor = 0, d_nlink = 0, d_size = 0, d_addrs = replicate (NDIRECT + 1) 0\<rparr>"

text \<open>Inode number \<open>i\<close> of a block of inodes, an array of 64-byte structures.\<close>

definition get_dinode :: "nat \<Rightarrow> u8 list \<Rightarrow> dinode" where
  "get_dinode i xs = decode_dinode (slice (64 * i) 64 xs)"

definition put_dinode :: "nat \<Rightarrow> dinode \<Rightarrow> u8 list \<Rightarrow> u8 list" where
  "put_dinode i d xs = splice (64 * i) (dinode_bytes d) xs"

record dirent =
  de_inum :: u16
  de_name :: "u8 list"

definition dirent_bytes :: "dirent \<Rightarrow> u8 list" where
  "dirent_bytes de = bytes16 (de_inum de) @ de_name de"

definition decode_dirent :: "u8 list \<Rightarrow> dirent" where
  "decode_dirent xs = \<lparr>de_inum = load16 0 xs, de_name = slice 2 DIRSIZ xs\<rparr>"

section \<open>Round trips\<close>

lemma load_append [simp]:
  "load16 (length xs + i) (xs @ ys) = load16 i ys" "load32 (length xs + i) (xs @ ys) = load32 i ys"
  by (simp_all add: load16_def load32_def nth_append)

lemma load_prefix:
  "i + 2 \<le> length xs \<Longrightarrow> load16 i (xs @ ys) = load16 i xs" "i + 4 \<le> length xs \<Longrightarrow> load32 i (xs @ ys) = load32 i xs"
  by (simp_all add: load16_def load32_def nth_append)

lemma load32_concat: "k < length ws \<Longrightarrow> load32 (4 * k) (concat (map bytes32 ws)) = ws ! k"
proof (induction ws arbitrary: k)
  case (Cons w ws)
  show ?case
  proof (cases k)
    case 0
    then show ?thesis by (simp add: load_prefix load32_bytes32)
  next
    case (Suc j)
    then have "load32 (4 * k) (concat (map bytes32 (w # ws))) =
        load32 (length (bytes32 w) + 4 * j) (bytes32 w @ concat (map bytes32 ws))" by simp
    also have "\<dots> = ws ! j" unfolding load_append using Cons Suc by simp
    finally show ?thesis using Suc by simp
  qed
qed simp

lemma length_concat_bytes32 [simp]: "length (concat (map bytes32 ws)) = 4 * length ws"
  by (induction ws) simp_all

lemma length_dinode_bytes: "length (d_addrs d) = NDIRECT + 1 \<Longrightarrow> length (dinode_bytes d) = 64"
  by (simp add: dinode_bytes_def)

lemma decode_dinode_bytes:
  assumes "length (d_addrs d) = NDIRECT + 1"
  shows "decode_dinode (dinode_bytes d) = d"
proof -
  define h where "h = bytes16 (d_type d) @ bytes16 (d_major d) @ bytes16 (d_minor d) @ bytes16 (d_nlink d) @ bytes32 (d_size d)"
  define c where "c = concat (map bytes32 (d_addrs d))"
  have bytes: "dinode_bytes d = h @ c" by (simp add: dinode_bytes_def h_def c_def)
  have len: "length h = 12" by (simp add: h_def)
  have "load16 0 h = d_type d" by (simp add: h_def load_prefix load16_bytes16)
  moreover have "load16 2 h = d_major d"
    using load_append(1) [of "bytes16 (d_type d)" 0] by (simp add: h_def load_prefix load16_bytes16)
  moreover have "load16 4 h = d_minor d"
    using load_append(1) [of "bytes16 (d_type d) @ bytes16 (d_major d)" 0] by (simp add: h_def load_prefix load16_bytes16)
  moreover have "load16 6 h = d_nlink d"
    using load_append(1) [of "bytes16 (d_type d) @ bytes16 (d_major d) @ bytes16 (d_minor d)" 0]
    by (simp add: h_def load_prefix load16_bytes16)
  moreover have "load32 8 h = d_size d"
    using load_append(2) [of "bytes16 (d_type d) @ bytes16 (d_major d) @ bytes16 (d_minor d) @ bytes16 (d_nlink d)" 0]
    by (simp add: h_def load_prefix load32_bytes32)
  moreover have "load32 (12 + 4 * k) (h @ c) = d_addrs d ! k" if "k < 13" for k
    using load_append(2) [of h "4 * k" c] load32_concat [of k "d_addrs d"] that assms len by (simp add: c_def)
  then have "map (\<lambda>k. load32 (12 + 4 * k) (h @ c)) [0..<13] = d_addrs d"
    using assms by (intro nth_equalityI) simp_all
  ultimately show ?thesis by (simp add: decode_dinode_def bytes load_prefix len)
qed

lemma get_put_dinode:
  assumes "length (d_addrs d) = NDIRECT + 1" "length xs = BSIZE" "i < 8" "j < 8"
  shows "get_dinode j (put_dinode i d xs) = (if j = i then d else get_dinode j xs)"
    "length (put_dinode i d xs) = BSIZE"
proof -
  note len = length_dinode_bytes [OF assms(1)]
  show "length (put_dinode i d xs) = BSIZE" using assms len by (simp add: put_dinode_def length_splice)
  have "slice (64 * i) 64 (splice (64 * i) (dinode_bytes d) xs) = dinode_bytes d"
    using slice_splice_same [of "64 * i" "dinode_bytes d" xs] assms len by simp
  moreover have "slice (64 * j) 64 (splice (64 * i) (dinode_bytes d) xs) = slice (64 * j) 64 xs" if "j \<noteq> i"
    using assms len that by (intro slice_splice_other) auto
  ultimately show "get_dinode j (put_dinode i d xs) = (if j = i then d else get_dinode j xs)"
    using decode_dinode_bytes [OF assms(1)] by (simp add: get_dinode_def put_dinode_def)
qed

lemma decode_dirent_bytes: "length (de_name de) = DIRSIZ \<Longrightarrow> decode_dirent (dirent_bytes de) = de"
  by (simp add: decode_dirent_def dirent_bytes_def load_prefix load16_bytes16 slice_def)

lemma get_superblock_bytes: "get_superblock (superblock_bytes sb @ xs) = sb"
proof -
  have len: "length (superblock_bytes sb) = 12" by (simp add: superblock_bytes_def)
  have "load32 0 (superblock_bytes sb) = sb_size sb" "load32 4 (superblock_bytes sb) = sb_nblocks sb" "load32 8 (superblock_bytes sb) = sb_ninodes sb"
    using load_append(2) [of "bytes32 (sb_size sb)" 0] load_append(2) [of "bytes32 (sb_size sb) @ bytes32 (sb_nblocks sb)" 0]
    by (simp_all add: superblock_bytes_def load_prefix load32_bytes32)
  then show ?thesis by (simp add: get_superblock_def load_prefix len)
qed

end
