(* ===== verification/Fs_Blocks.thy ===== *)
theory Fs_Blocks
  imports Bio Layout
begin

unbundle bit_operations_syntax

text \<open>
  Blocks of the file system, the first layer of \<^verbatim>\<open>kernel/fs.c\<close>: the super block, zeroing,
  allocating and freeing blocks in the bitmap. \<open>in_use\<close> reads one bit of the bitmap on disk;
  \<open>io_step s s' H D\<close> says that an operation has kept the invariant of the buffer cache and the
  buffers \<open>H\<close> its caller holds, and has left the disk \<open>D\<close>.
\<close>

section \<open>Operations\<close>

abbreviation (input) IPB :: nat where "IPB \<equiv> 8"
abbreviation (input) BPB :: nat where "BPB \<equiv> 4096"

definition IBLOCK :: "u32 \<Rightarrow> u32" where
  "IBLOCK i = i div of_nat IPB + 2"

definition BBLOCK :: "u32 \<Rightarrow> u32 \<Rightarrow> u32" where
  "BBLOCK b ninodes = b div of_nat BPB + ninodes div of_nat IPB + 3"

definition readsb :: "u32 \<Rightarrow> bio \<Rightarrow> (superblock \<times> bio) res" where
  "readsb d s =
     bindE (bread d 1 s) (\<lambda>(bp, s).
     let sb = get_superblock (data (bufs s ! bp)) in
     bindE (brelse bp s) (\<lambda>s. Inr (sb, s)))"

definition bzero :: "u32 \<Rightarrow> u32 \<Rightarrow> bio \<Rightarrow> bio res" where
  "bzero d bno s =
     bindE (bread d bno s) (\<lambda>(bp, s).
     bindE (bwrite bp (set_data bp (replicate BSIZE 0) s)) (\<lambda>s.
     brelse bp s))"

text \<open>The bit of a bitmap block for its \<open>bi\<close>-th block, and the block with that bit set or cleared.\<close>

definition bit_clear :: "u8 list \<Rightarrow> nat \<Rightarrow> bool" where
  "bit_clear xs bi \<longleftrightarrow> xs ! (bi div 8) AND push_bit (bi mod 8) 1 = 0"

definition mark_bit :: "nat \<Rightarrow> u8 list \<Rightarrow> u8 list" where
  "mark_bit bi xs = xs[bi div 8 := xs ! (bi div 8) OR push_bit (bi mod 8) 1]"

definition unmark_bit :: "nat \<Rightarrow> u8 list \<Rightarrow> u8 list" where
  "unmark_bit bi xs = xs[bi div 8 := xs ! (bi div 8) AND NOT (push_bit (bi mod 8) 1)]"

function balloc_loop :: "u32 \<Rightarrow> superblock \<Rightarrow> nat \<Rightarrow> bio \<Rightarrow> (u32 \<times> bio) res" where
  "balloc_loop d sb b s =
     (if b < unat (sb_size sb) then
        bindE (bread d (BBLOCK (of_nat b) (sb_ninodes sb)) s) (\<lambda>(bp, s).
        case find (bit_clear (data (bufs s ! bp))) [0..<BPB] of
          Some bi \<Rightarrow>
            bindE (bwrite bp (set_data bp (mark_bit bi (data (bufs s ! bp))) s)) (\<lambda>s.
            bindE (brelse bp s) (\<lambda>s. Inr (of_nat (b + bi), s)))
        | None \<Rightarrow> bindE (brelse bp s) (\<lambda>s. balloc_loop d sb (b + BPB) s))
      else Inl (Panic ''balloc: out of blocks''))"
  by pat_completeness auto
termination by (relation "measure (\<lambda>(d, sb, b, s). unat (sb_size sb) - b)") auto

declare balloc_loop.simps [simp del]

definition balloc :: "u32 \<Rightarrow> bio \<Rightarrow> (u32 \<times> bio) res" where
  "balloc d s = bindE (readsb d s) (\<lambda>(sb, s). balloc_loop d sb 0 s)"

definition bfree :: "u32 \<Rightarrow> u32 \<Rightarrow> bio \<Rightarrow> bio res" where
  "bfree d b s =
     bindE (bzero d b s) (\<lambda>s.
     bindE (readsb d s) (\<lambda>(sb, s).
     bindE (bread d (BBLOCK b (sb_ninodes sb)) s) (\<lambda>(bp, s).
     let bi = unat b mod BPB in
     if bit_clear (data (bufs s ! bp)) bi then Inl (Panic ''freeing free block'')
     else
       bindE (bwrite bp (set_data bp (unmark_bit bi (data (bufs s ! bp))) s)) (\<lambda>s.
       brelse bp s))))"

section \<open>Steps on the buffer cache\<close>

definition io_step :: "bio \<Rightarrow> bio \<Rightarrow> nat set \<Rightarrow> (u32 \<times> u32 \<Rightarrow> u8 list) \<Rightarrow> bool" where
  "io_step s s' H D \<longleftrightarrow> bcache_ok s' H \<and> disk s' = D \<and> has_block s' = has_block s \<and>
     (\<forall>c\<in>H. held_buf s' c = held_buf s c)"

definition may_read :: "bio \<Rightarrow> nat set \<Rightarrow> u32 \<times> u32 \<Rightarrow> bool" where
  "may_read s H a \<longleftrightarrow> has_block s a \<and> (\<forall>c\<in>H. fst (held_buf s c) \<noteq> a)"

lemma io_step_trans: "io_step s t H D \<Longrightarrow> io_step t u H E \<Longrightarrow> io_step s u H E"
  by (auto simp: io_step_def)

lemma io_step_may_read: "io_step s t H D \<Longrightarrow> may_read t H a = may_read s H a"
  by (simp add: io_step_def may_read_def)

lemma io_stepD: "io_step s t H D \<Longrightarrow> bcache_ok t H \<and> disk t = D"
  by (simp add: io_step_def)

lemma block_length: "bcache_ok s H \<Longrightarrow> length (disk s a) = BSIZE"
  by (auto simp: bcache_ok_def dest: cache_okD(5))

lemma read_io:
  assumes "bcache_ok s H" "may_read s H (d, n)" "card H < NBUF"
  obtains b s1 s2 where "bread d n s = Inr (b, s1)" "data (bufs s1 ! b) = disk s (d, n)" "brelse b s1 = Inr s2"
    "io_step s s2 H (disk s)"
proof -
  have "has_block s (d, n)" "\<forall>c\<in>H. fst (held_buf s c) \<noteq> (d, n)" using assms(2) by (auto simp: may_read_def)
  from bc.read_block [OF assms(1) this assms(3)] that show ?thesis
    by (auto simp: held_buf_def io_step_def)
qed

lemma update_io:
  assumes "bcache_ok s H" "may_read s H (d, n)" "card H < NBUF" "length (f (disk s (d, n))) = BSIZE"
  obtains b s1 s2 s3 where "bread d n s = Inr (b, s1)" "data (bufs s1 ! b) = disk s (d, n)"
    "bwrite b (set_data b (f (disk s (d, n))) s1) = Inr s2" "brelse b s2 = Inr s3"
    "io_step s s3 H ((disk s)((d, n) := f (disk s (d, n))))"
proof -
  have "has_block s (d, n)" "\<forall>c\<in>H. fst (held_buf s c) \<noteq> (d, n)" using assms(2) by (auto simp: may_read_def)
  from bc.update_block [OF assms(1) this assms(3), of f] assms(4) that show ?thesis
    by (auto simp: held_buf_def io_step_def)
qed

lemma readsb_ok:
  assumes "bcache_ok s H" "may_read s H (d, 1)" "card H < NBUF"
  obtains s' where "readsb d s = Inr (get_superblock (disk s (d, 1)), s')" "io_step s s' H (disk s)"
proof -
  obtain b s1 s2 where "bread d 1 s = Inr (b, s1)" "data (bufs s1 ! b) = disk s (d, 1)" "brelse b s1 = Inr s2"
    "io_step s s2 H (disk s)"
    by (rule read_io [OF assms])
  then show ?thesis using that [of s2] by (simp add: readsb_def)
qed

lemma bzero_ok:
  assumes "bcache_ok s H" "may_read s H (d, n)" "card H < NBUF"
  obtains s' where "bzero d n s = Inr s'" "io_step s s' H ((disk s)((d, n) := replicate BSIZE 0))"
proof -
  obtain b s1 s2 s3 where "bread d n s = Inr (b, s1)" "bwrite b (set_data b (replicate BSIZE 0) s1) = Inr s2"
    "brelse b s2 = Inr s3" "io_step s s3 H ((disk s)((d, n) := replicate BSIZE 0))"
    by (rule update_io [OF assms, of "\<lambda>_. replicate BSIZE 0"]) simp_all
  then show ?thesis using that [of s3] by (simp add: bzero_def)
qed

section \<open>The bitmap\<close>

definition in_use :: "(u32 \<times> u32 \<Rightarrow> u8 list) \<Rightarrow> u32 \<Rightarrow> u32 \<Rightarrow> nat \<Rightarrow> bool" where
  "in_use D d ni b \<longleftrightarrow> \<not> bit_clear (D (d, BBLOCK (of_nat b) ni)) (b mod BPB)"

text \<open>The disk with one bit of the bitmap set or cleared.\<close>

definition mark_used :: "u32 \<Rightarrow> u32 \<Rightarrow> nat \<Rightarrow> (u32 \<times> u32 \<Rightarrow> u8 list) \<Rightarrow> u32 \<times> u32 \<Rightarrow> u8 list" where
  "mark_used d ni b D = D((d, BBLOCK (of_nat b) ni) := mark_bit (b mod BPB) (D (d, BBLOCK (of_nat b) ni)))"

definition mark_free :: "u32 \<Rightarrow> u32 \<Rightarrow> nat \<Rightarrow> (u32 \<times> u32 \<Rightarrow> u8 list) \<Rightarrow> u32 \<times> u32 \<Rightarrow> u8 list" where
  "mark_free d ni b D = D((d, BBLOCK (of_nat b) ni) := unmark_bit (b mod BPB) (D (d, BBLOCK (of_nat b) ni)))"

lemma bit_clear_iff: "bit_clear xs bi \<longleftrightarrow> \<not> bit (xs ! (bi div 8)) (bi mod 8)"
proof -
  have "bit (push_bit (bi mod 8) (1 :: u8)) n \<longleftrightarrow> n = bi mod 8" for n
    by (auto simp: bit_exp_iff)
  then show ?thesis unfolding bit_clear_def by (auto simp: bit_eq_iff [where 'a = u8] bit_and_iff dest: spec [of _ "bi mod 8"])
qed

lemma length_mark [simp]: "length (mark_bit bi xs) = length xs" "length (unmark_bit bi xs) = length xs"
  by (simp_all add: mark_bit_def unmark_bit_def)

lemma bit_clear_mark:
  assumes "length xs = BSIZE" "i < BPB" "j < BPB"
  shows "bit_clear (mark_bit i xs) j \<longleftrightarrow> j \<noteq> i \<and> bit_clear xs j"
    and "bit_clear (unmark_bit i xs) j \<longleftrightarrow> j = i \<or> bit_clear xs j"
proof -
  have lt: "i div 8 < length xs" "j mod 8 < 8" using assms(1, 2) by auto
  have b: "bit (2 ^ (i mod 8) :: u8) (j mod 8) \<longleftrightarrow> j mod 8 = i mod 8"
    by (auto simp: bit_exp_iff)
  have eq: "j = i \<longleftrightarrow> j div 8 = i div 8 \<and> j mod 8 = i mod 8" by (metis div_mult_mod_eq)
  show "bit_clear (mark_bit i xs) j \<longleftrightarrow> j \<noteq> i \<and> bit_clear xs j"
    using lt by (auto simp: bit_clear_iff mark_bit_def nth_list_update bit_or_iff b eq)
  show "bit_clear (unmark_bit i xs) j \<longleftrightarrow> j = i \<or> bit_clear xs j"
    using lt by (auto simp: bit_clear_iff unmark_bit_def nth_list_update bit_and_iff bit_not_iff b eq)
qed

lemma BBLOCK_nat:
  assumes "n < 2 ^ 32"
  shows "BBLOCK (of_nat n) ni = of_nat (n div BPB) + ni div 8 + 3"
proof -
  have "n div 4096 < 2 ^ 32" using assms by (simp add: div_less_dividend less_mult_imp_div_less)
  then have "unat (of_nat n div 4096 :: u32) = unat (of_nat (n div 4096) :: u32)"
    using assms by (simp add: unat_div unsigned_of_nat take_bit_eq_mod)
  then have "(of_nat n div 4096 :: u32) = of_nat (n div 4096)" by (simp only: word_unat_eq_iff)
  then show ?thesis by (simp add: BBLOCK_def)
qed

lemma BBLOCK_chunk:
  assumes "i < BPB" "BPB * q + i < 2 ^ 32"
  shows "BBLOCK (of_nat (BPB * q + i)) ni = BBLOCK (of_nat (BPB * q)) ni"
proof -
  have "BPB * q < 2 ^ 32" using assms(2) by simp
  then show ?thesis using BBLOCK_nat [OF assms(2)] BBLOCK_nat [of "BPB * q"] assms(1) by simp
qed

lemma in_use_chunk:
  "i < BPB \<Longrightarrow> BPB * q + i < 2 ^ 32 \<Longrightarrow> in_use D d ni (BPB * q + i) \<longleftrightarrow> \<not> bit_clear (D (d, BBLOCK (of_nat (BPB * q)) ni)) i"
  by (simp only: in_use_def BBLOCK_chunk) simp

lemma find_first: "i < n \<Longrightarrow> P i \<Longrightarrow> (\<And>j. j < i \<Longrightarrow> \<not> P j) \<Longrightarrow> find P [0..<n] = Some i"
  by (auto simp: find_Some_iff)

lemma balloc_loop_ok:
  assumes "bcache_ok s H" "card H < NBUF"
    and "\<And>k. k < unat (sb_size sb) \<Longrightarrow> may_read s H (d, BBLOCK (of_nat k) (sb_ninodes sb))"
    and "\<not> in_use (disk s) d (sb_ninodes sb) a" "\<And>k. BPB * q \<le> k \<Longrightarrow> k < a \<Longrightarrow> in_use (disk s) d (sb_ninodes sb) k"
    and "a div BPB = q + n" "BPB * (q + n) < unat (sb_size sb)"
  shows "\<exists>s'. balloc_loop d sb (BPB * q) s = Inr (of_nat a, s') \<and>
    io_step s s' H (mark_used d (sb_ninodes sb) a (disk s))"
  using assms
proof (induction n arbitrary: q s)
  case 0
  define ni where "ni = sb_ninodes sb"
  define i where "i = a mod BPB"
  define blk where "blk = BBLOCK (of_nat (BPB * q)) ni"
  have a: "a = BPB * q + i" "i < BPB" using 0(6) div_mult_mod_eq [of a BPB] by (simp_all add: i_def)
  have lt: "BPB * q < unat (sb_size sb)" using 0(7) by simp
  have small: "BPB * q + j < 2 ^ 32" if "j < BPB" for j
  proof -
    have "q < 1048576" using lt by (insert u32_bound [of "sb_size sb"], linarith)
    then show ?thesis using that by simp
  qed
  have cl: "bit_clear (disk s (d, blk)) i"
    using 0(4) in_use_chunk [OF a(2) small [OF a(2)], of "disk s" d ni] by (simp add: a(1) ni_def blk_def)
  have us: "\<not> bit_clear (disk s (d, blk)) j" if "j < i" for j
    using 0(5) [of "BPB * q + j"] in_use_chunk [of j q "disk s" d ni] small [of j] that a by (simp add: ni_def blk_def)
  have F: "find (bit_clear (disk s (d, blk))) [0..<BPB] = Some i" by (rule find_first) (use a(2) cl us in auto)
  have "may_read s H (d, blk)" using 0(3) [OF lt] by (simp add: blk_def ni_def)
  moreover have "length (mark_bit i (disk s (d, blk))) = BSIZE" using block_length [OF 0(1)] by simp
  ultimately obtain b s1 s2 s3 where io: "bread d blk s = Inr (b, s1)" "data (bufs s1 ! b) = disk s (d, blk)"
    "bwrite b (set_data b (mark_bit i (disk s (d, blk))) s1) = Inr s2" "brelse b s2 = Inr s3"
    "io_step s s3 H ((disk s)((d, blk) := mark_bit i (disk s (d, blk))))"
    using update_io [of s H d blk "mark_bit i"] 0(1, 2) by blast
  have "balloc_loop d sb (BPB * q) s = Inr (of_nat a, s3)"
    using lt io F by (subst balloc_loop.simps) (simp add: blk_def ni_def a(1))
  moreover have "BBLOCK (of_nat a) ni = blk"
    using BBLOCK_chunk [OF a(2) small [OF a(2)], of ni] by (simp add: a(1) blk_def)
  then have "(disk s)((d, blk) := mark_bit i (disk s (d, blk))) = mark_used d ni a (disk s)"
    by (simp only: mark_used_def i_def)
  ultimately show ?case using io(5) by (simp add: ni_def)
next
  case (Suc n)
  define ni where "ni = sb_ninodes sb"
  define blk where "blk = BBLOCK (of_nat (BPB * q)) ni"
  have lt: "BPB * q < unat (sb_size sb)" using Suc.prems(7) by simp
  have "BPB * q + BPB \<le> a" using Suc.prems(6) div_mult_mod_eq [of a BPB] by simp
  moreover have small: "BPB * q + j < 2 ^ 32" if "j < BPB" for j
  proof -
    have "q < 1048576" using lt by (insert u32_bound [of "sb_size sb"], linarith)
    then show ?thesis using that by simp
  qed
  ultimately have us: "\<not> bit_clear (disk s (d, blk)) j" if "j < BPB" for j
    using Suc.prems(5) [of "BPB * q + j"] in_use_chunk [of j q "disk s" d ni] small [of j] that
    by (simp add: ni_def blk_def)
  then have F: "find (bit_clear (disk s (d, blk))) [0..<BPB] = None" by (simp add: find_None_iff)
  have "may_read s H (d, blk)" using Suc.prems(3) [OF lt] by (simp add: blk_def ni_def)
  then obtain b s1 s2 where io: "bread d blk s = Inr (b, s1)" "data (bufs s1 ! b) = disk s (d, blk)"
    "brelse b s1 = Inr s2" "io_step s s2 H (disk s)"
    using read_io [of s H d blk] Suc.prems(1, 2) by blast
  have s2: "bcache_ok s2 H" "disk s2 = disk s" using io_stepD [OF io(4)] by simp_all
  have step: "balloc_loop d sb (BPB * q) s = balloc_loop d sb (BPB * Suc q) s2"
    using lt io F by (subst balloc_loop.simps) (simp add: blk_def ni_def add.commute)
  have "\<exists>s'. balloc_loop d sb (BPB * Suc q) s2 = Inr (of_nat a, s') \<and>
    io_step s2 s' H (mark_used d ni a (disk s2))"
    unfolding ni_def
  proof (rule Suc.IH [OF s2(1) Suc.prems(2)])
    show "may_read s2 H (d, BBLOCK (of_nat k) (sb_ninodes sb))" if "k < unat (sb_size sb)" for k
      using Suc.prems(3) [OF that] io_step_may_read [OF io(4)] by simp
    show "in_use (disk s2) d (sb_ninodes sb) k" if "BPB * Suc q \<le> k" "k < a" for k
      using Suc.prems(5) [of k] that s2(2) by simp
  qed (use Suc.prems s2(2) in simp_all)
  then show ?case unfolding step using io_step_trans [OF io(4)] s2(2) by (auto simp: ni_def)
qed

text \<open>
  \<open>fs_ready s H d sb\<close>: the buffers the caller holds are not in the way of the super block and
  the bitmap of the device, whose super block is \<open>sb\<close>.
\<close>

definition fs_ready :: "bio \<Rightarrow> nat set \<Rightarrow> u32 \<Rightarrow> superblock \<Rightarrow> bool" where
  "fs_ready s H d sb \<longleftrightarrow> bcache_ok s H \<and> card H < NBUF \<and> may_read s H (d, 1) \<and>
     get_superblock (disk s (d, 1)) = sb \<and>
     (\<forall>k<unat (sb_size sb). may_read s H (d, BBLOCK (of_nat k) (sb_ninodes sb)))"

lemma balloc_ok:
  assumes "fs_ready s H d sb" "\<not> in_use (disk s) d (sb_ninodes sb) a" "\<And>k. k < a \<Longrightarrow> in_use (disk s) d (sb_ninodes sb) k"
    and "BPB * (a div BPB) < unat (sb_size sb)"
  shows "\<exists>s'. balloc d s = Inr (of_nat a, s') \<and> io_step s s' H (mark_used d (sb_ninodes sb) a (disk s))"
proof -
  have R: "bcache_ok s H" "may_read s H (d, 1)" "card H < NBUF" "get_superblock (disk s (d, 1)) = sb"
    using assms(1) by (simp_all add: fs_ready_def)
  obtain t where t: "readsb d s = Inr (sb, t)" "io_step s t H (disk s)"
    using readsb_ok [OF R(1-3)] R(4) by metis
  have dt: "bcache_ok t H" "disk t = disk s" using io_stepD [OF t(2)] by simp_all
  have "\<exists>s'. balloc_loop d sb (BPB * 0) t = Inr (of_nat a, s') \<and>
      io_step t s' H (mark_used d (sb_ninodes sb) a (disk t))"
  proof (rule balloc_loop_ok [where n = "a div BPB"])
    show "may_read t H (d, BBLOCK (of_nat k) (sb_ninodes sb))" if "k < unat (sb_size sb)" for k
      using assms(1) that io_step_may_read [OF t(2)] by (simp add: fs_ready_def)
  qed (use dt R(3) assms(2-4) in simp_all)
  then show ?thesis using t dt(2) io_step_trans [OF t(2)] by (auto simp: balloc_def)
qed

lemma balloc_loop_full:
  assumes "bcache_ok s H" "card H < NBUF"
    and "\<And>k. k < unat (sb_size sb) \<Longrightarrow> may_read s H (d, BBLOCK (of_nat k) (sb_ninodes sb))"
    and "\<And>k. k < unat (sb_size sb) + BPB \<Longrightarrow> k < 2 ^ 32 \<Longrightarrow> in_use (disk s) d (sb_ninodes sb) k"
  shows "balloc_loop d sb (BPB * q) s = Inl (Panic ''balloc: out of blocks'')"
  using assms
proof (induction "unat (sb_size sb) - BPB * q" arbitrary: q s rule: less_induct)
  case less
  define ni where "ni = sb_ninodes sb"
  define blk where "blk = BBLOCK (of_nat (BPB * q)) ni"
  show ?case
  proof (cases "BPB * q < unat (sb_size sb)")
    case True
    have small: "BPB * q + j < 2 ^ 32" if "j < BPB" for j
    proof -
      have "q < 1048576" using True by (insert u32_bound [of "sb_size sb"], linarith)
      then show ?thesis using that by simp
    qed
    have "\<not> bit_clear (disk s (d, blk)) j" if "j < BPB" for j
      using less.prems(4) [of "BPB * q + j"] in_use_chunk [of j q "disk s" d ni] small [of j] that True
      by (simp add: ni_def blk_def)
    then have F: "find (bit_clear (disk s (d, blk))) [0..<BPB] = None" by (simp add: find_None_iff)
    have "may_read s H (d, blk)" using less.prems(3) [OF True] by (simp add: blk_def ni_def)
    then obtain b s1 s2 where io: "bread d blk s = Inr (b, s1)" "data (bufs s1 ! b) = disk s (d, blk)"
      "brelse b s1 = Inr s2" "io_step s s2 H (disk s)"
      using read_io [of s H d blk] less.prems(1, 2) by blast
    have s2: "bcache_ok s2 H" "disk s2 = disk s" using io_stepD [OF io(4)] by simp_all
    have "balloc_loop d sb (BPB * q) s = balloc_loop d sb (BPB * Suc q) s2"
      using True io F by (subst balloc_loop.simps) (simp add: blk_def ni_def add.commute)
    also have "\<dots> = Inl (Panic ''balloc: out of blocks'')"
      by (rule less.hyps) (use True s2 less.prems io_step_may_read [OF io(4)] in simp_all)
    finally show ?thesis .
  qed (subst balloc_loop.simps, simp)
qed

lemma balloc_full:
  assumes "fs_ready s H d sb" "\<And>k. k < unat (sb_size sb) + BPB \<Longrightarrow> k < 2 ^ 32 \<Longrightarrow> in_use (disk s) d (sb_ninodes sb) k"
  shows "balloc d s = Inl (Panic ''balloc: out of blocks'')"
proof -
  have R: "bcache_ok s H" "may_read s H (d, 1)" "card H < NBUF" "get_superblock (disk s (d, 1)) = sb"
    using assms(1) by (simp_all add: fs_ready_def)
  obtain t where t: "readsb d s = Inr (sb, t)" "io_step s t H (disk s)"
    using readsb_ok [OF R(1-3)] R(4) by metis
  have dt: "bcache_ok t H" "disk t = disk s" using io_stepD [OF t(2)] by simp_all
  have "balloc_loop d sb (BPB * 0) t = Inl (Panic ''balloc: out of blocks'')"
  proof (rule balloc_loop_full)
    show "may_read t H (d, BBLOCK (of_nat k) (sb_ninodes sb))" if "k < unat (sb_size sb)" for k
      using assms(1) that io_step_may_read [OF t(2)] by (simp add: fs_ready_def)
  qed (use dt R(3) assms(2) in simp_all)
  then show ?thesis using t by (simp add: balloc_def)
qed

lemma bfree_ok:
  assumes "fs_ready s H d sb" "may_read s H (d, b)" "in_use (disk s) d (sb_ninodes sb) (unat b)"
    and "unat b < unat (sb_size sb)" "b \<noteq> 1" "\<And>k. k < unat (sb_size sb) \<Longrightarrow> b \<noteq> BBLOCK (of_nat k) (sb_ninodes sb)"
  shows "\<exists>s'. bfree d b s = Inr s' \<and>
    io_step s s' H (mark_free d (sb_ninodes sb) (unat b) ((disk s)((d, b) := replicate BSIZE 0)))"
proof -
  define ni where "ni = sb_ninodes sb"
  define D where "D = (disk s)((d, b) := replicate BSIZE 0)"
  define blk where "blk = BBLOCK b ni"
  define bi where "bi = unat b mod BPB"
  have R: "bcache_ok s H" "may_read s H (d, 1)" "card H < NBUF" "get_superblock (disk s (d, 1)) = sb"
    using assms(1) by (simp_all add: fs_ready_def)
  have bb: "of_nat (unat b) = b" by simp
  have blk: "may_read s H (d, blk)" "b \<noteq> blk"
    using assms(1, 6) assms(4) bb unfolding fs_ready_def blk_def ni_def by metis+
  obtain s1 where z: "bzero d b s = Inr s1" "io_step s s1 H D"
    using bzero_ok [OF R(1) assms(2) R(3)] unfolding D_def by blast
  note d1 = io_stepD [OF z(2)]
  have "get_superblock (D (d, 1)) = sb" using R(4) assms(5) by (simp add: D_def)
  then obtain s2 where sb: "readsb d s1 = Inr (sb, s2)" "io_step s1 s2 H D"
    using readsb_ok [of s1 H d] d1 R(2, 3) io_step_may_read [OF z(2)] by metis
  note d2 = io_stepD [OF sb(2)]
  have st2: "io_step s s2 H D" by (rule io_step_trans [OF z(2) sb(2)])
  have Db: "D (d, blk) = disk s (d, blk)" using blk(2) by (simp add: D_def)
  have len: "length (unmark_bit bi (disk s2 (d, blk))) = BSIZE" using block_length [of s2 H] d2 by simp
  have "may_read s2 H (d, blk)" using blk(1) io_step_may_read [OF st2] by simp
  then obtain p s3 s4 s5 where io: "bread d blk s2 = Inr (p, s3)" "data (bufs s3 ! p) = D (d, blk)"
    "bwrite p (set_data p (unmark_bit bi (D (d, blk))) s3) = Inr s4" "brelse p s4 = Inr s5"
    "io_step s2 s5 H (D((d, blk) := unmark_bit bi (D (d, blk))))"
    using update_io [where f = "unmark_bit bi", OF conjunct1 [OF d2] _ R(3) len, unfolded conjunct2 [OF d2]]
    by blast
  have "\<not> bit_clear (D (d, blk)) bi" using assms(3) unfolding Db by (simp add: in_use_def blk_def bi_def ni_def)
  then have "bfree d b s = Inr s5"
    using z(1) sb(1) io by (simp add: bfree_def blk_def [symmetric] ni_def [symmetric] bi_def [symmetric])
  moreover have "D((d, blk) := unmark_bit bi (D (d, blk))) = mark_free d ni (unat b) D"
    by (simp add: mark_free_def blk_def bi_def)
  ultimately show ?thesis using io_step_trans [OF st2 io(5)] by (simp add: D_def ni_def)
qed

section \<open>Properties\<close>

lemma BBLOCK_inj:
  assumes "a < 2 ^ 32" "b < 2 ^ 32" "BBLOCK (of_nat a) ni = BBLOCK (of_nat b) ni"
  shows "a div BPB = b div BPB"
proof -
  have "(of_nat (a div BPB) :: u32) = of_nat (b div BPB)"
    using assms(3) unfolding BBLOCK_nat [OF assms(1)] BBLOCK_nat [OF assms(2)] by simp
  then have "unat (of_nat (a div BPB) :: u32) = unat (of_nat (b div BPB) :: u32)" by simp
  moreover have "a div BPB < 2 ^ 32" "b div BPB < 2 ^ 32" using assms(1, 2) by (auto simp: less_mult_imp_div_less)
  ultimately show ?thesis by (simp add: unsigned_of_nat take_bit_eq_mod)
qed

lemma in_use_mark_used:
  assumes "length (D (d, BBLOCK (of_nat a) ni)) = BSIZE" "a < 2 ^ 32" "k < 2 ^ 32"
  shows "in_use (mark_used d ni a D) d ni k \<longleftrightarrow> k = a \<or> in_use D d ni k"
proof (cases "BBLOCK (of_nat k) ni = BBLOCK (of_nat a) ni")
  case True
  have "k div BPB = a div BPB" by (rule BBLOCK_inj [OF assms(3, 2) True])
  then have "k = a \<longleftrightarrow> k mod BPB = a mod BPB" by (metis div_mult_mod_eq)
  then show ?thesis using bit_clear_mark(1) [OF assms(1), of "a mod BPB" "k mod BPB"] True
    by (simp add: in_use_def mark_used_def)
next
  case False
  then show ?thesis by (auto simp: in_use_def mark_used_def)
qed

lemma in_use_mark_free:
  assumes "length (D (d, BBLOCK (of_nat a) ni)) = BSIZE" "a < 2 ^ 32" "k < 2 ^ 32"
  shows "in_use (mark_free d ni a D) d ni k \<longleftrightarrow> k \<noteq> a \<and> in_use D d ni k"
proof (cases "BBLOCK (of_nat k) ni = BBLOCK (of_nat a) ni")
  case True
  have "k div BPB = a div BPB" by (rule BBLOCK_inj [OF assms(3, 2) True])
  then have "k = a \<longleftrightarrow> k mod BPB = a mod BPB" by (metis div_mult_mod_eq)
  then show ?thesis using bit_clear_mark(2) [OF assms(1), of "a mod BPB" "k mod BPB"] True
    by (simp add: in_use_def mark_free_def)
next
  case False
  then show ?thesis by (auto simp: in_use_def mark_free_def)
qed

text \<open>
  C25. \<^verbatim>\<open>balloc\<close> takes the first free block. When some bit of the bitmap is clear, the lowest
  such block is returned, in the bitmap it alone becomes used, and no block of the disk but
  that one block of the bitmap changes.
\<close>

theorem balloc_takes_first_free:
  assumes "fs_ready s H d sb" "\<not> in_use (disk s) d (sb_ninodes sb) a" "\<forall>k<a. in_use (disk s) d (sb_ninodes sb) k"
    and "BPB * (a div BPB) < unat (sb_size sb)"
  shows "\<exists>s'. balloc d s = Inr (of_nat a, s') \<and> bcache_ok s' H \<and>
    (\<forall>k<2 ^ 32. in_use (disk s') d (sb_ninodes sb) k \<longleftrightarrow> k = a \<or> in_use (disk s) d (sb_ninodes sb) k) \<and>
    (\<forall>x. x \<noteq> (d, BBLOCK (of_nat a) (sb_ninodes sb)) \<longrightarrow> disk s' x = disk s x)"
proof -
  obtain s' where s': "balloc d s = Inr (of_nat a, s')" "io_step s s' H (mark_used d (sb_ninodes sb) a (disk s))"
    using balloc_ok [OF assms(1, 2) _ assms(4)] assms(3) by blast
  have "a div BPB < 1048576" using assms(4) by (insert u32_bound [of "sb_size sb"], linarith)
  then have "a < 2 ^ 32" by (simp add: div_less_iff_less_mult)
  moreover have "bcache_ok s H" using assms(1) by (simp add: fs_ready_def)
  from block_length [OF this] have "length (disk s x) = BSIZE" for x .
  ultimately have "\<forall>k<2 ^ 32. in_use (disk s') d (sb_ninodes sb) k \<longleftrightarrow> k = a \<or> in_use (disk s) d (sb_ninodes sb) k"
    using io_stepD [OF s'(2)] in_use_mark_used by simp
  moreover have "\<forall>x. x \<noteq> (d, BBLOCK (of_nat a) (sb_ninodes sb)) \<longrightarrow> disk s' x = disk s x"
    using io_stepD [OF s'(2)] by (simp add: mark_used_def)
  ultimately show ?thesis using s'(1) io_stepD [OF s'(2)] by blast
qed

text \<open>A small disk: super block, one block of bitmap with the first 18 blocks in use.\<close>

definition small_disk :: "u32 \<Rightarrow> u32 \<times> u32 \<Rightarrow> u8 list" where
  "small_disk n a =
     (if a = (1, 1) then superblock_bytes \<lparr>sb_size = n, sb_nblocks = n, sb_ninodes = 16\<rparr> @ replicate 500 0
      else if a = (1, 5) then [0xFF, 0xFF, 0x03] @ replicate 509 0 else replicate 512 0)"

lemma small_disk_ready:
  assumes "n \<le> 4096"
  shows "fs_ready (fresh_cache (small_disk n)) {} 1 \<lparr>sb_size = n, sb_nblocks = n, sb_ninodes = 16\<rparr>"
    "disk (fresh_cache (small_disk n)) = small_disk n"
proof -
  have len: "length (small_disk n a) = 512" for a by (simp add: small_disk_def superblock_bytes_def)
  note F = fresh_cache_ok [OF len]
  show "disk (fresh_cache (small_disk n)) = small_disk n" by (rule F(2))
  have "BBLOCK (of_nat k) 16 = 5" if "k < unat n" for k
  proof -
    have "k < BPB" using that assms by (simp add: word_le_nat_alt)
    then show ?thesis by (simp add: BBLOCK_nat)
  qed
  moreover have "get_superblock (small_disk n (1, 1)) = \<lparr>sb_size = n, sb_nblocks = n, sb_ninodes = 16\<rparr>"
    by (simp add: small_disk_def get_superblock_bytes)
  ultimately show "fs_ready (fresh_cache (small_disk n)) {} 1 \<lparr>sb_size = n, sb_nblocks = n, sb_ninodes = 16\<rparr>"
    using F by (simp add: fs_ready_def may_read_def block_addr_def)
qed

lemma small_disk_in_use: "\<forall>k<18. in_use (small_disk n) 1 16 k" "\<not> in_use (small_disk n) 1 16 18"
proof -
  have "BBLOCK (of_nat k) 16 = 5" if "k < 4096" for k using that by (simp add: BBLOCK_nat)
  then have eq: "in_use (small_disk n) 1 16 k \<longleftrightarrow> \<not> bit_clear ([0xFF, 0xFF, 0x03] @ replicate 509 0) k" if "k < 4096" for k
    using that by (simp add: in_use_def small_disk_def)
  have "list_all (\<lambda>k. \<not> bit_clear ([0xFF, 0xFF, 0x03] @ replicate 509 0) k) [0..<18]"
    "bit_clear ([0xFF, 0xFF, 0x03] @ replicate 509 0) 18" by code_simp+
  then show "\<forall>k<18. in_use (small_disk n) 1 16 k" "\<not> in_use (small_disk n) 1 16 18"
    by (simp_all add: eq list_all_iff)
qed

theorem balloc_takes_first_free_witness:
  "\<exists>s'. balloc 1 (fresh_cache (small_disk 100)) = Inr (18, s') \<and> in_use (disk s') 1 16 18"
proof -
  note R = small_disk_ready [of 100, simplified]
  have "\<not> in_use (disk (fresh_cache (small_disk 100))) 1 16 18" "\<forall>k<18. in_use (disk (fresh_cache (small_disk 100))) 1 16 k"
    using small_disk_in_use unfolding R(2) by blast+
  with balloc_takes_first_free [OF R(1), of 18] show ?thesis by auto
qed



end
