(* ===== verification/Fs_Inode.thy ===== *)
theory Fs_Inode
  imports Fs_Blocks
begin

unbundle bit_operations_syntax

text \<open>
  Inodes, the second layer of \<^verbatim>\<open>kernel/fs.c\<close>: the inode cache, inode locks, mapping file
  blocks to disk blocks, truncating, reading and writing file contents, and the checksums of
  files of type \<^verbatim>\<open>T_CHECKED\<close>. A \<^verbatim>\<open>struct inode*\<close> is an index into \<open>icache\<close>.

  The channels that the code wakes are logged in \<open>wakes\<close>. Reading and writing a device inode
  ends in \<open>Device\<close>: the call is passed on to the driver. \<open>Done n xs\<close> is the return value with
  the bytes stored at the caller's address.
\<close>

section \<open>State\<close>

abbreviation (input) NINODE :: nat where "NINODE \<equiv> 50"
abbreviation (input) NDEV :: int where "NDEV \<equiv> 10"
abbreviation (input) CONSOLE :: int where "CONSOLE \<equiv> 1"
abbreviation (input) I_BUSY :: u32 where "I_BUSY \<equiv> 0x1"
abbreviation (input) I_VALID :: u32 where "I_VALID \<equiv> 0x2"
abbreviation (input) T_DIR :: u16 where "T_DIR \<equiv> 1"
abbreviation (input) T_FILE :: u16 where "T_FILE \<equiv> 2"
abbreviation (input) T_DEV :: u16 where "T_DEV \<equiv> 3"
abbreviation (input) T_CHECKED :: u16 where "T_CHECKED \<equiv> 4"

record inode =
  i_dev :: u32
  i_inum :: u32
  i_ref :: int
  i_flags :: u32
  i_type :: u16
  i_major :: u16
  i_minor :: u16
  i_nlink :: u16
  i_size :: u32
  i_addrs :: "u32 list"

record fs =
  io :: bio
  icache :: "inode list"
  wakes :: "chan list"

record stat =
  st_type :: u16
  st_dev :: u32
  st_ino :: u32
  st_nlink :: u16
  st_size :: u32
  st_checksum :: u8

datatype transfer = Device | Done int "u8 list"

definition upd_inode :: "nat \<Rightarrow> (inode \<Rightarrow> inode) \<Rightarrow> fs \<Rightarrow> fs" where
  "upd_inode i f s = s\<lparr>icache := upd f i (icache s)\<rparr>"

definition wake :: "chan \<Rightarrow> fs \<Rightarrow> fs" where
  "wake c s = s\<lparr>wakes := wakes s @ [c]\<rparr>"

text \<open>Operations of the layer below, on the whole state.\<close>

definition on_io :: "(bio \<Rightarrow> ('a \<times> bio) res) \<Rightarrow> fs \<Rightarrow> ('a \<times> fs) res" where
  "on_io f s = bindE (f (io s)) (\<lambda>(x, b). Inr (x, s\<lparr>io := b\<rparr>))"

definition on_io' :: "(bio \<Rightarrow> bio res) \<Rightarrow> fs \<Rightarrow> fs res" where
  "on_io' f s = bindE (f (io s)) (\<lambda>b. Inr (s\<lparr>io := b\<rparr>))"

definition buf_data :: "nat \<Rightarrow> fs \<Rightarrow> u8 list" where
  "buf_data b s = data (bufs (io s) ! b)"

section \<open>The inode cache\<close>

definition iget :: "u32 \<Rightarrow> u32 \<Rightarrow> fs \<Rightarrow> (nat \<times> fs) res" where
  "iget d inum s =
     (case first_idx (\<lambda>ip. i_ref ip > 0 \<and> i_dev ip = d \<and> i_inum ip = inum) (icache s) of
        Some i \<Rightarrow> Inr (i, upd_inode i (\<lambda>ip. ip\<lparr>i_ref := i_ref ip + 1\<rparr>) s)
      | None \<Rightarrow>
          (case first_idx (\<lambda>ip. i_ref ip = 0) (icache s) of
             None \<Rightarrow> Inl (Panic ''iget: no inodes'')
           | Some i \<Rightarrow> Inr (i, upd_inode i (\<lambda>ip. ip\<lparr>i_dev := d, i_inum := inum, i_ref := 1, i_flags := 0\<rparr>) s)))"

definition idup :: "nat \<Rightarrow> fs \<Rightarrow> fs" where
  "idup i s = upd_inode i (\<lambda>ip. ip\<lparr>i_ref := i_ref ip + 1\<rparr>) s"

definition dinode_of :: "inode \<Rightarrow> dinode" where
  "dinode_of ip = \<lparr>d_type = i_type ip, d_major = i_major ip, d_minor = i_minor ip, d_nlink = i_nlink ip,
     d_size = i_size ip, d_addrs = i_addrs ip\<rparr>"

definition load_dinode :: "dinode \<Rightarrow> inode \<Rightarrow> inode" where
  "load_dinode d ip = ip\<lparr>i_type := d_type d, i_major := d_major d, i_minor := d_minor d, i_nlink := d_nlink d,
     i_size := d_size d, i_addrs := d_addrs d\<rparr>"

definition inode_slot :: "u32 \<Rightarrow> nat" where
  "inode_slot inum = unat (inum mod of_nat IPB)"

function ialloc_loop :: "u32 \<Rightarrow> u16 \<Rightarrow> superblock \<Rightarrow> nat \<Rightarrow> fs \<Rightarrow> (nat \<times> fs) res" where
  "ialloc_loop d type sb inum s =
     (if inum < unat (sb_ninodes sb) then
        bindE (on_io (bread d (IBLOCK (of_nat inum))) s) (\<lambda>(bp, s).
        let dip = get_dinode (inode_slot (of_nat inum)) (buf_data bp s) in
        if d_type dip = 0 then
          bindE (on_io' (\<lambda>b. bwrite bp (set_data bp (put_dinode (inode_slot (of_nat inum))
                    (zero_dinode\<lparr>d_type := type\<rparr>) (buf_data bp s)) b)) s) (\<lambda>s.
          bindE (on_io' (brelse bp) s) (\<lambda>s.
          iget d (of_nat inum) s))
        else bindE (on_io' (brelse bp) s) (\<lambda>s. ialloc_loop d type sb (inum + 1) s))
      else Inl (Panic ''ialloc: no inodes''))"
  by pat_completeness auto
termination by (relation "measure (\<lambda>(d, type, sb, inum, s). unat (sb_ninodes sb) - inum)") auto

declare ialloc_loop.simps [simp del]

definition ialloc :: "u32 \<Rightarrow> u16 \<Rightarrow> fs \<Rightarrow> (nat \<times> fs) res" where
  "ialloc d type s = bindE (on_io (readsb d) s) (\<lambda>(sb, s). ialloc_loop d type sb 1 s)"

definition iupdate :: "nat \<Rightarrow> fs \<Rightarrow> fs res" where
  "iupdate i s =
     (let ip = icache s ! i in
      bindE (on_io (bread (i_dev ip) (IBLOCK (i_inum ip))) s) (\<lambda>(bp, s).
      bindE (on_io' (\<lambda>b. bwrite bp (set_data bp (put_dinode (inode_slot (i_inum ip)) (dinode_of ip) (buf_data bp s)) b)) s) (\<lambda>s.
      on_io' (brelse bp) s)))"

definition ilock :: "nat \<Rightarrow> fs \<Rightarrow> fs res" where
  "ilock i s =
     (let ip = icache s ! i in
      if i_ref ip < 1 then Inl (Panic ''ilock'')
      else if i_flags ip AND I_BUSY \<noteq> 0 then Inl (Sleep (ChanInode i))
      else
        let s = upd_inode i (\<lambda>ip. ip\<lparr>i_flags := i_flags ip OR I_BUSY\<rparr>) s in
        if i_flags (icache s ! i) AND I_VALID = 0 then
          bindE (on_io (bread (i_dev ip) (IBLOCK (i_inum ip))) s) (\<lambda>(bp, s).
          let s = upd_inode i (load_dinode (get_dinode (inode_slot (i_inum ip)) (buf_data bp s))) s in
          bindE (on_io' (brelse bp) s) (\<lambda>s.
          let s = upd_inode i (\<lambda>ip. ip\<lparr>i_flags := i_flags ip OR I_VALID\<rparr>) s in
          if i_type (icache s ! i) = 0 then Inl (Panic ''ilock: no type'') else Inr s))
        else Inr s)"

definition iunlock :: "nat \<Rightarrow> fs \<Rightarrow> fs res" where
  "iunlock i s =
     (let ip = icache s ! i in
      if i_flags ip AND I_BUSY = 0 \<or> i_ref ip < 1 then Inl (Panic ''iunlock'')
      else Inr (wake (ChanInode i) (upd_inode i (\<lambda>ip. ip\<lparr>i_flags := i_flags ip AND NOT I_BUSY\<rparr>) s)))"

section \<open>File blocks\<close>

definition real_addr :: "u32 \<Rightarrow> u16 \<Rightarrow> u32" where
  "real_addr addr type = (if type = T_CHECKED then addr AND 0x00FFFFFF else addr)"

definition get_checksum :: "u32 \<Rightarrow> u8" where
  "get_checksum addr = ucast (drop_bit 24 addr)"

definition synth_addr :: "u32 \<Rightarrow> u8 \<Rightarrow> u32" where
  "synth_addr addr chksum = push_bit 24 (ucast chksum) OR real_addr addr T_CHECKED"

definition set_addr :: "nat \<Rightarrow> nat \<Rightarrow> u32 \<Rightarrow> fs \<Rightarrow> fs" where
  "set_addr i k a s = upd_inode i (\<lambda>ip. ip\<lparr>i_addrs := (i_addrs ip)[k := a]\<rparr>) s"

text \<open>The array \<^verbatim>\<open>uint a[]\<close> of an indirect block.\<close>

definition get_entry :: "nat \<Rightarrow> u8 list \<Rightarrow> u32" where
  "get_entry k xs = load32 (4 * k) xs"

definition put_entry :: "nat \<Rightarrow> u32 \<Rightarrow> u8 list \<Rightarrow> u8 list" where
  "put_entry k a xs = splice (4 * k) (bytes32 a) xs"

definition bmap :: "nat \<Rightarrow> u32 \<Rightarrow> fs \<Rightarrow> (u32 \<times> fs) res" where
  "bmap i bn s =
     (let d = i_dev (icache s ! i) in
      if bn < of_nat NDIRECT then
        let addr = i_addrs (icache s ! i) ! unat bn in
        if addr = 0 then bindE (on_io (balloc d) s) (\<lambda>(addr, s). Inr (addr, set_addr i (unat bn) addr s))
        else Inr (addr, s)
      else
        let bn = bn - of_nat NDIRECT in
        if bn < of_nat NINDIRECT then
          let addr = i_addrs (icache s ! i) ! NDIRECT in
          bindE (if addr = 0 then bindE (on_io (balloc d) s) (\<lambda>(addr, s). Inr (addr, set_addr i NDIRECT addr s))
                 else Inr (addr, s)) (\<lambda>(addr, s).
          bindE (on_io (bread d addr) s) (\<lambda>(bp, s).
          let addr = get_entry (unat bn) (buf_data bp s) in
          bindE (if addr = 0 then
                   bindE (on_io (balloc d) s) (\<lambda>(addr, s).
                   bindE (on_io' (\<lambda>b. bwrite bp (set_data bp (put_entry (unat bn) addr (buf_data bp s)) b)) s) (\<lambda>s.
                   Inr (addr, s)))
                 else Inr (addr, s)) (\<lambda>(addr, s).
          bindE (on_io' (brelse bp) s) (\<lambda>s. Inr (addr, s)))))
        else Inl (Panic ''bmap: out of range''))"

fun itrunc_direct :: "nat list \<Rightarrow> nat \<Rightarrow> fs \<Rightarrow> fs res" where
  "itrunc_direct [] i s = Inr s"
| "itrunc_direct (k # ks) i s =
     (let a = i_addrs (icache s ! i) ! k in
      if a \<noteq> 0 then
        bindE (on_io' (bfree (i_dev (icache s ! i)) a) s) (\<lambda>s. itrunc_direct ks i (set_addr i k 0 s))
      else itrunc_direct ks i s)"

fun itrunc_indirect :: "nat list \<Rightarrow> nat \<Rightarrow> u32 \<Rightarrow> fs \<Rightarrow> fs res" where
  "itrunc_indirect [] bp d s = Inr s"
| "itrunc_indirect (k # ks) bp d s =
     (let a = get_entry k (buf_data bp s) in
      if a \<noteq> 0 then bindE (on_io' (bfree d a) s) (\<lambda>s. itrunc_indirect ks bp d s)
      else itrunc_indirect ks bp d s)"

definition itrunc :: "nat \<Rightarrow> fs \<Rightarrow> fs res" where
  "itrunc i s =
     bindE (itrunc_direct [0..<NDIRECT] i s) (\<lambda>s.
     let ip = icache s ! i; a = i_addrs ip ! NDIRECT in
     bindE (if a \<noteq> 0 then
              bindE (on_io (bread (i_dev ip) a) s) (\<lambda>(bp, s).
              bindE (itrunc_indirect [0..<NINDIRECT] bp (i_dev ip) s) (\<lambda>s.
              bindE (on_io' (brelse bp) s) (\<lambda>s.
              bindE (on_io' (bfree (i_dev ip) a) s) (\<lambda>s.
              Inr (set_addr i NDIRECT 0 s)))))
            else Inr s) (\<lambda>s.
     iupdate i (upd_inode i (\<lambda>ip. ip\<lparr>i_size := 0\<rparr>) s)))"

definition iput :: "nat \<Rightarrow> fs \<Rightarrow> fs res" where
  "iput i s =
     (let ip = icache s ! i in
      bindE (if i_ref ip = 1 \<and> i_flags ip AND I_VALID \<noteq> 0 \<and> i_nlink ip = 0 then
               if i_flags ip AND I_BUSY \<noteq> 0 then Inl (Panic ''iput busy'')
               else
                 bindE (itrunc i (upd_inode i (\<lambda>ip. ip\<lparr>i_flags := i_flags ip OR I_BUSY\<rparr>) s)) (\<lambda>s.
                 bindE (iupdate i (upd_inode i (\<lambda>ip. ip\<lparr>i_type := 0\<rparr>) s)) (\<lambda>s.
                 Inr (wake (ChanInode i) (upd_inode i (\<lambda>ip. ip\<lparr>i_flags := 0\<rparr>) s))))
             else Inr s) (\<lambda>s.
      Inr (upd_inode i (\<lambda>ip. ip\<lparr>i_ref := i_ref ip - 1\<rparr>) s)))"

definition iunlockput :: "nat \<Rightarrow> fs \<Rightarrow> fs res" where
  "iunlockput i s = bindE (iunlock i s) (iput i)"

section \<open>Checksums\<close>

definition gen_checksum :: "u8 list \<Rightarrow> u8" where
  "gen_checksum xs = fold (\<lambda>i c. c XOR xs ! i) [0..<BSIZE] 0"

definition vrfy_checksum :: "u8 list \<Rightarrow> u8 \<Rightarrow> bool" where
  "vrfy_checksum xs c \<longleftrightarrow> gen_checksum xs = c"

definition set_checksum :: "nat \<Rightarrow> u32 \<Rightarrow> u8 \<Rightarrow> fs \<Rightarrow> (int \<times> fs) res" where
  "set_checksum i bn c s =
     (let ip = icache s ! i in
      if bn < of_nat NDIRECT then
        let a = i_addrs ip ! unat bn in
        if a = 0 then Inr (- 1, s) else Inr (0, set_addr i (unat bn) (synth_addr a c) s)
      else
        let bn = bn - of_nat NDIRECT in
        if bn < of_nat NINDIRECT then
          let addr = i_addrs ip ! NDIRECT in
          if addr = 0 then Inr (- 1, s)
          else
            bindE (on_io (bread (i_dev ip) (real_addr addr (i_type ip))) s) (\<lambda>(bp, s).
            let a = get_entry (unat bn) (buf_data bp s) in
            if a = 0 then Inr (- 1, s)
            else
              bindE (on_io' (\<lambda>b. bwrite bp (set_data bp (put_entry (unat bn) (synth_addr a c) (buf_data bp s)) b)) s) (\<lambda>s.
              bindE (on_io' (brelse bp) s) (\<lambda>s. Inr (0, s))))
        else Inl (Panic ''set_checksum: out of range''))"

text \<open>XOR of the checksums of a list of addresses up to the first that is zero; whether there was one.\<close>

fun xor_checksums :: "u32 list \<Rightarrow> u8 \<Rightarrow> bool \<times> u8" where
  "xor_checksums [] c = (False, c)"
| "xor_checksums (a # as) c = (if a = 0 then (True, c) else xor_checksums as (c XOR get_checksum a))"

definition aggregate_checksum :: "nat \<Rightarrow> fs \<Rightarrow> (u8 \<times> fs) res" where
  "aggregate_checksum i s =
     (let ip = icache s ! i; (stop, c) = xor_checksums (take NDIRECT (i_addrs ip)) 0 in
      if stop then Inr (c, s)
      else
        let addr = i_addrs ip ! NDIRECT in
        if addr = 0 then Inr (c, s)
        else
          bindE (on_io (bread (i_dev ip) (real_addr addr (i_type ip))) s) (\<lambda>(bp, s).
          let (stop, c) = xor_checksums (map (\<lambda>k. get_entry k (buf_data bp s)) [0..<NINDIRECT]) c in
          bindE (on_io' (brelse bp) s) (\<lambda>s.
          if stop then Inr (c, s) else Inl (Panic ''aggregate_checksum: out of range''))))"

definition stati :: "nat \<Rightarrow> fs \<Rightarrow> (stat \<times> fs) res" where
  "stati i s =
     (let ip = icache s ! i in
      bindE (aggregate_checksum i s) (\<lambda>(c, s).
      Inr (\<lparr>st_type = i_type ip, st_dev = i_dev ip, st_ino = i_inum ip, st_nlink = i_nlink ip,
            st_size = i_size ip, st_checksum = c\<rparr>, s)))"

section \<open>Reading and writing\<close>

definition bad_device :: "u16 \<Rightarrow> bool" where
  "bad_device major \<longleftrightarrow> sint major < 0 \<or> sint major \<ge> NDEV \<or> sint major \<noteq> CONSOLE"

definition chunk :: "u32 \<Rightarrow> u32 \<Rightarrow> u32 \<Rightarrow> u32" where
  "chunk n tot off = min (n - tot) (of_nat BSIZE - off mod of_nat BSIZE)"

lemma chunk_progress:
  fixes n tot off :: u32
  assumes "tot < n"
  shows "unat n - unat (tot + chunk n tot off) < unat n - unat tot" "tot + chunk n tot off \<le> n"
proof -
  have "unat (off mod of_nat BSIZE) < BSIZE" by (simp add: unat_mod)
  then have "unat (of_nat BSIZE - off mod of_nat BSIZE) = BSIZE - unat (off mod of_nat BSIZE)"
    by (subst unat_sub_small) simp_all
  then have pos: "0 < unat (of_nat BSIZE - off mod of_nat BSIZE)"
    using \<open>unat (off mod of_nat BSIZE) < BSIZE\<close> by simp
  have lt: "unat tot < unat n" using assms by (simp add: word_less_nat_alt)
  then have nt: "unat (n - tot) = unat n - unat tot" by (intro unat_sub_small) simp
  have "unat (chunk n tot off) = min (unat (n - tot)) (unat (of_nat BSIZE - off mod of_nat BSIZE))"
    by (simp add: chunk_def min_def word_le_nat_alt)
  then have c: "0 < unat (chunk n tot off)" "unat (chunk n tot off) \<le> unat n - unat tot" using pos nt lt by auto
  have "unat tot + unat (chunk n tot off) \<le> unat n" using c lt by simp
  from le_less_trans [OF this u32_bound] have "unat (tot + chunk n tot off) = unat tot + unat (chunk n tot off)"
    by (intro unat_add_small) simp
  then show "unat n - unat (tot + chunk n tot off) < unat n - unat tot" "tot + chunk n tot off \<le> n"
    using c lt by (simp_all add: word_le_nat_alt)
qed

text \<open>\<open>tot\<close> of \<open>n\<close> bytes are done; \<open>out\<close> is what has been stored, \<open>src\<close> what is to be written.\<close>

function readi_loop :: "nat \<Rightarrow> u32 \<Rightarrow> u32 \<Rightarrow> u32 \<Rightarrow> u8 list \<Rightarrow> fs \<Rightarrow> (transfer \<times> fs) res" where
  "readi_loop i off n tot out s =
     (if tot < n then
        bindE (bmap i (off div of_nat BSIZE) s) (\<lambda>(addr, s).
        let ip = icache s ! i in
        bindE (on_io (bread (i_dev ip) (real_addr addr (i_type ip))) s) (\<lambda>(bp, s).
        if i_type ip = T_CHECKED \<and> \<not> vrfy_checksum (buf_data bp s) (get_checksum addr) then Inr (Done (- 1) out, s)
        else
          let m = chunk n tot off; xs = slice (unat (off mod of_nat BSIZE)) (unat m) (buf_data bp s) in
          bindE (on_io' (brelse bp) s) (\<lambda>s.
          readi_loop i (off + m) n (tot + m) (out @ xs) s)))
      else Inr (Done (uint n) out, s))"
  by pat_completeness auto
termination by (relation "measure (\<lambda>(i, off, n, tot, out, s). unat n - unat tot)") (auto simp: chunk_progress)

declare readi_loop.simps [simp del]

definition readi :: "nat \<Rightarrow> u32 \<Rightarrow> u32 \<Rightarrow> fs \<Rightarrow> (transfer \<times> fs) res" where
  "readi i off n s =
     (let ip = icache s ! i in
      if i_type ip = T_DEV then
        if bad_device (i_major ip) then Inr (Done (- 1) [], s) else Inr (Device, s)
      else if off > i_size ip \<or> off + n < off then Inr (Done (- 1) [], s)
      else
        let n = (if off + n > i_size ip then i_size ip - off else n) in
        readi_loop i off n 0 [] s)"

function writei_loop :: "nat \<Rightarrow> u8 list \<Rightarrow> u32 \<Rightarrow> u32 \<Rightarrow> u32 \<Rightarrow> fs \<Rightarrow> (u32 \<times> fs) res" where
  "writei_loop i src off n tot s =
     (if tot < n then
        bindE (bmap i (off div of_nat BSIZE) s) (\<lambda>(addr, s).
        bindE (on_io (bread (i_dev (icache s ! i)) addr) s) (\<lambda>(bp, s).
        let m = chunk n tot off;
            xs = splice (unat (off mod of_nat BSIZE)) (slice (unat tot) (unat m) src) (buf_data bp s) in
        bindE (on_io' (\<lambda>b. bwrite bp (set_data bp xs b)) s) (\<lambda>s.
        bindE (if i_type (icache s ! i) = T_CHECKED
               then bindE (set_checksum i (off div of_nat BSIZE) (gen_checksum (buf_data bp s)) s) (\<lambda>(r, s). Inr s)
               else Inr s) (\<lambda>s.
        bindE (on_io' (brelse bp) s) (\<lambda>s.
        writei_loop i src (off + m) n (tot + m) s)))))
      else Inr (off, s))"
  by pat_completeness auto
termination by (relation "measure (\<lambda>(i, src, off, n, tot, s). unat n - unat tot)") (auto simp: chunk_progress)

declare writei_loop.simps [simp del]

definition writei :: "nat \<Rightarrow> u8 list \<Rightarrow> u32 \<Rightarrow> u32 \<Rightarrow> fs \<Rightarrow> (transfer \<times> fs) res" where
  "writei i src off n s =
     (let ip = icache s ! i in
      if i_type ip = T_DEV then
        if bad_device (i_major ip) then Inr (Done (- 1) [], s) else Inr (Device, s)
      else if off > i_size ip \<or> off + n < off then Inr (Done (- 1) [], s)
      else
        let n = (if off + n > of_nat (MAXFILE * BSIZE) then of_nat (MAXFILE * BSIZE) - off else n) in
        bindE (writei_loop i src off n 0 s) (\<lambda>(off, s).
        bindE (if n > 0 \<and> off > i_size (icache s ! i)
               then iupdate i (upd_inode i (\<lambda>ip. ip\<lparr>i_size := off\<rparr>) s) else Inr s) (\<lambda>s.
        Inr (Done (uint n) [], s))))"

section \<open>What the operations leave alone\<close>

lemma on_io_icache:
  "on_io f s = Inr (x, s') \<Longrightarrow> icache s' = icache s" "on_io' g s = Inr s' \<Longrightarrow> icache s' = icache s"
  by (auto simp: on_io_def on_io'_def res_simps)

lemma set_addr_size: "i_size (icache (set_addr i k a s) ! j) = i_size (icache s ! j)"
  by (cases "i < length (icache s)") (auto simp: set_addr_def upd_inode_def upd_def nth_list_update list_update_beyond)

lemma bmap_keeps_size:
  assumes "bmap i bn s = Inr (a, s')"
  shows "i_size (icache s' ! j) = i_size (icache s ! j)"
  using assms unfolding bmap_def
  by (auto simp: res_simps Let_def set_addr_size dest!: on_io_icache split: if_splits)

end
