(* ===== verification/Fs_Dir.thy ===== *)
theory Fs_Dir
  imports Fs_Inode
begin

text \<open>
  Directories and path names, the upper layers of \<^verbatim>\<open>kernel/fs.c\<close>. A path is the list of its
  bytes before the terminating NUL; a file name is a buffer of \<open>DIRSIZ\<close> bytes, terminated by
  NUL when it is shorter. A null inode pointer is \<open>None\<close>. Offsets into a directory are natural
  numbers: \<open>bmap\<close> refuses blocks past \<open>MAXFILE\<close> long before a 32-bit offset could wrap.
\<close>

section \<open>Names\<close>

abbreviation (input) ROOTDEV :: u32 where "ROOTDEV \<equiv> 1"
abbreviation (input) ROOTINO :: u32 where "ROOTINO \<equiv> 1"
abbreviation (input) SLASH :: u8 where "SLASH \<equiv> 47"

text \<open>\<^verbatim>\<open>strncmp\<close> and \<^verbatim>\<open>strncpy\<close> on arrays of at least \<open>n\<close> bytes.\<close>

fun name_diff :: "nat \<Rightarrow> u8 list \<Rightarrow> u8 list \<Rightarrow> int" where
  "name_diff (Suc n) (p # ps) (q # qs) = (if p \<noteq> 0 \<and> p = q then name_diff n ps qs else uint p - uint q)"
| "name_diff n ps qs = 0"

definition namecmp :: "u8 list \<Rightarrow> u8 list \<Rightarrow> int" where
  "namecmp s t = name_diff DIRSIZ s t"

fun name_copy :: "nat \<Rightarrow> u8 list \<Rightarrow> u8 list" where
  "name_copy 0 xs = []"
| "name_copy (Suc n) [] = replicate (Suc n) 0"
| "name_copy (Suc n) (x # xs) = (if x = 0 then replicate (Suc n) 0 else x # name_copy n xs)"

section \<open>Directories\<close>

definition dirents :: "u8 list \<Rightarrow> dirent list" where
  "dirents xs = map (\<lambda>k. decode_dirent (slice (16 * k) 16 xs)) [0..<32]"

text \<open>
  The loops over a directory read \<^verbatim>\<open>dp->size\<close> once: nothing they call changes it
  (\<open>bmap_keeps_size\<close>). \<open>dirlookup\<close> returns the inode and the offset of the entry.
\<close>

function dirlookup_loop :: "nat \<Rightarrow> u8 list \<Rightarrow> nat \<Rightarrow> nat \<Rightarrow> fs \<Rightarrow> ((nat \<times> nat) option \<times> fs) res" where
  "dirlookup_loop dp nm sz off s =
     (if off < sz then
        bindE (bmap dp (of_nat (off div BSIZE)) s) (\<lambda>(addr, s).
        bindE (on_io (bread (i_dev (icache s ! dp)) addr) s) (\<lambda>(bp, s).
        case first_idx (\<lambda>de. de_inum de \<noteq> 0 \<and> namecmp nm (de_name de) = 0) (dirents (buf_data bp s)) of
          Some k \<Rightarrow>
            let inum = de_inum (dirents (buf_data bp s) ! k) in
            bindE (on_io' (brelse bp) s) (\<lambda>s.
            bindE (iget (i_dev (icache s ! dp)) (ucast inum) s) (\<lambda>(ip, s). Inr (Some (ip, off + 16 * k), s)))
        | None \<Rightarrow> bindE (on_io' (brelse bp) s) (\<lambda>s. dirlookup_loop dp nm sz (off + BSIZE) s)))
      else Inr (None, s))"
  by pat_completeness auto
termination by (relation "measure (\<lambda>(dp, nm, sz, off, s). sz - off)") auto

declare dirlookup_loop.simps [simp del]

definition dirlookup :: "nat \<Rightarrow> u8 list \<Rightarrow> fs \<Rightarrow> ((nat \<times> nat) option \<times> fs) res" where
  "dirlookup dp nm s =
     (if i_type (icache s ! dp) \<noteq> T_DIR then Inl (Panic ''dirlookup not DIR'')
      else dirlookup_loop dp nm (unat (i_size (icache s ! dp))) 0 s)"

text \<open>The search of \<^verbatim>\<open>dirlink\<close> for an empty entry: the offset where it stops.\<close>

function dirlink_loop :: "nat \<Rightarrow> nat \<Rightarrow> nat \<Rightarrow> fs \<Rightarrow> (nat \<times> fs) res" where
  "dirlink_loop dp sz off s =
     (if off < sz then
        bindE (readi dp (of_nat off) 16 s) (\<lambda>(r, s).
        case r of
          Done k xs \<Rightarrow>
            if k \<noteq> 16 then Inl (Panic ''dirlink read'')
            else if de_inum (decode_dirent xs) = 0 then Inr (off, s)
            else dirlink_loop dp sz (off + 16) s
        | Device \<Rightarrow> Inl (Undefined ''directory is a device''))
      else Inr (off, s))"
  by pat_completeness auto
termination by (relation "measure (\<lambda>(dp, sz, off, s). sz - off)") auto

declare dirlink_loop.simps [simp del]

definition dirlink :: "nat \<Rightarrow> u8 list \<Rightarrow> u32 \<Rightarrow> fs \<Rightarrow> (int \<times> fs) res" where
  "dirlink dp nm inum s =
     bindE (dirlookup dp nm s) (\<lambda>(r, s).
     case r of
       Some (ip, off) \<Rightarrow> bindE (iput ip s) (\<lambda>s. Inr (- 1, s))
     | None \<Rightarrow>
         bindE (dirlink_loop dp (unat (i_size (icache s ! dp))) 0 s) (\<lambda>(off, s).
         let de = \<lparr>de_inum = ucast inum, de_name = name_copy DIRSIZ nm\<rparr> in
         bindE (writei dp (dirent_bytes de) (of_nat off) 16 s) (\<lambda>(r, s).
         if r = Done 16 [] then Inr (0, s) else Inl (Panic ''dirlink''))))"

section \<open>Paths\<close>

definition skipelem :: "u8 list \<Rightarrow> u8 list \<Rightarrow> (u8 list \<times> u8 list) option" where
  "skipelem path nm =
     (let path = dropWhile (\<lambda>c. c = SLASH) path in
      if path = [] then None
      else
        let s = takeWhile (\<lambda>c. c \<noteq> SLASH) path;
            path = dropWhile (\<lambda>c. c \<noteq> SLASH) path;
            nm = (if length s \<ge> DIRSIZ then take DIRSIZ s else s @ [0] @ drop (length s + 1) nm) in
        Some (dropWhile (\<lambda>c. c = SLASH) path, nm))"

lemma skipelem_shorter: "skipelem path nm = Some (rest, nm') \<Longrightarrow> length rest < length path"
proof -
  assume S: "skipelem path nm = Some (rest, nm')"
  define p where "p = dropWhile (\<lambda>c. c = SLASH) path"
  have ne: "p \<noteq> []" and rest: "rest = dropWhile (\<lambda>c. c = SLASH) (dropWhile (\<lambda>c. c \<noteq> SLASH) p)"
    using S by (auto simp: skipelem_def Let_def p_def split: if_splits)
  have "hd p \<noteq> SLASH" using ne hd_dropWhile [of "\<lambda>c. c = SLASH" path] by (simp add: p_def)
  then have "length (dropWhile (\<lambda>c. c \<noteq> SLASH) p) < length p"
    using ne by (cases p) (auto simp: less_Suc_eq_le length_dropWhile_le)
  moreover have "length rest \<le> length (dropWhile (\<lambda>c. c \<noteq> SLASH) p)" unfolding rest by (rule length_dropWhile_le)
  moreover have "length p \<le> length path" unfolding p_def by (rule length_dropWhile_le)
  ultimately show ?thesis by simp
qed

function namex_loop :: "u8 list \<Rightarrow> bool \<Rightarrow> u8 list \<Rightarrow> nat \<Rightarrow> fs \<Rightarrow> (nat option \<times> u8 list \<times> fs) res" where
  "namex_loop path parent nm ip s =
     (case skipelem path nm of
        None \<Rightarrow>
          if parent then bindE (iput ip s) (\<lambda>s. Inr (None, nm, s))
          else Inr (Some ip, nm, s)
      | Some (path, nm) \<Rightarrow>
          bindE (ilock ip s) (\<lambda>s.
          if i_type (icache s ! ip) \<noteq> T_DIR then
            bindE (iunlockput ip s) (\<lambda>s. Inr (None, nm, s))
          else if parent \<and> path = [] then
            bindE (iunlock ip s) (\<lambda>s. Inr (Some ip, nm, s))
          else
            bindE (dirlookup ip nm s) (\<lambda>(r, s).
            case r of
              None \<Rightarrow> bindE (iunlockput ip s) (\<lambda>s. Inr (None, nm, s))
            | Some (next_ip, off) \<Rightarrow>
                bindE (iunlockput ip s) (\<lambda>s. namex_loop path parent nm next_ip s))))"
  by pat_completeness auto
termination by (relation "measure (\<lambda>(path, parent, nm, ip, s). length path)") (auto dest: skipelem_shorter)

declare namex_loop.simps [simp del]

definition namex :: "u8 list \<Rightarrow> bool \<Rightarrow> u8 list \<Rightarrow> nat \<Rightarrow> fs \<Rightarrow> (nat option \<times> u8 list \<times> fs) res" where
  "namex path parent nm cwd s =
     (if path \<noteq> [] \<and> hd path = SLASH then
        bindE (iget ROOTDEV ROOTINO s) (\<lambda>(ip, s). namex_loop path parent nm ip s)
      else namex_loop path parent nm cwd (idup cwd s))"

definition namei :: "u8 list \<Rightarrow> u8 list \<Rightarrow> nat \<Rightarrow> fs \<Rightarrow> (nat option \<times> fs) res" where
  "namei path nm cwd s = bindE (namex path False nm cwd s) (\<lambda>(r, nm, s). Inr (r, s))"

definition nameiparent :: "u8 list \<Rightarrow> u8 list \<Rightarrow> nat \<Rightarrow> fs \<Rightarrow> (nat option \<times> u8 list \<times> fs) res" where
  "nameiparent path nm cwd s = namex path True nm cwd s"

end
