(* ===== verification/Kernel.thy ===== *)
theory Kernel
  imports Fs_Dir Shm Pgdir_Refs Sched Pipe Console Layout
begin

unbundle bit_operations_syntax

text \<open>
  The state of the whole kernel while a process runs in it: memory, shared memory, page
  directory counts, the process table, the file system, the table of open files
  (\<^verbatim>\<open>ftable\<close>, file.c), pipes, console and clock; \<open>k_forkret\<close> is the address the linker gives
  \<^verbatim>\<open>forkret\<close>, \<open>k_shift\<close> the state of the keyboard. \<open>k_proc\<close> is the index of the current process,
  the global \<^verbatim>\<open>proc\<close>.

  User memory is read and written through the page table of the current process, as the
  kernel does; an access to a page that is not mapped is \<open>Undefined\<close>, the page fault that
  \<^verbatim>\<open>trap\<close> answers with a panic.

  A call that runs into \<^verbatim>\<open>sleep\<close> gives \<open>Waits c r k\<close>: the process waits on channel \<open>c\<close> in
  state \<open>k\<close>, and \<open>r\<close> is what it does when it is woken. File-system code that finds a locked
  inode or buffer is \<open>Inl (Sleep c)\<close>, as in the layers below.
\<close>

section \<open>State\<close>

abbreviation (input) NFILE :: nat where "NFILE \<equiv> 100"

datatype ftype = FD_NONE | FD_PIPE | FD_INODE

record struct_file =
  f_type :: ftype
  f_ref :: int
  f_readable :: bool
  f_writable :: bool
  f_pipe :: u32
  f_ip :: nat
  f_off :: u32

record kernel =
  k_mem :: kmem
  k_shm :: shm_table
  k_refs :: "pgdir_ref list"
  k_ptable :: "proc list"
  k_initproc :: "nat option"
  k_nextpid :: int
  k_proc :: nat
  k_fs :: fs
  k_ftable :: "struct_file list"
  k_pipes :: "u32 \<Rightarrow> pipe"
  k_input :: input
  k_console :: console
  k_ticks :: u32
  k_syscalls :: int
  k_forkret :: u32
  k_shift :: u32

text \<open>
  What a sleeping call has left to do: a pipe read of \<open>n\<close> bytes to an address; a pipe write
  with the bytes left; a console read for a file with the bytes still wanted and those already
  stored; \<^verbatim>\<open>wait\<close>; \<^verbatim>\<open>join\<close> with the address of the stack pointer; \<^verbatim>\<open>sleep\<close> until \<open>n\<close> ticks
  after \<open>t\<close>.
\<close>

datatype pending =
    ReadPipe u32 u32 int
  | WritePipe u32 int "u8 list"
  | ReadConsole nat u32 nat nat "u8 list"
  | WaitChild
  | JoinThread u32
  | SleepTicks u32 int

datatype 'a reply = Reply (reply_value: 'a) (reply_state: kernel) | Waits chan pending (reply_state: kernel)

definition cur :: "kernel \<Rightarrow> proc" where
  "cur k = k_ptable k ! k_proc k"

definition upd_proc :: "nat \<Rightarrow> (proc \<Rightarrow> proc) \<Rightarrow> kernel \<Rightarrow> kernel" where
  "upd_proc p f k = k\<lparr>k_ptable := upd f p (k_ptable k)\<rparr>"

definition upd_cur :: "(proc \<Rightarrow> proc) \<Rightarrow> kernel \<Rightarrow> kernel" where
  "upd_cur f k = upd_proc (k_proc k) f k"

definition killed :: "kernel \<Rightarrow> bool" where
  "killed k \<longleftrightarrow> p_killed (cur k) \<noteq> 0"

definition wakeups :: "chan list \<Rightarrow> kernel \<Rightarrow> kernel" where
  "wakeups cs k = k\<lparr>k_ptable := fold wakeup cs (k_ptable k)\<rparr>"

text \<open>Operations of the layers below, with the processes they wake.\<close>

definition on_fs :: "(fs \<Rightarrow> ('a \<times> fs) res) \<Rightarrow> kernel \<Rightarrow> ('a \<times> kernel) res" where
  "on_fs f k = bindE (f (k_fs k)) (\<lambda>(x, s). Inr (x, wakeups (wakes s) (k\<lparr>k_fs := s\<lparr>wakes := []\<rparr>\<rparr>)))"

definition on_fs' :: "(fs \<Rightarrow> fs res) \<Rightarrow> kernel \<Rightarrow> kernel res" where
  "on_fs' f k = bindE (f (k_fs k)) (\<lambda>s. Inr (wakeups (wakes s) (k\<lparr>k_fs := s\<lparr>wakes := []\<rparr>\<rparr>)))"

definition on_mem :: "(kmem \<Rightarrow> ('a \<times> kmem) res) \<Rightarrow> kernel \<Rightarrow> ('a \<times> kernel) res" where
  "on_mem f k = bindE (f (k_mem k)) (\<lambda>(x, s). Inr (x, k\<lparr>k_mem := s\<rparr>))"

definition on_mem' :: "(kmem \<Rightarrow> kmem res) \<Rightarrow> kernel \<Rightarrow> kernel res" where
  "on_mem' f k = bindE (f (k_mem k)) (\<lambda>s. Inr (k\<lparr>k_mem := s\<rparr>))"

definition inode_at :: "nat \<Rightarrow> kernel \<Rightarrow> inode" where
  "inode_at i k = icache (k_fs k) ! i"

section \<open>User memory\<close>

definition user_addr :: "kernel \<Rightarrow> u32 \<Rightarrow> u32 option" where
  "user_addr k va = map_option (\<lambda>pte. PTE_ADDR pte + (va AND 0xFFF)) (pte_of (k_mem k) (p_pgdir (cur k)) va)"

definition user_byte :: "kernel \<Rightarrow> u32 \<Rightarrow> u8 option" where
  "user_byte k va = map_option (load8 (mem (k_mem k))) (user_addr k va)"

fun user_load :: "nat \<Rightarrow> u32 \<Rightarrow> kernel \<Rightarrow> u8 list res" where
  "user_load 0 va k = Inr []"
| "user_load (Suc n) va k =
     (case user_byte k va of
        None \<Rightarrow> Inl (Undefined ''page fault'')
      | Some b \<Rightarrow> bindE (user_load n (va + 1) k) (\<lambda>bs. Inr (b # bs)))"

fun user_store :: "u32 \<Rightarrow> u8 list \<Rightarrow> kernel \<Rightarrow> kernel res" where
  "user_store va [] k = Inr k"
| "user_store va (b # bs) k =
     (case user_addr k va of
        None \<Rightarrow> Inl (Undefined ''page fault'')
      | Some pa \<Rightarrow> user_store (va + 1) bs (k\<lparr>k_mem := (k_mem k)\<lparr>mem := store8 pa b (mem (k_mem k))\<rparr>\<rparr>))"

section \<open>Open files\<close>

definition upd_file :: "nat \<Rightarrow> (struct_file \<Rightarrow> struct_file) \<Rightarrow> kernel \<Rightarrow> kernel" where
  "upd_file f g k = k\<lparr>k_ftable := upd g f (k_ftable k)\<rparr>"

definition filealloc :: "kernel \<Rightarrow> nat option \<times> kernel" where
  "filealloc k =
     (case first_idx (\<lambda>f. f_ref f = 0) (k_ftable k) of
        Some f \<Rightarrow> (Some f, upd_file f (\<lambda>x. x\<lparr>f_ref := 1\<rparr>) k)
      | None \<Rightarrow> (None, k))"

definition filedup :: "nat \<Rightarrow> kernel \<Rightarrow> kernel res" where
  "filedup f k =
     (if f_ref (k_ftable k ! f) < 1 then Inl (Panic ''filedup'')
      else Inr (upd_file f (\<lambda>x. x\<lparr>f_ref := f_ref x + 1\<rparr>) k))"

definition close_pipe :: "u32 \<Rightarrow> bool \<Rightarrow> kernel \<Rightarrow> kernel res" where
  "close_pipe a w k =
     bindE (pipeclose a w (k_pipes k) (k_mem k)) (\<lambda>(cs, pipes, km).
     Inr (wakeups cs (k\<lparr>k_pipes := pipes, k_mem := km\<rparr>)))"

definition fileclose :: "nat \<Rightarrow> kernel \<Rightarrow> kernel res" where
  "fileclose f k =
     (if f_ref (k_ftable k ! f) < 1 then Inl (Panic ''fileclose'')
      else
        let k = upd_file f (\<lambda>x. x\<lparr>f_ref := f_ref x - 1\<rparr>) k in
        if f_ref (k_ftable k ! f) > 0 then Inr k
        else
          let ff = k_ftable k ! f;
              k = upd_file f (\<lambda>x. x\<lparr>f_ref := 0, f_type := FD_NONE\<rparr>) k in
          (case f_type ff of
             FD_PIPE \<Rightarrow> close_pipe (f_pipe ff) (f_writable ff) k
           | FD_INODE \<Rightarrow> on_fs' (iput (f_ip ff)) k
           | FD_NONE \<Rightarrow> Inr k))"

definition filestat :: "nat \<Rightarrow> kernel \<Rightarrow> (stat option \<times> kernel) res" where
  "filestat f k =
     (let x = k_ftable k ! f in
      if f_type x = FD_INODE then
        bindE (on_fs' (ilock (f_ip x)) k) (\<lambda>k.
        bindE (on_fs (stati (f_ip x)) k) (\<lambda>(st, k).
        bindE (on_fs' (iunlock (f_ip x)) k) (\<lambda>k.
        Inr (Some st, k))))
      else Inr (None, k))"

subsection \<open>Reading\<close>

definition read_pipe :: "u32 \<Rightarrow> u32 \<Rightarrow> int \<Rightarrow> kernel \<Rightarrow> int reply res" where
  "read_pipe a addr n k =
     (case piperead a (killed k) n (k_pipes k a) of
        Returns (r, xs) p cs \<Rightarrow>
          bindE (user_store addr xs (wakeups cs (k\<lparr>k_pipes := (k_pipes k)(a := p)\<rparr>))) (\<lambda>k. Inr (Reply r k))
      | Blocks c n p cs \<Rightarrow> Inr (Waits c (ReadPipe a addr n) (wakeups cs (k\<lparr>k_pipes := (k_pipes k)(a := p)\<rparr>))))"

text \<open>The end of a read or write of an inode: the offset moves and the inode is unlocked.\<close>

definition end_transfer :: "nat \<Rightarrow> int \<Rightarrow> kernel \<Rightarrow> int reply res" where
  "end_transfer f r k =
     (let k = (if r > 0 then upd_file f (\<lambda>x. x\<lparr>f_off := f_off x + of_int r\<rparr>) k else k) in
      bindE (on_fs' (iunlock (f_ip (k_ftable k ! f))) k) (\<lambda>k. Inr (Reply r k)))"

text \<open>\<^verbatim>\<open>consoleread\<close> from its loop on; \<open>n\<close> of \<open>target\<close> bytes are still wanted.\<close>

definition read_console :: "nat \<Rightarrow> u32 \<Rightarrow> nat \<Rightarrow> nat \<Rightarrow> u8 list \<Rightarrow> kernel \<Rightarrow> int reply res" where
  "read_console f addr target n dst k =
     (case consoleread_loop (killed k) target n dst (k_input k) of
        Returns (r, xs) i cs \<Rightarrow>
          bindE (on_fs' (ilock (f_ip (k_ftable k ! f))) (k\<lparr>k_input := i\<rparr>)) (\<lambda>k.
          bindE (user_store addr xs k) (end_transfer f r))
      | Blocks c (n, dst) i cs \<Rightarrow> Inr (Waits c (ReadConsole f addr target n dst) (k\<lparr>k_input := i\<rparr>)))"

definition fileread :: "nat \<Rightarrow> u32 \<Rightarrow> int \<Rightarrow> kernel \<Rightarrow> int reply res" where
  "fileread f addr n k =
     (let x = k_ftable k ! f in
      if \<not> f_readable x then Inr (Reply (- 1) k)
      else
        case f_type x of
          FD_PIPE \<Rightarrow> read_pipe (f_pipe x) addr n k
        | FD_INODE \<Rightarrow>
            bindE (on_fs' (ilock (f_ip x)) k) (\<lambda>k.
            bindE (on_fs (readi (f_ip x) (f_off x) (of_int n)) k) (\<lambda>(t, k).
            case t of
              Done r xs \<Rightarrow> bindE (user_store addr xs k) (end_transfer f r)
            | Device \<Rightarrow>
                bindE (on_fs' (iunlock (f_ip x)) k) (\<lambda>k.
                read_console f addr (nat n) (nat n) [] k)))
        | FD_NONE \<Rightarrow> Inl (Panic ''fileread''))"

subsection \<open>Writing\<close>

definition write_pipe :: "u32 \<Rightarrow> int \<Rightarrow> u8 list \<Rightarrow> kernel \<Rightarrow> int reply res" where
  "write_pipe a n xs k =
     (case pipewrite_loop a (killed k) n xs (k_pipes k a) of
        Returns r p cs \<Rightarrow> Inr (Reply r (wakeups cs (k\<lparr>k_pipes := (k_pipes k)(a := p)\<rparr>)))
      | Blocks c xs p cs \<Rightarrow> Inr (Waits c (WritePipe a n xs) (wakeups cs (k\<lparr>k_pipes := (k_pipes k)(a := p)\<rparr>))))"

definition write_console :: "nat \<Rightarrow> int \<Rightarrow> u8 list \<Rightarrow> kernel \<Rightarrow> int reply res" where
  "write_console f n xs k =
     (case consolewrite_loop (\<lambda>i. xs ! i) n (k_console k) of
        None \<Rightarrow> Inl (Undefined ''console output does not end'')
      | Some (r, c) \<Rightarrow> bindE (on_fs' (ilock (f_ip (k_ftable k ! f))) (k\<lparr>k_console := c\<rparr>)) (end_transfer f r))"

text \<open>The number of bytes that \<^verbatim>\<open>writei\<close> (fs.c) or the console takes from the user's buffer.\<close>

definition write_count :: "inode \<Rightarrow> u32 \<Rightarrow> u32 \<Rightarrow> nat" where
  "write_count ip off n =
     (if i_type ip = T_DEV then if bad_device (i_major ip) then 0 else nat (sint n)
      else if off > i_size ip \<or> off + n < off then 0
      else unat (if off + n > of_nat (MAXFILE * BSIZE) then of_nat (MAXFILE * BSIZE) - off else n))"

definition filewrite :: "nat \<Rightarrow> u32 \<Rightarrow> int \<Rightarrow> kernel \<Rightarrow> int reply res" where
  "filewrite f addr n k =
     (let x = k_ftable k ! f in
      if \<not> f_writable x then Inr (Reply (- 1) k)
      else
        case f_type x of
          FD_PIPE \<Rightarrow> bindE (user_load (nat n) addr k) (\<lambda>xs. write_pipe (f_pipe x) n xs k)
        | FD_INODE \<Rightarrow>
            bindE (on_fs' (ilock (f_ip x)) k) (\<lambda>k.
            bindE (user_load (write_count (inode_at (f_ip x) k) (f_off x) (of_int n)) addr k) (\<lambda>xs.
            bindE (on_fs (writei (f_ip x) xs (f_off x) (of_int n)) k) (\<lambda>(t, k).
            case t of
              Done r ys \<Rightarrow> end_transfer f r k
            | Device \<Rightarrow>
                bindE (on_fs' (iunlock (f_ip x)) k) (\<lambda>k.
                write_console f n xs k))))
        | FD_NONE \<Rightarrow> Inl (Panic ''filewrite''))"

subsection \<open>Pipes\<close>

fun pipealloc_bad :: "nat option list \<Rightarrow> kernel \<Rightarrow> ((nat \<times> nat) option \<times> kernel) res" where
  "pipealloc_bad [] k = Inr (None, k)"
| "pipealloc_bad (None # fs) k = pipealloc_bad fs k"
| "pipealloc_bad (Some f # fs) k = bindE (fileclose f k) (pipealloc_bad fs)"

definition pipealloc :: "kernel \<Rightarrow> ((nat \<times> nat) option \<times> kernel) res" where
  "pipealloc k =
     (let (r0, k) = filealloc k in
      case r0 of None \<Rightarrow> pipealloc_bad [None, None] k | Some f0 \<Rightarrow>
      let (r1, k) = filealloc k in
      case r1 of None \<Rightarrow> pipealloc_bad [Some f0, None] k | Some f1 \<Rightarrow>
      let (p, km) = kalloc (k_mem k); k = k\<lparr>k_mem := km\<rparr> in
      if p = 0 then pipealloc_bad [Some f0, Some f1] k
      else
        Inr (Some (f0, f1),
          upd_file f1 (\<lambda>x. x\<lparr>f_type := FD_PIPE, f_readable := False, f_writable := True, f_pipe := p\<rparr>)
          (upd_file f0 (\<lambda>x. x\<lparr>f_type := FD_PIPE, f_readable := True, f_writable := False, f_pipe := p\<rparr>)
          (k\<lparr>k_pipes := (k_pipes k)(p := pipe_init (k_pipes k p))\<rparr>))))"

end
