(* ===== verification/Proc.thy ===== *)
theory Proc
  imports Kernel
begin

unbundle bit_operations_syntax

text \<open>
  Processes and threads, \<^verbatim>\<open>kernel/proc.c\<close>: creation (\<^verbatim>\<open>allocproc\<close>, \<^verbatim>\<open>userinit\<close>, \<^verbatim>\<open>fork\<close>,
  \<^verbatim>\<open>clone\<close>), growing, \<^verbatim>\<open>exit\<close>, and collecting children (\<^verbatim>\<open>wait\<close>, \<^verbatim>\<open>join\<close>). The trap frame of
  a new process is whatever its kernel stack held; every caller of \<^verbatim>\<open>allocproc\<close> overwrites
  it. \<open>exit\<close> ends in the scheduler, in the state it leaves behind.
\<close>

section \<open>Creating processes\<close>

definition allocproc :: "kernel \<Rightarrow> nat option \<times> kernel" where
  "allocproc k =
     (case first_idx (\<lambda>p. p_state p = UNUSED) (k_ptable k) of
        None \<Rightarrow> (None, k)
      | Some p \<Rightarrow>
          let k = upd_proc p (\<lambda>x. x\<lparr>p_state := EMBRYO, p_pid := k_nextpid k, p_shm := USERTOP,
                    p_shm_key_mask := 0, p_priority := 0, p_ticks_used := replicate NPRIOR 0\<rparr>)
                  (k\<lparr>k_nextpid := k_nextpid k + 1\<rparr>);
              (stack, km) = kalloc (k_mem k);
              k = upd_proc p (\<lambda>x. x\<lparr>p_kstack := stack\<rparr>) (k\<lparr>k_mem := km\<rparr>) in
          if stack = 0 then (None, upd_proc p (\<lambda>x. x\<lparr>p_state := UNUSED\<rparr>) k)
          else (Some p, upd_proc p (\<lambda>x. x\<lparr>p_context := zero_cntxt\<lparr>cx_eip := k_forkret k\<rparr>\<rparr>) k))"

text \<open>
  \<^verbatim>\<open>safestrcpy\<close> into a buffer of \<open>n > 0\<close> bytes: at most \<open>n - 1\<close> bytes of the string with its NUL,
  then a NUL.
\<close>

definition safestrcpy_bytes :: "u8 list \<Rightarrow> u8 list \<Rightarrow> nat \<Rightarrow> u8 list" where
  "safestrcpy_bytes dst src n =
     (let s = take (n - 1) (takeWhile (\<lambda>c. c \<noteq> 0) src @ [0]) in s @ [0] @ drop (length s + 1) dst)"

abbreviation (input) UCODE :: u16 where "UCODE \<equiv> 0x23"
abbreviation (input) UDATA :: u16 where "UDATA \<equiv> 0x2B"
abbreviation (input) FL_IF :: u32 where "FL_IF \<equiv> 0x200"

text \<open>The argument is the image of \<^verbatim>\<open>initcode.S\<close>, which the build links into the kernel.\<close>

definition userinit :: "u8 list \<Rightarrow> kernel \<Rightarrow> kernel res" where
  "userinit initcode k =
     (let (r, k) = allocproc k in
      case r of
        None \<Rightarrow> Inl (Undefined ''userinit: null process'')
      | Some p \<Rightarrow>
          bindE (on_mem setupkvm (k\<lparr>k_initproc := Some p\<rparr>)) (\<lambda>(pgdir, k).
          let k = upd_proc p (\<lambda>x. x\<lparr>p_pgdir := pgdir\<rparr>) k in
          if pgdir = 0 then Inl (Panic ''userinit: out of memory?'')
          else
            bindE (on_mem' (inituvm pgdir initcode) k) (\<lambda>k.
            let k = upd_proc p (\<lambda>x. x\<lparr>p_sz := PGSIZE,
                      p_tf := zero_tf\<lparr>tf_cs := UCODE, tf_ds := UDATA, tf_es := UDATA, tf_ss := UDATA,
                                       tf_eflags := FL_IF, tf_esp := PGSIZE, tf_eip := 0\<rparr>,
                      p_name := safestrcpy_bytes (p_name x) (ascii ''initcode'' @ [0]) 16\<rparr>) k in
            bindE (on_fs (namei [SLASH] (replicate DIRSIZ 0) 0) k) (\<lambda>(ip, k).
            let k = upd_proc p (\<lambda>x. x\<lparr>p_cwd := ip, p_state := RUNNABLE\<rparr>) k in
            Inr (k\<lparr>k_refs := add_ref pgdir (k_refs k)\<rparr>)))))"

definition growproc :: "int \<Rightarrow> kernel \<Rightarrow> (int \<times> kernel) res" where
  "growproc n k =
     (let sz = p_sz (cur k); pgdir = p_pgdir (cur k) in
      if n > 0 then
        bindE (on_mem (allocuvm (p_shm (cur k)) pgdir sz (sz + of_int n)) k) (\<lambda>(sz, k).
        if sz = 0 then Inr (- 1, k) else Inr (0, upd_cur (\<lambda>x. x\<lparr>p_sz := sz\<rparr>) k))
      else if n < 0 then
        bindE (on_mem (deallocuvm pgdir sz (sz + of_int n)) k) (\<lambda>(sz, k).
        if sz = 0 then Inr (- 1, k) else Inr (0, upd_cur (\<lambda>x. x\<lparr>p_sz := sz\<rparr>) k))
      else Inr (0, upd_cur (\<lambda>x. x\<lparr>p_sz := sz\<rparr>) k))"

text \<open>The fields that \<^verbatim>\<open>fork\<close> and \<^verbatim>\<open>clone\<close> copy from the parent.\<close>

definition inherit :: "nat \<Rightarrow> proc \<Rightarrow> proc \<Rightarrow> proc" where
  "inherit parent p x = x\<lparr>p_shm := p_shm p, p_shm_key_mask := p_shm_key_mask p,
     p_shm_va := map (\<lambda>i. if shm_key_used (int i) (p_shm_key_mask p) then p_shm_va p ! i else p_shm_va x ! i) [0..<MAX_SHM_KEY],
     p_sz := p_sz p, p_parent := Some parent, p_tf := (p_tf p)\<lparr>tf_eax := 0\<rparr>\<rparr>"

fun dup_files :: "nat list \<Rightarrow> nat \<Rightarrow> kernel \<Rightarrow> kernel res" where
  "dup_files [] np k = Inr k"
| "dup_files (i # is) np k =
     (case p_ofile (cur k) ! i of
        None \<Rightarrow> dup_files is np k
      | Some f \<Rightarrow>
          bindE (filedup f k) (\<lambda>k.
          dup_files is np (upd_proc np (\<lambda>x. x\<lparr>p_ofile := (p_ofile x)[i := Some f]\<rparr>) k)))"

text \<open>Open files, current directory, state and name of the child, in that order.\<close>

definition start_child :: "nat \<Rightarrow> kernel \<Rightarrow> kernel res" where
  "start_child np k =
     bindE (dup_files [0..<NOFILE] np k) (\<lambda>k.
     case p_cwd (cur k) of
       None \<Rightarrow> Inl (Undefined ''idup of null'')
     | Some cwd \<Rightarrow>
         let k = k\<lparr>k_fs := idup cwd (k_fs k)\<rparr>;
             k = upd_proc np (\<lambda>x. x\<lparr>p_cwd := Some cwd, p_state := RUNNABLE\<rparr>) k;
             k = k\<lparr>k_refs := add_ref (p_pgdir (k_ptable k ! np)) (k_refs k)\<rparr> in
         Inr (upd_proc np (\<lambda>x. x\<lparr>p_name := safestrcpy_bytes (p_name x) (p_name (cur k)) 16\<rparr>) k))"

definition fork_failed :: "nat \<Rightarrow> kernel \<Rightarrow> (int \<times> kernel) res" where
  "fork_failed np k =
     bindE (on_mem' (kfree (p_kstack (k_ptable k ! np))) k) (\<lambda>k.
     Inr (- 1, upd_proc np (\<lambda>x. x\<lparr>p_kstack := 0, p_state := UNUSED\<rparr>) k))"

definition fork :: "kernel \<Rightarrow> (int \<times> kernel) res" where
  "fork k =
     (let (r, k) = allocproc k in
      case r of
        None \<Rightarrow> Inr (- 1, k)
      | Some np \<Rightarrow>
          bindE (on_mem (copyuvm (p_shm (cur k)) (p_pgdir (cur k)) (p_sz (cur k))) k) (\<lambda>(d, k).
          let k = upd_proc np (\<lambda>x. x\<lparr>p_pgdir := d\<rparr>) k in
          if d = 0 then fork_failed np k
          else
            bindE (on_mem (copyshm (p_pgdir (cur k)) (p_shm (cur k)) d) k) (\<lambda>(r, k).
            if r < 0 then fork_failed np k
            else
              let k = k\<lparr>k_shm := shm_add_count (p_shm_key_mask (cur k)) (k_shm k)\<rparr>;
                  k = upd_proc np (inherit (k_proc k) (cur k)) k;
                  pid = p_pid (k_ptable k ! np) in
              bindE (start_child np k) (\<lambda>k. Inr (pid, k)))))"

definition clone :: "u32 \<Rightarrow> u32 \<Rightarrow> u32 \<Rightarrow> kernel \<Rightarrow> (int \<times> kernel) res" where
  "clone fcn arg stack k =
     (let (r, k) = allocproc k in
      case r of
        None \<Rightarrow> Inr (- 1, k)
      | Some np \<Rightarrow>
          let k = upd_proc np (\<lambda>x. x\<lparr>p_pgdir := p_pgdir (cur k)\<rparr>) k;
              k = upd_proc np (inherit (k_proc k) (cur k)) k;
              pid = p_pid (k_ptable k ! np) in
          bindE (start_child np k) (\<lambda>k.
          let sp = stack + PGSIZE - 8 in
          bindE (on_mem (copyout (p_pgdir (k_ptable k ! np)) sp (bytes32 0xFFFFFFFF @ bytes32 arg)) k) (\<lambda>(r, k).
          if r < 0 then Inr (- 1, k)
          else Inr (pid, upd_proc np (\<lambda>x. x\<lparr>p_ustack := stack, p_tf := (p_tf x)\<lparr>tf_esp := sp, tf_eip := fcn\<rparr>\<rparr>) k))))"

section \<open>Exit\<close>

fun close_files :: "nat list \<Rightarrow> kernel \<Rightarrow> kernel res" where
  "close_files [] k = Inr k"
| "close_files (fd # fds) k =
     (case p_ofile (cur k) ! fd of
        None \<Rightarrow> close_files fds k
      | Some f \<Rightarrow>
          bindE (fileclose f k) (\<lambda>k.
          close_files fds (upd_cur (\<lambda>x. x\<lparr>p_ofile := (p_ofile x)[fd := None]\<rparr>) k)))"

fun abandon :: "nat list \<Rightarrow> nat \<Rightarrow> nat option \<Rightarrow> proc list \<Rightarrow> proc list" where
  "abandon [] me init ps = ps"
| "abandon (p # is) me init ps =
     abandon is me init
       (if p_parent (ps ! p) = Some me then
          let ps = upd (\<lambda>x. x\<lparr>p_parent := init\<rparr>) p ps in
          if p_state (ps ! p) = ZOMBIE then wakeup1 (map_option ChanProc init) ps else ps
        else ps)"

definition exit :: "kernel \<Rightarrow> kernel res" where
  "exit k =
     (if Some (k_proc k) = k_initproc k then Inl (Panic ''init exiting'')
      else
        bindE (close_files [0..<NOFILE] k) (\<lambda>k.
        case p_cwd (cur k) of
          None \<Rightarrow> Inl (Undefined ''iput of null'')
        | Some cwd \<Rightarrow>
            bindE (on_fs' (iput cwd) k) (\<lambda>k.
            let k = upd_cur (\<lambda>x. x\<lparr>p_cwd := None\<rparr>) k;
                ps = wakeup1 (map_option ChanProc (p_parent (cur k))) (k_ptable k);
                ps = abandon [0..<length ps] (k_proc k) (k_initproc k) ps in
            Inr (upd_cur (\<lambda>x. x\<lparr>p_state := ZOMBIE\<rparr>) (k\<lparr>k_ptable := ps\<rparr>)))))"

section \<open>Collecting children\<close>

text \<open>
  A child counts for \<^verbatim>\<open>wait\<close> when its page directory is another one than the caller's, for
  \<^verbatim>\<open>join\<close> when it is the same.
\<close>

definition child :: "bool \<Rightarrow> kernel \<Rightarrow> proc \<Rightarrow> bool" where
  "child thread k p \<longleftrightarrow> p_parent p = Some (k_proc k) \<and> (p_pgdir p = p_pgdir (cur k)) = thread"

definition drop_space :: "nat \<Rightarrow> kernel \<Rightarrow> kernel res" where
  "drop_space p k =
     (let x = k_ptable k ! p;
          (count, refs) = delete_ref (p_pgdir x) (k_refs k);
          k = k\<lparr>k_refs := refs\<rparr> in
      if count < 0 then Inl (Panic ''pgdir ref'')
      else if count = 0 then
        bindE (shm_release (p_pgdir x) (p_shm x) (p_shm_key_mask x) (k_shm k) (k_mem k)) (\<lambda>(_, shm, km).
        let k = upd_proc p (\<lambda>x. x\<lparr>p_shm := USERTOP, p_shm_key_mask := 0\<rparr>) (k\<lparr>k_shm := shm, k_mem := km\<rparr>) in
        on_mem' (freevm (p_shm (cur k)) (p_pgdir x)) k)
      else Inr k)"

definition free_slot :: "nat \<Rightarrow> kernel \<Rightarrow> kernel" where
  "free_slot p k = upd_proc p (\<lambda>x. x\<lparr>p_state := UNUSED, p_pid := 0, p_parent := None,
     p_name := (p_name x)[0 := 0], p_killed := 0\<rparr>) k"

definition wait :: "kernel \<Rightarrow> int reply res" where
  "wait k =
     (case first_idx (\<lambda>p. child False k p \<and> p_state p = ZOMBIE) (k_ptable k) of
        Some p \<Rightarrow>
          let pid = p_pid (k_ptable k ! p) in
          bindE (on_mem' (kfree (p_kstack (k_ptable k ! p))) k) (\<lambda>k.
          bindE (drop_space p (upd_proc p (\<lambda>x. x\<lparr>p_kstack := 0\<rparr>) k)) (\<lambda>k.
          Inr (Reply pid (free_slot p (upd_proc p (\<lambda>x. x\<lparr>p_ustack := 0\<rparr>) k)))))
      | None \<Rightarrow>
          if \<not> list_ex (child False k) (k_ptable k) \<or> killed k then Inr (Reply (- 1) k)
          else Inr (Waits (ChanProc (k_proc k)) WaitChild k))"

definition join :: "u32 \<Rightarrow> kernel \<Rightarrow> int reply res" where
  "join stack k =
     (case first_idx (\<lambda>p. child True k p \<and> p_state p = ZOMBIE) (k_ptable k) of
        Some p \<Rightarrow>
          let pid = p_pid (k_ptable k ! p) in
          bindE (on_mem' (kfree (p_kstack (k_ptable k ! p))) k) (\<lambda>k.
          let k = upd_proc p (\<lambda>x. x\<lparr>p_kstack := 0\<rparr>) k in
          bindE (user_store stack (bytes32 (p_ustack (k_ptable k ! p))) k) (\<lambda>k.
          bindE (drop_space p k) (\<lambda>k.
          Inr (Reply pid (free_slot p k)))))
      | None \<Rightarrow>
          if \<not> list_ex (child True k) (k_ptable k) \<or> killed k then Inr (Reply (- 1) k)
          else Inr (Waits (ChanProc (k_proc k)) (JoinThread stack) k))"

end
