(* ===== verification/Sysfile.thy ===== *)
theory Sysfile
  imports Kernel
begin

unbundle bit_operations_syntax

text \<open>
  System calls on files: fetching arguments from the user's stack (\<^verbatim>\<open>kernel/syscall.c\<close>) and
  the handlers of \<^verbatim>\<open>kernel/sysfile.c\<close> except \<^verbatim>\<open>sys_exec\<close>. A string argument is the list of
  its bytes before the NUL.

  The buffers \<^verbatim>\<open>char name[DIRSIZ]\<close> of the handlers are uninitialised; the model starts them
  with zeros. Nothing reads them behind the NUL that \<open>skipelem\<close> writes.
\<close>

section \<open>Arguments\<close>

text \<open>\<open>Inr None\<close> is the return value -1.\<close>

definition fetchint :: "u32 \<Rightarrow> kernel \<Rightarrow> u32 option res" where
  "fetchint addr k =
     (if addr \<ge> p_sz (cur k) \<or> addr + 4 > p_sz (cur k) then Inr None
      else bindE (user_load 4 addr k) (\<lambda>bs. Inr (Some (load32 0 bs))))"

fun fetchstr_loop :: "nat \<Rightarrow> u32 \<Rightarrow> kernel \<Rightarrow> u8 list option res" where
  "fetchstr_loop 0 s k = Inr None"
| "fetchstr_loop (Suc n) s k =
     (case user_byte k s of
        None \<Rightarrow> Inl (Undefined ''page fault'')
      | Some c \<Rightarrow>
          if c = 0 then Inr (Some [])
          else bindE (fetchstr_loop n (s + 1) k) (\<lambda>r. Inr (map_option ((#) c) r)))"

definition fetchstr :: "u32 \<Rightarrow> kernel \<Rightarrow> u8 list option res" where
  "fetchstr addr k =
     (if addr \<ge> p_sz (cur k) then Inr None
      else fetchstr_loop (unat (p_sz (cur k)) - unat addr) addr k)"

definition argint :: "nat \<Rightarrow> kernel \<Rightarrow> u32 option res" where
  "argint n k = fetchint (tf_esp (p_tf (cur k)) + 4 + 4 * of_nat n) k"

definition argptr :: "nat \<Rightarrow> int \<Rightarrow> kernel \<Rightarrow> u32 option res" where
  "argptr n sz k =
     bindE (argint n k) (\<lambda>r.
     case r of
       None \<Rightarrow> Inr None
     | Some i \<Rightarrow>
         if i \<ge> p_sz (cur k) \<or> i + of_int sz > p_sz (cur k) then Inr None
         else Inr (Some i))"

definition argstr :: "nat \<Rightarrow> kernel \<Rightarrow> u8 list option res" where
  "argstr n k =
     bindE (argint n k) (\<lambda>r. case r of None \<Rightarrow> Inr None | Some addr \<Rightarrow> fetchstr addr k)"

text \<open>
  \<open>arg m k f\<close>: continue with the argument fetched by \<open>m\<close>, or return -1 without it.
\<close>

definition arg :: "'a option res \<Rightarrow> kernel \<Rightarrow> ('a \<Rightarrow> int reply res) \<Rightarrow> int reply res" where
  "arg m k f = bindE m (\<lambda>r. case r of None \<Rightarrow> Inr (Reply (- 1) k) | Some x \<Rightarrow> f x)"

definition argfd :: "nat \<Rightarrow> kernel \<Rightarrow> (nat \<times> nat) option res" where
  "argfd n k =
     bindE (argint n k) (\<lambda>r.
     case r of
       None \<Rightarrow> Inr None
     | Some w \<Rightarrow>
         let fd = sint w in
         if fd < 0 \<or> fd \<ge> int NOFILE then Inr None
         else
           case p_ofile (cur k) ! nat fd of
             None \<Rightarrow> Inr None
           | Some f \<Rightarrow> Inr (Some (nat fd, f)))"

definition fdalloc :: "nat \<Rightarrow> kernel \<Rightarrow> int \<times> kernel" where
  "fdalloc f k =
     (case first_idx (\<lambda>x. x = None) (p_ofile (cur k)) of
        Some fd \<Rightarrow> (int fd, upd_cur (\<lambda>p. p\<lparr>p_ofile := (p_ofile p)[fd := Some f]\<rparr>) k)
      | None \<Rightarrow> (- 1, k))"

section \<open>Descriptors\<close>

definition sys_dup :: "kernel \<Rightarrow> int reply res" where
  "sys_dup k =
     arg (argfd 0 k) k (\<lambda>(_, f).
     let (fd, k) = fdalloc f k in
     if fd < 0 then Inr (Reply (- 1) k)
     else bindE (filedup f k) (\<lambda>k. Inr (Reply fd k)))"

definition sys_read :: "kernel \<Rightarrow> int reply res" where
  "sys_read k =
     arg (argfd 0 k) k (\<lambda>(_, f).
     arg (argint 2 k) k (\<lambda>n.
     arg (argptr 1 (sint n) k) k (\<lambda>p.
     fileread f p (sint n) k)))"

definition sys_write :: "kernel \<Rightarrow> int reply res" where
  "sys_write k =
     arg (argfd 0 k) k (\<lambda>(_, f).
     arg (argint 2 k) k (\<lambda>n.
     arg (argptr 1 (sint n) k) k (\<lambda>p.
     filewrite f p (sint n) k)))"

definition sys_close :: "kernel \<Rightarrow> int reply res" where
  "sys_close k =
     arg (argfd 0 k) k (\<lambda>(fd, f).
     let k = upd_cur (\<lambda>p. p\<lparr>p_ofile := (p_ofile p)[fd := None]\<rparr>) k in
     bindE (fileclose f k) (\<lambda>k. Inr (Reply 0 k)))"

text \<open>\<^verbatim>\<open>struct stat\<close> in memory: 24 bytes, with padding behind the two \<^verbatim>\<open>short\<close> fields and the checksum.\<close>

definition store_stat :: "u32 \<Rightarrow> stat \<Rightarrow> kernel \<Rightarrow> kernel res" where
  "store_stat a st k =
     bindE (user_store (a + 4) (bytes32 (st_dev st)) k) (\<lambda>k.
     bindE (user_store (a + 8) (bytes32 (st_ino st)) k) (\<lambda>k.
     bindE (user_store a (bytes16 (st_type st)) k) (\<lambda>k.
     bindE (user_store (a + 12) (bytes16 (st_nlink st)) k) (\<lambda>k.
     bindE (user_store (a + 16) (bytes32 (st_size st)) k) (\<lambda>k.
     user_store (a + 20) [st_checksum st] k)))))"

definition sys_fstat :: "kernel \<Rightarrow> int reply res" where
  "sys_fstat k =
     arg (argfd 0 k) k (\<lambda>(_, f).
     arg (argptr 1 24 k) k (\<lambda>a.
     bindE (filestat f k) (\<lambda>(r, k).
     case r of
       None \<Rightarrow> Inr (Reply (- 1) k)
     | Some st \<Rightarrow> bindE (store_stat a st k) (\<lambda>k. Inr (Reply 0 k)))))"

section \<open>Directory operations\<close>

text \<open>These are the parts of the handlers below the file system; \<open>cwd\<close> is \<^verbatim>\<open>proc->cwd\<close>.\<close>

abbreviation (input) name_buf :: "u8 list" where "name_buf \<equiv> replicate DIRSIZ 0"
abbreviation (input) DOT :: "u8 list" where "DOT \<equiv> [46, 0]"
abbreviation (input) DOTDOT :: "u8 list" where "DOTDOT \<equiv> [46, 46, 0]"

definition link_bad :: "nat \<Rightarrow> fs \<Rightarrow> (int \<times> fs) res" where
  "link_bad ip s =
     bindE (ilock ip s) (\<lambda>s.
     bindE (iupdate ip (upd_inode ip (\<lambda>x. x\<lparr>i_nlink := i_nlink x - 1\<rparr>) s)) (\<lambda>s.
     bindE (iunlockput ip s) (\<lambda>s. Inr (- 1, s))))"

definition link :: "nat \<Rightarrow> u8 list \<Rightarrow> u8 list \<Rightarrow> fs \<Rightarrow> (int \<times> fs) res" where
  "link cwd old new s =
     bindE (namei old name_buf cwd s) (\<lambda>(r, s).
     case r of None \<Rightarrow> Inr (- 1, s) | Some ip \<Rightarrow>
     bindE (ilock ip s) (\<lambda>s.
     if i_type (icache s ! ip) = T_DIR then bindE (iunlockput ip s) (\<lambda>s. Inr (- 1, s))
     else
       bindE (iupdate ip (upd_inode ip (\<lambda>x. x\<lparr>i_nlink := i_nlink x + 1\<rparr>) s)) (\<lambda>s.
       bindE (iunlock ip s) (\<lambda>s.
       bindE (nameiparent new name_buf cwd s) (\<lambda>(r, nm, s).
       case r of None \<Rightarrow> link_bad ip s | Some dp \<Rightarrow>
       bindE (ilock dp s) (\<lambda>s.
       bindE (if i_dev (icache s ! dp) \<noteq> i_dev (icache s ! ip) then Inr (- 1, s)
              else dirlink dp nm (i_inum (icache s ! ip)) s) (\<lambda>(r, s).
       if r < 0 then bindE (iunlockput dp s) (link_bad ip)
       else
         bindE (iunlockput dp s) (\<lambda>s.
         bindE (iput ip s) (\<lambda>s. Inr (0, s))))))))))"

function isdirempty_loop :: "nat \<Rightarrow> nat \<Rightarrow> nat \<Rightarrow> fs \<Rightarrow> (bool \<times> fs) res" where
  "isdirempty_loop dp sz off s =
     (if off < sz then
        bindE (readi dp (of_nat off) 16 s) (\<lambda>(r, s).
        case r of
          Done n xs \<Rightarrow>
            if n \<noteq> 16 then Inl (Panic ''isdirempty: readi'')
            else if de_inum (decode_dirent xs) \<noteq> 0 then Inr (False, s)
            else isdirempty_loop dp sz (off + 16) s
        | Device \<Rightarrow> Inl (Undefined ''directory is a device''))
      else Inr (True, s))"
  by pat_completeness auto
termination by (relation "measure (\<lambda>(dp, sz, off, s). sz - off)") auto

declare isdirempty_loop.simps [simp del]

definition isdirempty :: "nat \<Rightarrow> fs \<Rightarrow> (bool \<times> fs) res" where
  "isdirempty dp s = isdirempty_loop dp (unat (i_size (icache s ! dp))) 32 s"

definition unlink :: "nat \<Rightarrow> u8 list \<Rightarrow> fs \<Rightarrow> (int \<times> fs) res" where
  "unlink cwd path s =
     bindE (nameiparent path name_buf cwd s) (\<lambda>(r, nm, s).
     case r of None \<Rightarrow> Inr (- 1, s) | Some dp \<Rightarrow>
     bindE (ilock dp s) (\<lambda>s.
     if namecmp nm DOT = 0 \<or> namecmp nm DOTDOT = 0 then bindE (iunlockput dp s) (\<lambda>s. Inr (- 1, s))
     else
       bindE (dirlookup dp nm s) (\<lambda>(r, s).
       case r of None \<Rightarrow> bindE (iunlockput dp s) (\<lambda>s. Inr (- 1, s)) | Some (ip, off) \<Rightarrow>
       bindE (ilock ip s) (\<lambda>s.
       if sint (i_nlink (icache s ! ip)) < 1 then Inl (Panic ''unlink: nlink < 1'')
       else
         bindE (if i_type (icache s ! ip) = T_DIR then isdirempty ip s else Inr (True, s)) (\<lambda>(empty, s).
         if \<not> empty then
           bindE (iunlockput ip s) (\<lambda>s.
           bindE (iunlockput dp s) (\<lambda>s. Inr (- 1, s)))
         else
           bindE (writei dp (replicate 16 0) (of_nat off) 16 s) (\<lambda>(r, s).
           if r \<noteq> Done 16 [] then Inl (Panic ''unlink: writei'')
           else
             bindE (if i_type (icache s ! ip) = T_DIR
                    then iupdate dp (upd_inode dp (\<lambda>x. x\<lparr>i_nlink := i_nlink x - 1\<rparr>) s) else Inr s) (\<lambda>s.
             bindE (iunlockput dp s) (\<lambda>s.
             bindE (iupdate ip (upd_inode ip (\<lambda>x. x\<lparr>i_nlink := i_nlink x - 1\<rparr>) s)) (\<lambda>s.
             bindE (iunlockput ip s) (\<lambda>s. Inr (0, s)))))))))))"

definition create_dots :: "nat \<Rightarrow> nat \<Rightarrow> fs \<Rightarrow> fs res" where
  "create_dots dp ip s =
     bindE (iupdate dp (upd_inode dp (\<lambda>x. x\<lparr>i_nlink := i_nlink x + 1\<rparr>) s)) (\<lambda>s.
     bindE (dirlink ip DOT (i_inum (icache s ! ip)) s) (\<lambda>(r, s).
     if r < 0 then Inl (Panic ''create dots'')
     else
       bindE (dirlink ip DOTDOT (i_inum (icache s ! dp)) s) (\<lambda>(r, s).
       if r < 0 then Inl (Panic ''create dots'') else Inr s)))"

definition create :: "nat \<Rightarrow> u8 list \<Rightarrow> u16 \<Rightarrow> u16 \<Rightarrow> u16 \<Rightarrow> fs \<Rightarrow> (nat option \<times> fs) res" where
  "create cwd path type major minor s =
     bindE (nameiparent path name_buf cwd s) (\<lambda>(r, nm, s).
     case r of None \<Rightarrow> Inr (None, s) | Some dp \<Rightarrow>
     bindE (ilock dp s) (\<lambda>s.
     bindE (dirlookup dp nm s) (\<lambda>(r, s).
     case r of
       Some (ip, off) \<Rightarrow>
         bindE (iunlockput dp s) (\<lambda>s.
         bindE (ilock ip s) (\<lambda>s.
         if type = T_FILE \<and> i_type (icache s ! ip) = T_FILE then Inr (Some ip, s)
         else if type = T_CHECKED \<and> i_type (icache s ! ip) = T_CHECKED then Inr (Some ip, s)
         else bindE (iunlockput ip s) (\<lambda>s. Inr (None, s))))
     | None \<Rightarrow>
         bindE (ialloc (i_dev (icache s ! dp)) type s) (\<lambda>(ip, s).
         bindE (ilock ip s) (\<lambda>s.
         bindE (iupdate ip (upd_inode ip (\<lambda>x. x\<lparr>i_major := major, i_minor := minor, i_nlink := 1\<rparr>) s)) (\<lambda>s.
         bindE (if type = T_DIR then create_dots dp ip s else Inr s) (\<lambda>s.
         bindE (dirlink dp nm (i_inum (icache s ! ip)) s) (\<lambda>(r, s).
         if r < 0 then Inl (Panic ''create: dirlink'')
         else bindE (iunlockput dp s) (\<lambda>s. Inr (Some ip, s))))))))))"

text \<open>The current directory for a path; the null pointer is dereferenced by relative paths only.\<close>

definition with_cwd :: "u8 list \<Rightarrow> kernel \<Rightarrow> (nat \<Rightarrow> 'a res) \<Rightarrow> 'a res" where
  "with_cwd path k f =
     (case p_cwd (cur k) of
        Some cwd \<Rightarrow> f cwd
      | None \<Rightarrow> if path \<noteq> [] \<and> hd path = SLASH then f 0 else Inl (Undefined ''idup of null''))"

definition sys_link :: "kernel \<Rightarrow> int reply res" where
  "sys_link k =
     arg (argstr 0 k) k (\<lambda>old.
     arg (argstr 1 k) k (\<lambda>new.
     with_cwd old k (\<lambda>cwd.
     bindE (on_fs (link cwd old new) k) (\<lambda>(r, k). Inr (Reply r k)))))"

definition sys_unlink :: "kernel \<Rightarrow> int reply res" where
  "sys_unlink k =
     arg (argstr 0 k) k (\<lambda>path.
     with_cwd path k (\<lambda>cwd.
     bindE (on_fs (unlink cwd path) k) (\<lambda>(r, k). Inr (Reply r k))))"

abbreviation (input) O_WRONLY :: u32 where "O_WRONLY \<equiv> 0x001"
abbreviation (input) O_RDWR :: u32 where "O_RDWR \<equiv> 0x002"
abbreviation (input) O_CREATE :: u32 where "O_CREATE \<equiv> 0x200"
abbreviation (input) O_CHECKED :: u32 where "O_CHECKED \<equiv> 0x400"

definition open_inode :: "nat \<Rightarrow> u8 list \<Rightarrow> u32 \<Rightarrow> fs \<Rightarrow> (nat option \<times> fs) res" where
  "open_inode cwd path omode s =
     (if omode AND O_CREATE \<noteq> 0 then
        create cwd path (if omode AND O_CHECKED \<noteq> 0 then T_CHECKED else T_FILE) 0 0 s
      else
        bindE (namei path name_buf cwd s) (\<lambda>(r, s).
        case r of None \<Rightarrow> Inr (None, s) | Some ip \<Rightarrow>
        bindE (ilock ip s) (\<lambda>s.
        if i_type (icache s ! ip) = T_DIR \<and> omode \<noteq> 0 then bindE (iunlockput ip s) (\<lambda>s. Inr (None, s))
        else Inr (Some ip, s))))"

definition sys_open :: "kernel \<Rightarrow> int reply res" where
  "sys_open k =
     arg (argstr 0 k) k (\<lambda>path.
     arg (argint 1 k) k (\<lambda>omode.
     with_cwd path k (\<lambda>cwd.
     bindE (on_fs (open_inode cwd path omode) k) (\<lambda>(r, k).
     case r of None \<Rightarrow> Inr (Reply (- 1) k) | Some ip \<Rightarrow>
     let (rfile, k) = filealloc k in
     case rfile of
       None \<Rightarrow> bindE (on_fs' (iunlockput ip) k) (\<lambda>k. Inr (Reply (- 1) k))
     | Some f \<Rightarrow>
         let (fd, k) = fdalloc f k in
         if fd < 0 then
           bindE (fileclose f k) (\<lambda>k.
           bindE (on_fs' (iunlockput ip) k) (\<lambda>k. Inr (Reply (- 1) k)))
         else
           bindE (on_fs' (iunlock ip) k) (\<lambda>k.
           Inr (Reply fd (upd_file f (\<lambda>x. x\<lparr>f_type := FD_INODE, f_ip := ip, f_off := 0,
             f_readable := (omode AND O_WRONLY = 0),
             f_writable := (omode AND O_WRONLY \<noteq> 0 \<or> omode AND O_RDWR \<noteq> 0)\<rparr>) k)))))))"

definition sys_mkdir :: "kernel \<Rightarrow> int reply res" where
  "sys_mkdir k =
     arg (argstr 0 k) k (\<lambda>path.
     with_cwd path k (\<lambda>cwd.
     bindE (on_fs (create cwd path T_DIR 0 0) k) (\<lambda>(r, k).
     case r of None \<Rightarrow> Inr (Reply (- 1) k)
     | Some ip \<Rightarrow> bindE (on_fs' (iunlockput ip) k) (\<lambda>k. Inr (Reply 0 k)))))"

definition sys_mknod :: "kernel \<Rightarrow> int reply res" where
  "sys_mknod k =
     arg (argstr 0 k) k (\<lambda>path.
     arg (argint 1 k) k (\<lambda>major.
     arg (argint 2 k) k (\<lambda>minor.
     with_cwd path k (\<lambda>cwd.
     bindE (on_fs (create cwd path T_DEV (ucast major) (ucast minor)) k) (\<lambda>(r, k).
     case r of None \<Rightarrow> Inr (Reply (- 1) k)
     | Some ip \<Rightarrow> bindE (on_fs' (iunlockput ip) k) (\<lambda>k. Inr (Reply 0 k)))))))"

definition sys_chdir :: "kernel \<Rightarrow> int reply res" where
  "sys_chdir k =
     arg (argstr 0 k) k (\<lambda>path.
     with_cwd path k (\<lambda>cwd.
     bindE (on_fs (namei path name_buf cwd) k) (\<lambda>(r, k).
     case r of None \<Rightarrow> Inr (Reply (- 1) k) | Some ip \<Rightarrow>
     bindE (on_fs' (ilock ip) k) (\<lambda>k.
     if i_type (inode_at ip k) \<noteq> T_DIR then bindE (on_fs' (iunlockput ip) k) (\<lambda>k. Inr (Reply (- 1) k))
     else
       bindE (on_fs' (iunlock ip) k) (\<lambda>k.
       case p_cwd (cur k) of
         None \<Rightarrow> Inl (Undefined ''iput of null'')
       | Some old \<Rightarrow>
           bindE (on_fs' (iput old) k) (\<lambda>k. Inr (Reply 0 (upd_cur (\<lambda>p. p\<lparr>p_cwd := Some ip\<rparr>) k))))))))"

section \<open>Pipes\<close>

definition sys_pipe :: "kernel \<Rightarrow> int reply res" where
  "sys_pipe k =
     arg (argptr 0 8 k) k (\<lambda>fd.
     bindE (pipealloc k) (\<lambda>(r, k).
     case r of None \<Rightarrow> Inr (Reply (- 1) k) | Some (rfile, wfile) \<Rightarrow>
     let (fd0, k) = fdalloc rfile k in
     if fd0 < 0 then
       bindE (fileclose rfile k) (\<lambda>k. bindE (fileclose wfile k) (\<lambda>k. Inr (Reply (- 1) k)))
     else
       let (fd1, k) = fdalloc wfile k in
       if fd1 < 0 then
         let k = upd_cur (\<lambda>p. p\<lparr>p_ofile := (p_ofile p)[nat fd0 := None]\<rparr>) k in
         bindE (fileclose rfile k) (\<lambda>k. bindE (fileclose wfile k) (\<lambda>k. Inr (Reply (- 1) k)))
       else
         bindE (user_store fd (bytes32 (of_int fd0)) k) (\<lambda>k.
         bindE (user_store (fd + 4) (bytes32 (of_int fd1)) k) (\<lambda>k.
         Inr (Reply 0 k)))))"

end
