(* ===== verification/Exec.thy ===== *)
theory Exec
  imports Proc Sysfile
begin

unbundle bit_operations_syntax

text \<open>
  Running a program: \<^verbatim>\<open>loaduvm\<close> (vm.c), \<^verbatim>\<open>exec\<close> (exec.c) and \<^verbatim>\<open>sys_exec\<close> (sysfile.c). A jump to
  the label \<^verbatim>\<open>bad\<close> is \<open>exec_bad\<close>. The argument \<open>junk\<close> of \<open>exec\<close> is what the uninitialised
  header on the kernel stack holds before it is read. Executing a device is not modelled: the
  header would be read from the console.
\<close>

abbreviation (input) MAXARG :: nat where "MAXARG \<equiv> 32"
abbreviation (input) ELF_MAGIC :: u32 where "ELF_MAGIC \<equiv> 0x464C457F"
abbreviation (input) ELF_PROG_LOAD :: u32 where "ELF_PROG_LOAD \<equiv> 1"

section \<open>Headers\<close>

record elfhdr =
  elf_magic :: u32
  elf_entry :: u32
  elf_phoff :: u32
  elf_phnum :: u16

record proghdr =
  ph_type :: u32
  ph_offset :: u32
  ph_va :: u32
  ph_filesz :: u32
  ph_memsz :: u32

definition decode_elfhdr :: "u8 list \<Rightarrow> elfhdr" where
  "decode_elfhdr xs = \<lparr>elf_magic = load32 0 xs, elf_entry = load32 24 xs, elf_phoff = load32 28 xs, elf_phnum = load16 44 xs\<rparr>"

definition decode_proghdr :: "u8 list \<Rightarrow> proghdr" where
  "decode_proghdr xs = \<lparr>ph_type = load32 0 xs, ph_offset = load32 4 xs, ph_va = load32 8 xs, ph_filesz = load32 16 xs, ph_memsz = load32 20 xs\<rparr>"

section \<open>Loading\<close>

fun loaduvm_loop :: "u32 list \<Rightarrow> u32 \<Rightarrow> u32 \<Rightarrow> nat \<Rightarrow> u32 \<Rightarrow> u32 \<Rightarrow> kernel \<Rightarrow> (int \<times> kernel) res" where
  "loaduvm_loop [] pgdir addr ip offset sz k = Inr (0, k)"
| "loaduvm_loop (i # is) pgdir addr ip offset sz k =
     (let pte = fst (walkpgdir pgdir (addr + i) False (k_mem k)) in
      if pte = 0 then Inl (Panic ''loaduvm: address should exist'')
      else
        let pa = PTE_ADDR (mem (k_mem k) pte);
            n = (if sz - i < PGSIZE then sz - i else PGSIZE) in
        bindE (on_fs (readi ip (offset + i) n) k) (\<lambda>(r, k).
        case r of
          Device \<Rightarrow> Inl (Undefined ''exec of a device'')
        | Done c xs \<Rightarrow>
            let k = k\<lparr>k_mem := (k_mem k)\<lparr>mem := store_bytes pa xs (mem (k_mem k))\<rparr>\<rparr> in
            if of_int c \<noteq> n then Inr (- 1, k)
            else loaduvm_loop is pgdir addr ip offset sz k))"

definition loaduvm :: "u32 \<Rightarrow> u32 \<Rightarrow> nat \<Rightarrow> u32 \<Rightarrow> u32 \<Rightarrow> kernel \<Rightarrow> (int \<times> kernel) res" where
  "loaduvm pgdir addr ip offset sz k =
     (if addr mod PGSIZE \<noteq> 0 then Inl (Panic ''loaduvm: addr must be page aligned'')
      else loaduvm_loop (page_range 0 sz) pgdir addr ip offset sz k)"

definition exec_bad :: "u32 \<Rightarrow> nat option \<Rightarrow> kernel \<Rightarrow> (int \<times> kernel) res" where
  "exec_bad pgdir ip k =
     bindE (if pgdir \<noteq> 0 then on_mem' (freevm (p_shm (cur k)) pgdir) k else Inr k) (\<lambda>k.
     bindE (case ip of Some i \<Rightarrow> on_fs' (iunlockput i) k | None \<Rightarrow> Inr k) (\<lambda>k.
     Inr (- 1, k)))"

text \<open>The program headers: \<open>Some sz\<close> is the size reached, \<open>None\<close> a jump to \<^verbatim>\<open>bad\<close>.\<close>

fun exec_segments :: "nat \<Rightarrow> nat \<Rightarrow> u32 \<Rightarrow> u32 \<Rightarrow> u32 \<Rightarrow> kernel \<Rightarrow> (u32 option \<times> kernel) res" where
  "exec_segments 0 ip off pgdir sz k = Inr (Some sz, k)"
| "exec_segments (Suc n) ip off pgdir sz k =
     bindE (on_fs (readi ip off 32) k) (\<lambda>(r, k).
     case r of
       Device \<Rightarrow> Inl (Undefined ''exec of a device'')
     | Done c xs \<Rightarrow>
         if c \<noteq> 32 then Inr (None, k)
         else
           let ph = decode_proghdr xs in
           if ph_type ph \<noteq> ELF_PROG_LOAD then exec_segments n ip (off + 32) pgdir sz k
           else if ph_memsz ph < ph_filesz ph then Inr (None, k)
           else
             bindE (on_mem (allocuvm (p_shm (cur k)) pgdir sz (ph_va ph + ph_memsz ph)) k) (\<lambda>(sz, k).
             if sz = 0 then Inr (None, k)
             else
               bindE (loaduvm pgdir (ph_va ph) ip (ph_offset ph) (ph_filesz ph) k) (\<lambda>(r, k).
               if r < 0 then Inr (None, k)
               else exec_segments n ip (off + 32) pgdir sz k)))"

section \<open>Arguments\<close>

text \<open>Pushing the argument strings: the stack pointer and the addresses of the strings.\<close>

fun exec_args :: "u8 list list \<Rightarrow> nat \<Rightarrow> u32 \<Rightarrow> u32 \<Rightarrow> u32 list \<Rightarrow> kernel \<Rightarrow> ((u32 \<times> u32 list) option \<times> kernel) res" where
  "exec_args [] argc pgdir sp ptrs k = Inr (Some (sp, ptrs), k)"
| "exec_args (a # as) argc pgdir sp ptrs k =
     (if argc \<ge> MAXARG then Inr (None, k)
      else
        let sp = (sp - (of_nat (length a) + 1)) AND NOT 3 in
        bindE (on_mem (copyout pgdir sp (a @ [0])) k) (\<lambda>(r, k).
        if r < 0 then Inr (None, k)
        else exec_args as (argc + 1) pgdir sp (ptrs @ [sp]) k))"

definition exec_stack :: "u32 \<Rightarrow> u32 list \<Rightarrow> u32 list" where
  "exec_stack sp ptrs =
     [0xFFFFFFFF, of_nat (length ptrs), sp - (of_nat (length ptrs) + 1) * 4] @ ptrs @ [0]"

text \<open>The name of the program: the path behind its last slash.\<close>

definition last_elem :: "u8 list \<Rightarrow> u8 list" where
  "last_elem path = rev (takeWhile (\<lambda>c. c \<noteq> SLASH) (rev path))"

section \<open>Exec\<close>

definition exec_commit :: "u8 list \<Rightarrow> u32 \<Rightarrow> u32 \<Rightarrow> u32 \<Rightarrow> u32 \<Rightarrow> kernel \<Rightarrow> (int \<times> kernel) res" where
  "exec_commit path pgdir sz sp entry k =
     (let k = upd_cur (\<lambda>p. p\<lparr>p_name := safestrcpy_bytes (p_name p) (last_elem path) 16\<rparr>) k;
          oldpgdir = p_pgdir (cur k);
          (count, refs) = delete_ref oldpgdir (k_refs k);
          k = k\<lparr>k_refs := add_ref pgdir refs\<rparr>;
          k = upd_cur (\<lambda>p. p\<lparr>p_pgdir := pgdir, p_sz := sz, p_tf := (p_tf p)\<lparr>tf_eip := entry, tf_esp := sp\<rparr>,
                             p_ustack := PGROUNDDOWN sz\<rparr>) k in
      bindE (if count < 0 then Inl (Panic ''pgdir ref'')
             else if count = 0 then
               bindE (shm_release oldpgdir (p_shm (cur k)) (p_shm_key_mask (cur k)) (k_shm k) (k_mem k)) (\<lambda>(_, shm, km).
               on_mem' (freevm (p_shm (cur k)) oldpgdir) (k\<lparr>k_shm := shm, k_mem := km\<rparr>))
             else Inr k) (\<lambda>k.
      Inr (0, upd_cur (\<lambda>p. p\<lparr>p_shm := USERTOP, p_shm_key_mask := 0\<rparr>) k)))"

definition exec :: "u8 list \<Rightarrow> u8 list \<Rightarrow> u8 list list \<Rightarrow> kernel \<Rightarrow> (int \<times> kernel) res" where
  "exec junk path argv k =
     with_cwd path k (\<lambda>cwd.
     bindE (on_fs (namei path name_buf cwd) k) (\<lambda>(r, k).
     case r of None \<Rightarrow> Inr (- 1, k) | Some ip \<Rightarrow>
     bindE (on_fs' (ilock ip) k) (\<lambda>k.
     bindE (on_fs (readi ip 0 52) k) (\<lambda>(r, k).
     case r of Device \<Rightarrow> Inl (Undefined ''exec of a device'') | Done c xs \<Rightarrow>
     if (of_int c :: u32) < 52 then exec_bad 0 (Some ip) k
     else
       let elf = decode_elfhdr (xs @ drop (length xs) junk) in
       if elf_magic elf \<noteq> ELF_MAGIC then exec_bad 0 (Some ip) k
       else
         bindE (on_mem setupkvm k) (\<lambda>(pgdir, k).
         if pgdir = 0 then exec_bad 0 (Some ip) k
         else
           bindE (exec_segments (unat (elf_phnum elf)) ip (elf_phoff elf) pgdir 0 k) (\<lambda>(r, k).
           case r of None \<Rightarrow> exec_bad pgdir (Some ip) k | Some sz \<Rightarrow>
           bindE (on_fs' (iunlockput ip) k) (\<lambda>k.
           let sz = PGROUNDUP sz in
           bindE (on_mem (allocuvm (p_shm (cur k)) pgdir sz (sz + PGSIZE)) k) (\<lambda>(sz, k).
           if sz = 0 then exec_bad pgdir None k
           else
             bindE (exec_args argv 0 pgdir sz [] k) (\<lambda>(r, k).
             case r of None \<Rightarrow> exec_bad pgdir None k | Some (sp, ptrs) \<Rightarrow>
             let ustack = exec_stack sp ptrs;
                 sp = sp - of_nat (length ustack) * 4 in
             bindE (on_mem (copyout pgdir sp (concat (map bytes32 ustack))) k) (\<lambda>(r, k).
             if r < 0 then exec_bad pgdir None k
             else exec_commit path pgdir sz sp (elf_entry elf) k))))))))))"

text \<open>The loop of \<^verbatim>\<open>sys_exec\<close>: the first argument counts the entries of \<^verbatim>\<open>argv\<close> that are left.\<close>

fun fetch_argv :: "nat \<Rightarrow> u32 \<Rightarrow> kernel \<Rightarrow> u8 list list option res" where
  "fetch_argv 0 uargv k = Inr None"
| "fetch_argv (Suc n) uargv k =
     bindE (fetchint uargv k) (\<lambda>r.
     case r of None \<Rightarrow> Inr None | Some uarg \<Rightarrow>
     if uarg = 0 then Inr (Some [])
     else
       bindE (fetchstr uarg k) (\<lambda>r.
       case r of None \<Rightarrow> Inr None | Some s \<Rightarrow>
       bindE (fetch_argv n (uargv + 4) k) (\<lambda>r. Inr (map_option ((#) s) r))))"

definition sys_exec :: "u8 list \<Rightarrow> kernel \<Rightarrow> int reply res" where
  "sys_exec junk k =
     arg (argstr 0 k) k (\<lambda>path.
     arg (argint 1 k) k (\<lambda>uargv.
     arg (fetch_argv MAXARG uargv k) k (\<lambda>argv.
     bindE (exec junk path argv k) (\<lambda>(r, k). Inr (Reply r k)))))"

end
