(* ===== verification/Trap.thy ===== *)
theory Trap
  imports Exec Kbd Spinlock
begin

unbundle bit_operations_syntax

text \<open>
  The system calls of \<^verbatim>\<open>kernel/sysproc.c\<close>, the dispatch of \<^verbatim>\<open>kernel/syscall.c\<close> and the trap
  handler of \<^verbatim>\<open>kernel/trap.c\<close>.
\<close>

section \<open>Messages\<close>

text \<open>Memory as far as a message reads it: the name of a process, at an address of its own.\<close>

definition name_at :: u32 where
  "name_at = 0x100000"

definition name_mem :: "proc \<Rightarrow> bmem" where
  "name_mem p a = (let i = unat (a - name_at) in if i < length (p_name p) then p_name p ! i else 0)"

definition kprint :: "bmem \<Rightarrow> u8 list \<Rightarrow> u32 list \<Rightarrow> kernel \<Rightarrow> kernel res" where
  "kprint m fmt args k =
     (case console_print m fmt args (k_console k) of
        None \<Rightarrow> Inl (Undefined ''console output does not end'')
      | Some c \<Rightarrow> Inr (k\<lparr>k_console := c\<rparr>))"

text \<open>\<^verbatim>\<open>procdump\<close> (proc.c), which the console calls on control-P.\<close>

fun state_name :: "procstate \<Rightarrow> u8 list" where
  "state_name UNUSED = ascii ''unused''"
| "state_name EMBRYO = ascii ''embryo''"
| "state_name SLEEPING = ascii ''sleep ''"
| "state_name RUNNABLE = ascii ''runble''"
| "state_name RUNNING = ascii ''run   ''"
| "state_name ZOMBIE = ascii ''zombie''"

fun print_addrs :: "u32 list \<Rightarrow> kernel \<Rightarrow> kernel res" where
  "print_addrs [] k = Inr k"
| "print_addrs (pc # pcs) k = bindE (kprint (\<lambda>_. 0) (ascii '' %p'') [pc] k) (print_addrs pcs)"

fun procdump_loop :: "proc list \<Rightarrow> kernel \<Rightarrow> kernel res" where
  "procdump_loop [] k = Inr k"
| "procdump_loop (p # ps) k =
     (if p_state p = UNUSED then procdump_loop ps k
      else
        bindE (kprint (name_mem p) (ascii ''%d '' @ state_name (p_state p) @ ascii '' %s'') [of_int (p_pid p), name_at] k) (\<lambda>k.
        bindE (if p_state p = SLEEPING
               then print_addrs (takeWhile (\<lambda>pc. pc \<noteq> 0) (getcallerpcs (cx_ebp (p_context p) + 8) (mem (k_mem k)))) k
               else Inr k) (\<lambda>k.
        bindE (kprint (\<lambda>_. 0) [10] [] k) (procdump_loop ps))))"

definition procdump :: "kernel \<Rightarrow> kernel res" where
  "procdump k = procdump_loop (k_ptable k) k"

text \<open>What \<^verbatim>\<open>consoleintr\<close> causes while it reads characters.\<close>

fun console_events :: "cevent list \<Rightarrow> kernel \<Rightarrow> kernel res" where
  "console_events [] k = Inr k"
| "console_events (Putc c # es) k =
     (case consputc c (k_console k) of
        None \<Rightarrow> Inl (Undefined ''console output does not end'')
      | Some s \<Rightarrow> console_events es (k\<lparr>k_console := s\<rparr>))"
| "console_events (Procdump # es) k = bindE (procdump k) (console_events es)"
| "console_events (Wakeup c # es) k = console_events es (wakeups [c] k)"

section \<open>System calls on processes\<close>

text \<open>A call whose argument cannot be fetched returns -1; a call that does not wait replies at once.\<close>

definition reply_of :: "(int \<times> kernel) res \<Rightarrow> int reply res" where
  "reply_of m = bindE m (\<lambda>(r, k). Inr (Reply r k))"

definition sys_fork :: "kernel \<Rightarrow> int reply res" where
  "sys_fork k = reply_of (fork k)"

definition sys_wait :: "kernel \<Rightarrow> int reply res" where
  "sys_wait k = wait k"

definition sys_kill :: "kernel \<Rightarrow> int reply res" where
  "sys_kill k =
     arg (argint 0 k) k (\<lambda>pid.
     let (r, ps) = kill (sint pid) (k_ptable k) in Inr (Reply r (k\<lparr>k_ptable := ps\<rparr>)))"

definition sys_getpid :: "kernel \<Rightarrow> int reply res" where
  "sys_getpid k = Inr (Reply (p_pid (cur k)) k)"

definition sys_sbrk :: "kernel \<Rightarrow> int reply res" where
  "sys_sbrk k =
     arg (argint 0 k) k (\<lambda>n.
     let addr = sint (p_sz (cur k)) in
     bindE (growproc (sint n) k) (\<lambda>(r, k).
     Inr (Reply (if r < 0 then - 1 else addr) k)))"

text \<open>\<^verbatim>\<open>ticks - ticks0 < n\<close> compares unsigned numbers.\<close>

definition sleep_ticks :: "u32 \<Rightarrow> int \<Rightarrow> kernel \<Rightarrow> int reply res" where
  "sleep_ticks ticks0 n k =
     (if k_ticks k - ticks0 < of_int n then
        if killed k then Inr (Reply (- 1) k) else Inr (Waits ChanTicks (SleepTicks ticks0 n) k)
      else Inr (Reply 0 k))"

definition sys_sleep :: "kernel \<Rightarrow> int reply res" where
  "sys_sleep k = arg (argint 0 k) k (\<lambda>n. sleep_ticks (k_ticks k) (sint n) k)"

definition sys_uptime :: "kernel \<Rightarrow> int reply res" where
  "sys_uptime k = Inr (Reply (sint (k_ticks k)) k)"

definition sys_getnumsyscallp :: "kernel \<Rightarrow> int reply res" where
  "sys_getnumsyscallp k = Inr (Reply (k_syscalls k) k)"

text \<open>\<^verbatim>\<open>struct pstat\<close> in memory: arrays of 32-bit integers, one after the other.\<close>

fun state_number :: "procstate \<Rightarrow> u32" where
  "state_number UNUSED = 0"
| "state_number EMBRYO = 1"
| "state_number SLEEPING = 2"
| "state_number RUNNABLE = 3"
| "state_number RUNNING = 4"
| "state_number ZOMBIE = 5"

definition pstat_words :: "pstat \<Rightarrow> u32 list" where
  "pstat_words ps = map (\<lambda>b. if b then 1 else 0) (ps_inuse ps) @ map of_int (ps_pid ps) @
     map of_nat (ps_priority ps) @ map state_number (ps_state ps) @ concat (ps_ticks ps)"

definition sys_getpinfo :: "kernel \<Rightarrow> int reply res" where
  "sys_getpinfo k =
     arg (argptr 0 2048 k) k (\<lambda>ps.
     bindE (user_store ps (concat (map bytes32 (pstat_words (getpinfo (k_ptable k))))) k) (\<lambda>k.
     Inr (Reply 0 k)))"

text \<open>The argument \<open>stack\<close> is what the array \<^verbatim>\<open>phys_addr\<close> of \<^verbatim>\<open>shmgetat\<close> holds before it is set.\<close>

definition sys_shmgetat :: "u32 list \<Rightarrow> kernel \<Rightarrow> int reply res" where
  "sys_shmgetat stack k =
     arg (argint 0 k) k (\<lambda>key.
     arg (argint 1 k) k (\<lambda>num_pages.
     bindE (shmgetat stack (sint key) (sint num_pages) (cur k) (k_shm k) (k_mem k)) (\<lambda>(va, p, tab, km).
     Inr (Reply (sint va) (upd_cur (\<lambda>_. p) (k\<lparr>k_shm := tab, k_mem := km\<rparr>))))))"

definition sys_shm_refcount :: "kernel \<Rightarrow> int reply res" where
  "sys_shm_refcount k = arg (argint 0 k) k (\<lambda>key. Inr (Reply (shm_refcount (sint key) (k_shm k)) k))"

definition sys_clone :: "kernel \<Rightarrow> int reply res" where
  "sys_clone k =
     arg (argptr 0 4 k) k (\<lambda>fcn.
     arg (argptr 1 4 k) k (\<lambda>a.
     arg (argptr 2 4 k) k (\<lambda>stack.
     reply_of (clone fcn a stack k))))"

definition sys_join :: "kernel \<Rightarrow> int reply res" where
  "sys_join k = arg (argptr 0 4 k) k (\<lambda>stack. join stack k)"

section \<open>Dispatch\<close>

text \<open>
  The contents of uninitialised memory that two calls may look at are arguments of the model.
  \<open>Exits\<close> is a call that ends the process, \<open>Yields\<close> one that hands the CPU to the scheduler.
\<close>

datatype outcome_sys = Answer "int reply" | Exits kernel | Yields kernel

definition syscalls :: "u8 list \<Rightarrow> u32 list \<Rightarrow> int \<Rightarrow> (kernel \<Rightarrow> int reply res) option" where
  "syscalls junk stack num = map_of
     [(1, sys_fork), (3, sys_wait), (4, sys_pipe), (5, sys_write), (6, sys_read), (7, sys_close),
      (8, sys_kill), (9, sys_exec junk), (10, sys_open), (11, sys_mknod), (12, sys_unlink),
      (13, sys_fstat), (14, sys_link), (15, sys_mkdir), (16, sys_chdir), (17, sys_dup),
      (18, sys_getpid), (19, sys_sbrk), (20, sys_sleep), (21, sys_uptime), (22, sys_getnumsyscallp),
      (23, sys_getpinfo), (24, sys_shmgetat stack), (25, sys_shm_refcount), (26, sys_clone), (27, sys_join)] num"

definition set_eax :: "int \<Rightarrow> kernel \<Rightarrow> kernel" where
  "set_eax r k = upd_cur (\<lambda>p. p\<lparr>p_tf := (p_tf p)\<lparr>tf_eax := of_int r\<rparr>\<rparr>) k"

text \<open>\<^verbatim>\<open>sys_exit\<close>, number 2, does not return.\<close>

definition syscall :: "u8 list \<Rightarrow> u32 list \<Rightarrow> kernel \<Rightarrow> outcome_sys res" where
  "syscall junk stack k =
     (let k = k\<lparr>k_syscalls := k_syscalls k + 1\<rparr>;
          num = sint (tf_eax (p_tf (cur k))) in
      if num = 2 then bindE (exit k) (\<lambda>k. Inr (Exits k))
      else
        case syscalls junk stack num of
          Some f \<Rightarrow>
            bindE (f k) (\<lambda>r.
            Inr (Answer (case r of Reply v k \<Rightarrow> Reply v (set_eax v k) | Waits c w k \<Rightarrow> Waits c w k)))
        | None \<Rightarrow>
            bindE (kprint (name_mem (cur k)) (ascii ''%d %s: unknown sys call %d'' @ [10])
                     [of_int (p_pid (cur k)), name_at, of_int num] k) (\<lambda>k.
            Inr (Answer (Reply (- 1) (set_eax (- 1) k)))))"

text \<open>What a sleeping call does when it is woken.\<close>

definition resume :: "pending \<Rightarrow> kernel \<Rightarrow> int reply res" where
  "resume w k =
     (case w of
        ReadPipe a addr n \<Rightarrow> read_pipe a addr n k
      | WritePipe a n xs \<Rightarrow> write_pipe a n xs k
      | ReadConsole f addr target n dst \<Rightarrow> read_console f addr target n dst k
      | WaitChild \<Rightarrow> wait k
      | JoinThread stack \<Rightarrow> join stack k
      | SleepTicks t n \<Rightarrow> sleep_ticks t n k)"

section \<open>Traps\<close>

definition exit_if_killed :: "kernel \<Rightarrow> outcome_sys res" where
  "exit_if_killed k = (if killed k then bindE (exit k) (\<lambda>k. Inr (Exits k)) else Inr (Answer (Reply 0 k)))"

definition trap_syscall :: "u8 list \<Rightarrow> u32 list \<Rightarrow> trapframe \<Rightarrow> kernel \<Rightarrow> outcome_sys res" where
  "trap_syscall junk stack tf k =
     (if killed k then bindE (exit k) (\<lambda>k. Inr (Exits k))
      else
        bindE (syscall junk stack (upd_cur (\<lambda>p. p\<lparr>p_tf := tf\<rparr>) k)) (\<lambda>r.
        case r of
          Answer (Reply v k) \<Rightarrow> exit_if_killed k
        | Answer (Waits c w k) \<Rightarrow> Inr (Answer (Waits c w k))
        | Exits k \<Rightarrow> Inr (Exits k)
        | Yields k \<Rightarrow> Inr (Yields k)))"

text \<open>
  The devices at an interrupt: the number of the CPU, whether it is idle (\<^verbatim>\<open>proc\<close> is null), what
  the keyboard and the serial port have to say, whether the disk read succeeded, the faulting
  address.
\<close>

record devices =
  cpu_id :: nat
  idle :: bool
  keys :: "u8 list"
  chars :: "int list"
  disk_ok :: bool
  cr2 :: u32

abbreviation (input) T_SYSCALL :: u32 where "T_SYSCALL \<equiv> 64"
abbreviation (input) T_IRQ0 :: u32 where "T_IRQ0 \<equiv> 32"
abbreviation (input) DPL_USER :: u16 where "DPL_USER \<equiv> 3"

definition timer_tick :: "kernel \<Rightarrow> kernel" where
  "timer_tick k = wakeups [ChanTicks] (k\<lparr>k_ticks := k_ticks k + 1\<rparr>)"

definition interrupt :: "devices \<Rightarrow> trapframe \<Rightarrow> kernel \<Rightarrow> kernel res" where
  "interrupt h tf k =
     (let n = tf_trapno tf in
      if n = T_IRQ0 then Inr (if cpu_id h = 0 then timer_tick k else k)
      else if n = T_IRQ0 + 14 then
        bindE (ideintr (disk_ok h) (io (k_fs k))) (\<lambda>(cs, b).
        Inr (wakeups cs (k\<lparr>k_fs := (k_fs k)\<lparr>io := b\<rparr>\<rparr>)))
      else if n = T_IRQ0 + 15 then Inr k
      else if n = T_IRQ0 + 1 then
        let (i, es, sh) = kbdintr (keys h) (k_shift k) (k_input k) in
        console_events es (k\<lparr>k_input := i, k_shift := sh\<rparr>)
      else if n = T_IRQ0 + 4 then
        let (i, es) = consoleintr (chars h) (k_input k) in console_events es (k\<lparr>k_input := i\<rparr>)
      else if n = T_IRQ0 + 7 \<or> n = T_IRQ0 + 31 then
        kprint (\<lambda>_. 0) (ascii ''cpu%d: spurious interrupt at %x:%x'' @ [10]) [of_nat (cpu_id h), ucast (tf_cs tf), tf_eip tf] k
      else if idle h \<or> tf_cs tf AND 3 = 0 then
        bindE (kprint (\<lambda>_. 0) (ascii ''unexpected trap %d from cpu %d eip %x (cr2=0x%x)'' @ [10])
                 [n, of_nat (cpu_id h), tf_eip tf, cr2 h] k) (\<lambda>k.
        Inl (Panic ''trap''))
      else
        bindE (kprint (name_mem (cur k)) (ascii ''pid %d %s: trap %d err %d on cpu %d eip 0x%x addr 0x%x--kill proc'' @ [10])
                 [of_int (p_pid (cur k)), name_at, n, tf_err tf, of_nat (cpu_id h), tf_eip tf, cr2 h] k) (\<lambda>k.
        Inr (upd_cur (\<lambda>p. p\<lparr>p_killed := 1\<rparr>) k)))"

text \<open>
  \<^verbatim>\<open>trap\<close>. A process that yields checks \<^verbatim>\<open>killed\<close> once more when it runs again.
\<close>

definition trap :: "u8 list \<Rightarrow> u32 list \<Rightarrow> devices \<Rightarrow> trapframe \<Rightarrow> kernel \<Rightarrow> outcome_sys res" where
  "trap junk stack h tf k =
     (if tf_trapno tf = T_SYSCALL then trap_syscall junk stack tf k
      else
        bindE (interrupt h tf k) (\<lambda>k.
        if \<not> idle h \<and> killed k \<and> tf_cs tf AND 3 = DPL_USER then bindE (exit k) (\<lambda>k. Inr (Exits k))
        else if \<not> idle h \<and> p_state (cur k) = RUNNING \<and> tf_trapno tf = T_IRQ0 then
          Inr (Yields (k\<lparr>k_ptable := yield_proc (k_proc k) (k_ptable k)\<rparr>))
        else Inr (Answer (Reply 0 k))))"

definition after_yield :: "trapframe \<Rightarrow> kernel \<Rightarrow> outcome_sys res" where
  "after_yield tf k =
     (if killed k \<and> tf_cs tf AND 3 = DPL_USER then bindE (exit k) (\<lambda>k. Inr (Exits k))
      else Inr (Answer (Reply 0 k)))"

end
