(* ===== verification/Fd_Frame.thy ===== *)
theory Fd_Frame
  imports Trap
begin

unbundle bit_operations_syntax

text \<open>
  Reference counts of open files across all system calls. \<open>fd_inv E k\<close>: the count of every
  entry of \<^verbatim>\<open>ftable\<close> is the number of descriptors of all processes that refer to it, plus the
  references \<open>E\<close> that kernel code under way holds; slots of the process table that are free or
  belong to dead processes have no descriptors.
\<close>

section \<open>The invariant\<close>

definition fd_count :: "kernel \<Rightarrow> nat \<Rightarrow> nat" where
  "fd_count k f = sum_list (map (\<lambda>p. count_list (p_ofile p) (Some f)) (k_ptable k))"

definition dead :: "proc \<Rightarrow> bool" where
  "dead p \<longleftrightarrow> p_state p = UNUSED \<or> p_state p = ZOMBIE"

definition no_files :: "proc \<Rightarrow> bool" where
  "no_files p \<longleftrightarrow> set (p_ofile p) \<subseteq> {None}"

definition proc_wf :: "nat \<Rightarrow> proc \<Rightarrow> bool" where
  "proc_wf n p \<longleftrightarrow> length (p_ofile p) = NOFILE \<and> (\<forall>f. Some f \<in> set (p_ofile p) \<longrightarrow> f < n) \<and> (dead p \<longrightarrow> no_files p)"

definition fd_inv :: "(nat \<Rightarrow> int) \<Rightarrow> kernel \<Rightarrow> bool" where
  "fd_inv E k \<longleftrightarrow> (\<forall>f<length (k_ftable k). f_ref (k_ftable k ! f) = int (fd_count k f) + E f) \<and>
     (\<forall>p\<in>set (k_ptable k). proc_wf (length (k_ftable k)) p)"

definition active :: "kernel \<Rightarrow> bool" where
  "active k \<longleftrightarrow> k_proc k < length (k_ptable k) \<and> p_state (cur k) = RUNNING"

section \<open>Operations that leave descriptors alone\<close>

definition same_proc :: "proc \<Rightarrow> proc \<Rightarrow> bool" where
  "same_proc p q \<longleftrightarrow> p_ofile q = p_ofile p \<and> (p_state p = RUNNING \<longrightarrow> p_state q = RUNNING) \<and>
     (dead q \<longleftrightarrow> dead p)"

definition same_fds :: "kernel \<Rightarrow> kernel \<Rightarrow> bool" where
  "same_fds k k' \<longleftrightarrow> map f_ref (k_ftable k') = map f_ref (k_ftable k) \<and> k_proc k' = k_proc k \<and>
     list_all2 same_proc (k_ptable k) (k_ptable k')"

lemma same_proc_refl [simp]: "same_proc p p"
  by (simp add: same_proc_def)

lemma same_proc_trans: "same_proc p q \<Longrightarrow> same_proc q r \<Longrightarrow> same_proc p r"
  by (auto simp: same_proc_def no_files_def)

lemma same_fds_refl [simp, intro]: "same_fds k k"
  by (simp add: same_fds_def list_all2_same)

lemma same_fds_trans [trans]: "same_fds k l \<Longrightarrow> same_fds l m \<Longrightarrow> same_fds k m"
  unfolding same_fds_def by (auto intro: list_all2_trans [rotated, of same_proc _ _ same_proc] same_proc_trans)

lemma same_fds_inv:
  assumes "same_fds k k'"
  shows "fd_inv E k \<Longrightarrow> fd_inv E k'" "active k \<Longrightarrow> active k'" "k_proc k' = k_proc k"
    "p_ofile (k_ptable k' ! p) = p_ofile (k_ptable k ! p) \<or> \<not> p < length (k_ptable k)"
    "length (k_ptable k') = length (k_ptable k)" "length (k_ftable k') = length (k_ftable k)"
    "map f_ref (k_ftable k') = map f_ref (k_ftable k)"
    "p < length (k_ptable k) \<Longrightarrow> same_proc (k_ptable k ! p) (k_ptable k' ! p)"
proof -
  have A: "list_all2 same_proc (k_ptable k) (k_ptable k')" "k_proc k' = k_proc k" "map f_ref (k_ftable k') = map f_ref (k_ftable k)"
    using assms by (simp_all add: same_fds_def)
  have len: "length (k_ptable k') = length (k_ptable k)" "length (k_ftable k') = length (k_ftable k)"
    using A(1) map_eq_imp_length_eq [OF A(3)] by (simp_all add: list_all2_lengthD)
  have nth: "same_proc (k_ptable k ! p) (k_ptable k' ! p)" if "p < length (k_ptable k)" for p
    using list_all2_nthD [OF A(1) that] .
  show "p < length (k_ptable k) \<Longrightarrow> same_proc (k_ptable k ! p) (k_ptable k' ! p)" by (rule nth)
  show "k_proc k' = k_proc k" "length (k_ptable k') = length (k_ptable k)" "length (k_ftable k') = length (k_ftable k)"
    "map f_ref (k_ftable k') = map f_ref (k_ftable k)" by (fact A(2) len A(3))+
  show "p_ofile (k_ptable k' ! p) = p_ofile (k_ptable k ! p) \<or> \<not> p < length (k_ptable k)"
    using nth [of p] by (auto simp: same_proc_def)
  show "active k \<Longrightarrow> active k'"
    using nth [of "k_proc k"] A(2) len by (auto simp: active_def cur_def same_proc_def)
  have "map (\<lambda>p. count_list (p_ofile p) (Some f)) (k_ptable k') = map (\<lambda>p. count_list (p_ofile p) (Some f)) (k_ptable k)" for f
    by (rule nth_equalityI) (use len nth in \<open>auto simp: same_proc_def\<close>)
  then have cnt: "fd_count k' = fd_count k" by (simp add: fd_count_def fun_eq_iff)
  have ref: "f_ref (k_ftable k' ! f) = f_ref (k_ftable k ! f)" if "f < length (k_ftable k)" for f
    using arg_cong [OF A(3), of "\<lambda>xs. xs ! f"] that len by simp
  show "fd_inv E k'" if I: "fd_inv E k"
  proof -
    have "proc_wf (length (k_ftable k)) (k_ptable k' ! p)" if "p < length (k_ptable k)" for p
      using I nth [OF that] that unfolding fd_inv_def proc_wf_def same_proc_def no_files_def by (metis nth_mem)
    then show ?thesis using I cnt ref len unfolding fd_inv_def by (metis in_set_conv_nth)
  qed
qed

named_theorems fds \<open>operations that leave descriptors alone\<close>

lemma same_fds_simps [simp]:
  "same_fds k (k\<lparr>k_mem := m\<rparr>)" "same_fds k (k\<lparr>k_fs := s\<rparr>)" "same_fds k (k\<lparr>k_shm := sh\<rparr>)" "same_fds k (k\<lparr>k_refs := rf\<rparr>)"
  "same_fds k (k\<lparr>k_pipes := ps\<rparr>)" "same_fds k (k\<lparr>k_input := i\<rparr>)" "same_fds k (k\<lparr>k_console := c\<rparr>)"
  "same_fds k (k\<lparr>k_syscalls := n\<rparr>)" "same_fds k (k\<lparr>k_nextpid := n\<rparr>)" "same_fds k (k\<lparr>k_initproc := ip\<rparr>)"
  by (simp_all add: same_fds_def list_all2_same)

lemma wakeup_same: "list_all2 same_proc ps (fold wakeup cs ps)"
proof (induction cs arbitrary: ps)
  case (Cons c cs)
  have "list_all2 same_proc ps (wakeup c ps)"
    by (auto simp: wakeup_def wakeup1_def list_all2_conv_all_nth same_proc_def dead_def)
  then show ?case using list_all2_trans [OF same_proc_trans _ Cons.IH] by simp
qed (simp add: list_all2_same)

lemma same_fds_wakeups [simp]: "same_fds k (wakeups cs k)"
  by (simp add: same_fds_def wakeups_def wakeup_same)

lemma same_fds_on_fs [fds]:
  "on_fs f k = Inr (x, k') \<Longrightarrow> same_fds k k'" "on_fs' g k = Inr k' \<Longrightarrow> same_fds k k'"
  unfolding on_fs_def on_fs'_def
  by (auto simp: res_simps intro: same_fds_trans [OF same_fds_simps(2) same_fds_wakeups])

lemma same_fds_on_mem [fds]:
  "on_mem h k = Inr (x, k') \<Longrightarrow> same_fds k k'" "on_mem' l k = Inr k' \<Longrightarrow> same_fds k k'"
  unfolding on_mem_def on_mem'_def by (auto simp: res_simps)

lemma same_fds_user_store [fds]: "user_store va xs k = Inr k' \<Longrightarrow> same_fds k k'"
  by (induction va xs k rule: user_store.induct)
    (auto split: option.splits intro: same_fds_trans [OF same_fds_simps(1)])

lemma upd_same: "(\<And>p. same_proc p (g p)) \<Longrightarrow> list_all2 same_proc ps (upd g i ps)"
  by (cases "i < length ps") (auto simp: list_all2_conv_all_nth upd_def nth_list_update list_update_beyond)

lemma same_fds_upd_proc: "(\<And>p. same_proc p (g p)) \<Longrightarrow> same_fds k (upd_proc i g k)"
  by (simp add: same_fds_def upd_proc_def upd_same)

lemma same_fds_upd_cur: "(\<And>p. same_proc p (g p)) \<Longrightarrow> same_fds k (upd_cur g k)"
  unfolding upd_cur_def by (rule same_fds_upd_proc)

lemma same_procI:
  "p_ofile q = p_ofile p \<Longrightarrow> p_state q = p_state p \<Longrightarrow> same_proc p q"
  by (simp add: same_proc_def dead_def)

lemma same_fds_upd_file: "(\<And>x. f_ref (g x) = f_ref x) \<Longrightarrow> same_fds k (upd_file f g k)"
proof -
  assume g: "\<And>x. f_ref (g x) = f_ref x"
  have "map f_ref (upd g f (k_ftable k)) = map f_ref (k_ftable k)"
    by (cases "f < length (k_ftable k)") (auto simp: upd_def g nth_list_update list_update_beyond intro!: nth_equalityI)
  then show ?thesis by (simp add: same_fds_def upd_file_def list_all2_same)
qed

lemma same_fds_close_pipe [fds]: "close_pipe a w k = Inr k' \<Longrightarrow> same_fds k k'"
  unfolding close_pipe_def
  by (auto simp: res_simps intro!: same_fds_trans [OF _ same_fds_wakeups]
      intro: same_fds_trans [OF same_fds_simps(5) same_fds_simps(1)])

section \<open>Operations on descriptors\<close>

lemma count_list_update:
  "i < length xs \<Longrightarrow> int (count_list (xs[i := v]) y) = int (count_list xs y) - of_bool (xs ! i = y) + of_bool (v = y)"
proof (induction xs arbitrary: i)
  case (Cons x xs)
  then show ?case by (cases i) auto
qed simp

lemma fd_count_upd:
  assumes "i < length (k_ptable k)"
  shows "int (fd_count (upd_proc i g k) f) = int (fd_count k f)
    - int (count_list (p_ofile (k_ptable k ! i)) (Some f)) + int (count_list (p_ofile (g (k_ptable k ! i))) (Some f))"
proof -
  let ?c = "\<lambda>p. count_list (p_ofile p) (Some f)"
  have "map ?c (k_ptable (upd_proc i g k)) = (map ?c (k_ptable k))[i := ?c (g (k_ptable k ! i))]"
    by (simp add: upd_proc_def upd_def map_update)
  then have "fd_count (upd_proc i g k) f = fd_count k f + ?c (g (k_ptable k ! i)) - ?c (k_ptable k ! i)"
    using assms by (simp add: fd_count_def sum_list_update)
  moreover have "?c (k_ptable k ! i) \<le> fd_count k f"
    using elem_le_sum_list [of i "map ?c (k_ptable k)"] assms by (simp add: fd_count_def)
  ultimately show ?thesis by simp
qed

lemma set_fd:
  assumes "fd_inv E k" "i < length (k_ptable k)" "fd < NOFILE"
    and v: "\<And>f. v = Some f \<Longrightarrow> f < length (k_ftable k) \<and> \<not> dead (k_ptable k ! i)"
  shows "fd_inv (\<lambda>g. E g + of_bool (p_ofile (k_ptable k ! i) ! fd = Some g) - of_bool (v = Some g))
    (upd_proc i (\<lambda>x. x\<lparr>p_ofile := (p_ofile x)[fd := v]\<rparr>) k)"
proof -
  let ?g = "\<lambda>x::proc. x\<lparr>p_ofile := (p_ofile x)[fd := v]\<rparr>"
  have w: "proc_wf (length (k_ftable k)) (k_ptable k ! i)"
    using assms(1,2) by (simp add: fd_inv_def)
  then have "fd < length (p_ofile (k_ptable k ! i))" using assms(3) by (simp add: proc_wf_def)
  note cnt = fd_count_upd [OF assms(2), of ?g] count_list_update [OF this]
  have "proc_wf (length (k_ftable k)) (?g (k_ptable k ! i))"
  proof -
    have "set ((p_ofile (k_ptable k ! i))[fd := v]) \<subseteq> insert v (set (p_ofile (k_ptable k ! i)))"
      by (rule set_update_subset_insert)
    then show ?thesis using w v by (cases v) (auto simp: proc_wf_def no_files_def dead_def)
  qed
  moreover have "set (k_ptable (upd_proc i ?g k)) \<subseteq> insert (?g (k_ptable k ! i)) (set (k_ptable k))"
    by (auto simp: upd_proc_def upd_def dest: set_update_subset_insert [THEN subsetD])
  ultimately show ?thesis
    using assms(1) cnt by (auto simp: fd_inv_def upd_proc_def)
qed

lemma upd_file_inv:
  assumes "fd_inv E k" "\<And>x. x = k_ftable k ! f \<Longrightarrow> f_ref (h x) = f_ref x + d"
  shows "fd_inv (\<lambda>g. E g + (if g = f then d else 0)) (upd_file f h k)"
  using assms by (auto simp: fd_inv_def upd_file_def upd_def nth_list_update fd_count_def)

lemma filealloc_inv:
  assumes "fd_inv E k" "filealloc k = (Some f, k')"
  shows "f < length (k_ftable k)" "fd_inv (\<lambda>g. E g + of_bool (g = f)) k'"
proof -
  from assms(2) have i: "first_idx (\<lambda>f. f_ref f = 0) (k_ftable k) = Some f" and k': "k' = upd_file f (\<lambda>x. x\<lparr>f_ref := 1\<rparr>) k"
    by (auto simp: filealloc_def split: option.splits)
  show "f < length (k_ftable k)" using first_idx_SomeD [OF i] by simp
  show "fd_inv (\<lambda>g. E g + of_bool (g = f)) k'"
    using upd_file_inv [OF assms(1), of f "\<lambda>x. x\<lparr>f_ref := 1\<rparr>" 1] first_idx_SomeD [OF i] by (simp add: k' of_bool_def)
qed

lemma filedup_inv:
  assumes "fd_inv E k" "filedup f k = Inr k'"
  shows "fd_inv (\<lambda>g. E g + of_bool (g = f)) k'"
  using upd_file_inv [OF assms(1), of f "\<lambda>x. x\<lparr>f_ref := f_ref x + 1\<rparr>" 1] assms(2)
  by (auto simp: filedup_def of_bool_def split: if_splits)

lemma fileclose_inv:
  assumes "fd_inv E k" "f < length (k_ftable k)" "fileclose f k = Inr k'"
  shows "fd_inv (\<lambda>g. E g - of_bool (g = f)) k'" "k_proc k' = k_proc k" "length (k_ftable k') = length (k_ftable k)"
    "list_all2 same_proc (k_ptable k) (k_ptable k')"
proof -
  define k1 where "k1 = upd_file f (\<lambda>x. x\<lparr>f_ref := f_ref x - 1\<rparr>) k"
  define k2 where "k2 = upd_file f (\<lambda>x. x\<lparr>f_ref := 0, f_type := FD_NONE\<rparr>) k1"
  have k1: "fd_inv (\<lambda>g. E g - of_bool (g = f)) k1"
  proof -
    have "(\<lambda>g. E g + (if g = f then - 1 else 0)) = (\<lambda>g. E g - of_bool (g = f))" by auto
    then show ?thesis using upd_file_inv [OF assms(1), of f "\<lambda>x. x\<lparr>f_ref := f_ref x - 1\<rparr>" "- 1"] by (simp add: k1_def)
  qed
  have r: "f_ref (k_ftable k ! f) \<ge> 1" and s: "f_ref (k_ftable k ! f) > 1 \<and> k' = k1 \<or>
      f_ref (k_ftable k ! f) = 1 \<and> same_fds k2 k'"
    using assms(2,3) unfolding fileclose_def k1_def [symmetric] Let_def k2_def [symmetric]
    by (auto simp: k1_def upd_file_def upd_def split: if_splits ftype.splits intro: fds)
  have "fd_inv (\<lambda>g. E g - of_bool (g = f)) k2" if "f_ref (k_ftable k ! f) = 1"
    using upd_file_inv [OF k1, of f "\<lambda>x. x\<lparr>f_ref := 0, f_type := FD_NONE\<rparr>" 0] that assms(2)
    by (simp add: k2_def k1_def upd_file_def upd_def cong: if_cong)
  then show "fd_inv (\<lambda>g. E g - of_bool (g = f)) k'" using s k1 same_fds_inv(1) by blast
  have "length (k_ftable k2) = length (k_ftable k)" "length (k_ftable k1) = length (k_ftable k)"
    by (simp_all add: k2_def k1_def upd_file_def upd_def)
  then show "length (k_ftable k') = length (k_ftable k)" using s same_fds_inv(6) by metis
  show "k_proc k' = k_proc k" "list_all2 same_proc (k_ptable k) (k_ptable k')"
    using s by (auto simp: same_fds_def k1_def k2_def upd_file_def list_all2_same)
qed

lemma fdalloc_inv:
  assumes "fd_inv E k" "active k" "f < length (k_ftable k)" "fdalloc f k = (fd, k')"
  shows "fd < 0 \<and> k' = k \<or>
    0 \<le> fd \<and> fd < int NOFILE \<and> fd_inv (\<lambda>g. E g - of_bool (g = f)) k' \<and> active k' \<and>
    k_ftable k' = k_ftable k \<and> p_ofile (cur k') ! nat fd = Some f"
proof (cases "first_idx (\<lambda>x. x = None) (p_ofile (cur k))")
  case None
  then show ?thesis using assms(4) by (simp add: fdalloc_def)
next
  case (Some i)
  have w: "proc_wf (length (k_ftable k)) (cur k)" "k_proc k < length (k_ptable k)" "\<not> dead (cur k)"
    using assms(1,2) by (simp_all add: fd_inv_def active_def cur_def dead_def)
  then have i: "i < length (p_ofile (cur k))" "i < NOFILE" "p_ofile (cur k) ! i = None"
    using first_idx_SomeD [OF Some] by (auto simp: proc_wf_def)
  have k': "fd = int i" "k' = upd_proc (k_proc k) (\<lambda>x. x\<lparr>p_ofile := (p_ofile x)[i := Some f]\<rparr>) k"
    using assms(4) Some by (simp_all add: fdalloc_def upd_cur_def)
  have "fd_inv (\<lambda>g. E g - of_bool (g = f)) k'"
    using set_fd [OF assms(1) w(2) i(2), of "Some f"] i(3) w assms(3) unfolding k' cur_def by (simp add: eq_commute)
  then show ?thesis using i w assms(2) by (auto simp: k' upd_proc_def upd_def active_def cur_def)
qed

section \<open>System calls that leave descriptors alone\<close>

lemma bindE_InrE:
  assumes "bindE m f = Inr y" obtains x where "m = Inr x" "f x = Inr y"
  using assms by (auto simp: res_simps)

lemma arg_same:
  assumes "arg m k f = Inr r" "\<And>x. m = Inr (Some x) \<Longrightarrow> f x = Inr r \<Longrightarrow> same_fds k (reply_state r)"
  shows "same_fds k (reply_state r)"
  using assms by (auto simp: arg_def res_simps split: option.splits)

lemma with_cwd_same:
  assumes "with_cwd path k f = Inr r" "\<And>cwd. f cwd = Inr r \<Longrightarrow> P"
  shows P
  using assms by (auto simp: with_cwd_def split: option.splits if_splits)

lemma filestat_same [fds]: "filestat f k = Inr (r, k') \<Longrightarrow> same_fds k k'"
  unfolding filestat_def Let_def by (auto simp: res_simps split: if_splits dest!: fds) (metis same_fds_trans)

lemma end_transfer_same [fds]: "end_transfer f r k = Inr rep \<Longrightarrow> same_fds k (reply_state rep)"
proof -
  have c: "same_fds l (upd_file f (\<lambda>x. x\<lparr>f_off := f_off x + d\<rparr>) l)" for l d
    by (rule same_fds_upd_file) simp
  show "end_transfer f r k = Inr rep \<Longrightarrow> same_fds k (reply_state rep)"
    unfolding end_transfer_def Let_def
    by (auto simp: res_simps split: if_splits dest!: same_fds_on_fs(2) intro: same_fds_trans [OF c])
qed

lemma store_steps_same:
  "same_fds (k\<lparr>k_input := i\<rparr>) k' \<Longrightarrow> same_fds k k'" "same_fds (k\<lparr>k_console := c\<rparr>) k' \<Longrightarrow> same_fds k k'"
  "same_fds (wakeups cs (k\<lparr>k_pipes := ps\<rparr>)) k' \<Longrightarrow> same_fds k k'"
  "same_fds (k\<lparr>k_mem := m\<rparr>) k' \<Longrightarrow> same_fds k k'"
  by (erule same_fds_trans [OF same_fds_simps(6)], erule same_fds_trans [OF same_fds_simps(7)],
      erule same_fds_trans [OF same_fds_trans [OF same_fds_simps(5) same_fds_wakeups]],
      erule same_fds_trans [OF same_fds_simps(1)])

lemma same_fds_mem: "same_fds k k' \<Longrightarrow> same_fds k (k'\<lparr>k_mem := m\<rparr>)"
  by (erule same_fds_trans, simp)

lemma same_fds_pipes [simp]: "same_fds k (wakeups cs (k\<lparr>k_pipes := ps\<rparr>))"
  by (rule store_steps_same(3)) (rule same_fds_refl)

lemma read_pipe_same [fds]: "read_pipe a addr n k = Inr r \<Longrightarrow> same_fds k (reply_state r)"
  unfolding read_pipe_def
  by (auto simp: res_simps split: outcome.splits dest!: fds store_steps_same)

lemma write_pipe_same [fds]: "write_pipe a n xs k = Inr r \<Longrightarrow> same_fds k (reply_state r)"
  unfolding write_pipe_def by (auto split: outcome.splits intro: store_steps_same)

lemma read_console_same [fds]: "read_console f addr target n dst k = Inr r \<Longrightarrow> same_fds k (reply_state r)"
  unfolding read_console_def
  by (auto simp: res_simps split: outcome.splits dest!: fds store_steps_same) (metis same_fds_trans)

lemma write_console_same [fds]: "write_console f n xs k = Inr r \<Longrightarrow> same_fds k (reply_state r)"
  unfolding write_console_def
  by (auto simp: res_simps split: option.splits dest!: fds store_steps_same) (metis same_fds_trans)

lemma fileread_same [fds]: "fileread f addr n k = Inr r \<Longrightarrow> same_fds k (reply_state r)"
  unfolding fileread_def Let_def
  by (auto elim!: bindE_InrE split: if_splits ftype.splits transfer.splits dest!: fds) (metis same_fds_trans)+

lemma filewrite_same [fds]: "filewrite f addr n k = Inr r \<Longrightarrow> same_fds k (reply_state r)"
  unfolding filewrite_def Let_def
  by (auto elim!: bindE_InrE split: if_splits ftype.splits transfer.splits dest!: fds) (metis same_fds_trans)+

lemma sys_read_same [fds]: "sys_read k = Inr r \<Longrightarrow> same_fds k (reply_state r)"
  unfolding sys_read_def by (auto elim!: arg_same dest!: fds)

lemma sys_write_same [fds]: "sys_write k = Inr r \<Longrightarrow> same_fds k (reply_state r)"
  unfolding sys_write_def by (auto elim!: arg_same dest!: fds)

lemma store_stat_same [fds]: "store_stat a st k = Inr k' \<Longrightarrow> same_fds k k'"
  unfolding store_stat_def by (auto elim!: bindE_InrE dest!: fds) (metis same_fds_trans)

lemma sys_fstat_same [fds]: "sys_fstat k = Inr r \<Longrightarrow> same_fds k (reply_state r)"
  unfolding sys_fstat_def
  by (auto elim!: arg_same bindE_InrE split: option.splits dest!: fds) (metis same_fds_trans)+

lemma sys_dirs_same [fds]:
  "sys_link k = Inr r \<Longrightarrow> same_fds k (reply_state r)"
  "sys_unlink k = Inr r \<Longrightarrow> same_fds k (reply_state r)"
  "sys_mkdir k = Inr r \<Longrightarrow> same_fds k (reply_state r)"
  "sys_mknod k = Inr r \<Longrightarrow> same_fds k (reply_state r)"
  unfolding sys_link_def sys_unlink_def sys_mkdir_def sys_mknod_def
  by (auto elim!: arg_same with_cwd_same bindE_InrE split: option.splits dest!: fds) (metis same_fds_trans)+

lemma sys_chdir_same [fds]: "sys_chdir k = Inr r \<Longrightarrow> same_fds k (reply_state r)"
proof -
  have c: "same_fds l (upd_cur (\<lambda>p. p\<lparr>p_cwd := c\<rparr>) l)" for l c
    by (rule same_fds_upd_cur) (simp add: same_procI)
  show "sys_chdir k = Inr r \<Longrightarrow> same_fds k (reply_state r)"
    unfolding sys_chdir_def
    by (auto elim!: arg_same with_cwd_same bindE_InrE split: option.splits if_splits dest!: fds)
      (metis c same_fds_trans)+
qed

lemma growproc_same [fds]: "growproc n k = Inr (x, k') \<Longrightarrow> same_fds k k'"
proof -
  have c: "same_fds l (upd_cur (\<lambda>p. p\<lparr>p_sz := c\<rparr>) l)" for l c
    by (rule same_fds_upd_cur) (simp add: same_procI)
  show "growproc n k = Inr (x, k') \<Longrightarrow> same_fds k k'"
    unfolding growproc_def Let_def by (auto elim!: bindE_InrE simp: c split: if_splits dest!: fds) (metis c same_fds_trans)+
qed

lemma kprint_same [fds]: "kprint m fmt args k = Inr k' \<Longrightarrow> same_fds k k'"
  unfolding kprint_def by (auto split: option.splits)

lemma sys_small_same [fds]:
  "sys_getpid k = Inr r \<Longrightarrow> same_fds k (reply_state r)"
  "sys_uptime k = Inr r \<Longrightarrow> same_fds k (reply_state r)"
  "sys_getnumsyscallp k = Inr r \<Longrightarrow> same_fds k (reply_state r)"
  "sys_shm_refcount k = Inr r \<Longrightarrow> same_fds k (reply_state r)"
  "sleep_ticks t n k = Inr r \<Longrightarrow> same_fds k (reply_state r)"
  "sys_sbrk k = Inr r \<Longrightarrow> same_fds k (reply_state r)"
  "sys_getpinfo k = Inr r \<Longrightarrow> same_fds k (reply_state r)"
  unfolding sys_getpid_def sys_uptime_def sys_getnumsyscallp_def sys_shm_refcount_def sleep_ticks_def
    sys_sbrk_def sys_getpinfo_def Let_def
  by (auto elim!: arg_same bindE_InrE split: if_splits dest!: fds)

lemma sys_sleep_same [fds]: "sys_sleep k = Inr r \<Longrightarrow> same_fds k (reply_state r)"
  unfolding sys_sleep_def by (auto elim!: arg_same dest!: fds)

lemma sys_kill_same [fds]: "sys_kill k = Inr r \<Longrightarrow> same_fds k (reply_state r)"
proof -
  have "list_all2 same_proc ps (snd (kill pid ps))" for pid ps
    by (auto simp: kill_def same_proc_def dead_def Let_def list_all2_same split: option.splits intro!: upd_same)
  then have "same_fds k (k\<lparr>k_ptable := snd (kill pid (k_ptable k))\<rparr>)" for pid
    by (simp add: same_fds_def)
  then show "sys_kill k = Inr r \<Longrightarrow> same_fds k (reply_state r)"
    unfolding sys_kill_def Let_def by (auto elim!: arg_same simp: split_def)
qed

lemma shmgetat_same: "shmgetat stack key n p tab s = Inr (va, q, tab', s') \<Longrightarrow> same_proc p q"
  unfolding shmgetat_def Let_def by (auto elim!: bindE_InrE simp: same_procI split: if_splits)

lemma same_fds_set_cur: "same_proc (cur k) q \<Longrightarrow> same_fds k (upd_cur (\<lambda>_. q) (k\<lparr>k_shm := tab, k_mem := km\<rparr>))"
  by (cases "k_proc k < length (k_ptable k)")
    (auto simp: same_fds_def upd_cur_def upd_proc_def upd_def cur_def list_all2_conv_all_nth nth_list_update list_update_beyond)

lemma sys_shmgetat_same [fds]: "sys_shmgetat stack k = Inr r \<Longrightarrow> same_fds k (reply_state r)"
  unfolding sys_shmgetat_def
  by (auto elim!: arg_same bindE_InrE dest!: shmgetat_same intro: same_fds_set_cur)


subsection \<open>Exec\<close>

lemma loaduvm_same [fds]: "loaduvm pgdir addr ip off sz k = Inr (x, k') \<Longrightarrow> same_fds k k'"
proof -
  have "loaduvm_loop is pgdir addr ip off sz k = Inr (x, k') \<Longrightarrow> same_fds k k'" for "is"
  proof (induction "is" arbitrary: k)
    case (Cons i "is")
    from Cons.prems show ?case
      by (auto elim!: bindE_InrE simp: Let_def split: if_splits transfer.splits
          dest!: fds Cons.IH store_steps_same intro!: same_fds_mem intro: same_fds_trans)
  qed auto
  then show "loaduvm pgdir addr ip off sz k = Inr (x, k') \<Longrightarrow> same_fds k k'"
    by (auto simp: loaduvm_def split: if_splits)
qed

lemma exec_bad_same [fds]: "exec_bad pgdir ip k = Inr (x, k') \<Longrightarrow> same_fds k k'"
  unfolding exec_bad_def
  by (auto elim!: bindE_InrE split: if_splits option.splits dest!: fds) (metis same_fds_trans)+

lemma exec_segments_same [fds]: "exec_segments n ip off pgdir sz k = Inr (x, k') \<Longrightarrow> same_fds k k'"
proof (induction n arbitrary: off sz k)
  case (Suc n)
  from Suc.prems show ?case
    by (auto elim!: bindE_InrE simp: Let_def split: if_splits transfer.splits dest!: fds Suc.IH)
      (metis same_fds_trans)+
qed simp

lemma exec_args_same [fds]: "exec_args as argc pgdir sp ptrs k = Inr (x, k') \<Longrightarrow> same_fds k k'"
proof (induction "as" arbitrary: argc sp ptrs k)
  case (Cons a "as")
  from Cons.prems show ?case
    by (auto elim!: bindE_InrE simp: Let_def split: if_splits dest!: fds Cons.IH) (metis same_fds_trans)+
qed simp

lemma exec_commit_same [fds]: "exec_commit path pgdir sz sp entry k = Inr (x, k') \<Longrightarrow> same_fds k k'"
proof -
  have p: "same_fds l (upd_cur (\<lambda>p. p\<lparr>p_name := f p\<rparr>) l)"
    "same_fds l (upd_cur (\<lambda>p. p\<lparr>p_pgdir := a, p_sz := sz, p_tf := g p, p_ustack := b\<rparr>) l)"
    "same_fds l (upd_cur (\<lambda>p. p\<lparr>p_shm := c, p_shm_key_mask := d\<rparr>) l)" for l f g a b c d
    by (rule same_fds_upd_cur, simp add: same_procI)+
  have m: "same_fds (l\<lparr>k_shm := sh, k_mem := km\<rparr>) l' \<Longrightarrow> same_fds l l'" for l sh km l'
    by (rule same_fds_trans [OF same_fds_trans [OF same_fds_simps(3) same_fds_simps(1)]])
  assume e: "exec_commit path pgdir sz sp entry k = Inr (x, k')"
  define k1 where "k1 = upd_cur (\<lambda>p. p\<lparr>p_name := safestrcpy_bytes (p_name p) (last_elem path) 16\<rparr>) k"
  define cr where "cr = delete_ref (p_pgdir (cur k1)) (k_refs k1)"
  define k2 where "k2 = upd_cur (\<lambda>p. p\<lparr>p_pgdir := pgdir, p_sz := sz, p_tf := (p_tf p)\<lparr>tf_eip := entry, tf_esp := sp\<rparr>,
      p_ustack := PGROUNDDOWN sz\<rparr>) (k1\<lparr>k_refs := add_ref pgdir (snd cr)\<rparr>)"
  have k2: "same_fds k k2"
    unfolding k2_def by (rule same_fds_trans [OF same_fds_trans [OF _ same_fds_simps(4)] p(2)]) (simp add: k1_def p(1))
  from e obtain k3 where "same_fds k2 k3" "k' = upd_cur (\<lambda>p. p\<lparr>p_shm := USERTOP, p_shm_key_mask := 0\<rparr>) k3"
    unfolding exec_commit_def Let_def k1_def [symmetric] split_def cr_def [symmetric] k2_def [symmetric]
    by (auto elim!: bindE_InrE split: if_splits dest!: fds m)
  then show "same_fds k k'" using same_fds_trans [OF same_fds_trans [OF k2] p(3)] by simp
qed

lemma exec_same [fds]: "exec junk path argv k = Inr (x, k') \<Longrightarrow> same_fds k k'"
  unfolding exec_def Let_def
  by (auto elim!: with_cwd_same bindE_InrE split: if_splits option.splits transfer.splits dest!: fds) (metis same_fds_trans)+

lemma sys_exec_same [fds]: "sys_exec junk k = Inr r \<Longrightarrow> same_fds k (reply_state r)"
  unfolding sys_exec_def by (auto elim!: arg_same bindE_InrE dest!: fds)

end
