(* ===== verification/Fd_Ops.thy ===== *)
theory Fd_Ops
  imports Fd_Frame
begin

unbundle bit_operations_syntax

text \<open>
  The operations that create and destroy descriptors (\<^verbatim>\<open>fork\<close>, \<^verbatim>\<open>clone\<close>, \<^verbatim>\<open>exit\<close>) and those that free the
  slot of a process keep the reference counts of open files.
\<close>

section \<open>Slots of the process table\<close>

lemma upd_proc_inv:
  assumes "fd_inv E k" "p < length (k_ptable k)" "p_ofile (g (k_ptable k ! p)) = p_ofile (k_ptable k ! p)"
    and "no_files (k_ptable k ! p) \<or> \<not> dead (g (k_ptable k ! p))"
  shows "fd_inv E (upd_proc p g k)"
proof -
  have "proc_wf (length (k_ftable k)) (g (k_ptable k ! p))"
    using assms by (auto simp: fd_inv_def proc_wf_def no_files_def)
  moreover have "set (k_ptable (upd_proc p g k)) \<subseteq> insert (g (k_ptable k ! p)) (set (k_ptable k))"
    by (auto simp: upd_proc_def upd_def dest: set_update_subset_insert [THEN subsetD])
  ultimately show ?thesis
    using assms(1) fd_count_upd [OF assms(2), of g] assms(3) by (auto simp: fd_inv_def upd_proc_def)
qed

lemma active_upd_proc [simp]: "p \<noteq> k_proc k \<Longrightarrow> active (upd_proc p g k) = active k"
  by (simp add: active_def upd_proc_def upd_def cur_def)

lemma upd_proc_simps [simp]:
  "k_proc (upd_proc p g k) = k_proc k" "k_ftable (upd_proc p g k) = k_ftable k" "length (k_ptable (upd_proc p g k)) = length (k_ptable k)"
  "p < length (k_ptable k) \<Longrightarrow> k_ptable (upd_proc p g k) ! p = g (k_ptable k ! p)"
  "p \<noteq> q \<Longrightarrow> k_ptable (upd_proc p g k) ! q = k_ptable k ! q"
  by (simp_all add: upd_proc_def upd_def)

lemma cur_upd_other [simp]: "p \<noteq> k_proc k \<Longrightarrow> cur (upd_proc p g k) = cur k"
  by (simp add: cur_def)

text \<open>A slot for a new process: not the current one, without files.\<close>

definition fresh :: "nat \<Rightarrow> kernel \<Rightarrow> bool" where
  "fresh np k \<longleftrightarrow> np < length (k_ptable k) \<and> np \<noteq> k_proc k \<and> no_files (k_ptable k ! np) \<and> \<not> dead (k_ptable k ! np)"

lemma fresh_same: "same_fds k k' \<Longrightarrow> fresh np k \<Longrightarrow> fresh np k'"
  using same_fds_inv(3,5,8) by (auto simp: fresh_def same_proc_def no_files_def)

lemma fresh_upd: "fresh np k \<Longrightarrow> same_proc (k_ptable k ! np) (g (k_ptable k ! np)) \<Longrightarrow> fresh np (upd_proc np g k)"
  by (auto simp: fresh_def same_proc_def no_files_def)

lemma allocproc_inv:
  assumes "fd_inv E k" "active k" "allocproc k = (r, k')"
  shows "fd_inv E k'" "active k'" "r = Some np \<Longrightarrow> fresh np k'"
proof -
  have "fd_inv E k' \<and> active k' \<and> (\<forall>np. r = Some np \<longrightarrow> fresh np k')"
  proof (cases "first_idx (\<lambda>p. p_state p = UNUSED) (k_ptable k)")
    case None
    then show ?thesis using assms by (simp add: allocproc_def)
  next
    case (Some p)
    have p: "p < length (k_ptable k)" "p_state (k_ptable k ! p) = UNUSED" "p \<noteq> k_proc k"
      using first_idx_SomeD [OF Some] assms(2) by (auto simp: active_def cur_def)
    then have nf: "no_files (k_ptable k ! p)"
      using assms(1) by (auto simp: fd_inv_def proc_wf_def dead_def)
    define k1 where "k1 = upd_proc p (\<lambda>x. x\<lparr>p_state := EMBRYO, p_pid := k_nextpid k, p_shm := USERTOP,
                    p_shm_key_mask := 0, p_priority := 0, p_ticks_used := replicate NPRIOR 0\<rparr>)
                  (k\<lparr>k_nextpid := k_nextpid k + 1\<rparr>)"
    define sk where "sk = kalloc (k_mem k1)"
    define k2 where "k2 = upd_proc p (\<lambda>x. x\<lparr>p_kstack := fst sk\<rparr>) (k1\<lparr>k_mem := snd sk\<rparr>)"
    have "fd_inv E (k\<lparr>k_nextpid := k_nextpid k + 1\<rparr>)" "active (k\<lparr>k_nextpid := k_nextpid k + 1\<rparr>)"
      using same_fds_inv(1,2) [OF same_fds_simps(9)] assms(1,2) by blast+
    then have 1: "fd_inv E k1 \<and> active k1 \<and> fresh p k1"
      unfolding k1_def by (intro conjI upd_proc_inv) (use p nf in \<open>auto simp: dead_def fresh_def no_files_def\<close>)
    have s: "same_fds k1 k2"
      unfolding k2_def by (rule same_fds_trans [OF same_fds_simps(1) same_fds_upd_proc]) (simp add: same_procI)
    have 2: "fd_inv E k2" "active k2" "fresh p k2"
      using 1 same_fds_inv(1,2) [OF s] fresh_same [OF s] by blast+
    have "same_fds k2 (upd_proc p (\<lambda>x. x\<lparr>p_context := c\<rparr>) k2)" for c
      by (rule same_fds_upd_proc) (simp add: same_procI)
    note 3 = this [THEN same_fds_inv(1), OF 2(1)] this [THEN same_fds_inv(2), OF 2(2)] fresh_same [OF this 2(3)]
    have 4: "fd_inv E (upd_proc p (\<lambda>x. x\<lparr>p_state := UNUSED\<rparr>) k2)" "active (upd_proc p (\<lambda>x. x\<lparr>p_state := UNUSED\<rparr>) k2)"
      using 2 by (auto intro!: upd_proc_inv simp: fresh_def)
    have "allocproc k = (if fst sk = 0 then (None, upd_proc p (\<lambda>x. x\<lparr>p_state := UNUSED\<rparr>) k2)
        else (Some p, upd_proc p (\<lambda>x. x\<lparr>p_context := zero_cntxt\<lparr>cx_eip := k_forkret k2\<rparr>\<rparr>) k2))"
      by (simp add: allocproc_def Some Let_def split_def k2_def sk_def k1_def)
    then show ?thesis using assms(3) 3 4 by (auto split: if_splits)
  qed
  then show "fd_inv E k'" "active k'" "r = Some np \<Longrightarrow> fresh np k'" by blast+
qed

section \<open>Fork and clone\<close>

lemma filedup_frame:
  "filedup f k = Inr k' \<Longrightarrow> k_proc k' = k_proc k \<and> k_ptable k' = k_ptable k \<and> length (k_ftable k') = length (k_ftable k)"
  by (auto simp: filedup_def upd_file_def upd_def split: if_splits)

lemma dup_files_inv:
  assumes "fd_inv E k" "active k" "np < length (k_ptable k)" "np \<noteq> k_proc k" "\<not> dead (k_ptable k ! np)"
    and "distinct is" "set is \<subseteq> {..<NOFILE}" "\<forall>i\<in>set is. p_ofile (k_ptable k ! np) ! i = None"
    and "dup_files is np k = Inr k'"
  shows "fd_inv E k' \<and> active k' \<and> k_proc k' = k_proc k \<and> length (k_ptable k') = length (k_ptable k) \<and>
    \<not> dead (k_ptable k' ! np)"
  using assms
proof (induction "is" arbitrary: k)
  case (Cons i "is")
  show ?case
  proof (cases "p_ofile (cur k) ! i")
    case None
    then show ?thesis using Cons.prems by (intro Cons.IH) auto
  next
    case (Some f)
    with Cons.prems obtain k1 where k1: "filedup f k = Inr k1"
      and rest: "dup_files is np (upd_proc np (\<lambda>x. x\<lparr>p_ofile := (p_ofile x)[i := Some f]\<rparr>) k1) = Inr k'"
      by (auto simp: res_simps)
    let ?k2 = "upd_proc np (\<lambda>x. x\<lparr>p_ofile := (p_ofile x)[i := Some f]\<rparr>) k1"
    note fr = filedup_frame [OF k1]
    have w: "proc_wf (length (k_ftable k)) (cur k)" "proc_wf (length (k_ftable k)) (k_ptable k ! np)"
      using Cons.prems(1,2,3) by (auto simp: fd_inv_def active_def cur_def)
    then have i: "i < NOFILE" "i < length (p_ofile (cur k))" "i < length (p_ofile (k_ptable k ! np))"
      using Cons.prems(7) by (auto simp: proc_wf_def)
    then have f: "f < length (k_ftable k)" using w(1) Some nth_mem unfolding proc_wf_def by metis
    have "fd_inv (\<lambda>g. E g + of_bool (g = f) + of_bool (p_ofile (k_ptable k1 ! np) ! i = Some g) - of_bool (Some f = Some g)) ?k2"
      by (rule set_fd [OF filedup_inv [OF Cons.prems(1) k1]]) (use i f fr Cons.prems in auto)
    then have "fd_inv E ?k2" using Cons.prems(8) fr by (simp add: eq_commute)
    moreover have "active ?k2" using Cons.prems(2,4) fr by (simp add: active_def cur_def)
    moreover have "p_ofile (k_ptable ?k2 ! np) ! j = None" if "j \<in> set is" for j
      using that Cons.prems(3,6,8) fr by (cases "j = i") auto
    ultimately show ?thesis
      using Cons.IH [OF _ _ _ _ _ _ _ _ rest] Cons.prems fr by (auto simp: dead_def)
  qed
qed simp

lemma start_child_inv:
  assumes "fd_inv E k" "active k" "fresh np k" "start_child np k = Inr k'"
  shows "fd_inv E k' \<and> active k'"
proof -
  from assms(4) obtain k1 cwd where k1: "dup_files [0..<NOFILE] np k = Inr k1"
    and k': "k' = (let k = k1\<lparr>k_fs := idup cwd (k_fs k1)\<rparr>;
             k = upd_proc np (\<lambda>x. x\<lparr>p_cwd := Some cwd, p_state := RUNNABLE\<rparr>) k;
             k = k\<lparr>k_refs := add_ref (p_pgdir (k_ptable k ! np)) (k_refs k)\<rparr> in
         upd_proc np (\<lambda>x. x\<lparr>p_name := safestrcpy_bytes (p_name x) (p_name (cur k)) 16\<rparr>) k)"
    unfolding start_child_def Let_def by (auto elim!: bindE_InrE split: option.splits)
  have l: "length (p_ofile (k_ptable k ! np)) = NOFILE"
    using assms(1,3) by (simp add: fd_inv_def proc_wf_def fresh_def)
  have w: "p_ofile (k_ptable k ! np) ! i = None" if "i < NOFILE" for i
  proof -
    have "p_ofile (k_ptable k ! np) ! i \<in> {None}"
      using assms(3) nth_mem [of i "p_ofile (k_ptable k ! np)"] that l unfolding fresh_def no_files_def by (simp only: subset_iff)
    then show ?thesis by simp
  qed
  have 1: "fd_inv E k1 \<and> active k1 \<and> k_proc k1 = k_proc k \<and> length (k_ptable k1) = length (k_ptable k) \<and> \<not> dead (k_ptable k1 ! np)"
    by (rule dup_files_inv [OF assms(1,2) _ _ _ _ _ _ k1]) (use assms(3) w in \<open>auto simp: fresh_def\<close>)
  define k2 where "k2 = upd_proc np (\<lambda>x. x\<lparr>p_cwd := Some cwd, p_state := RUNNABLE\<rparr>) (k1\<lparr>k_fs := idup cwd (k_fs k1)\<rparr>)"
  have np: "np < length (k_ptable k1)" "np \<noteq> k_proc k1" using 1 assms(3) by (auto simp: fresh_def)
  have "fd_inv E (k1\<lparr>k_fs := idup cwd (k_fs k1)\<rparr>)" "active (k1\<lparr>k_fs := idup cwd (k_fs k1)\<rparr>)"
    using 1 same_fds_inv(1,2) [OF same_fds_simps(2)] by blast+
  then have 2: "fd_inv E k2" "active k2"
    unfolding k2_def by (auto intro!: upd_proc_inv simp: np dead_def)
  have "same_fds k2 k'"
    unfolding k' Let_def k2_def [symmetric]
    by (rule same_fds_trans [OF same_fds_simps(4) same_fds_upd_proc]) (simp add: same_procI)
  then show ?thesis using 2 same_fds_inv(1,2) by blast
qed


lemma fork_failed_inv:
  assumes "fd_inv E k" "active k" "fresh np k" "fork_failed np k = Inr (r, k')"
  shows "fd_inv E k' \<and> active k'"
proof -
  from assms(4) obtain k1 where s: "same_fds k k1" and k': "k' = upd_proc np (\<lambda>x. x\<lparr>p_kstack := 0, p_state := UNUSED\<rparr>) k1"
    unfolding fork_failed_def by (auto elim!: bindE_InrE dest!: fds)
  have "fd_inv E k1" "active k1" "fresh np k1" using s assms(1-3) same_fds_inv(1,2) fresh_same by blast+
  then show ?thesis unfolding k' by (auto intro!: upd_proc_inv simp: fresh_def)
qed

lemma same_inherit [simp]: "same_proc x (inherit parent p x)"
  by (simp add: inherit_def same_procI)

lemma fork_inv:
  assumes "fd_inv E k" "active k" "fork k = Inr (r, k')"
  shows "fd_inv E k' \<and> active k'"
proof -
  obtain r1 k1 where a: "allocproc k = (r1, k1)" by (cases "allocproc k")
  note i1 = allocproc_inv(1,2) [OF assms(1,2) a]
  show ?thesis
  proof (cases r1)
    case None
    then show ?thesis using assms(3) a i1 by (auto simp: fork_def)
  next
    case (Some np)
    then have "fresh np k1" using allocproc_inv(3) [OF assms(1,2) a] by simp
    note i1 = i1 this
    from assms(3) Some a obtain d k2 where c: "on_mem (copyuvm (p_shm (cur k1)) (p_pgdir (cur k1)) (p_sz (cur k1))) k1 = Inr (d, k2)"
      and k': "(let k = upd_proc np (\<lambda>x. x\<lparr>p_pgdir := d\<rparr>) k2 in
          if d = 0 then fork_failed np k
          else
            bindE (on_mem (copyshm (p_pgdir (cur k)) (p_shm (cur k)) d) k) (\<lambda>(r, k).
            if r < 0 then fork_failed np k
            else
              let k = k\<lparr>k_shm := shm_add_count (p_shm_key_mask (cur k)) (k_shm k)\<rparr>;
                  k = upd_proc np (inherit (k_proc k) (cur k)) k;
                  pid = p_pid (k_ptable k ! np) in
              bindE (start_child np k) (\<lambda>k. Inr (pid, k)))) = Inr (r, k')"
      unfolding fork_def by (auto elim!: bindE_InrE)
    define k3 where "k3 = upd_proc np (\<lambda>x. x\<lparr>p_pgdir := d\<rparr>) k2"
    have "same_fds k2 k3" unfolding k3_def by (rule same_fds_upd_proc) (simp add: same_procI)
    then have s: "same_fds k1 k3" by (rule same_fds_trans [OF same_fds_on_mem(1) [OF c]])
    note i3 = same_fds_inv(1) [OF s i1(1)] same_fds_inv(2) [OF s i1(2)] fresh_same [OF s i1(3)]
    have fin: "fd_inv E l' \<and> active l'"
      if "same_fds k3 l" "start_child np (let l = l\<lparr>k_shm := sh\<rparr> in upd_proc np (inherit (k_proc l) (cur l)) l) = Inr l'" for l l' sh
    proof -
      have s: "same_fds k3 (let l = l\<lparr>k_shm := sh\<rparr> in upd_proc np (inherit (k_proc l) (cur l)) l)"
        unfolding Let_def by (rule same_fds_trans [OF same_fds_trans [OF that(1) same_fds_simps(3)] same_fds_upd_proc]) simp
      show ?thesis
        by (rule start_child_inv [OF same_fds_inv(1) [OF s i3(1)] same_fds_inv(2) [OF s i3(2)] fresh_same [OF s i3(3)] that(2)])
    qed
    show ?thesis
    proof (cases "d = 0")
      case True
      then have "fork_failed np k3 = Inr (r, k')" using k' by (simp add: k3_def)
      then show ?thesis by (rule fork_failed_inv [OF i3])
    next
      case False
      with k' obtain q k4 where "on_mem (copyshm (p_pgdir (cur k3)) (p_shm (cur k3)) d) k3 = Inr (q, k4)"
        and k': "q < 0 \<and> fork_failed np k4 = Inr (r, k') \<or> 
          start_child np (let l = k4\<lparr>k_shm := shm_add_count (p_shm_key_mask (cur k4)) (k_shm k4)\<rparr> in upd_proc np (inherit (k_proc l) (cur l)) l) = Inr k'"
        unfolding k3_def [symmetric] Let_def by (auto elim!: bindE_InrE split: if_splits)
      then have s: "same_fds k3 k4" by (auto dest: fds)
      from k' show ?thesis
        using fin [OF s] fork_failed_inv [OF same_fds_inv(1) [OF s i3(1)] same_fds_inv(2) [OF s i3(2)] fresh_same [OF s i3(3)]] by blast
    qed
  qed
qed

lemma clone_inv:
  assumes "fd_inv E k" "active k" "clone fcn a stack k = Inr (r, k')"
  shows "fd_inv E k' \<and> active k'"
proof -
  obtain r1 k1 where a: "allocproc k = (r1, k1)" by (cases "allocproc k")
  note i1 = allocproc_inv(1,2) [OF assms(1,2) a]
  show ?thesis
  proof (cases r1)
    case None
    then show ?thesis using assms(3) a i1 by (auto simp: clone_def)
  next
    case (Some np)
    then have "fresh np k1" using allocproc_inv(3) [OF assms(1,2) a] by simp
    note i1 = i1 this
    define k2 where "k2 = upd_proc np (\<lambda>x. x\<lparr>p_pgdir := p_pgdir (cur k1)\<rparr>) k1"
    define k3 where "k3 = upd_proc np (inherit (k_proc k2) (cur k2)) k2"
    have s: "same_fds k1 k3"
      unfolding k3_def k2_def by (rule same_fds_trans [OF same_fds_upd_proc same_fds_upd_proc]) (simp_all add: same_procI)
    note i3 = same_fds_inv(1) [OF s i1(1)] same_fds_inv(2) [OF s i1(2)] fresh_same [OF s i1(3)]
    have u: "same_fds l (upd_proc np (\<lambda>x. x\<lparr>p_ustack := stack, p_tf := (p_tf x)\<lparr>tf_esp := e, tf_eip := fcn\<rparr>\<rparr>) l)" for l e
      by (rule same_fds_upd_proc) (simp add: same_procI)
    from assms(3) obtain k4 k5 where c: "start_child np k3 = Inr k4" and s4: "same_fds k4 k5" "same_fds k5 k'"
      unfolding clone_def a Let_def split_def
      by (auto simp: Some k2_def [symmetric] k3_def [symmetric] u elim!: bindE_InrE split: if_splits dest!: fds)
    show ?thesis
      using start_child_inv [OF i3 c] same_fds_inv(1,2) [OF same_fds_trans [OF s4]] by simp
  qed
qed


section \<open>Exit, wait and join\<close>

lemma same_procs_nth:
  assumes "list_all2 same_proc (k_ptable k) (k_ptable k')" "k_proc k' = k_proc k"
  shows "active k \<Longrightarrow> active k'" "length (k_ptable k') = length (k_ptable k)"
    "i < length (k_ptable k) \<Longrightarrow> p_ofile (k_ptable k' ! i) = p_ofile (k_ptable k ! i)"
  using assms by (auto simp: list_all2_conv_all_nth active_def cur_def same_proc_def)

text \<open>Closing the file behind a descriptor and clearing the descriptor, in either order.\<close>

lemma active_set_ofile [simp]: "active (upd_proc p (\<lambda>x. x\<lparr>p_ofile := f x\<rparr>) k) = active k"
  by (cases "p = k_proc k") (auto simp: active_def upd_proc_def upd_def cur_def)

lemma close_clear:
  assumes "fd_inv E k" "active k" "fd < NOFILE" "p_ofile (cur k) ! fd = Some f" "fileclose f k = Inr k1"
  defines "k' \<equiv> upd_cur (\<lambda>x. x\<lparr>p_ofile := (p_ofile x)[fd := None]\<rparr>) k1"
  shows "fd_inv E k'" "active k'" "k_proc k' = k_proc k" "p_ofile (cur k') = (p_ofile (cur k))[fd := None]"
proof -
  have p: "k_proc k < length (k_ptable k)" "proc_wf (length (k_ftable k)) (cur k)"
    using assms(1,2) by (auto simp: active_def fd_inv_def cur_def)
  then have f: "f < length (k_ftable k)" using assms(3,4) nth_mem unfolding proc_wf_def by metis
  note c = fileclose_inv [OF assms(1) f assms(5)]
  note s = same_procs_nth [OF c(4,2)]
  have "fd_inv (\<lambda>g. E g - of_bool (g = f) + of_bool (p_ofile (k_ptable k1 ! k_proc k1) ! fd = Some g) - of_bool (None = Some g)) k'"
    unfolding k'_def upd_cur_def by (rule set_fd [OF c(1)]) (use p c(2) s(2) assms(3) in auto)
  moreover have "p_ofile (k_ptable k1 ! k_proc k1) ! fd = Some f" using s(3) [OF p(1)] c(2) assms(4) by (simp add: cur_def)
  moreover have "(\<lambda>g. E g - of_bool (g = f) + of_bool (Some f = Some g) - of_bool (None = Some g)) = E" by auto
  ultimately show "fd_inv E k'" by simp
  show "active k'" "k_proc k' = k_proc k" "p_ofile (cur k') = (p_ofile (cur k))[fd := None]"
    using s(1) [OF assms(2)] s(2,3) p(1) c(2) by (simp_all add: k'_def upd_cur_def cur_def)
qed

lemma close_files_inv:
  assumes "fd_inv E k" "active k" "set fds \<subseteq> {..<NOFILE}" "close_files fds k = Inr k'"
  shows "fd_inv E k' \<and> active k' \<and> k_proc k' = k_proc k \<and>
    (\<forall>i<NOFILE. i \<in> set fds \<or> p_ofile (cur k) ! i = None \<longrightarrow> p_ofile (cur k') ! i = None)"
  using assms
proof (induction fds arbitrary: k)
  case (Cons fd fds)
  show ?case
  proof (cases "p_ofile (cur k) ! fd")
    case None
    then show ?thesis using Cons.IH [of k] Cons.prems by auto
  next
    case (Some f)
    with Cons.prems(4) obtain k1 where k1: "fileclose f k = Inr k1"
      and rest: "close_files fds (upd_cur (\<lambda>x. x\<lparr>p_ofile := (p_ofile x)[fd := None]\<rparr>) k1) = Inr k'"
      by (auto simp: res_simps)
    have fd: "fd < NOFILE" "fd < length (p_ofile (cur k))"
      using Cons.prems(1-3) by (auto simp: fd_inv_def proc_wf_def active_def cur_def)
    note c = close_clear [OF Cons.prems(1,2) fd(1) Some k1]
    have "p_ofile (cur k) ! i = None \<Longrightarrow> (p_ofile (cur k))[fd := None] ! i = None" for i
      using fd(2) by (cases "i = fd") auto
    then show ?thesis using Cons.IH [OF c(1,2) _ rest] Cons.prems(3) c(3,4) fd(2) by auto
  qed
qed auto

lemma wakeup1_same: "list_all2 same_proc ps (wakeup1 c ps)"
  by (auto simp: wakeup1_def list_all2_conv_all_nth same_proc_def dead_def)

lemma abandon_same: "list_all2 same_proc ps (abandon is me init ps)"
proof (induction "is" arbitrary: ps)
  case (Cons i "is")
  have u: "list_all2 same_proc ps (upd (\<lambda>x. x\<lparr>p_parent := init\<rparr>) i ps)"
    by (rule upd_same) (simp add: same_procI)
  have s: "list_all2 same_proc ps (if p_parent (ps ! i) = Some me then
          let ps = upd (\<lambda>x. x\<lparr>p_parent := init\<rparr>) i ps in
          if p_state (ps ! i) = ZOMBIE then wakeup1 (map_option ChanProc init) ps else ps
        else ps)"
    using u list_all2_trans [OF same_proc_trans u wakeup1_same] by (simp add: Let_def list_all2_same)
  show ?case unfolding abandon.simps by (rule list_all2_trans [OF same_proc_trans s Cons.IH])
qed (simp add: list_all2_same)

lemma exit_inv:
  assumes "fd_inv E k" "active k" "exit k = Inr k'"
  shows "fd_inv E k'"
proof -
  from assms(3) obtain k1 cwd k2 where k1: "close_files [0..<NOFILE] k = Inr k1" and k2: "on_fs' (iput cwd) k1 = Inr k2"
    and k': "k' = (let k = upd_cur (\<lambda>x. x\<lparr>p_cwd := None\<rparr>) k2;
                ps = wakeup1 (map_option ChanProc (p_parent (cur k))) (k_ptable k);
                ps = abandon [0..<length ps] (k_proc k) (k_initproc k) ps in
            upd_cur (\<lambda>x. x\<lparr>p_state := ZOMBIE\<rparr>) (k\<lparr>k_ptable := ps\<rparr>))"
    unfolding exit_def Let_def by (auto elim!: bindE_InrE split: if_splits option.splits)
  have 1: "fd_inv E k1" "active k1" "\<And>i. i < NOFILE \<Longrightarrow> p_ofile (cur k1) ! i = None"
    using close_files_inv [OF assms(1,2) _ k1] by (auto simp: lessThan_atLeast0)
  have "length (p_ofile (cur k1)) = NOFILE" using 1(1,2) by (simp add: fd_inv_def proc_wf_def active_def cur_def)
  then have nf: "no_files (cur k1)" using 1(3) by (auto simp: no_files_def in_set_conv_nth)
  define k3 where "k3 = upd_cur (\<lambda>x. x\<lparr>p_cwd := None\<rparr>) k2"
  define k4 where "k4 = k3\<lparr>k_ptable := (let ps = wakeup1 (map_option ChanProc (p_parent (cur k3))) (k_ptable k3)
      in abandon [0..<length ps] (k_proc k3) (k_initproc k3) ps)\<rparr>"
  have s3: "same_fds k1 k3"
    unfolding k3_def by (rule same_fds_trans [OF same_fds_on_fs(2) [OF k2] same_fds_upd_cur]) (simp add: same_procI)
  have "same_fds k3 k4"
    unfolding same_fds_def k4_def Let_def
    by (simp add: list_all2_trans [OF same_proc_trans wakeup1_same abandon_same])
  note s4 = same_fds_trans [OF s3 this]
  have 4: "fd_inv E k4" "active k4" using same_fds_inv(1,2) [OF s4] 1 by auto
  have "no_files (cur k4)"
    using nf same_fds_inv(3,8) [OF s4] 1(2) by (auto simp: no_files_def same_proc_def cur_def active_def)
  then have "fd_inv E (upd_proc (k_proc k4) (\<lambda>x. x\<lparr>p_state := ZOMBIE\<rparr>) k4)"
    by (intro upd_proc_inv) (use 4 in \<open>auto simp: active_def cur_def\<close>)
  then show ?thesis unfolding k' by (simp add: Let_def k4_def k3_def upd_cur_def)
qed

lemma drop_space_same [fds]: "drop_space p k = Inr k' \<Longrightarrow> same_fds k k'"
proof -
  assume d: "drop_space p k = Inr k'"
  define cr where "cr = delete_ref (p_pgdir (k_ptable k ! p)) (k_refs k)"
  have u: "same_fds k (upd_proc p (\<lambda>x. x\<lparr>p_shm := USERTOP, p_shm_key_mask := 0\<rparr>) (k\<lparr>k_refs := snd cr, k_shm := sh, k_mem := km\<rparr>))" for sh km
    by (rule same_fds_trans [OF same_fds_trans [OF same_fds_trans [OF same_fds_simps(4) same_fds_simps(3)] same_fds_simps(1)] same_fds_upd_proc])
      (simp add: same_procI)
  from d show ?thesis
    unfolding drop_space_def Let_def cr_def [symmetric] split_def
    by (auto elim!: bindE_InrE split: if_splits dest!: fds same_fds_trans [OF u])
qed

lemma free_slot_same: "p < length (k_ptable k) \<Longrightarrow> dead (k_ptable k ! p) \<Longrightarrow> same_fds k (free_slot p k)"
  by (auto simp: same_fds_def free_slot_def upd_proc_def upd_def list_all2_conv_all_nth nth_list_update same_proc_def dead_def)

lemma free_slot_after: "same_fds k k' \<Longrightarrow> p < length (k_ptable k) \<Longrightarrow> dead (k_ptable k ! p) \<Longrightarrow> same_fds k (free_slot p k')"
  by (rule same_fds_trans [OF _ free_slot_same]) (use same_fds_inv(5,8) in \<open>auto simp: same_proc_def\<close>)

lemma same_kstack: "same_fds (upd_proc p (\<lambda>x. x\<lparr>p_kstack := a\<rparr>) k) k' \<Longrightarrow> same_fds k k'"
  by (rule same_fds_trans [OF same_fds_upd_proc]) (simp_all add: same_procI)

lemma wait_same [fds]: "wait k = Inr r \<Longrightarrow> same_fds k (reply_state r)"
proof -
  have u: "same_fds l (upd_proc p (\<lambda>x. x\<lparr>p_ustack := 0\<rparr>) l)" for l p
    by (rule same_fds_upd_proc) (simp add: same_procI)
  assume w: "wait k = Inr r"
  show ?thesis
  proof (cases "first_idx (\<lambda>p. child False k p \<and> p_state p = ZOMBIE) (k_ptable k)")
    case None
    then show ?thesis using w by (auto simp: wait_def split: if_splits)
  next
    case (Some p)
    then have p: "p < length (k_ptable k)" "dead (k_ptable k ! p)"
      by (auto dest: first_idx_SomeD simp: dead_def)
    from w Some obtain k1 k2 where s: "same_fds k k1" "same_fds k1 k2"
      and r: "reply_state r = free_slot p (upd_proc p (\<lambda>x. x\<lparr>p_ustack := 0\<rparr>) k2)"
      by (auto simp: wait_def elim!: bindE_InrE dest!: fds same_kstack)
    show ?thesis unfolding r
      by (rule free_slot_after [OF same_fds_trans [OF same_fds_trans [OF s] u] p])
  qed
qed

lemma join_same [fds]: "join stack k = Inr r \<Longrightarrow> same_fds k (reply_state r)"
proof -
  assume w: "join stack k = Inr r"
  show ?thesis
  proof (cases "first_idx (\<lambda>p. child True k p \<and> p_state p = ZOMBIE) (k_ptable k)")
    case None
    then show ?thesis using w by (auto simp: join_def split: if_splits)
  next
    case (Some p)
    then have p: "p < length (k_ptable k)" "dead (k_ptable k ! p)"
      by (auto dest: first_idx_SomeD simp: dead_def)
    from w Some obtain k1 k2 k3 where s: "same_fds k k1" "same_fds k1 k2" "same_fds k2 k3" and r: "reply_state r = free_slot p k3"
      by (auto simp: join_def Let_def elim!: bindE_InrE dest!: fds same_kstack)
    show ?thesis unfolding r
      by (rule free_slot_after [OF same_fds_trans [OF same_fds_trans [OF s(1,2)] s(3)] p])
  qed
qed

end
