(* ===== verification/Fd_Calls.thy ===== *)
theory Fd_Calls
  imports Fd_Ops
begin

unbundle bit_operations_syntax

text \<open>
  The system calls on descriptors, and that every system call keeps the reference counts of
  open files equal to the number of descriptors.
\<close>

section \<open>System calls on descriptors\<close>

definition fds_ok :: "kernel \<Rightarrow> bool" where
  "fds_ok k \<longleftrightarrow> fd_inv (\<lambda>_. 0) k \<and> active k"

lemma fds_ok_same: "fds_ok k \<Longrightarrow> same_fds k k' \<Longrightarrow> fds_ok k'"
  using same_fds_inv(1,2) by (auto simp: fds_ok_def)

lemma arg_ok:
  assumes "arg m k f = Inr r" "fds_ok k" "\<And>x. m = Inr (Some x) \<Longrightarrow> f x = Inr r \<Longrightarrow> fds_ok (reply_state r)"
  shows "fds_ok (reply_state r)"
  using assms by (auto simp: arg_def res_simps split: option.splits)

lemma argfd_ok:
  assumes "argfd n k = Inr (Some (fd, f))" "fds_ok k"
  shows "fd < NOFILE" "p_ofile (cur k) ! fd = Some f" "f < length (k_ftable k)"
proof -
  show fd: "fd < NOFILE" "p_ofile (cur k) ! fd = Some f"
    using assms(1) by (auto simp: argfd_def Let_def elim!: bindE_InrE split: option.splits if_splits)
  have "proc_wf (length (k_ftable k)) (cur k)"
    using assms(2) by (simp add: fds_ok_def fd_inv_def active_def cur_def)
  then show "f < length (k_ftable k)" using fd nth_mem unfolding proc_wf_def by metis
qed

lemma sys_dup_ok: "sys_dup k = Inr r \<Longrightarrow> fds_ok k \<Longrightarrow> fds_ok (reply_state r)"
proof -
  assume k: "fds_ok k"
  have "fds_ok (reply_state r)"
    if a: "argfd 0 k = Inr (Some (i, f))" and d: "(let (fd, k) = fdalloc f k in
     if fd < 0 then Inr (Reply (- 1) k) else bindE (filedup f k) (\<lambda>k. Inr (Reply fd k))) = Inr r" for i f
  proof -
    obtain fd k1 where f: "fdalloc f k = (fd, k1)" by (cases "fdalloc f k")
    note c = fdalloc_inv [OF _ _ argfd_ok(3) [OF a k] f, of "\<lambda>_. 0"]
    show ?thesis
    proof (cases "fd < 0")
      case True
      then show ?thesis using d f c k by (auto simp: fds_ok_def)
    next
      case False
      then have k1: "fd_inv (\<lambda>g. 0 - of_bool (g = f)) k1" "active k1" using c k by (auto simp: fds_ok_def)
      from d f False obtain k2 where k2: "filedup f k1 = Inr k2" and r: "reply_state r = k2" by (auto simp: res_simps)
      show ?thesis
        using filedup_inv [OF k1(1) k2] filedup_frame [OF k2] k1(2) by (simp add: r fds_ok_def active_def cur_def)
    qed
  qed
  note dup = this
  show "sys_dup k = Inr r \<Longrightarrow> fds_ok (reply_state r)"
    unfolding sys_dup_def by (erule arg_ok [OF _ k]) (use dup in auto)
qed

lemma fileclose_ok:
  assumes "fd_inv E k" "active k" "f < length (k_ftable k)" "fileclose f k = Inr k'"
  shows "fd_inv (\<lambda>g. E g - of_bool (g = f)) k' \<and> active k' \<and> length (k_ftable k') = length (k_ftable k)"
  using fileclose_inv [OF assms(1,3,4)] same_procs_nth(1) [of k k'] assms(2) by simp

text \<open>Clearing a descriptor leaves one reference in the hands of the kernel.\<close>

lemma clear_fd:
  assumes "fd_inv E k" "active k" "fd < NOFILE" "p_ofile (cur k) ! fd = Some f"
  defines "k' \<equiv> upd_cur (\<lambda>p. p\<lparr>p_ofile := (p_ofile p)[fd := None]\<rparr>) k"
  shows "fd_inv (\<lambda>g. E g + of_bool (g = f)) k' \<and> active k' \<and> k_ftable k' = k_ftable k"
proof -
  have "fd_inv (\<lambda>g. E g + of_bool (p_ofile (k_ptable k ! k_proc k) ! fd = Some g) - of_bool (None = Some g)) k'"
    unfolding k'_def upd_cur_def by (rule set_fd) (use assms(1-3) in \<open>auto simp: active_def\<close>)
  moreover have "(\<lambda>g. E g + of_bool (p_ofile (k_ptable k ! k_proc k) ! fd = Some g) - of_bool (None = Some g)) = (\<lambda>g. E g + of_bool (g = f))"
    using assms(4) by (auto simp: cur_def)
  ultimately show ?thesis using assms(2) by (simp add: k'_def upd_cur_def)
qed

lemma sys_close_ok: "sys_close k = Inr r \<Longrightarrow> fds_ok k \<Longrightarrow> fds_ok (reply_state r)"
proof -
  assume k: "fds_ok k"
  have "fds_ok (reply_state r)"
    if a: "argfd 0 k = Inr (Some (fd, f))" and d: "bindE (fileclose f (upd_cur (\<lambda>p. p\<lparr>p_ofile := (p_ofile p)[fd := None]\<rparr>) k)) (\<lambda>k. Inr (Reply 0 k)) = Inr r" for fd f
  proof -
    note a = argfd_ok [OF a k]
    have c: "fd_inv (\<lambda>g. 0 + of_bool (g = f)) (upd_cur (\<lambda>p. p\<lparr>p_ofile := (p_ofile p)[fd := None]\<rparr>) k) \<and>
        active (upd_cur (\<lambda>p. p\<lparr>p_ofile := (p_ofile p)[fd := None]\<rparr>) k) \<and>
        k_ftable (upd_cur (\<lambda>p. p\<lparr>p_ofile := (p_ofile p)[fd := None]\<rparr>) k) = k_ftable k"
      by (rule clear_fd) (use k a in \<open>simp_all add: fds_ok_def\<close>)
    from d obtain k1 where k1: "fileclose f (upd_cur (\<lambda>p. p\<lparr>p_ofile := (p_ofile p)[fd := None]\<rparr>) k) = Inr k1" "reply_state r = k1"
      by (auto simp: res_simps)
    show ?thesis
      using fileclose_ok [OF _ _ _ k1(1), of "\<lambda>g. 0 + of_bool (g = f)"] c a(3) by (simp add: fds_ok_def k1(2))
  qed
  note close = this
  show "sys_close k = Inr r \<Longrightarrow> fds_ok (reply_state r)"
    unfolding sys_close_def Let_def by (erule arg_ok [OF _ k]) (use close in auto)
qed

lemma filealloc_ok:
  assumes "fd_inv E k" "active k" "filealloc k = (r, k')"
  shows "r = None \<and> k' = k \<or> (\<exists>f<length (k_ftable k). r = Some f \<and> fd_inv (\<lambda>g. E g + of_bool (g = f)) k' \<and>
    active k' \<and> length (k_ftable k') = length (k_ftable k))"
proof (cases r)
  case None
  then show ?thesis using assms(3) by (auto simp: filealloc_def split: option.splits)
next
  case (Some f)
  moreover have "active k'" "length (k_ftable k') = length (k_ftable k)"
    using assms(2,3) by (auto simp: filealloc_def upd_file_def upd_def active_def cur_def split: option.splits)
  ultimately show ?thesis using filealloc_inv [OF assms(1)] assms(3) by blast
qed

lemma sys_open_ok: "sys_open k = Inr r \<Longrightarrow> fds_ok k \<Longrightarrow> fds_ok (reply_state r)"
proof -
  assume k: "fds_ok k"
  have "fds_ok (reply_state r)" if o: "on_fs g k = Inr (Some ip, k1)" and rest: "(let (rfile, k) = filealloc k1 in
     case rfile of
       None \<Rightarrow> bindE (on_fs' (iunlockput ip) k) (\<lambda>k. Inr (Reply (- 1) k))
     | Some f \<Rightarrow>
         let (fd, k) = fdalloc f k in
         if fd < 0 then
           bindE (fileclose f k) (\<lambda>k.
           bindE (on_fs' (iunlockput ip) k) (\<lambda>k. Inr (Reply (- 1) k)))
         else
           bindE (on_fs' (iunlock ip) k) (\<lambda>k.
           Inr (Reply fd (upd_file f (\<lambda>x. x\<lparr>f_type := FD_INODE, f_ip := ip, f_off := 0,
             f_readable := a, f_writable := b\<rparr>) k)))) = Inr r" for g ip k1 a b
  proof -
    have k1: "fds_ok k1" using fds_ok_same [OF k] same_fds_on_fs(1) [OF o] by blast
    obtain rf k2 where fa: "filealloc k1 = (rf, k2)" by (cases "filealloc k1")
    have u: "same_fds l (upd_file f (\<lambda>x. x\<lparr>f_type := FD_INODE, f_ip := ip, f_off := 0, f_readable := a, f_writable := b\<rparr>) l)" for f l
      by (rule same_fds_upd_file) simp
    from filealloc_ok [OF _ _ fa, of "\<lambda>_. 0"] k1 consider (none) "rf = None" "fds_ok k2"
      | (some) f where "f < length (k_ftable k1)" "rf = Some f" "fd_inv (\<lambda>g. 0 + of_bool (g = f)) k2" "active k2" "length (k_ftable k2) = length (k_ftable k1)"
      by (auto simp: fds_ok_def)
    then show ?thesis
    proof cases
      case none
      then obtain k3 where "on_fs' (iunlockput ip) k2 = Inr k3" "reply_state r = k3"
        using rest by (auto simp: fa elim!: bindE_InrE)
      then show ?thesis using fds_ok_same [OF none(2)] same_fds_on_fs(2) by metis
    next
      case (some f)
      obtain fd k3 where fd: "fdalloc f k2 = (fd, k3)" by (cases "fdalloc f k2")
      note c = fdalloc_inv [OF some(3,4) _ fd]
      show ?thesis
      proof (cases "fd < 0")
        case True
        then have "k3 = k2" using c some by auto
        with rest True some(2) fa fd obtain k4 k5 where k4: "fileclose f k2 = Inr k4" and k5: "on_fs' (iunlockput ip) k4 = Inr k5" "reply_state r = k5"
          by (auto elim!: bindE_InrE)
        have "fds_ok k4" using fileclose_ok [OF some(3,4) _ k4] some by (simp add: fds_ok_def)
        then show ?thesis using fds_ok_same same_fds_on_fs(2) [OF k5(1)] k5(2) by blast
      next
        case False
        then have k3: "fds_ok k3" using c some by (simp add: fds_ok_def)
        from rest False some(2) fa fd obtain k4 where k4: "on_fs' (iunlock ip) k3 = Inr k4"
          and r: "reply_state r = upd_file f (\<lambda>x. x\<lparr>f_type := FD_INODE, f_ip := ip, f_off := 0, f_readable := a, f_writable := b\<rparr>) k4"
          by (auto elim!: bindE_InrE)
        show ?thesis unfolding r by (rule fds_ok_same [OF fds_ok_same [OF k3 same_fds_on_fs(2) [OF k4]] u])
      qed
    qed
  qed
  note opened = this
  have failed: "fds_ok k1" if "on_fs g k = Inr (None, k1)" for g :: "fs \<Rightarrow> (nat option \<times> fs) res" and k1
    using fds_ok_same [OF k] same_fds_on_fs(1) [OF that] by blast
  show "sys_open k = Inr r \<Longrightarrow> fds_ok (reply_state r)"
    unfolding sys_open_def
    by (auto elim!: arg_ok [OF _ k] with_cwd_same bindE_InrE split: option.splits) (erule failed, rule opened, assumption, simp)
qed


lemma pipealloc_ok:
  assumes "fds_ok k" "pipealloc k = Inr (r, k')"
  shows "r = None \<and> fds_ok k' \<or> (\<exists>f0 f1. r = Some (f0, f1) \<and> f0 < length (k_ftable k') \<and> f1 < length (k_ftable k') \<and>
    active k' \<and> fd_inv (\<lambda>g. of_bool (g = f0) + of_bool (g = f1)) k')"
proof -
  have k: "fd_inv (\<lambda>_. 0) k" "active k" using assms(1) by (simp_all add: fds_ok_def)
  obtain r0 k1 where a0: "filealloc k = (r0, k1)" by (cases "filealloc k")
  show ?thesis
  proof (cases r0)
    case None
    then show ?thesis using assms a0 filealloc_ok [OF k a0] by (auto simp: pipealloc_def)
  next
    case (Some f0)
    then have k1: "f0 < length (k_ftable k)" "fd_inv (\<lambda>g. 0 + of_bool (g = f0)) k1" "active k1" "length (k_ftable k1) = length (k_ftable k)"
      using filealloc_ok [OF k a0] by auto
    obtain r1 k2 where a1: "filealloc k1 = (r1, k2)" by (cases "filealloc k1")
    show ?thesis
    proof (cases r1)
      case None
      then have "k2 = k1" using filealloc_ok [OF k1(2,3) a1] by auto
      with assms(2) Some None a0 a1 have "r = None" and c: "fileclose f0 k1 = Inr k'"
        by (auto simp: pipealloc_def res_simps)
      then show ?thesis using fileclose_ok [OF k1(2,3) _ c] k1(1,4) by (simp add: fds_ok_def)
    next
      case (Some f1)
      then have k2: "f1 < length (k_ftable k)" "fd_inv (\<lambda>g. of_bool (g = f0) + of_bool (g = f1)) k2" "active k2" "length (k_ftable k2) = length (k_ftable k)"
        using filealloc_ok [OF k1(2,3) a1] k1 by auto
      define k3 where "k3 = k2\<lparr>k_mem := snd (kalloc (k_mem k2))\<rparr>"
      have s3: "same_fds k2 k3" by (simp add: k3_def)
      note k3 = same_fds_inv(1) [OF s3 k2(2)] same_fds_inv(2) [OF s3 k2(3)] same_fds_inv(6) [OF s3]
      show ?thesis
      proof (cases "fst (kalloc (k_mem k2)) = 0")
        case True
        with assms(2) \<open>r0 = Some f0\<close> Some a0 a1 obtain k4 where "r = None" and k4: "fileclose f0 k3 = Inr k4" "fileclose f1 k4 = Inr k'"
          by (auto simp: pipealloc_def res_simps split_def k3_def Let_def)
        have c: "fd_inv (\<lambda>g. of_bool (g = f0) + of_bool (g = f1) - of_bool (g = f0)) k4 \<and> active k4 \<and> length (k_ftable k4) = length (k_ftable k3)"
          by (rule fileclose_ok [OF k3(1,2) _ k4(1)]) (use k1 k2 k3(3) in simp)
        have "fd_inv (\<lambda>g. of_bool (g = f0) + of_bool (g = f1) - of_bool (g = f0) - of_bool (g = f1)) k' \<and> active k' \<and> length (k_ftable k') = length (k_ftable k4)"
          by (rule fileclose_ok [OF _ _ _ k4(2)]) (use c k2 k3(3) in simp_all)
        then show ?thesis using \<open>r = None\<close> by (simp add: fds_ok_def)
      next
        case False
        let ?p = "fst (kalloc (k_mem k2))"
        define k4 where "k4 = k3\<lparr>k_pipes := (k_pipes k3)(?p := pipe_init (k_pipes k3 ?p))\<rparr>"
        define k5 where "k5 = upd_file f0 (\<lambda>x. x\<lparr>f_type := FD_PIPE, f_readable := True, f_writable := False, f_pipe := ?p\<rparr>) k4"
        have r: "r = Some (f0, f1)" "k' = upd_file f1 (\<lambda>x. x\<lparr>f_type := FD_PIPE, f_readable := False, f_writable := True, f_pipe := ?p\<rparr>) k5"
          using assms(2) \<open>r0 = Some f0\<close> Some a0 a1 False
          by (auto simp: pipealloc_def split_def k5_def k4_def k3_def Let_def)
        have s: "same_fds k3 k4" "same_fds k4 k5" "same_fds k5 k'"
          unfolding k4_def k5_def r by (simp, (rule same_fds_upd_file, simp)+)
        note s = same_fds_trans [OF same_fds_trans [OF s(1,2)] s(3)]
        show ?thesis
          using same_fds_inv(1) [OF s k3(1)] same_fds_inv(2) [OF s k3(2)] same_fds_inv(6) [OF s] k1(1) k2(1,4) k3(3) r(1) by simp
      qed
    qed
  qed
qed


lemma close_both:
  assumes "fd_inv (\<lambda>g. of_bool (g = f0) + of_bool (g = f1)) k" "active k" "f0 < length (k_ftable k)" "f1 < length (k_ftable k)"
    and "bindE (fileclose f0 k) (\<lambda>k. bindE (fileclose f1 k) (\<lambda>k. Inr (Reply v k))) = Inr r"
  shows "fds_ok (reply_state r)"
proof -
  from assms(5) obtain k1 k2 where c: "fileclose f0 k = Inr k1" "fileclose f1 k1 = Inr k2" "reply_state r = k2"
    by (auto simp: res_simps)
  note 1 = fileclose_ok [OF assms(1,2,3) c(1)]
  have "fd_inv (\<lambda>g. of_bool (g = f0) + of_bool (g = f1) - of_bool (g = f0) - of_bool (g = f1)) k2 \<and> active k2 \<and> length (k_ftable k2) = length (k_ftable k1)"
    by (rule fileclose_ok [OF _ _ _ c(2)]) (use 1 assms(4) in simp_all)
  then show ?thesis by (simp add: fds_ok_def c(3))
qed

lemma sys_pipe_ok: "sys_pipe k = Inr r \<Longrightarrow> fds_ok k \<Longrightarrow> fds_ok (reply_state r)"
proof -
  assume k: "fds_ok k"
  have "fds_ok (reply_state r)" if "pipealloc k = Inr (Some (f0, f1), k1)" and d: "(let (fd0, k) = fdalloc f0 k1 in
     if fd0 < 0 then
       bindE (fileclose f0 k) (\<lambda>k. bindE (fileclose f1 k) (\<lambda>k. Inr (Reply (- 1) k)))
     else
       let (fd1, k) = fdalloc f1 k in
       if fd1 < 0 then
         let k = upd_cur (\<lambda>p. p\<lparr>p_ofile := (p_ofile p)[nat fd0 := None]\<rparr>) k in
         bindE (fileclose f0 k) (\<lambda>k. bindE (fileclose f1 k) (\<lambda>k. Inr (Reply (- 1) k)))
       else
         bindE (user_store a (bytes32 (of_int fd0)) k) (\<lambda>k.
         bindE (user_store (a + 4) (bytes32 (of_int fd1)) k) (\<lambda>k.
         Inr (Reply 0 k)))) = Inr r" for f0 f1 k1 a
  proof -
    have k1: "f0 < length (k_ftable k1)" "f1 < length (k_ftable k1)" "active k1" "fd_inv (\<lambda>g. of_bool (g = f0) + of_bool (g = f1)) k1"
      using pipealloc_ok [OF k that(1)] by auto
    obtain fd0 k2 where a0: "fdalloc f0 k1 = (fd0, k2)" by (cases "fdalloc f0 k1")
    note c0 = fdalloc_inv [OF k1(4,3,1) a0]
    show ?thesis
    proof (cases "fd0 < 0")
      case True
      then show ?thesis using d a0 c0 close_both [OF k1(4,3,1,2)] by auto
    next
      case False
      then have k2: "fd_inv (\<lambda>g. of_bool (g = f1)) k2" "active k2" "k_ftable k2 = k_ftable k1" "p_ofile (cur k2) ! nat fd0 = Some f0" "nat fd0 < NOFILE"
        using c0 by auto
      then have f1: "f1 < length (k_ftable k2)" using k1(2) by simp
      obtain fd1 k3 where a1: "fdalloc f1 k2 = (fd1, k3)" by (cases "fdalloc f1 k2")
      note c1 = fdalloc_inv [OF k2(1,2) f1 a1]
      show ?thesis
      proof (cases "fd1 < 0")
        case True
        let ?k = "upd_cur (\<lambda>p. p\<lparr>p_ofile := (p_ofile p)[nat fd0 := None]\<rparr>) k2"
        have e: "bindE (fileclose f0 ?k) (\<lambda>k. bindE (fileclose f1 k) (\<lambda>k. Inr (Reply (- 1) k))) = Inr r"
          using d a0 a1 c1 False True by (auto simp: Let_def)
        have "fd_inv (\<lambda>g. of_bool (g = f1) + of_bool (g = f0)) ?k \<and> active ?k \<and> k_ftable ?k = k_ftable k2"
          by (rule clear_fd [OF k2(1,2,5,4)])
        then show ?thesis using k1(1) f1 k2(3) by (intro close_both [OF _ _ _ _ e]) (simp_all add: add.commute)
      next
        case nn: False
        then have k3: "fds_ok k3" using c1 by (simp add: fds_ok_def)
        from d a0 a1 False nn obtain k4 where "user_store a (bytes32 (of_int fd0)) k3 = Inr k4" "user_store (a + 4) (bytes32 (of_int fd1)) k4 = Inr (reply_state r)"
          by (auto elim!: bindE_InrE)
        then show ?thesis by (intro fds_ok_same [OF k3 same_fds_trans [OF same_fds_user_store same_fds_user_store]])
      qed
    qed
  qed
  note opened = this
  have failed: "fds_ok k1" if "pipealloc k = Inr (None, k1)" for k1
    using pipealloc_ok [OF k that] by simp
  show "sys_pipe k = Inr r \<Longrightarrow> fds_ok (reply_state r)"
    unfolding sys_pipe_def
    by (auto elim!: arg_ok [OF _ k] bindE_InrE split: option.splits) (erule failed, rule opened, assumption, simp)
qed

section \<open>Every system call\<close>

lemma sys_fork_ok: "sys_fork k = Inr r \<Longrightarrow> fds_ok k \<Longrightarrow> fds_ok (reply_state r)"
  unfolding sys_fork_def reply_of_def fds_ok_def by (auto elim!: bindE_InrE dest: fork_inv)

lemma sys_clone_ok: "sys_clone k = Inr r \<Longrightarrow> fds_ok k \<Longrightarrow> fds_ok (reply_state r)"
proof -
  assume k: "fds_ok k"
  have c: "clone f a s k = Inr (x, k') \<Longrightarrow> fds_ok k'" for f a s x k'
    using clone_inv [of "\<lambda>_. 0" k f a s x k'] k by (simp add: fds_ok_def)
  show "sys_clone k = Inr r \<Longrightarrow> fds_ok (reply_state r)"
    unfolding sys_clone_def reply_of_def by (auto elim!: arg_ok [OF _ k] bindE_InrE dest: c)
qed

lemma sys_wait_same [fds]: "sys_wait k = Inr r \<Longrightarrow> same_fds k (reply_state r)"
  unfolding sys_wait_def by (rule wait_same)

lemma sys_join_same [fds]: "sys_join k = Inr r \<Longrightarrow> same_fds k (reply_state r)"
  unfolding sys_join_def by (auto elim!: arg_same dest!: fds)

lemma syscalls_ok:
  assumes "syscalls junk stack n = Some f" "f k = Inr r" "fds_ok k"
  shows "fds_ok (reply_state r)"
proof -
  have "f \<in> {sys_fork, sys_pipe, sys_close, sys_open, sys_dup, sys_clone} \<or> (f k = Inr r \<longrightarrow> same_fds k (reply_state r))"
    using assms(1) unfolding syscalls_def by (auto split: if_splits intro: fds)
  then show ?thesis
    using assms(2,3) sys_fork_ok sys_pipe_ok sys_close_ok sys_open_ok sys_dup_ok sys_clone_ok fds_ok_same by blast
qed

lemma set_eax_same [simp]: "same_fds k (set_eax v k)"
  unfolding set_eax_def by (rule same_fds_upd_cur) (simp add: same_procI)

text \<open>What the kernel is left with: a process that still runs, or one that has given up the CPU.\<close>

fun outcome_ok :: "outcome_sys \<Rightarrow> bool" where
  "outcome_ok (Answer r) \<longleftrightarrow> fds_ok (reply_state r)"
| "outcome_ok (Exits k) \<longleftrightarrow> fd_inv (\<lambda>_. 0) k"
| "outcome_ok (Yields k) \<longleftrightarrow> fd_inv (\<lambda>_. 0) k"

lemma exit_ok: "bindE (exit k) (\<lambda>k. Inr (Exits k)) = Inr r \<Longrightarrow> fds_ok k \<Longrightarrow> outcome_ok r"
  unfolding fds_ok_def by (auto elim!: bindE_InrE dest: exit_inv)

lemma syscall_ok: "syscall junk stack k = Inr r \<Longrightarrow> fds_ok k \<Longrightarrow> outcome_ok r"
proof -
  assume k: "fds_ok k" and s: "syscall junk stack k = Inr r"
  define k1 where "k1 = k\<lparr>k_syscalls := k_syscalls k + 1\<rparr>"
  have k1: "fds_ok k1" unfolding k1_def by (rule fds_ok_same [OF k same_fds_simps(8)])
  let ?n = "sint (tf_eax (p_tf (cur k1)))"
  consider (ex) "bindE (exit k1) (\<lambda>k. Inr (Exits k)) = Inr r"
    | (call) f q where "syscalls junk stack ?n = Some f" "f k1 = Inr q" "r = Answer (case q of Reply v k \<Rightarrow> Reply v (set_eax v k) | Waits c w k \<Rightarrow> Waits c w k)"
    | (unknown) k2 where "same_fds k1 k2" "r = Answer (Reply (- 1) (set_eax (- 1) k2))"
    using s unfolding syscall_def Let_def k1_def [symmetric]
    by (auto elim!: bindE_InrE split: if_splits option.splits dest!: kprint_same)
  then show ?thesis
  proof cases
    case ex
    then show ?thesis using exit_ok k1 by blast
  next
    case call
    have "fds_ok (reply_state q)" by (rule syscalls_ok [OF call(1,2) k1])
    then show ?thesis using call(3) by (cases q) (auto intro: fds_ok_same)
  next
    case unknown
    then show ?thesis using fds_ok_same [OF k1 same_fds_trans [OF unknown(1) set_eax_same]] by simp
  qed
qed

lemma resume_ok: "resume w k = Inr r \<Longrightarrow> fds_ok k \<Longrightarrow> fds_ok (reply_state r)"
  by (rule fds_ok_same, assumption) (auto simp: resume_def split: pending.splits intro: fds)

end
