(* ===== verification/Fs_Volume.thy ===== *)
theory Fs_Volume
  imports Fs_Inode
begin

unbundle bit_operations_syntax

text \<open>
  What a consistent volume is, on the disk image below the buffer cache, and how the block
  layer changes it. \<open>vol_ok\<close>: the super block, inode and bitmap blocks are marked in use, and
  every free data block is zero. \<open>faddr\<close> is the disk address of a block of a file, \<open>file_ok\<close>
  says that a file's addresses are distinct data blocks in use, \<open>fbyte\<close> reads a byte of a
  file, zero in a hole.
\<close>

type_synonym image = "u32 \<times> u32 \<Rightarrow> u8 list"

section \<open>Volumes\<close>

definition data_start :: "superblock \<Rightarrow> nat" where
  "data_start sb = unat (sb_ninodes sb) div 8 + 3 + (unat (sb_size sb) - 1) div BPB + 1"

definition vol_ok :: "image \<Rightarrow> u32 \<Rightarrow> superblock \<Rightarrow> bool" where
  "vol_ok D d sb \<longleftrightarrow> get_superblock (D (d, 1)) = sb \<and> data_start sb \<le> unat (sb_size sb) \<and>
     unat (sb_size sb) \<le> 2 ^ 28 \<and> (\<forall>a. length (D a) = BSIZE) \<and>
     (\<forall>b<data_start sb. in_use D d (sb_ninodes sb) b) \<and>
     (\<forall>b. data_start sb \<le> b \<longrightarrow> b < unat (sb_size sb) \<longrightarrow> \<not> in_use D d (sb_ninodes sb) b \<longrightarrow>
        D (d, of_nat b) = replicate BSIZE 0)"

definition free_blocks :: "image \<Rightarrow> u32 \<Rightarrow> superblock \<Rightarrow> nat set" where
  "free_blocks D d sb = {b. b < unat (sb_size sb) \<and> \<not> in_use D d (sb_ninodes sb) b}"

definition data_addr :: "image \<Rightarrow> u32 \<Rightarrow> superblock \<Rightarrow> u32 \<Rightarrow> bool" where
  "data_addr D d sb a \<longleftrightarrow> data_start sb \<le> unat a \<and> unat a < unat (sb_size sb) \<and> in_use D d (sb_ninodes sb) (unat a)"

text \<open>Addresses of the super block, the inodes and the bitmap.\<close>

definition meta_addr :: "superblock \<Rightarrow> u32 \<Rightarrow> bool" where
  "meta_addr sb a \<longleftrightarrow> unat a < data_start sb"

lemma finite_free [simp]: "finite (free_blocks D d sb)"
  by (simp add: free_blocks_def)

lemma vol_okD:
  assumes "vol_ok D d sb"
  shows "get_superblock (D (d, 1)) = sb" "data_start sb \<le> unat (sb_size sb)" "unat (sb_size sb) \<le> 268435456"
    "length (D a) = BSIZE" "b < data_start sb \<Longrightarrow> in_use D d (sb_ninodes sb) b"
    "b \<in> free_blocks D d sb \<Longrightarrow> data_start sb \<le> b \<and> D (d, of_nat b) = replicate BSIZE 0"
proof -
  show "get_superblock (D (d, 1)) = sb" "data_start sb \<le> unat (sb_size sb)" "unat (sb_size sb) \<le> 268435456"
    "length (D a) = BSIZE" "b < data_start sb \<Longrightarrow> in_use D d (sb_ninodes sb) b"
    using assms unfolding vol_ok_def by (blast, blast, simp, blast, blast)
  then show "b \<in> free_blocks D d sb \<Longrightarrow> data_start sb \<le> b \<and> D (d, of_nat b) = replicate BSIZE 0"
    using assms unfolding vol_ok_def free_blocks_def by (metis (lifting) linorder_not_le mem_Collect_eq)
qed

lemma bitmap_block:
  assumes "vol_ok D d sb" "k < unat (sb_size sb)"
  shows "unat (BBLOCK (of_nat k) (sb_ninodes sb)) = k div BPB + unat (sb_ninodes sb) div 8 + 3"
    and "3 \<le> unat (BBLOCK (of_nat k) (sb_ninodes sb))" "meta_addr sb (BBLOCK (of_nat k) (sb_ninodes sb))"
proof -
  define ni where "ni = sb_ninodes sb"
  have sz: "unat (sb_size sb) \<le> 268435456" "data_start sb \<le> unat (sb_size sb)" using vol_okD(2, 3) [OF assms(1)] by simp_all
  have k: "k < 2 ^ 32" using assms(2) sz(1) by simp
  have div: "k div BPB \<le> (unat (sb_size sb) - 1) div BPB" using assms(2) by (intro div_le_mono) simp
  have total: "k div BPB + unat ni div 8 + 3 < data_start sb" using div by (simp add: data_start_def ni_def)
  have small: "k div BPB + unat ni div 8 + 3 < 2 ^ 32" using total sz by simp
  have "BBLOCK (of_nat k) ni = of_nat (k div BPB) + ni div 8 + 3" by (rule BBLOCK_nat [OF k])
  also have "ni div 8 = of_nat (unat ni div 8)" by (simp add: word_unat_eq_iff unat_div unsigned_of_nat take_bit_eq_mod)
      (metis div_le_dividend le_less_trans mod_less u32_bound)
  finally have "BBLOCK (of_nat k) ni = of_nat (k div BPB + unat ni div 8 + 3)" by simp
  then show u: "unat (BBLOCK (of_nat k) (sb_ninodes sb)) = k div BPB + unat (sb_ninodes sb) div 8 + 3"
    using small by (simp only: ni_def [symmetric]) (simp add: unsigned_of_nat take_bit_eq_mod del: of_nat_add)
  show "3 \<le> unat (BBLOCK (of_nat k) (sb_ninodes sb))" using u by simp
  show "meta_addr sb (BBLOCK (of_nat k) (sb_ninodes sb))" using u total by (simp add: meta_addr_def ni_def)
qed

text \<open>Writing a data block in use leaves the volume consistent and the bitmap alone.\<close>

lemma in_use_upd:
  assumes "vol_ok D d sb" "\<not> meta_addr sb a" "k < unat (sb_size sb)"
  shows "in_use (D((d, a) := xs)) d (sb_ninodes sb) k = in_use D d (sb_ninodes sb) k"
proof -
  have "BBLOCK (of_nat k) (sb_ninodes sb) \<noteq> a" using bitmap_block(3) [OF assms(1, 3)] assms(2) by auto
  then show ?thesis by (auto simp: in_use_def)
qed

lemma vol_ok_write:
  assumes "vol_ok D d sb" "data_addr D d sb a" "length xs = BSIZE"
  shows "vol_ok (D((d, a) := xs)) d sb" "free_blocks (D((d, a) := xs)) d sb = free_blocks D d sb"
    "data_addr (D((d, a) := xs)) d sb b = data_addr D d sb b"
proof -
  have na: "\<not> meta_addr sb a" using assms(2) by (simp add: data_addr_def meta_addr_def)
  note I = in_use_upd [OF assms(1) na]
  note V = vol_okD [OF assms(1)]
  show fr: "free_blocks (D((d, a) := xs)) d sb = free_blocks D d sb" using I by (auto simp: free_blocks_def)
  show "data_addr (D((d, a) := xs)) d sb b = data_addr D d sb b" using I by (auto simp: data_addr_def)
  have one: "a \<noteq> 1" using na by (auto simp: meta_addr_def data_start_def)
  show "vol_ok (D((d, a) := xs)) d sb"
    unfolding vol_ok_def
  proof (intro conjI allI impI)
    show "get_superblock ((D((d, a) := xs)) (d, 1)) = sb" using V(1) one by simp
    show "data_start sb \<le> unat (sb_size sb)" by (rule V(2))
    show "unat (sb_size sb) \<le> 2 ^ 28" using V(3) by simp
    show "length ((D((d, a) := xs)) x) = BSIZE" for x using V(4) assms(3) by simp
    show "in_use (D((d, a) := xs)) d (sb_ninodes sb) b" if "b < data_start sb" for b
      using V(2, 5) that I by simp
    show "(D((d, a) := xs)) (d, of_nat b) = replicate BSIZE 0"
      if b: "data_start sb \<le> b" "b < unat (sb_size sb)" "\<not> in_use (D((d, a) := xs)) d (sb_ninodes sb) b" for b
    proof -
      have "b \<in> free_blocks D d sb" using b I by (simp add: free_blocks_def)
      moreover have "of_nat b \<noteq> a"
      proof
        assume "of_nat b = a"
        then have "unat a = b" using b(2) V(3) by (auto simp: unsigned_of_nat take_bit_eq_mod)
        then show False using assms(2) b(2, 3) I by (simp add: data_addr_def)
      qed
      ultimately show ?thesis using V(6) by simp
    qed
  qed
qed

lemma free_addr:
  assumes "vol_ok D d sb" "a \<in> free_blocks D d sb"
  shows "unat (of_nat a :: u32) = a" "a < 2 ^ 28" "of_nat a \<noteq> (0 :: u32)" "\<not> meta_addr sb (of_nat a)"
    "\<not> data_addr D d sb (of_nat a)"
proof -
  have a: "data_start sb \<le> a" "a < unat (sb_size sb)" using vol_okD(6) [OF assms] assms(2) by (auto simp: free_blocks_def)
  then show u: "unat (of_nat a :: u32) = a" using vol_okD(3) [OF assms(1)] by (simp add: unsigned_of_nat take_bit_eq_mod)
  show "a < 2 ^ 28" using a vol_okD(3) [OF assms(1)] by simp
  have "a \<noteq> 0" using a by (simp add: data_start_def)
  then show "of_nat a \<noteq> (0 :: u32)" using u by (metis unsigned_0)
  show "\<not> meta_addr sb (of_nat a)" using a u by (simp add: meta_addr_def)
  show "\<not> data_addr D d sb (of_nat a)" using assms(2) u by (simp add: data_addr_def free_blocks_def)
qed

lemma mark_used_vol:
  assumes "vol_ok D d sb" "a \<in> free_blocks D d sb"
  defines "E \<equiv> mark_used d (sb_ninodes sb) a D"
  shows "vol_ok E d sb" "free_blocks E d sb = free_blocks D d sb - {a}"
    "\<not> meta_addr sb b \<Longrightarrow> E (e, b) = D (e, b)"
    "data_addr E d sb b \<longleftrightarrow> data_addr D d sb b \<or> b = of_nat a"
proof -
  note V = vol_okD [OF assms(1)]
  note A = free_addr [OF assms(1, 2)]
  have a: "a < unat (sb_size sb)" using assms(2) by (simp add: free_blocks_def)
  note B = bitmap_block [OF assms(1) a]
  have U: "in_use E d (sb_ninodes sb) k \<longleftrightarrow> k = a \<or> in_use D d (sb_ninodes sb) k" if "k < unat (sb_size sb)" for k
    unfolding E_def by (rule in_use_mark_used) (use that a V(3, 4) in simp_all)
  show dat: "E (e, b) = D (e, b)" if "\<not> meta_addr sb b" for e b
    using B(3) that by (auto simp: E_def mark_used_def)
  show fr: "free_blocks E d sb = free_blocks D d sb - {a}" using U by (auto simp: free_blocks_def)
  have "unat b = a \<longleftrightarrow> b = of_nat a" using A(1) by auto
  then show "data_addr E d sb b \<longleftrightarrow> data_addr D d sb b \<or> b = of_nat a"
    using U [of "unat b"] a A(1) vol_okD(6) [OF assms(1, 2)] by (auto simp: data_addr_def)
  show "vol_ok E d sb"
    unfolding vol_ok_def
  proof (intro conjI allI impI)
    have "BBLOCK (of_nat a) (sb_ninodes sb) \<noteq> 1" using B(2) by auto
    then show "get_superblock (E (d, 1)) = sb" using V(1) by (simp add: E_def mark_used_def)
    show "data_start sb \<le> unat (sb_size sb)" by (rule V(2))
    show "unat (sb_size sb) \<le> 2 ^ 28" using V(3) by simp
    show "length (E x) = BSIZE" for x using V(4) by (simp add: E_def mark_used_def)
    show "in_use E d (sb_ninodes sb) b" if "b < data_start sb" for b using V(2, 5) that U by simp
    show "E (d, of_nat b) = replicate BSIZE 0"
      if b: "data_start sb \<le> b" "b < unat (sb_size sb)" "\<not> in_use E d (sb_ninodes sb) b" for b
    proof -
      have "b \<in> free_blocks D d sb" using b U by (simp add: free_blocks_def)
      then show ?thesis using V(6) dat free_addr(4) [OF assms(1)] by simp
    qed
  qed
qed

section \<open>Files\<close>

text \<open>The disk address of block \<open>bn\<close> of a file with the addresses \<open>as\<close>, zero when it has none.\<close>

definition faddr :: "image \<Rightarrow> u32 \<Rightarrow> u32 list \<Rightarrow> nat \<Rightarrow> u32" where
  "faddr D d as bn = (if bn < NDIRECT then as ! bn else if as ! NDIRECT = 0 then 0
     else get_entry (bn - NDIRECT) (D (d, as ! NDIRECT)))"

definition fbyte :: "image \<Rightarrow> u32 \<Rightarrow> u32 list \<Rightarrow> nat \<Rightarrow> u8" where
  "fbyte D d as k = (let a = faddr D d as (k div BSIZE) in if a = 0 then 0 else D (d, a) ! (k mod BSIZE))"

definition file_ok :: "image \<Rightarrow> u32 \<Rightarrow> superblock \<Rightarrow> u32 list \<Rightarrow> bool" where
  "file_ok D d sb as \<longleftrightarrow> length as = NDIRECT + 1 \<and> (as ! NDIRECT \<noteq> 0 \<longrightarrow> data_addr D d sb (as ! NDIRECT)) \<and>
     (\<forall>bn<MAXFILE. faddr D d as bn \<noteq> 0 \<longrightarrow> data_addr D d sb (faddr D d as bn) \<and> faddr D d as bn \<noteq> as ! NDIRECT) \<and>
     (\<forall>bn<MAXFILE. \<forall>bm<MAXFILE. faddr D d as bn = faddr D d as bm \<longrightarrow> faddr D d as bn \<noteq> 0 \<longrightarrow> bn = bm)"

text \<open>The blocks of a file, its indirect block among them.\<close>

definition owns :: "image \<Rightarrow> u32 \<Rightarrow> u32 list \<Rightarrow> u32 \<Rightarrow> bool" where
  "owns D d as a \<longleftrightarrow> a \<noteq> 0 \<and> (a = as ! NDIRECT \<or> (\<exists>bn<MAXFILE. faddr D d as bn = a))"

lemma file_okD:
  assumes "file_ok D d sb as"
  shows "length as = 13" "as ! 12 \<noteq> 0 \<Longrightarrow> data_addr D d sb (as ! 12)"
    "bn < MAXFILE \<Longrightarrow> faddr D d as bn \<noteq> 0 \<Longrightarrow> data_addr D d sb (faddr D d as bn) \<and> faddr D d as bn \<noteq> as ! 12"
    "bn < MAXFILE \<Longrightarrow> bm < MAXFILE \<Longrightarrow> faddr D d as bn = faddr D d as bm \<Longrightarrow> faddr D d as bn \<noteq> 0 \<Longrightarrow> bn = bm"
  using assms unfolding file_ok_def by (simp, simp, simp, simp)

text \<open>
  How an operation may change a file: its blocks stay where they are, the other blocks in use
  keep their contents and stay outside of the file, and the volume stays consistent.
\<close>

definition file_step :: "image \<Rightarrow> u32 \<Rightarrow> superblock \<Rightarrow> u32 list \<Rightarrow> image \<Rightarrow> u32 list \<Rightarrow> bool" where
  "file_step D d sb as E bs \<longleftrightarrow> vol_ok E d sb \<and> file_ok E d sb bs \<and>
     (\<forall>bn<MAXFILE. faddr D d as bn \<noteq> 0 \<longrightarrow> faddr E d bs bn = faddr D d as bn) \<and>
     (\<forall>a. data_addr D d sb a \<longrightarrow> \<not> owns D d as a \<longrightarrow> data_addr E d sb a \<and> \<not> owns E d bs a \<and> E (d, a) = D (d, a))"

lemma file_step_trans: "file_step D d sb as E bs \<Longrightarrow> file_step E d sb bs F cs \<Longrightarrow> file_step D d sb as F cs"
  unfolding file_step_def by metis

lemma file_step_refl: "vol_ok D d sb \<Longrightarrow> file_ok D d sb as \<Longrightarrow> file_step D d sb as D as"
  by (simp add: file_step_def)

lemma faddr_cong:
  "as ! NDIRECT \<noteq> 0 \<Longrightarrow> E (d, as ! NDIRECT) = D (d, as ! NDIRECT) \<Longrightarrow> faddr E d as bn = faddr D d as bn"
  "as ! NDIRECT = 0 \<Longrightarrow> faddr E d as bn = faddr D d as bn"
  by (simp_all add: faddr_def)

lemma data_not_meta: "data_addr D d sb a \<Longrightarrow> \<not> meta_addr sb a \<and> a \<noteq> 0"
  by (auto simp: data_addr_def meta_addr_def data_start_def)

text \<open>A file grows by a free block at a block number that had none.\<close>

lemma file_grow:
  assumes V: "vol_ok D d sb" and F: "file_ok D d sb as" and E: "vol_ok E d sb" and a: "a \<in> free_blocks D d sb"
    and bn: "bn < MAXFILE" "faddr D d as bn = 0" and len: "length bs = 13" "bs ! 12 = as ! 12"
    and da: "\<And>b. data_addr E d sb b \<longleftrightarrow> data_addr D d sb b \<or> b = of_nat a"
    and fa: "\<And>bm. bm < MAXFILE \<Longrightarrow> faddr E d bs bm = (if bm = bn then of_nat a else faddr D d as bm)"
    and same: "\<And>b. \<not> meta_addr sb b \<Longrightarrow> b \<noteq> as ! 12 \<Longrightarrow> E (d, b) = D (d, b)"
  shows "file_step D d sb as E bs" "k div BSIZE < MAXFILE \<Longrightarrow> fbyte E d bs k = fbyte D d as k"
proof -
  note A = free_addr [OF V a]
  note G = file_okD [OF F]
  have z: "D (d, of_nat a) = replicate BSIZE 0" using vol_okD(6) [OF V a] by simp
  have neq: "faddr D d as bm \<noteq> of_nat a" if "bm < MAXFILE" for bm
  proof (cases "faddr D d as bm = 0")
    case False
    then show ?thesis using G(3) [of bm] that A(5) by (metis)
  qed (use A(3) in metis)
  have neq2: "as ! 12 \<noteq> of_nat a" using G(2) A(3, 5) by metis
  have "file_ok E d sb bs"
    unfolding file_ok_def len(2)
  proof (intro conjI allI impI)
    show "length bs = NDIRECT + 1" using len(1) by simp
    show "data_addr E d sb (as ! NDIRECT)" if "as ! NDIRECT \<noteq> 0" using G(2) that by (simp add: da)
    fix bm
    assume bm: "bm < MAXFILE"
    show "data_addr E d sb (faddr E d bs bm)" if "faddr E d bs bm \<noteq> 0"
      using that G(3) [of bm] bm unfolding fa [OF bm] by (auto simp: da)
    show "faddr E d bs bm \<noteq> as ! NDIRECT" if "faddr E d bs bm \<noteq> 0"
      using that G(3) [of bm] bm neq2 unfolding fa [OF bm] by auto
    fix bo
    assume bo: "bo < MAXFILE" and eq: "faddr E d bs bm = faddr E d bs bo" "faddr E d bs bm \<noteq> 0"
    show "bm = bo"
      using eq neq [OF bm] neq [OF bo] G(4) [of bm bo] bm bo unfolding fa [OF bm] fa [OF bo] by (auto split: if_splits)
  qed
  moreover have "owns E d bs b \<longrightarrow> owns D d as b \<or> b = of_nat a" for b
    using fa len(2) unfolding owns_def by auto
  moreover have "data_addr D d sb b \<longrightarrow> b \<noteq> of_nat a" for b using A(5) by auto
  moreover have "E (d, b) = D (d, b)" if "data_addr D d sb b" "\<not> owns D d as b" for b
    using same [of b] data_not_meta [OF that(1)] that(2) by (auto simp: owns_def)
  moreover have "faddr E d bs bm = faddr D d as bm" if "bm < MAXFILE" "faddr D d as bm \<noteq> 0" for bm
    using fa [OF that(1)] bn(2) that(2) by auto
  ultimately show "file_step D d sb as E bs" using E da unfolding file_step_def by blast
  show "fbyte E d bs k = fbyte D d as k" if k: "k div BSIZE < MAXFILE"
  proof (cases "k div BSIZE = bn")
    case True
    have "E (d, of_nat a) = replicate BSIZE 0" using same [of "of_nat a"] A(4) neq2 z by metis
    then show ?thesis using fa [OF k] A(3) bn(2) unfolding fbyte_def True by simp
  next
    case False
    have "E (d, faddr D d as (k div BSIZE)) = D (d, faddr D d as (k div BSIZE))" if "faddr D d as (k div BSIZE) \<noteq> 0"
      using same G(3) [OF k that] data_not_meta by metis
    then show ?thesis using fa [OF k] False by (simp add: fbyte_def Let_def)
  qed
qed

text \<open>A direct block.\<close>

lemma grow_direct:
  assumes V: "vol_ok D d sb" and F: "file_ok D d sb as" and a: "a \<in> free_blocks D d sb"
    and bn: "bn < NDIRECT" "as ! bn = 0"
  defines "E \<equiv> mark_used d (sb_ninodes sb) a D"
  shows "file_step D d sb as E (as[bn := of_nat a])" "faddr E d (as[bn := of_nat a]) bn = of_nat a"
    "k div BSIZE < MAXFILE \<Longrightarrow> fbyte E d (as[bn := of_nat a]) k = fbyte D d as k"
proof -
  note M = mark_used_vol [OF V a, folded E_def]
  note G = file_okD [OF F]
  show "faddr E d (as[bn := of_nat a]) bn = of_nat a" using bn(1) G(1) by (simp add: faddr_def)
  have E12: "E (d, as ! 12) = D (d, as ! 12)" if "as ! 12 \<noteq> 0"
    using M(3) data_not_meta [OF G(2) [OF that]] by simp
  have fa: "faddr E d (as[bn := of_nat a]) bm = (if bm = bn then of_nat a else faddr D d as bm)" for bm
    using bn(1) G(1) E12 by (simp add: faddr_def)
  have "faddr D d as bn = 0" "bn < MAXFILE" using bn by (simp_all add: faddr_def)
  note fg = file_grow [where as = as and bn = bn and bs = "as[bn := of_nat a]", OF V F M(1) a this(2) this(1) _ _ M(4) fa]
  show "file_step D d sb as E (as[bn := of_nat a])" by (rule fg(1)) (use G(1) bn(1) M(3) in auto)
  show "fbyte E d (as[bn := of_nat a]) k = fbyte D d as k" if "k div BSIZE < MAXFILE"
    by (rule fg(2)) (use G(1) bn(1) M(3) that in auto)
qed

text \<open>An entry of the indirect block.\<close>

lemma get_put_entry:
  assumes "length xs = BSIZE" "k < NINDIRECT" "j < NINDIRECT"
  shows "get_entry j (put_entry k a xs) = (if j = k then a else get_entry j xs)"
proof (cases "j = k")
  case True
  then show ?thesis using assms by (simp add: get_entry_def put_entry_def)
next
  case False
  then have "4 * j + 4 \<le> 4 * k \<or> 4 * k + 4 \<le> 4 * j" by linarith
  then show ?thesis using assms False by (simp add: get_entry_def put_entry_def load_splice_other(2))
qed

lemma length_put_entry: "length xs = BSIZE \<Longrightarrow> k < NINDIRECT \<Longrightarrow> length (put_entry k a xs) = BSIZE"
  by (simp add: put_entry_def length_splice)

lemma get_entry_zero: "k < NINDIRECT \<Longrightarrow> get_entry k (replicate BSIZE 0) = 0"
  by (simp add: get_entry_def load32_def)

lemma grow_entry:
  assumes V: "vol_ok D d sb" and F: "file_ok D d sb as" and a: "a \<in> free_blocks D d sb"
    and ind: "as ! NDIRECT \<noteq> 0" and bn: "NDIRECT \<le> bn" "bn < MAXFILE" "faddr D d as bn = 0"
  defines "E \<equiv> (mark_used d (sb_ninodes sb) a D)
      ((d, as ! NDIRECT) := put_entry (bn - NDIRECT) (of_nat a) (D (d, as ! NDIRECT)))"
  shows "file_step D d sb as E as" "faddr E d as bn = of_nat a" "free_blocks E d sb = free_blocks D d sb - {a}"
    "k div BSIZE < MAXFILE \<Longrightarrow> fbyte E d as k = fbyte D d as k"
proof -
  define D1 where "D1 = mark_used d (sb_ninodes sb) a D"
  note M = mark_used_vol [OF V a, folded D1_def]
  note G = file_okD [OF F]
  define xs where "xs = put_entry (bn - NDIRECT) (of_nat a) (D (d, as ! NDIRECT))"
  have lx: "length xs = BSIZE" unfolding xs_def using vol_okD(4) [OF V] bn by (intro length_put_entry) auto
  have "data_addr D1 d sb (as ! 12)" using G(2) ind by (simp add: M(4))
  note W = vol_ok_write [OF M(1) this lx]
  have E: "E = D1((d, as ! 12) := xs)" by (simp add: E_def D1_def xs_def)
  have fa: "faddr E d as bm = (if bm = bn then of_nat a else faddr D d as bm)" if "bm < MAXFILE" for bm
    using that ind bn vol_okD(4) [OF V] by (auto simp: faddr_def E xs_def get_put_entry)
  show "faddr E d as bn = of_nat a" using fa bn(2) by simp
  show "free_blocks E d sb = free_blocks D d sb - {a}" using W(2) M(2) by (simp add: E)
  have same: "E (d, b) = D (d, b)" if "\<not> meta_addr sb b" "b \<noteq> as ! 12" for b using that M(3) by (simp add: E)
  note fg = file_grow [where as = as and bn = bn and bs = as and E = E, OF V F _ a bn(2, 3) G(1) refl _ fa same]
  have vE: "vol_ok E d sb" using W(1) by (simp add: E)
  have dE: "data_addr E d sb b \<longleftrightarrow> data_addr D d sb b \<or> b = of_nat a" for b using W(3) M(4) by (simp add: E)
  show "file_step D d sb as E as" by (rule fg(1) [OF vE dE])
  show "fbyte E d as k = fbyte D d as k" if "k div BSIZE < MAXFILE" by (rule fg(2) [OF vE dE _ _ _ that])
qed

text \<open>The indirect block itself.\<close>

lemma grow_indirect:
  assumes V: "vol_ok D d sb" and F: "file_ok D d sb as" and a: "a \<in> free_blocks D d sb" and ind: "as ! NDIRECT = 0"
  defines "E \<equiv> mark_used d (sb_ninodes sb) a D" and "bs \<equiv> as[NDIRECT := of_nat a]"
  shows "file_step D d sb as E bs" "bm < MAXFILE \<Longrightarrow> faddr E d bs bm = faddr D d as bm"
    "k div BSIZE < MAXFILE \<Longrightarrow> fbyte E d bs k = fbyte D d as k"
proof -
  note M = mark_used_vol [OF V a, folded E_def]
  note G = file_okD [OF F]
  note A = free_addr [OF V a]
  have z: "E (d, of_nat a) = replicate BSIZE 0" using vol_okD(6) [OF V a] M(3) A(4) by simp
  have b12: "bs ! 12 = of_nat a" using G(1) by (simp add: bs_def)
  show fa: "faddr E d bs bm = faddr D d as bm" if "bm < MAXFILE" for bm
    using that ind b12 A(3) z by (auto simp: faddr_def bs_def get_entry_zero)
  have ne: "faddr D d as bm \<noteq> of_nat a" if "bm < MAXFILE" for bm
    using G(3) [of bm] that A(3, 5) by metis
  have "file_ok E d sb bs"
    unfolding file_ok_def
  proof (intro conjI allI impI)
    show "length bs = NDIRECT + 1" using G(1) by (simp add: bs_def)
    show "data_addr E d sb (bs ! NDIRECT)" using M(4) b12 by simp
    fix bm
    assume bm: "bm < MAXFILE"
    show "data_addr E d sb (faddr E d bs bm)" if "faddr E d bs bm \<noteq> 0" using that G(3) [of bm] bm M(4) by (simp add: fa)
    show "faddr E d bs bm \<noteq> bs ! NDIRECT" if "faddr E d bs bm \<noteq> 0" using ne [OF bm] fa [OF bm] b12 by simp
    show "bm = bo" if "bo < MAXFILE" "faddr E d bs bm = faddr E d bs bo" "faddr E d bs bm \<noteq> 0" for bo
      using that G(4) [of bm bo] bm by (simp add: fa)
  qed
  moreover have "owns E d bs b \<longrightarrow> owns D d as b \<or> b = of_nat a" for b
    using fa b12 unfolding owns_def by auto
  moreover have "data_addr D d sb b \<longrightarrow> b \<noteq> of_nat a \<and> E (d, b) = D (d, b)" for b
    using A(5) M(3) data_not_meta by metis
  ultimately show "file_step D d sb as E bs" using M(1, 4) fa unfolding file_step_def by blast
  show "fbyte E d bs k = fbyte D d as k" if k: "k div BSIZE < MAXFILE"
  proof -
    have "E (d, faddr D d as (k div BSIZE)) = D (d, faddr D d as (k div BSIZE))" if "faddr D d as (k div BSIZE) \<noteq> 0"
      using M(3) G(3) [OF k that] data_not_meta by metis
    then show ?thesis using fa [OF k] by (simp add: fbyte_def Let_def)
  qed
qed

text \<open>Writing into a data block of the file.\<close>

lemma write_block:
  assumes V: "vol_ok D d sb" and F: "file_ok D d sb as" and bn: "bn < MAXFILE" "faddr D d as bn \<noteq> 0"
    and xs: "length xs = BSIZE"
  defines "E \<equiv> D((d, faddr D d as bn) := xs)"
  shows "file_step D d sb as E as" "free_blocks E d sb = free_blocks D d sb"
    "k div BSIZE < MAXFILE \<Longrightarrow> fbyte E d as k = (if k div BSIZE = bn then xs ! (k mod BSIZE) else fbyte D d as k)"
proof -
  note G = file_okD [OF F]
  have a: "data_addr D d sb (faddr D d as bn)" "faddr D d as bn \<noteq> as ! 12" using G(3) [of bn] bn by auto
  note W = vol_ok_write [OF V a(1) xs, folded E_def]
  have fa: "faddr E d as bm = faddr D d as bm" for bm using a(2) by (simp add: faddr_def E_def)
  have own: "owns D d as (faddr D d as bn)" using bn by (auto simp: owns_def)
  have "file_ok E d sb as" using F unfolding file_ok_def fa W(3) .
  moreover have "owns E d as b = owns D d as b" for b by (simp add: owns_def fa)
  moreover have "E (d, b) = D (d, b)" if "\<not> owns D d as b" for b using own that by (auto simp: E_def)
  ultimately show "file_step D d sb as E as" using W(1, 3) fa unfolding file_step_def by blast
  show "free_blocks E d sb = free_blocks D d sb" by (rule W(2))
  show "fbyte E d as k = (if k div BSIZE = bn then xs ! (k mod BSIZE) else fbyte D d as k)" if "k div BSIZE < MAXFILE"
  proof -
    have "E (d, b) = (if b = faddr D d as bn then xs else D (d, b))" for b by (simp add: E_def)
    then show ?thesis using G(4) [OF that bn(1)] bn(2) by (auto simp: fbyte_def fa Let_def)
  qed
qed

end
