(* ===== verification/Fs_File.thy ===== *)
theory Fs_File
  imports Fs_Volume
begin

unbundle bit_operations_syntax

text \<open>
  Reading and writing regular files on a consistent volume: \<open>bmap\<close> maps or grows a file
  without changing its bytes, \<open>writei\<close> replaces a stretch of its bytes and nothing else,
  \<open>readi\<close> returns them.
\<close>

section \<open>The volume below the inode layer\<close>

definition vol_ready :: "bio \<Rightarrow> nat set \<Rightarrow> u32 \<Rightarrow> superblock \<Rightarrow> bool" where
  "vol_ready s H d sb \<longleftrightarrow> bcache_ok s H \<and> card H < NBUF \<and> (\<forall>n<0x10000000. has_block s (d, n)) \<and>
     vol_ok (disk s) d sb \<and> (\<forall>c\<in>H. \<not> meta_addr sb (snd (fst (held_buf s c))))"

lemma vol_readyD:
  assumes "vol_ready s H d sb"
  shows "bcache_ok s H" "card H < NBUF" "n < 0x10000000 \<Longrightarrow> has_block s (d, n)" "vol_ok (disk s) d sb"
    "c \<in> H \<Longrightarrow> \<not> meta_addr sb (snd (fst (held_buf s c)))"
  using assms unfolding vol_ready_def by (simp, simp, simp, simp, simp)

lemma vol_addr:
  assumes "vol_ok D d sb" "unat a < unat (sb_size sb)"
  shows "(a :: u32) < 0x10000000"
  using assms(2) vol_okD(3) [OF assms(1)] by (simp add: word_less_nat_alt)

lemma vol_may_read_meta:
  assumes "vol_ready s H d sb" "meta_addr sb a"
  shows "may_read s H (d, a)"
proof -
  have "unat a < unat (sb_size sb)"
    using assms(2) vol_okD(2) [OF vol_readyD(4) [OF assms(1)]] by (simp add: meta_addr_def)
  then have "has_block s (d, a)" using vol_addr [OF vol_readyD(4) [OF assms(1)]] vol_readyD(3) [OF assms(1)] by blast
  moreover have "fst (held_buf s c) \<noteq> (d, a)" if "c \<in> H" for c using vol_readyD(5) [OF assms(1) that] assms(2) by auto
  ultimately show ?thesis by (simp add: may_read_def)
qed

lemma vol_fs_ready:
  assumes "vol_ready s H d sb"
  shows "fs_ready s H d sb"
proof -
  note V = vol_readyD(4) [OF assms]
  have "meta_addr sb 1" by (simp add: meta_addr_def data_start_def)
  then show ?thesis unfolding fs_ready_def
    using vol_readyD(1, 2) [OF assms] vol_okD(1) [OF V] vol_may_read_meta [OF assms] bitmap_block(3) [OF V] by blast
qed

lemma vol_ready_step:
  assumes "vol_ready s H d sb" "io_step s s' H D" "vol_ok D d sb"
  shows "vol_ready s' H d sb"
  using assms unfolding vol_ready_def io_step_def by simp

lemma balloc_vol:
  assumes R: "vol_ready s H d sb" and room: "free_blocks (disk s) d sb \<noteq> {}"
  obtains a s' where "balloc d s = Inr (of_nat a, s')" "a \<in> free_blocks (disk s) d sb"
    "io_step s s' H (mark_used d (sb_ninodes sb) a (disk s))" "vol_ready s' H d sb"
proof -
  note V = vol_readyD(4) [OF R]
  define a where "a = Min (free_blocks (disk s) d sb)"
  have a: "a \<in> free_blocks (disk s) d sb" using room by (simp add: a_def)
  have sz: "a < unat (sb_size sb)" using a by (simp add: free_blocks_def)
  have "in_use (disk s) d (sb_ninodes sb) k" if "k < a" for k
  proof (rule ccontr)
    assume "\<not> ?thesis"
    then have "k \<in> free_blocks (disk s) d sb" using that sz by (simp add: free_blocks_def)
    then have "a \<le> k" by (simp add: a_def)
    then show False using that by simp
  qed
  moreover have "BPB * (a div BPB) < unat (sb_size sb)" using sz by (metis div_times_less_eq_dividend le_less_trans mult.commute)
  moreover have "\<not> in_use (disk s) d (sb_ninodes sb) a" using a by (simp add: free_blocks_def)
  ultimately obtain s' where s': "balloc d s = Inr (of_nat a, s')" "io_step s s' H (mark_used d (sb_ninodes sb) a (disk s))"
    using balloc_ok [OF vol_fs_ready [OF R]] by metis
  from that [OF s'(1) a s'(2)] vol_ready_step [OF R s'(2) mark_used_vol(1) [OF V a]] show ?thesis by simp
qed

section \<open>Steps of a file\<close>

definition file_ready :: "u32 \<Rightarrow> superblock \<Rightarrow> nat \<Rightarrow> fs \<Rightarrow> bool" where
  "file_ready d sb i s \<longleftrightarrow> vol_ready (io s) {} d sb \<and> i < length (icache s) \<and> i_dev (icache s ! i) = d \<and>
     file_ok (disk (io s)) d sb (i_addrs (icache s ! i))"

definition rw_step :: "u32 \<Rightarrow> superblock \<Rightarrow> nat \<Rightarrow> fs \<Rightarrow> fs \<Rightarrow> bool" where
  "rw_step d sb i s s' \<longleftrightarrow> vol_ready (io s') {} d sb \<and> wakes s' = wakes s \<and>
     file_step (disk (io s)) d sb (i_addrs (icache s ! i)) (disk (io s')) (i_addrs (icache s' ! i)) \<and>
     (\<exists>as. icache s' = (icache s)[i := (icache s ! i)\<lparr>i_addrs := as\<rparr>])"

definition byte_at :: "nat \<Rightarrow> fs \<Rightarrow> nat \<Rightarrow> u8" where
  "byte_at i s k = fbyte (disk (io s)) (i_dev (icache s ! i)) (i_addrs (icache s ! i)) k"

definition room :: "u32 \<Rightarrow> superblock \<Rightarrow> fs \<Rightarrow> nat" where
  "room d sb s = card (free_blocks (disk (io s)) d sb)"

lemma file_readyD:
  assumes "file_ready d sb i s"
  shows "vol_ready (io s) {} d sb" "i < length (icache s)" "i_dev (icache s ! i) = d"
    "file_ok (disk (io s)) d sb (i_addrs (icache s ! i))" "vol_ok (disk (io s)) d sb"
  using assms by (auto simp: file_ready_def vol_ready_def)

lemma rw_step_inode:
  assumes "rw_step d sb i s s'" "i < length (icache s)"
  shows "length (icache s') = length (icache s)" "icache s' ! i = (icache s ! i)\<lparr>i_addrs := i_addrs (icache s' ! i)\<rparr>"
    "j \<noteq> i \<Longrightarrow> icache s' ! j = icache s ! j"
  using assms by (auto simp: rw_step_def)

lemma rw_step_fields:
  assumes "rw_step d sb i s s'" "i < length (icache s)"
  shows "i_dev (icache s' ! i) = i_dev (icache s ! i)" "i_inum (icache s' ! i) = i_inum (icache s ! i)"
    "i_type (icache s' ! i) = i_type (icache s ! i)" "i_size (icache s' ! i) = i_size (icache s ! i)"
  using assms by (auto simp: rw_step_def)

lemma rw_step_ready:
  assumes "file_ready d sb i s" "rw_step d sb i s s'"
  shows "file_ready d sb i s'"
  using assms rw_step_inode(1) [OF assms(2)] rw_step_fields(1) [OF assms(2)]
  unfolding file_ready_def by (simp add: rw_step_def file_step_def)

lemma rw_step_trans:
  assumes "rw_step d sb i s t" "rw_step d sb i t u"
  shows "rw_step d sb i s u"
proof (cases "i < length (icache s)")
  case True
  obtain as bs where i: "icache t = (icache s)[i := (icache s ! i)\<lparr>i_addrs := as\<rparr>]" "icache u = (icache t)[i := (icache t ! i)\<lparr>i_addrs := bs\<rparr>]"
    using assms unfolding rw_step_def by blast
  have "icache u = (icache s)[i := (icache s ! i)\<lparr>i_addrs := bs\<rparr>]" using i True by simp
  moreover have "file_step (disk (io s)) d sb (i_addrs (icache s ! i)) (disk (io u)) (i_addrs (icache u ! i))"
    using assms file_step_trans unfolding rw_step_def by blast
  ultimately show ?thesis using assms unfolding rw_step_def by auto
next
  case False
  then have "icache t = icache s" "icache u = icache t" using assms by (auto simp: rw_step_def list_update_beyond)
  then show ?thesis using assms file_step_trans unfolding rw_step_def by (metis False leI list_update_beyond)
qed

lemma rw_stepI:
  assumes "i < length (icache s)" "vol_ready t {} d sb"
    and "file_step (disk (io s)) d sb (i_addrs (icache s ! i)) (disk t) as"
  shows "rw_step d sb i s (upd_inode i (\<lambda>ip. ip\<lparr>i_addrs := as\<rparr>) (s\<lparr>io := t\<rparr>))"
  using assms by (auto simp: rw_step_def upd_inode_def upd_def)

lemma rw_step_same:
  assumes "i < length (icache s)" "vol_ready t {} d sb"
    and "file_step (disk (io s)) d sb (i_addrs (icache s ! i)) (disk t) (i_addrs (icache s ! i))"
  shows "rw_step d sb i s (s\<lparr>io := t\<rparr>)"
proof -
  have "icache s = (icache s)[i := (icache s ! i)\<lparr>i_addrs := i_addrs (icache s ! i)\<rparr>]" by simp
  then have "\<exists>as. icache s = (icache s)[i := (icache s ! i)\<lparr>i_addrs := as\<rparr>]" by (rule exI)
  then show ?thesis using assms(2, 3) unfolding rw_step_def by simp
qed

lemma on_io_ok: "f (io s) = Inr (x, b) \<Longrightarrow> on_io f s = Inr (x, s\<lparr>io := b\<rparr>)"
  by (simp add: on_io_def)

lemma on_io'_ok: "f (io s) = Inr b \<Longrightarrow> on_io' f s = Inr (s\<lparr>io := b\<rparr>)"
  by (simp add: on_io'_def)

section \<open>Mapping blocks\<close>

definition mapped :: "u32 \<Rightarrow> nat \<Rightarrow> fs \<Rightarrow> nat \<Rightarrow> bool" where
  "mapped d i s bn \<longleftrightarrow> faddr (disk (io s)) d (i_addrs (icache s ! i)) bn \<noteq> 0"

definition maps :: "u32 \<Rightarrow> superblock \<Rightarrow> nat \<Rightarrow> nat \<Rightarrow> fs \<Rightarrow> u32 \<Rightarrow> fs \<Rightarrow> bool" where
  "maps d sb i bn s a s' \<longleftrightarrow> rw_step d sb i s s' \<and> a \<noteq> 0 \<and> faddr (disk (io s')) d (i_addrs (icache s' ! i)) bn = a \<and>
     (\<forall>k<MAXFILE * BSIZE. byte_at i s' k = byte_at i s k) \<and>
     (mapped d i s bn \<longrightarrow> disk (io s') = disk (io s) \<and> icache s' = icache s)"

lemma block_range: "k < MAXFILE * BSIZE \<Longrightarrow> k div BSIZE < MAXFILE"
  by (simp add: less_mult_imp_div_less)

lemma addr_update: "i < length (icache s) \<Longrightarrow>
    set_addr i k a (s\<lparr>io := t\<rparr>) = upd_inode i (\<lambda>ip. ip\<lparr>i_addrs := (i_addrs (icache s ! i))[k := a]\<rparr>) (s\<lparr>io := t\<rparr>)"
  by (simp add: set_addr_def upd_inode_def upd_def)

lemma upd_addrs_simps:
  assumes "i < length (icache s)"
  shows "i_addrs (icache (upd_inode i (\<lambda>ip. ip\<lparr>i_addrs := as\<rparr>) (s\<lparr>io := t\<rparr>)) ! i) = as"
    "i_dev (icache (upd_inode i (\<lambda>ip. ip\<lparr>i_addrs := as\<rparr>) (s\<lparr>io := t\<rparr>)) ! i) = i_dev (icache s ! i)"
    "io (upd_inode i f (s\<lparr>io := t\<rparr>)) = t"
  using assms by (simp_all add: upd_inode_def upd_def)

lemma bmap_direct:
  assumes R: "file_ready d sb i s" and bn: "bn < NDIRECT" and rm: "mapped d i s bn \<or> 1 \<le> room d sb s"
  obtains a s' where "bmap i (of_nat bn) s = Inr (a, s')" "maps d sb i bn s a s'" "room d sb s \<le> room d sb s' + 1"
proof -
  note G = file_readyD [OF R]
  define as where "as = i_addrs (icache s ! i)"
  have u: "unat (of_nat bn :: u32) = bn" "of_nat bn < (of_nat NDIRECT :: u32)"
    using bn by (simp_all add: word_less_nat_alt unsigned_of_nat take_bit_eq_mod)
  show ?thesis
  proof (cases "as ! bn = 0")
    case False
    have st: "rw_step d sb i s s"
      using rw_step_same [OF G(2, 1) file_step_refl [OF G(5, 4)]] by simp
    have "bmap i (of_nat bn) s = Inr (as ! bn, s)" using False u by (simp add: bmap_def as_def)
    then show ?thesis by (rule that) (use st False bn in \<open>simp_all add: maps_def faddr_def as_def\<close>)
  next
    case True
    then have nm: "\<not> mapped d i s bn" using bn by (simp add: mapped_def faddr_def as_def)
    then have "free_blocks (disk (io s)) d sb \<noteq> {}" using rm by (auto simp: room_def)
    from balloc_vol [OF G(1) this] obtain a t where b: "balloc d (io s) = Inr (of_nat a, t)"
      "a \<in> free_blocks (disk (io s)) d sb" "io_step (io s) t {} (mark_used d (sb_ninodes sb) a (disk (io s)))"
      "vol_ready t {} d sb" by blast
    have dt: "disk t = mark_used d (sb_ninodes sb) a (disk (io s))" using io_stepD [OF b(3)] by simp
    note gr = grow_direct [OF G(5, 4) b(2) bn True [unfolded as_def], folded dt as_def]
    define s' where "s' = upd_inode i (\<lambda>ip. ip\<lparr>i_addrs := as[bn := of_nat a]\<rparr>) (s\<lparr>io := t\<rparr>)"
    have st: "rw_step d sb i s s'" unfolding s'_def by (rule rw_stepI [OF G(2) b(4)]) (use gr(1) as_def in simp)
    have sel: "io s' = t" "i_addrs (icache s' ! i) = as[bn := of_nat a]" "i_dev (icache s' ! i) = d"
      using G(2, 3) by (simp_all add: s'_def upd_addrs_simps)
    have "bmap i (of_nat bn) s = Inr (of_nat a, s')"
      using True u on_io_ok [of "balloc d" s] b(1) G(2, 3) by (simp add: bmap_def as_def s'_def addr_update)
    then show ?thesis
    proof (rule that)
      show "maps d sb i bn s (of_nat a) s'"
        unfolding maps_def byte_at_def sel
        using st gr(2, 3) free_addr(3) [OF G(5) b(2)] G(3) block_range nm by (simp add: as_def)
      show "room d sb s \<le> room d sb s' + 1"
        unfolding room_def sel dt mark_used_vol(2) [OF G(5) b(2)] using b(2) by simp
    qed
  qed
qed

text \<open>The second half of \<open>bmap\<close>, on a file that has an indirect block.\<close>

definition bmap_entry :: "u32 \<Rightarrow> u32 \<Rightarrow> nat \<Rightarrow> fs \<Rightarrow> (u32 \<times> fs) res" where
  "bmap_entry d addr k s =
     bindE (on_io (bread d addr) s) (\<lambda>(bp, s).
     let addr = get_entry k (buf_data bp s) in
     bindE (if addr = 0 then
              bindE (on_io (balloc d) s) (\<lambda>(addr, s).
              bindE (on_io' (\<lambda>b. bwrite bp (set_data bp (put_entry k addr (buf_data bp s)) b)) s) (\<lambda>s.
              Inr (addr, s)))
            else Inr (addr, s)) (\<lambda>(addr, s).
     bindE (on_io' (brelse bp) s) (\<lambda>s. Inr (addr, s))))"

lemma held_data: "held_buf t b = (x, ys) \<Longrightarrow> data (bufs t ! b) = ys"
  by (simp add: held_buf_def)

lemma bmap_entry_ok:
  assumes R: "file_ready d sb i s" and bn: "NDIRECT \<le> bn" "bn < MAXFILE" and rm: "mapped d i s bn \<or> 1 \<le> room d sb s"
  defines "A \<equiv> i_addrs (icache s ! i) ! NDIRECT"
  assumes ind: "A \<noteq> 0"
  obtains a s' where "bmap_entry d A (bn - NDIRECT) s = Inr (a, s')" "maps d sb i bn s a s'"
    "room d sb s \<le> room d sb s' + 1"
proof -
  note G = file_readyD [OF R]
  note V = vol_readyD [OF G(1)]
  define as where "as = i_addrs (icache s ! i)"
  define D where "D = disk (io s)"
  have dA: "data_addr D d sb A" using file_okD(2) [OF G(4)] ind by (simp add: A_def D_def)
  then have szA: "unat A < unat (sb_size sb)" "\<not> meta_addr sb A" using data_not_meta by (auto simp: data_addr_def)
  have blk: "has_block (io s) (d, A)" by (rule V(3) [OF vol_addr [OF G(5) szA(1)]])
  have "\<forall>c\<in>{}. fst (held_buf (io s) c) \<noteq> (d, A)" by simp
  from bc.get_ok [OF V(1) blk this] obtain bp t where
    t: "bread d A (io s) = Inr (bp, t)" "bcache_ok t {bp}" "held_buf t bp = ((d, A), D (d, A))" "disk t = D"
      "has_block t = has_block (io s)" by (auto simp: D_def)
  have fa: "faddr D d as bn = get_entry (bn - NDIRECT) (D (d, A))" using bn(1) ind by (simp add: faddr_def A_def as_def)
  show ?thesis
  proof (cases "faddr D d as bn = 0")
    case False
    have "snd (held_buf t bp) = disk t (fst (held_buf t bp))" using t(3, 4) by simp
    from bc.drop_ok [OF t(2) _ this] obtain t' where
      t': "brelse bp t = Inr t'" "bcache_ok t' {}" "disk t' = D" "has_block t' = has_block (io s)"
      using t(4, 5) by auto
    have rt: "vol_ready t' {} d sb" using G(1) t' unfolding vol_ready_def D_def by simp
    have st: "rw_step d sb i s (s\<lparr>io := t'\<rparr>)"
      using rw_step_same [OF G(2) rt] file_step_refl [OF G(5, 4)] t'(3) by (simp add: D_def)
    have "bmap_entry d A (bn - NDIRECT) s = Inr (faddr D d as bn, s\<lparr>io := t'\<rparr>)"
      unfolding bmap_entry_def
      using on_io_ok [of "bread d A" s, OF t(1)] on_io'_ok [of "brelse bp" "s\<lparr>io := t\<rparr>"] t'(1) False held_data [OF t(3)]
      by (simp add: fa buf_data_def Let_def)
    then show ?thesis
    proof (rule that)
      show "maps d sb i bn s (faddr D d as bn) (s\<lparr>io := t'\<rparr>)"
        using st False t'(3) by (simp add: maps_def byte_at_def D_def as_def)
      show "room d sb s \<le> room d sb (s\<lparr>io := t'\<rparr>) + 1" using t'(3) by (simp add: room_def D_def)
    qed
  next
    case True
    have nm: "\<not> mapped d i s bn" using True by (simp add: mapped_def D_def as_def)
    have rt: "vol_ready t {bp} d sb" using G(1, 5) t szA(2) unfolding vol_ready_def D_def by simp
    have "free_blocks (disk t) d sb \<noteq> {}" using rm nm t(4) by (auto simp: room_def D_def)
    from balloc_vol [OF rt this] obtain a t1 where b: "balloc d t = Inr (of_nat a, t1)"
      "a \<in> free_blocks D d sb" "io_step t t1 {bp} (mark_used d (sb_ninodes sb) a D)"
      unfolding t(4) by blast
    define xs where "xs = put_entry (bn - NDIRECT) (of_nat a) (D (d, A))"
    have t1: "bcache_ok t1 {bp}" "disk t1 = mark_used d (sb_ninodes sb) a D" "has_block t1 = has_block (io s)"
      "held_buf t1 bp = ((d, A), D (d, A))" using b(3) t(3, 5) by (auto simp: io_step_def)
    have lx: "length xs = 512" unfolding xs_def using vol_okD(4) [OF G(5)] bn by (intro length_put_entry) (auto simp: D_def)
    define t2 where "t2 = set_data bp xs t1"
    have t2: "bcache_ok t2 {bp}" "held_buf t2 bp = ((d, A), xs)" "disk t2 = disk t1" "has_block t2 = has_block (io s)"
      using bc.put_ok [OF t1(1) singletonI lx] t1(3, 4) by (auto simp: t2_def)
    from bc.flush_ok [OF t2(1) singletonI] obtain t3 where t3: "bwrite bp t2 = Inr t3" "bcache_ok t3 {bp}"
      "disk t3 = (disk t1)((d, A) := xs)" "has_block t3 = has_block (io s)" "held_buf t3 bp = ((d, A), xs)"
      using t2 by auto
    have "snd (held_buf t3 bp) = disk t3 (fst (held_buf t3 bp))" using t3(3, 5) by simp
    from bc.drop_ok [OF t3(2) singletonI this] obtain t4 where
      t4: "brelse bp t3 = Inr t4" "bcache_ok t4 {}" "disk t4 = (disk t1)((d, A) := xs)" "has_block t4 = has_block (io s)"
      using t3(3, 4) by auto
    have E: "disk t4 = (mark_used d (sb_ninodes sb) a D)((d, as ! NDIRECT) := put_entry (bn - NDIRECT) (of_nat a) (D (d, as ! NDIRECT)))"
      using t4(3) t1(2) by (simp add: xs_def A_def as_def)
    note gr = grow_entry [OF G(5, 4) b(2) [unfolded D_def] ind [unfolded A_def] bn True [unfolded D_def as_def], folded D_def as_def, folded E]
    have r4: "vol_ready t4 {} d sb" using G(1) t4 gr(1) unfolding vol_ready_def file_step_def by simp
    have st: "rw_step d sb i s (s\<lparr>io := t4\<rparr>)"
      using rw_step_same [OF G(2) r4] gr(1) by (simp add: D_def as_def)
    have "bmap_entry d A (bn - NDIRECT) s = Inr (of_nat a, s\<lparr>io := t4\<rparr>)"
      unfolding bmap_entry_def
      using on_io_ok [of "bread d A" s, OF t(1)] True held_data [OF t(3)] on_io_ok [of "balloc d" "s\<lparr>io := t\<rparr>"] b(1)
        held_data [OF t1(4)] t3(1) t4(1)
      by (simp add: fa buf_data_def Let_def on_io'_def t2_def xs_def)
    then show ?thesis
    proof (rule that)
      show "maps d sb i bn s (of_nat a) (s\<lparr>io := t4\<rparr>)"
        using st gr(2, 4) free_addr(3) [OF G(5)] b(2) G(3) block_range nm by (simp add: maps_def byte_at_def D_def as_def)
      show "room d sb s \<le> room d sb (s\<lparr>io := t4\<rparr>) + 1" using gr(3) b(2) by (simp add: room_def D_def)
    qed
  qed
qed

lemma bmap_indirect:
  assumes "NDIRECT \<le> bn" "bn < MAXFILE"
  shows "bmap i (of_nat bn) s =
    (let d = i_dev (icache s ! i); addr = i_addrs (icache s ! i) ! NDIRECT in
     bindE (if addr = 0 then bindE (on_io (balloc d) s) (\<lambda>(addr, s). Inr (addr, set_addr i NDIRECT addr s))
                 else Inr (addr, s)) (\<lambda>(addr, s). bmap_entry d addr (bn - NDIRECT) s))"
proof -
  have c: "\<not> of_nat bn < (of_nat NDIRECT :: u32)" "of_nat bn - of_nat NDIRECT < (of_nat NINDIRECT :: u32)"
    "unat (of_nat bn - of_nat NDIRECT :: u32) = bn - NDIRECT"
  proof -
    have "(of_nat bn - of_nat NDIRECT :: u32) = of_nat (bn - NDIRECT)" using assms(1) by (simp add: of_nat_diff)
    then show "unat (of_nat bn - of_nat NDIRECT :: u32) = bn - NDIRECT"
      using assms(2) by (simp only:) (simp add: unsigned_of_nat take_bit_eq_mod)
    then show "of_nat bn - of_nat NDIRECT < (of_nat NINDIRECT :: u32)" using assms(2) by (simp add: word_less_nat_alt)
    show "\<not> of_nat bn < (of_nat NDIRECT :: u32)" using assms by (simp add: word_less_nat_alt unsigned_of_nat take_bit_eq_mod)
  qed
  show ?thesis unfolding bmap_def bmap_entry_def Let_def c(3) if_not_P [OF c(1)] if_P [OF c(2)] ..
qed

lemma bmap_ok:
  assumes R: "file_ready d sb i s" and bn: "bn < MAXFILE" and rm: "mapped d i s bn \<or> 2 \<le> room d sb s"
  obtains a s' where "bmap i (of_nat bn) s = Inr (a, s')" "maps d sb i bn s a s'" "room d sb s \<le> room d sb s' + 2"
proof (cases "bn < NDIRECT")
  case True
  have "mapped d i s bn \<or> 1 \<le> room d sb s" using rm by auto
  from bmap_direct [OF R True this] obtain a s' where
    "bmap i (of_nat bn) s = Inr (a, s')" "maps d sb i bn s a s'" "room d sb s \<le> room d sb s' + 1" by blast
  then show ?thesis using that [of a s'] by simp
next
  case False
  then have ge: "NDIRECT \<le> bn" by simp
  note G = file_readyD [OF R]
  define as where "as = i_addrs (icache s ! i)"
  show ?thesis
  proof (cases "as ! NDIRECT = 0")
    case False
    have "mapped d i s bn \<or> 1 \<le> room d sb s" using rm by auto
    from bmap_entry_ok [OF R ge bn this False [unfolded as_def]] obtain a s' where
      "bmap_entry d (as ! NDIRECT) (bn - NDIRECT) s = Inr (a, s')" "maps d sb i bn s a s'" "room d sb s \<le> room d sb s' + 1"
      by (auto simp: as_def)
    then show ?thesis using that [of a s'] False G(3) by (simp add: bmap_indirect [OF ge bn] as_def Let_def)
  next
    case True
    then have nm: "\<not> mapped d i s bn" using ge by (simp add: mapped_def faddr_def as_def)
    then have "free_blocks (disk (io s)) d sb \<noteq> {}" using rm by (auto simp: room_def)
    from balloc_vol [OF G(1) this] obtain a t where b: "balloc d (io s) = Inr (of_nat a, t)"
      "a \<in> free_blocks (disk (io s)) d sb" "io_step (io s) t {} (mark_used d (sb_ninodes sb) a (disk (io s)))"
      "vol_ready t {} d sb" by blast
    have dt: "disk t = mark_used d (sb_ninodes sb) a (disk (io s))" using io_stepD [OF b(3)] by simp
    note gr = grow_indirect [OF G(5, 4) b(2) True [unfolded as_def], folded dt as_def]
    define s1 where "s1 = upd_inode i (\<lambda>ip. ip\<lparr>i_addrs := as[NDIRECT := of_nat a]\<rparr>) (s\<lparr>io := t\<rparr>)"
    have st: "rw_step d sb i s s1" unfolding s1_def by (rule rw_stepI [OF G(2) b(4)]) (use gr(1) as_def in simp)
    have sel: "io s1 = t" "i_addrs (icache s1 ! i) = as[NDIRECT := of_nat a]" "i_dev (icache s1 ! i) = d"
      using G(2, 3) by (simp_all add: s1_def upd_addrs_simps)
    have A: "i_addrs (icache s1 ! i) ! NDIRECT = of_nat a" using sel(2) file_okD(1) [OF G(4)] by (simp add: as_def)
    have R1: "file_ready d sb i s1" by (rule rw_step_ready [OF R st])
    have rm1: "room d sb s \<le> room d sb s1 + 1"
      unfolding room_def sel dt mark_used_vol(2) [OF G(5) b(2)] using b(2) by simp
    then have "mapped d i s1 bn \<or> 1 \<le> room d sb s1" using rm nm by auto
    from bmap_entry_ok [OF R1 ge bn this] A free_addr(3) [OF G(5) b(2)] obtain e s2 where
      e: "bmap_entry d (of_nat a) (bn - NDIRECT) s1 = Inr (e, s2)" "maps d sb i bn s1 e s2" "room d sb s1 \<le> room d sb s2 + 1"
      by metis
    have "bmap i (of_nat bn) s = Inr (e, s2)"
      using True on_io_ok [of "balloc d" s, OF b(1)] e(1) G(2, 3)
      by (simp add: bmap_indirect [OF ge bn] as_def s1_def addr_update Let_def)
    then show ?thesis
    proof (rule that)
      have "byte_at i s1 k = byte_at i s k" if "k < MAXFILE * BSIZE" for k
        unfolding byte_at_def sel G(3) as_def [symmetric] by (rule gr(3) [OF block_range [OF that]])
      then show "maps d sb i bn s e s2"
        using e(2) rw_step_trans [OF st] nm unfolding maps_def by simp
      show "room d sb s \<le> room d sb s2 + 2" using rm1 e(3) by simp
    qed
  qed
qed

section \<open>Reading and writing\<close>

lemma chunk_nat:
  assumes "tot < n" "n < 2 ^ 32" "off < 2 ^ 32"
  shows "chunk (of_nat n) (of_nat tot) (of_nat off) = of_nat (min (n - tot) (BSIZE - off mod BSIZE))"
    "(of_nat off div of_nat BSIZE :: u32) = of_nat (off div BSIZE)"
    "unat (of_nat off mod of_nat BSIZE :: u32) = off mod BSIZE" "(of_nat tot :: u32) < of_nat n"
proof -
  have tot: "tot < 2 ^ 32" using assms by simp
  show "(of_nat tot :: u32) < of_nat n" using assms tot by (simp add: word_less_nat_alt unsigned_of_nat take_bit_eq_mod)
  show m: "unat (of_nat off mod of_nat BSIZE :: u32) = off mod BSIZE"
    using assms(3) by (simp add: unat_mod unsigned_of_nat take_bit_eq_mod)
  have d: "unat (of_nat off div of_nat BSIZE :: u32) = off div BSIZE"
    using assms(3) by (simp add: unat_div unsigned_of_nat take_bit_eq_mod)
  moreover have "unat (of_nat (off div BSIZE) :: u32) = off div BSIZE"
    using assms(3) by (simp add: unsigned_of_nat take_bit_eq_mod less_mult_imp_div_less)
  ultimately show "(of_nat off div of_nat BSIZE :: u32) = of_nat (off div BSIZE)" by (metis word_unat_eq_iff)
  have mm: "(of_nat off mod of_nat BSIZE :: u32) = of_nat (off mod BSIZE)" unfolding m [symmetric] by (simp del: of_nat_numeral)
  have "of_nat n - of_nat tot = (of_nat (n - tot) :: u32)" using assms(1) by (simp add: of_nat_diff)
  moreover have "of_nat BSIZE - of_nat off mod of_nat BSIZE = (of_nat (BSIZE - off mod BSIZE) :: u32)"
    unfolding mm by (simp add: of_nat_diff)
  moreover have "min (of_nat x) (of_nat y) = (of_nat (min x y) :: u32)" if "x < 2 ^ 32" "y < 2 ^ 32" for x y
    using that by (simp add: min_def word_le_nat_alt unsigned_of_nat take_bit_eq_mod)
  from this [of "n - tot" "BSIZE - off mod BSIZE"] have
    "min (of_nat (n - tot)) (of_nat (BSIZE - off mod BSIZE)) = (of_nat (min (n - tot) (BSIZE - off mod BSIZE)) :: u32)"
    using assms(2) by simp
  ultimately show "chunk (of_nat n) (of_nat tot) (of_nat off) = of_nat (min (n - tot) (BSIZE - off mod BSIZE))"
    by (simp only: chunk_def)
qed

text \<open>Free blocks that writing \<open>l\<close> bytes at \<open>off\<close> can take: for every block touched, itself and the indirect block.\<close>

definition need :: "nat \<Rightarrow> nat \<Rightarrow> nat" where
  "need off l = (if l = 0 then 0 else 2 * ((off mod BSIZE + l + (BSIZE - 1)) div BSIZE))"

lemma need_chunk:
  fixes off l :: nat
  assumes "0 < l"
  defines "m \<equiv> min l (BSIZE - off mod BSIZE)"
  shows "need (off + m) (l - m) + 2 \<le> need off l" "0 < m" "m \<le> l" "off mod BSIZE + m \<le> BSIZE"
proof -
  define o1 where "o1 = off mod BSIZE"
  have o1: "o1 < BSIZE" by (simp add: o1_def)
  show "0 < m" "m \<le> l" "off mod BSIZE + m \<le> BSIZE" using assms(1) o1 by (auto simp: m_def o1_def)
  show "need (off + m) (l - m) + 2 \<le> need off l"
  proof (cases "l \<le> BSIZE - o1")
    case True
    then have "m = l" by (simp add: m_def o1_def)
    moreover have "1 \<le> (off mod BSIZE + l + (BSIZE - 1)) div BSIZE" using assms(1) by (subst less_eq_div_iff_mult_less_eq) simp_all
    ultimately show ?thesis using assms(1) unfolding need_def by simp
  next
    case False
    then have m: "m = BSIZE - o1" by (simp add: m_def o1_def)
    have "(off + m) mod BSIZE = (o1 + m) mod BSIZE" by (simp add: o1_def mod_add_left_eq)
    then have z: "(off + m) mod BSIZE = 0" using m o1 by simp
    have "o1 + l + (BSIZE - 1) = (l - m + (BSIZE - 1)) + BSIZE" using m o1 False by simp
    then have "(o1 + l + (BSIZE - 1)) div BSIZE = (l - m + (BSIZE - 1)) div BSIZE + 1" by simp
    then show ?thesis using assms(1) z by (simp add: need_def o1_def [symmetric])
  qed
qed

definition written :: "(nat \<Rightarrow> u8) \<Rightarrow> nat \<Rightarrow> u8 list \<Rightarrow> nat \<Rightarrow> u8" where
  "written f off xs k = (if off \<le> k \<and> k < off + length xs then xs ! (k - off) else f k)"

lemma div_mod_range:
  assumes "(off :: nat) mod BSIZE + m \<le> BSIZE" "0 < m"
  shows "off \<le> k \<and> k < off + m \<longleftrightarrow> k div BSIZE = off div BSIZE \<and> off mod BSIZE \<le> k mod BSIZE \<and> k mod BSIZE < off mod BSIZE + m"
    (is "?l \<longleftrightarrow> ?r")
proof
  have o: "off = BSIZE * (off div BSIZE) + off mod BSIZE" and k: "k = BSIZE * (k div BSIZE) + k mod BSIZE" by simp_all
  show ?r if l: ?l
  proof -
    have "k < BSIZE * (off div BSIZE) + BSIZE" using l assms(1) o by linarith
    moreover have "BSIZE * (off div BSIZE) \<le> k" using l o by linarith
    ultimately have "k div BSIZE = off div BSIZE" by (intro div_nat_eqI) simp_all
    then show ?thesis by (intro conjI) (use l o k in linarith)+
  qed
  show ?l if r: ?r by (intro conjI) (use r o k in linarith)+
qed

text \<open>One round of \<open>writei\<close>: the block of \<open>off\<close> gets the bytes \<open>xs\<close>.\<close>

lemma write_chunk:
  assumes R: "file_ready d sb i s" and xs: "off mod BSIZE + length xs \<le> BSIZE" "0 < length xs"
    and off: "off < MAXFILE * BSIZE" and rm: "2 \<le> room d sb s"
  obtains a s1 b t1 t2 t3 where "bmap i (of_nat (off div BSIZE)) s = Inr (a, s1)" "bread d a (io s1) = Inr (b, t1)"
    "rw_step d sb i s s1"
    "bwrite b (set_data b (splice (off mod BSIZE) xs (data (bufs t1 ! b))) t1) = Inr t2" "brelse b t2 = Inr t3"
    "rw_step d sb i s (s1\<lparr>io := t3\<rparr>)" "room d sb s \<le> room d sb (s1\<lparr>io := t3\<rparr>) + 2"
    "\<And>k. k < MAXFILE * BSIZE \<Longrightarrow> byte_at i (s1\<lparr>io := t3\<rparr>) k = written (byte_at i s) off xs k"
    "mapped d i (s1\<lparr>io := t3\<rparr>) (off div BSIZE)"
proof -
  note bn = block_range [OF off]
  from bmap_ok [OF R bn disjI2 [OF rm]] obtain a s1 where
    m: "bmap i (of_nat (off div BSIZE)) s = Inr (a, s1)" "maps d sb i (off div BSIZE) s a s1" "room d sb s \<le> room d sb s1 + 2"
    by blast
  have st: "rw_step d sb i s s1" "a \<noteq> 0" and fa: "faddr (disk (io s1)) d (i_addrs (icache s1 ! i)) (off div BSIZE) = a"
    and same: "\<And>k. k < MAXFILE * BSIZE \<Longrightarrow> byte_at i s1 k = byte_at i s k"
    using m(2) by (simp_all add: maps_def)
  have R1: "file_ready d sb i s1" by (rule rw_step_ready [OF R st(1)])
  note G = file_readyD [OF R1]
  note V = vol_readyD [OF G(1)]
  have dA: "data_addr (disk (io s1)) d sb a" using file_okD(3) [OF G(4) bn] st(2) fa by simp
  then have mr: "may_read (io s1) {} (d, a)"
    using V(3) [OF vol_addr [OF G(5)]] by (simp add: may_read_def data_addr_def)
  define ys where "ys = splice (off mod BSIZE) xs (disk (io s1) (d, a))"
  have ly: "length ys = BSIZE" using xs(1) vol_okD(4) [OF G(5)] by (simp add: ys_def length_splice)
  obtain b t1 t2 t3 where io: "bread d a (io s1) = Inr (b, t1)" "data (bufs t1 ! b) = disk (io s1) (d, a)"
    "bwrite b (set_data b ys t1) = Inr t2" "brelse b t2 = Inr t3"
    "io_step (io s1) t3 {} ((disk (io s1))((d, a) := ys))"
    by (rule update_io [where f = "splice (off mod BSIZE) xs", OF V(1) mr, folded ys_def]) (use ly in simp_all)
  note dt = io_stepD [OF io(5)]
  have na: "faddr (disk (io s1)) d (i_addrs (icache s1 ! i)) (off div BSIZE) \<noteq> 0" using fa st(2) by simp
  note W = write_block [OF G(5, 4) bn na ly, unfolded fa, folded conjunct2 [OF dt]]
  have r3: "vol_ready t3 {} d sb" by (rule vol_ready_step [OF G(1) io(5)]) (use W(1) dt in \<open>simp add: file_step_def\<close>)
  have st2: "rw_step d sb i s1 (s1\<lparr>io := t3\<rparr>)" by (rule rw_step_same [OF G(2) r3 W(1)])
  have st3: "rw_step d sb i s (s1\<lparr>io := t3\<rparr>)" by (rule rw_step_trans [OF st(1) st2])
  have rm3: "room d sb s \<le> room d sb (s1\<lparr>io := t3\<rparr>) + 2" using m(3) W(2) by (simp add: room_def)
  have len: "length (disk (io s1) (d, a)) = BSIZE" by (rule vol_okD(4) [OF G(5)])
  have bt: "byte_at i (s1\<lparr>io := t3\<rparr>) k = written (byte_at i s) off xs k" if k: "k < MAXFILE * BSIZE" for k
  proof -
    have b1: "byte_at i (s1\<lparr>io := t3\<rparr>) k = (if k div BSIZE = off div BSIZE then ys ! (k mod BSIZE) else byte_at i s k)"
      using W(3) [OF block_range [OF k]] same [OF k] G(3) by (simp add: byte_at_def)
    have "byte_at i s k = disk (io s1) (d, a) ! (k mod BSIZE)" if "k div BSIZE = off div BSIZE"
      using same [OF k] that fa st(2) G(3) by (simp add: byte_at_def fbyte_def)
    moreover have "ys ! (k mod BSIZE) = (if off mod BSIZE \<le> k mod BSIZE \<and> k mod BSIZE < off mod BSIZE + length xs
        then xs ! (k mod BSIZE - off mod BSIZE) else disk (io s1) (d, a) ! (k mod BSIZE))"
      unfolding ys_def by (rule nth_splice) (use xs(1) len in simp_all)
    moreover have "k mod BSIZE - off mod BSIZE = k - off" if "k div BSIZE = off div BSIZE"
      using that by (metis add_diff_cancel_left mult_div_mod_eq)
    ultimately show ?thesis using b1 div_mod_range [OF xs] unfolding written_def by auto
  qed
  have "faddr (disk t3) d (i_addrs (icache s1 ! i)) (off div BSIZE) = a" using W(1) bn fa st(2) unfolding file_step_def by auto
  then have mp: "mapped d i (s1\<lparr>io := t3\<rparr>) (off div BSIZE)" using st(2) by (simp add: mapped_def)
  show ?thesis by (rule that [OF m(1) io(1) st(1) _ io(4) st3 rm3 bt mp]) (use io(2, 3) in \<open>simp_all add: ys_def\<close>)
qed

text \<open>One round of \<open>readi\<close> on a mapped block.\<close>

lemma read_chunk:
  assumes R: "file_ready d sb i s" and off: "off < MAXFILE * BSIZE" and m: "off mod BSIZE + m \<le> BSIZE" "0 < m"
    and mp: "mapped d i s (off div BSIZE)"
  obtains a s1 b t1 t2 where "bmap i (of_nat (off div BSIZE)) s = Inr (a, s1)" "bread d a (io s1) = Inr (b, t1)"
    "brelse b t1 = Inr t2" "icache s1 = icache s" "slice (off mod BSIZE) m (data (bufs t1 ! b)) = map (byte_at i s) [off..<off + m]"
    "rw_step d sb i s (s1\<lparr>io := t2\<rparr>)" "disk t2 = disk (io s)"
proof -
  note bn = block_range [OF off]
  from bmap_ok [OF R bn disjI1 [OF mp]] obtain a s1 where
    b: "bmap i (of_nat (off div BSIZE)) s = Inr (a, s1)" "maps d sb i (off div BSIZE) s a s1" by blast
  have st: "rw_step d sb i s s1" "a \<noteq> 0" and fa: "faddr (disk (io s1)) d (i_addrs (icache s1 ! i)) (off div BSIZE) = a"
    and eq: "disk (io s1) = disk (io s)" "icache s1 = icache s"
    using b(2) mp unfolding maps_def by blast+
  have R1: "file_ready d sb i s1" by (rule rw_step_ready [OF R st(1)])
  note G = file_readyD [OF R1]
  note V = vol_readyD [OF G(1)]
  have "data_addr (disk (io s1)) d sb a" using file_okD(3) [OF G(4) bn] st(2) fa by simp
  then have mr: "may_read (io s1) {} (d, a)"
    using V(3) [OF vol_addr [OF G(5)]] by (simp add: may_read_def data_addr_def)
  obtain b t1 t2 where io: "bread d a (io s1) = Inr (b, t1)" "data (bufs t1 ! b) = disk (io s1) (d, a)"
    "brelse b t1 = Inr t2" "io_step (io s1) t2 {} (disk (io s1))"
    by (rule read_io [OF V(1) mr V(2)])
  have dt: "disk t2 = disk (io s)" using io_stepD [OF io(4)] eq(1) by simp
  have r2: "vol_ready t2 {} d sb" by (rule vol_ready_step [OF G(1) io(4) G(5)])
  have st2: "rw_step d sb i s1 (s1\<lparr>io := t2\<rparr>)"
    by (rule rw_step_same [OF G(2) r2]) (use file_step_refl [OF G(5, 4)] dt eq(1) in simp)
  have len: "length (disk (io s1) (d, a)) = BSIZE" by (rule vol_okD(4) [OF G(5)])
  have "slice (off mod BSIZE) m (data (bufs t1 ! b)) = map (byte_at i s) [off..<off + m]"
  proof (rule nth_equalityI)
    fix k
    assume "k < length (slice (off mod BSIZE) m (data (bufs t1 ! b)))"
    then have k: "k < m" using m len by (simp add: io(2) length_slice)
    then have "(off + k) div BSIZE = off div BSIZE" using div_mod_range [OF m, of "off + k"] by simp
    moreover from this have "(off + k) mod BSIZE = off mod BSIZE + k"
      using mult_div_mod_eq [of BSIZE off] mult_div_mod_eq [of BSIZE "off + k"] by linarith
    moreover have "byte_at i s (off + k) = disk (io s1) (d, a) ! ((off + k) mod BSIZE)" if "(off + k) div BSIZE = off div BSIZE"
      using fa st(2) G(3) eq that by (simp add: byte_at_def fbyte_def)
    ultimately show "slice (off mod BSIZE) m (data (bufs t1 ! b)) ! k = map (byte_at i s) [off..<off + m] ! k"
      using k m len by (simp add: io(2) nth_slice)
  qed (use m len in \<open>simp add: io(2) length_slice\<close>)
  then show ?thesis using that [OF b(1) io(1, 3) eq(2) _ rw_step_trans [OF st(1) st2] dt] by simp
qed

lemma readi_loop_ok:
  assumes "file_ready d sb i s" "i_type (icache s ! i) \<noteq> T_CHECKED" "tot \<le> n" "off + (n - tot) \<le> MAXFILE * BSIZE" "n < 2 ^ 32"
    and "\<And>bn. off div BSIZE \<le> bn \<Longrightarrow> bn * BSIZE < off + (n - tot) \<Longrightarrow> mapped d i s bn"
  shows "\<exists>s'. readi_loop i (of_nat off) (of_nat n) (of_nat tot) out s =
      Inr (Done (int n) (out @ map (byte_at i s) [off..<off + (n - tot)]), s') \<and>
    rw_step d sb i s s' \<and> disk (io s') = disk (io s) \<and> icache s' = icache s"
  using assms
proof (induction "n - tot" arbitrary: tot off out s rule: less_induct)
  case less
  note R = less.prems(1)
  note G = file_readyD [OF R]
  show ?case
  proof (cases "tot < n")
    case False
    then have "tot = n" using less.prems(3) by simp
    then have "readi_loop i (of_nat off) (of_nat n) (of_nat tot) out s = Inr (Done (int n) out, s)"
      using less.prems(5) by (subst readi_loop.simps) (simp add: uint_word_of_int_eq take_bit_int_eq_self unsigned_of_nat take_bit_nat_eq_self)
    moreover have "rw_step d sb i s s" using rw_step_same [OF G(2, 1) file_step_refl [OF G(5, 4)]] by simp
    ultimately show ?thesis using \<open>tot = n\<close> by simp
  next
    case True
    define m where "m = min (n - tot) (BSIZE - off mod BSIZE)"
    have pos: "0 < n - tot" using True by simp
    note M = need_chunk [OF pos, of off, folded m_def]
    have offb: "off < MAXFILE * BSIZE" "off < 2 ^ 32" using less.prems(4) pos by simp_all
    note W = chunk_nat [OF True less.prems(5) offb(2), folded m_def]
    have "off div BSIZE * BSIZE < off + (n - tot)" using pos by (metis div_times_less_eq_dividend less_add_same_cancel1 order_le_less_trans)
    then have mp: "mapped d i s (off div BSIZE)" using less.prems(6) by blast
    obtain a s1 b t1 t2 where c: "bmap i (of_nat (off div BSIZE)) s = Inr (a, s1)" "bread d a (io s1) = Inr (b, t1)"
      "brelse b t1 = Inr t2" "icache s1 = icache s"
      "slice (off mod BSIZE) m (data (bufs t1 ! b)) = map (byte_at i s) [off..<off + m]"
      "rw_step d sb i s (s1\<lparr>io := t2\<rparr>)" "disk t2 = disk (io s)"
      by (rule read_chunk [OF R offb(1) M(4, 2) mp])
    define s2 where "s2 = s1\<lparr>io := t2\<rparr>"
    have s2: "icache s2 = icache s" "disk (io s2) = disk (io s)" "rw_step d sb i s s2" using c by (simp_all add: s2_def)
    have um: "unat (of_nat m :: u32) = m" using M(3) less.prems(5) by (simp add: unsigned_of_nat take_bit_nat_eq_self)
    have step: "readi_loop i (of_nat off) (of_nat n) (of_nat tot) out s =
        readi_loop i (of_nat (off + m)) (of_nat n) (of_nat (tot + m)) (out @ map (byte_at i s) [off..<off + m]) s2"
      unfolding readi_loop.simps [of i "of_nat off"] if_P [OF W(4)] W(1, 2, 3)
      using c(1-5) G(3) less.prems(2) by (simp add: real_addr_def on_io_def on_io'_def buf_data_def s2_def um Let_def)
    have "\<exists>s'. readi_loop i (of_nat (off + m)) (of_nat n) (of_nat (tot + m)) (out @ map (byte_at i s) [off..<off + m]) s2 =
      Inr (Done (int n) ((out @ map (byte_at i s) [off..<off + m]) @ map (byte_at i s2) [off + m..<off + m + (n - (tot + m))]), s') \<and>
      rw_step d sb i s2 s' \<and> disk (io s') = disk (io s2) \<and> icache s' = icache s2"
    proof (rule less.hyps)
      show "mapped d i s2 bn" if "(off + m) div BSIZE \<le> bn" "bn * BSIZE < off + m + (n - (tot + m))" for bn
      proof -
        have "off div BSIZE \<le> bn" using that(1) div_le_mono [of off "off + m" BSIZE] by simp
        moreover have "bn * BSIZE < off + (n - tot)" using that(2) M(3) True by simp
        ultimately show ?thesis using less.prems(6) s2 by (simp add: mapped_def)
      qed
    qed (use M True less.prems rw_step_ready [OF R s2(3)] s2 in simp_all)
    then obtain s' where s': "readi_loop i (of_nat off) (of_nat n) (of_nat tot) out s =
       Inr (Done (int n) ((out @ map (byte_at i s) [off..<off + m]) @ map (byte_at i s2) [off + m..<off + m + (n - (tot + m))]), s')"
      "rw_step d sb i s2 s'" "disk (io s') = disk (io s2)" "icache s' = icache s2" unfolding step by blast
    have e1: "off + m + (n - (tot + m)) = off + (n - tot)" using M(3) True by simp
    have e2: "map (byte_at i s) [off..<off + m] @ map (byte_at i s2) [off + m..<off + (n - tot)] = map (byte_at i s) [off..<off + (n - tot)]"
    proof -
      have "byte_at i s2 = byte_at i s" by (rule ext) (simp add: byte_at_def s2(1, 2))
      moreover have "[off..<off + m] @ [off + m..<off + (n - tot)] = [off..<off + (n - tot)]"
        using upt_add_eq_append [of off "off + m" "n - (tot + m)"] unfolding e1 by simp
      ultimately show ?thesis by (metis map_append)
    qed
    show ?thesis
    proof (intro exI conjI)
      show "readi_loop i (of_nat off) (of_nat n) (of_nat tot) out s = Inr (Done (int n) (out @ map (byte_at i s) [off..<off + (n - tot)]), s')"
        using s'(1) unfolding e1 append_assoc e2 .
      show "rw_step d sb i s s'" by (rule rw_step_trans [OF s2(3) s'(2)])
      show "disk (io s') = disk (io s)" "icache s' = icache s" using s'(3, 4) s2(1, 2) by simp_all
    qed
  qed
qed

lemma written_append: "written (written f off xs) (off + length xs) ys = written f off (xs @ ys)"
  by (rule ext) (auto simp: written_def nth_append)

lemma slice_append: "i + m \<le> length xs \<Longrightarrow> slice i m xs @ slice (i + m) k xs = slice i (m + k) xs"
  by (simp only: slice_def take_add drop_drop) (simp add: add.commute)

lemma mapped_mono:
  assumes "rw_step d sb i s s'" "bn < MAXFILE" "mapped d i s bn"
  shows "mapped d i s' bn"
  using assms by (auto simp: rw_step_def file_step_def mapped_def)

lemma writei_loop_ok:
  assumes "file_ready d sb i s" "i_type (icache s ! i) \<noteq> T_CHECKED" "tot \<le> n" "off + (n - tot) \<le> MAXFILE * BSIZE" "n < 2 ^ 32"
    and "n \<le> length src" "need off (n - tot) \<le> room d sb s"
  shows "\<exists>s'. writei_loop i src (of_nat off) (of_nat n) (of_nat tot) s = Inr (of_nat (off + (n - tot)), s') \<and>
    rw_step d sb i s s' \<and>
    (\<forall>k<MAXFILE * BSIZE. byte_at i s' k = written (byte_at i s) off (slice tot (n - tot) src) k) \<and>
    (\<forall>bn. off div BSIZE \<le> bn \<longrightarrow> bn * BSIZE < off + (n - tot) \<longrightarrow> tot < n \<longrightarrow> mapped d i s' bn)"
  using assms
proof (induction "n - tot" arbitrary: tot off s rule: less_induct)
  case less
  note R = less.prems(1)
  note G = file_readyD [OF R]
  show ?case
  proof (cases "tot < n")
    case False
    then have "tot = n" using less.prems(3) by simp
    then have "writei_loop i src (of_nat off) (of_nat n) (of_nat tot) s = Inr (of_nat off, s)"
      by (subst writei_loop.simps) simp
    moreover have "rw_step d sb i s s" using rw_step_same [OF G(2, 1) file_step_refl [OF G(5, 4)]] by simp
    ultimately show ?thesis using \<open>tot = n\<close> by (auto simp: written_def slice_def)
  next
    case True
    define m where "m = min (n - tot) (BSIZE - off mod BSIZE)"
    have pos: "0 < n - tot" using True by simp
    note M = need_chunk [OF pos, of off, folded m_def]
    have offb: "off < MAXFILE * BSIZE" "off < 2 ^ 32" using less.prems(4) pos by simp_all
    note W = chunk_nat [OF True less.prems(5) offb(2), folded m_def]
    define xs where "xs = slice tot m src"
    have lx: "length xs = m" unfolding xs_def by (rule length_slice) (use M(3) True less.prems(6) in simp)
    have rm: "2 \<le> room d sb s" using M(1) less.prems(7) by simp
    obtain a s1 b t1 t2 t3 where c: "bmap i (of_nat (off div BSIZE)) s = Inr (a, s1)" "bread d a (io s1) = Inr (b, t1)"
      "rw_step d sb i s s1"
      "bwrite b (set_data b (splice (off mod BSIZE) xs (data (bufs t1 ! b))) t1) = Inr t2" "brelse b t2 = Inr t3"
      "rw_step d sb i s (s1\<lparr>io := t3\<rparr>)" "room d sb s \<le> room d sb (s1\<lparr>io := t3\<rparr>) + 2"
      "\<And>k. k < MAXFILE * BSIZE \<Longrightarrow> byte_at i (s1\<lparr>io := t3\<rparr>) k = written (byte_at i s) off xs k"
      "mapped d i (s1\<lparr>io := t3\<rparr>) (off div BSIZE)"
      by (rule write_chunk [OF R _ _ offb(1) rm, of xs]) (use M(2, 4) lx in simp_all)
    define s2 where "s2 = s1\<lparr>io := t3\<rparr>"
    note C = c(6-9) [folded s2_def]
    have um: "unat (of_nat m :: u32) = m" "unat (of_nat tot :: u32) = tot"
      using M(3) True less.prems(5) by (simp_all add: unsigned_of_nat take_bit_nat_eq_self)
    have ty: "i_type (icache s1 ! i) \<noteq> T_CHECKED" "i_dev (icache s1 ! i) = d"
      using rw_step_fields [OF c(3) G(2)] less.prems(2) G(3) by simp_all
    have step: "writei_loop i src (of_nat off) (of_nat n) (of_nat tot) s =
        writei_loop i src (of_nat (off + m)) (of_nat n) (of_nat (tot + m)) s2"
      unfolding writei_loop.simps [of i src "of_nat off"] if_P [OF W(4)] W(1, 2, 3)
      using c(1, 2, 4, 5) ty by (simp add: on_io_def on_io'_def buf_data_def s2_def um Let_def xs_def)
    have "\<exists>s'. writei_loop i src (of_nat (off + m)) (of_nat n) (of_nat (tot + m)) s2 = Inr (of_nat (off + m + (n - (tot + m))), s') \<and>
      rw_step d sb i s2 s' \<and>
      (\<forall>k<MAXFILE * BSIZE. byte_at i s' k = written (byte_at i s2) (off + m) (slice (tot + m) (n - (tot + m)) src) k) \<and>
      (\<forall>bn. (off + m) div BSIZE \<le> bn \<longrightarrow> bn * BSIZE < off + m + (n - (tot + m)) \<longrightarrow> tot + m < n \<longrightarrow> mapped d i s' bn)"
    proof (rule less.hyps)
      show "need (off + m) (n - (tot + m)) \<le> room d sb s2" using M(1) less.prems(7) C(2) by simp
      show "i_type (icache s2 ! i) \<noteq> T_CHECKED" using rw_step_fields [OF C(1) G(2)] less.prems(2) by simp
    qed (use M True less.prems rw_step_ready [OF R C(1)] in simp_all)
    then obtain s' where s': "writei_loop i src (of_nat (off + m)) (of_nat n) (of_nat (tot + m)) s2 = Inr (of_nat (off + m + (n - (tot + m))), s')"
      "rw_step d sb i s2 s'"
      "\<And>k. k < MAXFILE * BSIZE \<Longrightarrow> byte_at i s' k = written (byte_at i s2) (off + m) (slice (tot + m) (n - (tot + m)) src) k"
      "\<And>bn. (off + m) div BSIZE \<le> bn \<Longrightarrow> bn * BSIZE < off + m + (n - (tot + m)) \<Longrightarrow> tot + m < n \<Longrightarrow> mapped d i s' bn"
      by blast
    have e1: "off + m + (n - (tot + m)) = off + (n - tot)" using M(3) True by simp
    have st: "rw_step d sb i s s'" by (rule rw_step_trans [OF C(1) s'(2)])
    have bytes: "byte_at i s' k = written (byte_at i s) off (slice tot (n - tot) src) k" if k: "k < MAXFILE * BSIZE" for k
    proof -
      have "byte_at i s' k = written (written (byte_at i s) off xs) (off + length xs) (slice (tot + m) (n - (tot + m)) src) k"
        using s'(3) [OF k] C(3) [OF k] unfolding lx by (simp add: written_def)
      also have "\<dots> = written (byte_at i s) off (xs @ slice (tot + m) (n - (tot + m)) src) k" by (simp only: written_append)
      also have "xs @ slice (tot + m) (n - (tot + m)) src = slice tot (m + (n - (tot + m))) src"
        unfolding xs_def by (rule slice_append) (use M(3) True less.prems(6) in simp)
      also have "m + (n - (tot + m)) = n - tot" using M(3) True by simp
      finally show ?thesis .
    qed
    have mp: "mapped d i s' bn" if bn: "off div BSIZE \<le> bn" "bn * BSIZE < off + (n - tot)" for bn
    proof (cases "(off + m) div BSIZE \<le> bn \<and> tot + m < n")
      case True
      then show ?thesis using s'(4) [of bn] bn(2) e1 by simp
    next
      case False
      have bb: "bn < MAXFILE" using bn(2) less.prems(4) by simp
      have "bn = off div BSIZE"
      proof (rule ccontr)
        assume "bn \<noteq> off div BSIZE"
        then have gt: "off div BSIZE + 1 \<le> bn" using bn(1) by simp
        have "off = BSIZE * (off div BSIZE) + off mod BSIZE" by simp
        then have le: "off + m \<le> bn * BSIZE" using gt M(4) by linarith
        then have "(off + m) div BSIZE \<le> bn" by (metis div_le_mono nonzero_mult_div_cancel_right zero_neq_numeral)
        moreover have "tot + m < n" using le bn(2) by simp
        ultimately show False using False by simp
      qed
      then show ?thesis using mapped_mono [OF s'(2)] C(4) bb by blast
    qed
    show ?thesis
    proof (intro exI conjI allI impI)
      show "writei_loop i src (of_nat off) (of_nat n) (of_nat tot) s = Inr (of_nat (off + (n - tot)), s')"
        using s'(1) unfolding step e1 .
    qed (use st bytes mp in blast)+
  qed
qed

section \<open>Inodes on disk\<close>

lemma inode_block:
  assumes "vol_ok D d sb" "unat inum < unat (sb_ninodes sb)"
  shows "unat (IBLOCK inum) = unat inum div 8 + 2" "meta_addr sb (IBLOCK inum)" "inode_slot inum < 8"
proof -
  have le: "unat inum div 8 \<le> unat (sb_ninodes sb) div 8" using assms(2) by (intro div_le_mono) simp
  have "unat inum div 8 + 2 < data_start sb" using le by (simp add: data_start_def)
  then have sm: "unat inum div 8 + 2 < 268435456" using vol_okD(2, 3) [OF assms(1)] by simp
  have "unat (inum div of_nat IPB) = unat inum div 8" by (simp add: unat_div)
  then show u: "unat (IBLOCK inum) = unat inum div 8 + 2"
    unfolding IBLOCK_def using sm by (subst unat_add_small) simp_all
  show "meta_addr sb (IBLOCK inum)" using le by (simp add: meta_addr_def u data_start_def)
  show "inode_slot inum < 8" by (simp add: inode_slot_def unat_mod)
qed

lemma inode_write:
  assumes V: "vol_ok D d sb" and inum: "unat inum < unat (sb_ninodes sb)" and F: "file_ok D d sb as" and xs: "length xs = BSIZE"
  defines "E \<equiv> D((d, IBLOCK inum) := xs)"
  shows "file_step D d sb as E as" "free_blocks E d sb = free_blocks D d sb" "faddr E d as bn = faddr D d as bn"
    "bn < MAXFILE \<Longrightarrow> k div BSIZE = bn \<Longrightarrow> fbyte E d as k = fbyte D d as k"
proof -
  note I = inode_block [OF V inum]
  note W = vol_okD [OF V]
  note G = file_okD [OF F]
  have U: "in_use E d (sb_ninodes sb) k = in_use D d (sb_ninodes sb) k" if "k < unat (sb_size sb)" for k
  proof -
    have "unat inum div 8 \<le> unat (sb_ninodes sb) div 8" using inum by (intro div_le_mono) simp
    then have "IBLOCK inum \<noteq> BBLOCK (of_nat k) (sb_ninodes sb)" using bitmap_block(1) [OF V that] I(1) by auto
    then show ?thesis by (simp add: E_def in_use_def)
  qed
  have dat: "E (e, b) = D (e, b)" if "\<not> meta_addr sb b" for e b using I(2) that by (auto simp: E_def)
  show fr: "free_blocks E d sb = free_blocks D d sb" using U by (auto simp: free_blocks_def)
  have da: "data_addr E d sb b = data_addr D d sb b" for b using U by (auto simp: data_addr_def)
  show fa: "faddr E d as bn = faddr D d as bn" for bn
    using faddr_cong dat data_not_meta G(2) by metis
  have one: "IBLOCK inum \<noteq> 1" using I(1) by auto
  have vE: "vol_ok E d sb"
    unfolding vol_ok_def
  proof (intro conjI allI impI)
    show "get_superblock (E (d, 1)) = sb" using W(1) one by (simp add: E_def)
    show "data_start sb \<le> unat (sb_size sb)" by (rule W(2))
    show "unat (sb_size sb) \<le> 2 ^ 28" using W(3) by simp
    show "length (E x) = BSIZE" for x using W(4) xs by (simp add: E_def)
    show "in_use E d (sb_ninodes sb) b" if "b < data_start sb" for b using W(2, 5) that U by simp
    show "E (d, of_nat b) = replicate BSIZE 0"
      if b: "data_start sb \<le> b" "b < unat (sb_size sb)" "\<not> in_use E d (sb_ninodes sb) b" for b
    proof -
      have "b \<in> free_blocks D d sb" using b U by (simp add: free_blocks_def)
      then show ?thesis using W(6) dat free_addr(4) [OF V] by simp
    qed
  qed
  moreover have "file_ok E d sb as" using F unfolding file_ok_def fa da .
  moreover have "owns E d as b = owns D d as b" for b by (simp add: owns_def fa)
  ultimately show "file_step D d sb as E as" using da fa dat data_not_meta unfolding file_step_def by metis
  show "fbyte E d as k = fbyte D d as k" if "bn < MAXFILE" "k div BSIZE = bn"
  proof (cases "faddr D d as bn = 0")
    case False
    have "E (d, faddr D d as bn) = D (d, faddr D d as bn)" using False dat data_not_meta G(3) [OF that(1)] by metis
    then show ?thesis by (simp add: fbyte_def fa that(2) Let_def)
  qed (simp add: fbyte_def fa that(2))
qed

lemma iupdate_ok:
  assumes R: "file_ready d sb i s" and inum: "unat (i_inum (icache s ! i)) < unat (sb_ninodes sb)"
  obtains s' where "iupdate i s = Inr s'" "rw_step d sb i s s'" "icache s' = icache s"
    "\<And>k. k < MAXFILE * BSIZE \<Longrightarrow> byte_at i s' k = byte_at i s k" "\<And>bn. mapped d i s' bn = mapped d i s bn"
    "get_dinode (inode_slot (i_inum (icache s ! i))) (disk (io s') (d, IBLOCK (i_inum (icache s ! i)))) = dinode_of (icache s ! i)"
proof -
  note G = file_readyD [OF R]
  note V = vol_readyD [OF G(1)]
  define ip where "ip = icache s ! i"
  define n where "n = IBLOCK (i_inum ip)"
  note I = inode_block [OF G(5) inum, folded ip_def]
  have la: "length (d_addrs (dinode_of ip)) = NDIRECT + 1" using file_okD(1) [OF G(4)] by (simp add: dinode_of_def ip_def)
  note gp = get_put_dinode [OF la vol_okD(4) [OF G(5), of "(d, n)"] I(3)]
  define xs where "xs = put_dinode (inode_slot (i_inum ip)) (dinode_of ip) (disk (io s) (d, n))"
  have lx: "length xs = BSIZE" unfolding xs_def by (rule gp(2) [OF I(3)])
  have mr: "may_read (io s) {} (d, n)" unfolding n_def by (rule vol_may_read_meta [OF G(1) I(2)])
  obtain b t1 t2 t3 where io: "bread d n (io s) = Inr (b, t1)" "data (bufs t1 ! b) = disk (io s) (d, n)"
    "bwrite b (set_data b xs t1) = Inr t2" "brelse b t2 = Inr t3" "io_step (io s) t3 {} ((disk (io s))((d, n) := xs))"
    by (rule update_io [where f = "put_dinode (inode_slot (i_inum ip)) (dinode_of ip)", OF V(1) mr, folded xs_def])
      (use lx in simp_all)
  have dt: "disk t3 = (disk (io s))((d, n) := xs)" using io_stepD [OF io(5)] by simp
  note W = inode_write [OF G(5) inum G(4) lx, folded ip_def, folded n_def, folded dt]
  have r3: "vol_ready t3 {} d sb" by (rule vol_ready_step [OF G(1) io(5)]) (use W(1) dt in \<open>simp add: file_step_def\<close>)
  have "iupdate i s = Inr (s\<lparr>io := t3\<rparr>)"
    unfolding iupdate_def using io(1-4) G(3)
    by (simp add: on_io_def on_io'_def buf_data_def ip_def [symmetric] n_def [symmetric] xs_def Let_def)
  then show ?thesis
  proof (rule that)
    show "rw_step d sb i s (s\<lparr>io := t3\<rparr>)" by (rule rw_step_same [OF G(2) r3]) (use W(1) in \<open>simp add: ip_def\<close>)
    show "byte_at i (s\<lparr>io := t3\<rparr>) k = byte_at i s k" if "k < MAXFILE * BSIZE" for k
      using W(4) [OF block_range [OF that] refl] G(3) by (simp add: byte_at_def ip_def)
    show "mapped d i (s\<lparr>io := t3\<rparr>) bn = mapped d i s bn" for bn using W(3) by (simp add: mapped_def ip_def)
    show "get_dinode (inode_slot (i_inum (icache s ! i))) (disk (io (s\<lparr>io := t3\<rparr>)) (d, IBLOCK (i_inum (icache s ! i)))) =
        dinode_of (icache s ! i)"
      using gp(1) [OF I(3)] unfolding ip_def [symmetric] n_def [symmetric] by (simp add: dt xs_def)
  qed simp
qed

section \<open>Files as byte lists\<close>

definition file_bytes :: "nat \<Rightarrow> fs \<Rightarrow> u8 list" where
  "file_bytes i s = map (byte_at i s) [0..<unat (i_size (icache s ! i))]"

text \<open>
  A regular file in good order: its addresses are consistent with the volume, every block
  below its size is there, and its inode number is one of the volume.
\<close>

definition regular :: "u32 \<Rightarrow> superblock \<Rightarrow> nat \<Rightarrow> fs \<Rightarrow> bool" where
  "regular d sb i s \<longleftrightarrow> file_ready d sb i s \<and> i_type (icache s ! i) \<notin> {T_DEV, T_CHECKED} \<and>
     unat (i_inum (icache s ! i)) < unat (sb_ninodes sb) \<and> unat (i_size (icache s ! i)) \<le> MAXFILE * BSIZE \<and>
     (\<forall>bn. bn * BSIZE < unat (i_size (icache s ! i)) \<longrightarrow> mapped d i s bn)"

lemma regularD:
  assumes "regular d sb i s"
  shows "file_ready d sb i s" "i_type (icache s ! i) \<noteq> T_DEV" "i_type (icache s ! i) \<noteq> T_CHECKED"
    "unat (i_inum (icache s ! i)) < unat (sb_ninodes sb)" "unat (i_size (icache s ! i)) \<le> MAXFILE * BSIZE"
    "bn * BSIZE < unat (i_size (icache s ! i)) \<Longrightarrow> mapped d i s bn"
  using assms unfolding regular_def by (simp, simp, simp, simp, simp, simp)

lemma length_file_bytes [simp]: "length (file_bytes i s) = unat (i_size (icache s ! i))"
  by (simp add: file_bytes_def)

lemma words_of_offsets:
  fixes sz :: u32
  assumes "off \<le> unat sz" "off + n < 2 ^ 32"
  shows "\<not> (of_nat off > sz \<or> of_nat off + of_nat n < (of_nat off :: u32))"
    "(of_nat off + of_nat n > sz) = (off + n > unat sz)" "sz - of_nat off = of_nat (unat sz - off)"
proof -
  have u: "unat (of_nat off :: u32) = off" "unat (of_nat off + of_nat n :: u32) = off + n"
    using assms(2) by (simp_all add: unsigned_of_nat take_bit_nat_eq_self flip: of_nat_add)
  show "\<not> (of_nat off > sz \<or> of_nat off + of_nat n < (of_nat off :: u32))"
    "(of_nat off + of_nat n > sz) = (off + n > unat sz)"
    using assms u by (simp_all add: word_less_nat_alt)
  show "sz - of_nat off = of_nat (unat sz - off)" using assms(1) by (simp add: of_nat_diff)
qed

lemma readi_ok:
  assumes R: "regular d sb i s" and off: "off \<le> length (file_bytes i s)" "off + n < 2 ^ 32"
  defines "l \<equiv> min n (length (file_bytes i s) - off)"
  obtains s' where "readi i (of_nat off) (of_nat n) s = Inr (Done (int l) (slice off l (file_bytes i s)), s')"
    "rw_step d sb i s s'" "disk (io s') = disk (io s)" "icache s' = icache s"
proof -
  note G = regularD [OF R]
  define sz where "sz = i_size (icache s ! i)"
  have off': "off \<le> unat sz" using off(1) by (simp add: sz_def)
  note W = words_of_offsets [OF off' off(2)]
  have l: "off + l \<le> unat sz" "l < 2 ^ 32" using off' off(2) by (auto simp: l_def sz_def)
  have len: "(if of_nat off + of_nat n > sz then sz - of_nat off else of_nat n) = (of_nat l :: u32)"
    unfolding W(2, 3) by (auto simp: l_def sz_def)
  have "\<exists>s'. readi_loop i (of_nat off) (of_nat l) (of_nat 0) [] s = Inr (Done (int l) ([] @ map (byte_at i s) [off..<off + (l - 0)]), s') \<and>
    rw_step d sb i s s' \<and> disk (io s') = disk (io s) \<and> icache s' = icache s"
  proof (rule readi_loop_ok [OF G(1, 3)])
    show "mapped d i s bn" if "bn * BSIZE < off + (l - 0)" for bn using G(6) l(1) that by (simp add: sz_def)
    show "off + (l - 0) \<le> MAXFILE * BSIZE" using l(1) G(5) by (simp add: sz_def)
  qed (use l(2) in simp_all)
  then obtain s' where s': "readi_loop i (of_nat off) (of_nat l) 0 [] s = Inr (Done (int l) (map (byte_at i s) [off..<off + l]), s')"
    "rw_step d sb i s s'" "disk (io s') = disk (io s)" "icache s' = icache s" by auto
  have "slice off l (file_bytes i s) = map (byte_at i s) [off..<off + l]"
    by (rule nth_equalityI) (use l(1) in \<open>simp_all add: length_slice nth_slice file_bytes_def sz_def\<close>)
  moreover have "readi i (of_nat off) (of_nat n) s = readi_loop i (of_nat off) (of_nat l) 0 [] s"
    unfolding readi_def Let_def sz_def [symmetric] if_not_P [OF G(2)] if_not_P [OF W(1)] len ..
  ultimately show ?thesis using that s' by simp
qed

lemma resize:
  fixes v :: u32
  assumes "file_ready d sb i s"
  defines "s' \<equiv> upd_inode i (\<lambda>ip. ip\<lparr>i_size := v\<rparr>) s"
  shows "file_ready d sb i s'" "io s' = io s" "icache s' ! i = (icache s ! i)\<lparr>i_size := v\<rparr>" "length (icache s') = length (icache s)"
    "j \<noteq> i \<Longrightarrow> icache s' ! j = icache s ! j" "byte_at i s' k = byte_at i s k" "mapped d i s' bn = mapped d i s bn"
  using file_readyD(2) [OF assms(1)] assms(1)
  by (simp_all add: s'_def upd_inode_def upd_def file_ready_def byte_at_def mapped_def)

text \<open>The file with its new bytes and its new size is in good order.\<close>

lemma regular_after:
  assumes R: "regular d sb i s" and ready: "file_ready d sb i s'" and st: "file_step (disk (io s)) d sb (i_addrs (icache s ! i)) (disk (io s')) (i_addrs (icache s' ! i))"
    and ip: "i_type (icache s' ! i) = i_type (icache s ! i)" "i_inum (icache s' ! i) = i_inum (icache s ! i)"
    and off: "off \<le> unat (i_size (icache s ! i))" "off + length xs \<le> MAXFILE * BSIZE"
    and sz: "unat (i_size (icache s' ! i)) = max (unat (i_size (icache s ! i))) (off + length xs)"
    and bytes: "\<And>k. k < MAXFILE * BSIZE \<Longrightarrow> byte_at i s' k = written (byte_at i s) off xs k"
    and mp: "\<And>bn. off div BSIZE \<le> bn \<Longrightarrow> bn * BSIZE < off + length xs \<Longrightarrow> xs \<noteq> [] \<Longrightarrow> mapped d i s' bn"
  shows "regular d sb i s'" "file_bytes i s' = take off (file_bytes i s) @ xs @ drop (off + length xs) (file_bytes i s)"
proof -
  note G = regularD [OF R]
  have "mapped d i s' bn" if bn: "bn * BSIZE < max (unat (i_size (icache s ! i))) (off + length xs)" for bn
  proof (cases "bn * BSIZE < unat (i_size (icache s ! i))")
    case True
    then have "bn < MAXFILE" using G(5) by simp
    then show ?thesis using G(6) [OF True] st by (auto simp: mapped_def file_step_def)
  next
    case False
    then have "off div BSIZE \<le> bn" using off(1) by (metis div_le_mono le_trans linorder_not_less nonzero_mult_div_cancel_right zero_neq_numeral)
    moreover have "bn * BSIZE < off + length xs" using bn False by simp
    moreover have "xs \<noteq> []" using bn False off(1) by auto
    ultimately show ?thesis by (rule mp)
  qed
  then show "regular d sb i s'" using ready G(2-5) ip off(2) unfolding regular_def sz by simp
  show "file_bytes i s' = take off (file_bytes i s) @ xs @ drop (off + length xs) (file_bytes i s)"
  proof (rule nth_equalityI)
    show "length (file_bytes i s') = length (take off (file_bytes i s) @ xs @ drop (off + length xs) (file_bytes i s))"
      using off(1) by (simp add: sz)
    fix k
    assume "k < length (file_bytes i s')"
    then have k: "k < max (unat (i_size (icache s ! i))) (off + length xs)" by (simp add: sz)
    then have "k < MAXFILE * BSIZE" using G(5) off(2) by simp
    then have "file_bytes i s' ! k = written (byte_at i s) off xs k" using k bytes by (simp add: file_bytes_def sz)
    also have "\<dots> = (take off (file_bytes i s) @ xs @ drop (off + length xs) (file_bytes i s)) ! k"
      using k off(1) by (auto simp: written_def nth_append file_bytes_def)
    finally show "file_bytes i s' ! k = (take off (file_bytes i s) @ xs @ drop (off + length xs) (file_bytes i s)) ! k" .
  qed
qed

lemma writei_ok:
  assumes R: "regular d sb i s" and off: "off \<le> length (file_bytes i s)" "off + n < 2 ^ 32" and src: "n \<le> length src"
  defines "l \<equiv> min n (MAXFILE * BSIZE - off)"
  assumes rm: "need off l \<le> room d sb s"
  obtains s' where "writei i src (of_nat off) (of_nat n) s = Inr (Done (int l) [], s')" "regular d sb i s'"
    "file_bytes i s' = take off (file_bytes i s) @ take l src @ drop (off + l) (file_bytes i s)"
    "\<forall>a. data_addr (disk (io s)) d sb a \<longrightarrow> \<not> owns (disk (io s)) d (i_addrs (icache s ! i)) a \<longrightarrow>
       data_addr (disk (io s')) d sb a \<and> \<not> owns (disk (io s')) d (i_addrs (icache s' ! i)) a \<and> disk (io s') (d, a) = disk (io s) (d, a)"
    "\<forall>j. j \<noteq> i \<longrightarrow> icache s' ! j = icache s ! j" "length (icache s') = length (icache s)"
    "off + l > length (file_bytes i s) \<Longrightarrow> get_dinode (inode_slot (i_inum (icache s ! i))) (disk (io s') (d, IBLOCK (i_inum (icache s ! i)))) = dinode_of (icache s' ! i)"
    "\<forall>k<MAXFILE * BSIZE. byte_at i s' k = written (byte_at i s) off (take l src) k" "i_type (icache s' ! i) = i_type (icache s ! i)"
proof -
  note G = regularD [OF R]
  note F = file_readyD [OF G(1)]
  define sz where "sz = i_size (icache s ! i)"
  have off': "off \<le> unat sz" using off(1) by (simp add: sz_def)
  have offm: "off \<le> unat (of_nat (MAXFILE * BSIZE) :: u32)" using off' G(5) by (simp add: sz_def)
  note W = words_of_offsets [OF off' off(2)] and W2 = words_of_offsets [OF offm off(2)]
  have l: "off + l \<le> MAXFILE * BSIZE" "l \<le> length src" using off' G(5) src by (auto simp: l_def sz_def)
  have len: "(if of_nat off + of_nat n > (of_nat (MAXFILE * BSIZE) :: u32) then of_nat (MAXFILE * BSIZE) - of_nat off else of_nat n) = (of_nat l :: u32)"
    unfolding W2(2, 3) using off' G(5) by (auto simp: l_def sz_def)
  have "\<exists>s'. writei_loop i src (of_nat off) (of_nat l) (of_nat 0) s = Inr (of_nat (off + (l - 0)), s') \<and> rw_step d sb i s s' \<and>
    (\<forall>k<MAXFILE * BSIZE. byte_at i s' k = written (byte_at i s) off (slice 0 (l - 0) src) k) \<and>
    (\<forall>bn. off div BSIZE \<le> bn \<longrightarrow> bn * BSIZE < off + (l - 0) \<longrightarrow> 0 < l \<longrightarrow> mapped d i s' bn)"
    by (rule writei_loop_ok [OF G(1, 3)]) (use l rm in simp_all)
  then obtain s1 where s1: "writei_loop i src (of_nat off) (of_nat l) 0 s = Inr (of_nat (off + l), s1)" "rw_step d sb i s s1"
    "\<And>k. k < MAXFILE * BSIZE \<Longrightarrow> byte_at i s1 k = written (byte_at i s) off (take l src) k"
    "\<And>bn. off div BSIZE \<le> bn \<Longrightarrow> bn * BSIZE < off + l \<Longrightarrow> 0 < l \<Longrightarrow> mapped d i s1 bn"
    by (auto simp: slice_def)
  note R1 = rw_step_ready [OF G(1) s1(2)] and I1 = rw_step_inode [OF s1(2) F(2)] and E1 = rw_step_fields [OF s1(2) F(2)]
  have st1: "file_step (disk (io s)) d sb (i_addrs (icache s ! i)) (disk (io s1)) (i_addrs (icache s1 ! i))"
    using s1(2) by (simp add: rw_step_def)
  have lt: "length (take l src) = l" using l(2) by simp
  have uo: "unat (of_nat (off + l) :: u32) = off + l" using l(1) by (simp add: unsigned_of_nat take_bit_nat_eq_self del: of_nat_add)
  have gr: "(0 < (of_nat l :: u32) \<and> i_size (icache s1 ! i) < of_nat (off + l)) = (off + l > unat sz)"
  proof -
    have "unat (of_nat l :: u32) = l" using l(1) by (simp add: unsigned_of_nat take_bit_nat_eq_self)
    then show ?thesis using uo off' E1(4) by (auto simp: word_less_nat_alt sz_def)
  qed
  have step: "writei i src (of_nat off) (of_nat n) s = bindE (if off + l > unat sz
      then iupdate i (upd_inode i (\<lambda>ip. ip\<lparr>i_size := of_nat (off + l)\<rparr>) s1) else Inr s1) (\<lambda>s. Inr (Done (int l) [], s))"
  proof -
    have "uint (of_nat l :: u32) = int l" using l(1) by (simp add: unsigned_of_nat take_bit_nat_eq_self)
    then show ?thesis
      unfolding writei_def Let_def sz_def [symmetric] if_not_P [OF G(2)] if_not_P [OF W(1)] len
      using s1(1) gr by simp
  qed
  have o: "off \<le> unat (i_size (icache s ! i))" "off + length (take l src) \<le> MAXFILE * BSIZE" using off' l(1) lt by (simp_all add: sz_def)
  have mp1: "mapped d i s1 bn" if "off div BSIZE \<le> bn" "bn * BSIZE < off + length (take l src)" "take l src \<noteq> []" for bn
    using s1(4) that by (cases l) (auto simp: lt)
  show ?thesis
  proof (cases "off + l > unat sz")
    case False
    have "unat (i_size (icache s1 ! i)) = max (unat (i_size (icache s ! i))) (off + length (take l src))"
      using False E1(4) by (simp add: lt sz_def)
    note RA = regular_after [OF R R1 st1 E1(3, 2) o this s1(3) mp1]
    show ?thesis
    proof (rule that [of s1])
      show "writei i src (of_nat off) (of_nat n) s = Inr (Done (int l) [], s1)" using step False by simp
    qed (use RA lt st1 I1 False s1(3) E1(3) in \<open>simp_all add: file_step_def sz_def\<close>)
  next
    case True
    define s2 where "s2 = upd_inode i (\<lambda>ip. ip\<lparr>i_size := of_nat (off + l)\<rparr>) s1"
    note R2 = resize [OF R1, where v = "of_nat (off + l)", folded s2_def]
    have in2: "unat (i_inum (icache s2 ! i)) < unat (sb_ninodes sb)" using G(4) E1(2) R2(3) by simp
    obtain s3 where s3: "iupdate i s2 = Inr s3" "rw_step d sb i s2 s3" "icache s3 = icache s2"
      "\<And>k. k < MAXFILE * BSIZE \<Longrightarrow> byte_at i s3 k = byte_at i s2 k" "\<And>bn. mapped d i s3 bn = mapped d i s2 bn"
      "get_dinode (inode_slot (i_inum (icache s2 ! i))) (disk (io s3) (d, IBLOCK (i_inum (icache s2 ! i)))) = dinode_of (icache s2 ! i)"
      using iupdate_ok [OF R2(1) in2] by metis
    have "file_step (disk (io s2)) d sb (i_addrs (icache s2 ! i)) (disk (io s3)) (i_addrs (icache s3 ! i))"
      using s3(2) by (simp add: rw_step_def)
    then have st3: "file_step (disk (io s)) d sb (i_addrs (icache s ! i)) (disk (io s3)) (i_addrs (icache s3 ! i))"
      using file_step_trans [OF st1] R2(2, 3) by simp
    have R3: "file_ready d sb i s3" by (rule rw_step_ready [OF R2(1) s3(2)])
    have E3: "i_type (icache s3 ! i) = i_type (icache s ! i)" "i_inum (icache s3 ! i) = i_inum (icache s ! i)"
      "unat (i_size (icache s3 ! i)) = off + l" using E1 R2(3) s3(3) uo by simp_all
    have sz3: "unat (i_size (icache s3 ! i)) = max (unat (i_size (icache s ! i))) (off + length (take l src))"
      unfolding lt using True E3(3) by (simp add: sz_def)
    have b3: "byte_at i s3 k = written (byte_at i s) off (take l src) k" if "k < MAXFILE * BSIZE" for k
      using s3(4) [OF that] R2(6) s1(3) [OF that] by simp
    have mp3: "mapped d i s3 bn" if "off div BSIZE \<le> bn" "bn * BSIZE < off + length (take l src)" "take l src \<noteq> []" for bn
      using mp1 [OF that] s3(5) R2(7) by simp
    note RA = regular_after [OF R R3 st3 E3(1, 2) o sz3 b3 mp3]
    have "regular d sb i s3" "file_bytes i s3 = take off (file_bytes i s) @ take l src @ drop (off + l) (file_bytes i s)"
      using RA lt by simp_all
    moreover have "writei i src (of_nat off) (of_nat n) s = Inr (Done (int l) [], s3)" using step True s3(1) by (simp add: s2_def)
    moreover have "get_dinode (inode_slot (i_inum (icache s ! i))) (disk (io s3) (d, IBLOCK (i_inum (icache s ! i)))) = dinode_of (icache s3 ! i)"
      using s3(3, 6) E3(2) by simp
    moreover have "\<forall>k<MAXFILE * BSIZE. byte_at i s3 k = written (byte_at i s) off (take l src) k" using b3 by blast
    moreover have "\<forall>j. j \<noteq> i \<longrightarrow> icache s3 ! j = icache s ! j" "length (icache s3) = length (icache s)"
      using I1 R2(4, 5) s3(3) by simp_all
    moreover have "\<forall>a. data_addr (disk (io s)) d sb a \<longrightarrow> \<not> owns (disk (io s)) d (i_addrs (icache s ! i)) a \<longrightarrow>
       data_addr (disk (io s3)) d sb a \<and> \<not> owns (disk (io s3)) d (i_addrs (icache s3 ! i)) a \<and> disk (io s3) (d, a) = disk (io s) (d, a)"
      using st3 by (simp add: file_step_def)
    ultimately show ?thesis using E3(1) by (intro that)
  qed
qed

section \<open>Properties\<close>

text \<open>
  C2. A regular file is a list of bytes. On a consistent volume with enough free blocks,
  \<^verbatim>\<open>writei\<close> (fs.c) at an offset inside the file returns the number of bytes that fit under the
  maximal size, replaces exactly these bytes (growing the file when they reach past its end),
  keeps the volume consistent and leaves every block of the other files as it is. Whatever
  range is then read with \<^verbatim>\<open>readi\<close>, it returns these bytes and does not change the disk.
\<close>

theorem file_write_read:
  assumes "regular d sb i s" "off \<le> length (file_bytes i s)" "off + n < 2 ^ 32" "n \<le> length src"
    and "l = min n (MAXFILE * BSIZE - off)" "need off l \<le> room d sb s"
  shows "\<exists>s'. writei i src (of_nat off) (of_nat n) s = Inr (Done (int l) [], s') \<and> regular d sb i s' \<and>
    file_bytes i s' = take off (file_bytes i s) @ take l src @ drop (off + l) (file_bytes i s) \<and>
    (\<forall>a. data_addr (disk (io s)) d sb a \<longrightarrow> \<not> owns (disk (io s)) d (i_addrs (icache s ! i)) a \<longrightarrow>
       \<not> owns (disk (io s')) d (i_addrs (icache s' ! i)) a \<and> disk (io s') (d, a) = disk (io s) (d, a)) \<and>
    (\<forall>o2 n2. o2 \<le> length (file_bytes i s') \<longrightarrow> o2 + n2 < 2 ^ 32 \<longrightarrow>
       (\<exists>s''. readi i (of_nat o2) (of_nat n2) s' =
          Inr (Done (int (min n2 (length (file_bytes i s') - o2))) (slice o2 (min n2 (length (file_bytes i s') - o2)) (file_bytes i s')), s'') \<and>
        disk (io s'') = disk (io s')))"
proof -
  obtain s' where s': "writei i src (of_nat off) (of_nat n) s = Inr (Done (int l) [], s')" "regular d sb i s'"
    "file_bytes i s' = take off (file_bytes i s) @ take l src @ drop (off + l) (file_bytes i s)"
    "\<forall>a. data_addr (disk (io s)) d sb a \<longrightarrow> \<not> owns (disk (io s)) d (i_addrs (icache s ! i)) a \<longrightarrow>
       data_addr (disk (io s')) d sb a \<and> \<not> owns (disk (io s')) d (i_addrs (icache s' ! i)) a \<and> disk (io s') (d, a) = disk (io s) (d, a)"
    by (rule writei_ok [OF assms(1-4) assms(6) [unfolded assms(5)], folded assms(5)])
  have rd: "\<exists>s''. readi i (of_nat o2) (of_nat n2) s' =
      Inr (Done (int (min n2 (length (file_bytes i s') - o2))) (slice o2 (min n2 (length (file_bytes i s') - o2)) (file_bytes i s')), s'') \<and>
      disk (io s'') = disk (io s')" if "o2 \<le> length (file_bytes i s')" "o2 + n2 < 2 ^ 32" for o2 n2
    using readi_ok [OF s'(2) that] by metis
  show ?thesis by (intro exI [of _ s'] conjI allI impI s'(1-3) rd) (use s'(4) in blast)+
qed

text \<open>A small volume with one empty file.\<close>

definition small_fs :: fs where
  "small_fs = \<lparr>io = fresh_cache (small_disk 100),
     icache = [\<lparr>i_dev = 1, i_inum = 3, i_ref = 1, i_flags = 3, i_type = T_FILE, i_major = 0, i_minor = 0, i_nlink = 1,
                i_size = 0, i_addrs = replicate 13 0\<rparr>],
     wakes = []\<rparr>"

definition small_sb :: superblock where
  "small_sb = \<lparr>sb_size = 100, sb_nblocks = 100, sb_ninodes = 16\<rparr>"

lemma small_volume:
  "vol_ready (fresh_cache (small_disk 100)) {} 1 small_sb"
  "free_blocks (small_disk 100) 1 small_sb = {18..<100}"
proof -
  have len: "length (small_disk 100 a) = 512" for a by (simp add: small_disk_def superblock_bytes_def)
  note F = fresh_cache_ok [OF len]
  have "BBLOCK (of_nat k) 16 = 5" if "k < 4096" for k using that by (simp add: BBLOCK_nat)
  then have eq: "in_use (small_disk 100) 1 16 k \<longleftrightarrow> \<not> bit_clear ([0xFF, 0xFF, 0x03] @ replicate 509 0) k" if "k < 4096" for k
    using that by (simp add: in_use_def small_disk_def)
  have "list_all (\<lambda>k. bit_clear ([0xFF, 0xFF, 0x03] @ replicate 509 0) k = (18 \<le> k)) [0..<100]" by code_simp
  then have U: "in_use (small_disk 100) 1 16 k \<longleftrightarrow> k < 18" if "k < 100" for k
    using that by (auto simp: eq list_all_iff)
  then show "free_blocks (small_disk 100) 1 small_sb = {18..<100}" by (auto simp: free_blocks_def small_sb_def)
  have sup: "get_superblock (small_disk 100 (1, 1)) = small_sb" by (simp add: small_disk_def small_sb_def get_superblock_bytes)
  have ds: "data_start small_sb = 6" by (simp add: data_start_def small_sb_def)
  have zero: "small_disk 100 (1, of_nat b) = replicate BSIZE 0" if "6 \<le> b" "b < 100" for b
  proof -
    have "unat (of_nat b :: u32) = b" using that by (simp add: unsigned_of_nat take_bit_nat_eq_self)
    then have "of_nat b \<noteq> (1 :: u32)" "of_nat b \<noteq> (5 :: u32)" using that by auto
    then show ?thesis by (simp add: small_disk_def)
  qed
  have "vol_ok (small_disk 100) 1 small_sb"
    unfolding vol_ok_def ds by (intro conjI allI impI) (use sup len U zero in \<open>simp_all add: small_sb_def\<close>)
  then show "vol_ready (fresh_cache (small_disk 100)) {} 1 small_sb"
    using F by (simp add: vol_ready_def block_addr_def)
qed

lemma small_file: "regular 1 small_sb 0 small_fs" "file_bytes 0 small_fs = []" "room 1 small_sb small_fs = 82"
proof -
  have D: "disk (fresh_cache (small_disk 100)) = small_disk 100"
    by (rule fresh_cache_ok(2)) (simp add: small_disk_def superblock_bytes_def)
  have fa: "faddr D d (replicate 13 0) bn = 0" for D d bn by (auto simp: faddr_def)
  have "file_ok (small_disk 100) 1 small_sb (replicate 13 0)" unfolding file_ok_def fa by simp
  then have "file_ready 1 small_sb 0 small_fs"
    using small_volume(1) by (simp add: file_ready_def small_fs_def D)
  then show "regular 1 small_sb 0 small_fs" by (simp add: regular_def small_fs_def small_sb_def)
  show "file_bytes 0 small_fs = []" by (simp add: file_bytes_def small_fs_def)
  show "room 1 small_sb small_fs = 82" by (simp add: room_def small_fs_def D small_volume(2))
qed

theorem file_write_read_witness:
  "\<exists>s' s''. writei 0 [104, 105, 10] 0 3 small_fs = Inr (Done 3 [], s') \<and> readi 0 1 10 s' = Inr (Done 2 [105, 10], s'')"
proof -
  have "need 0 3 \<le> room 1 small_sb small_fs" by (simp add: need_def small_file)
  from file_write_read [OF small_file(1), of 0 3 "[104, 105, 10]" 3] this obtain s' where
    s': "writei 0 [104, 105, 10] 0 3 small_fs = Inr (Done 3 [], s')" "file_bytes 0 s' = [104, 105, 10]"
    "\<forall>o2 n2. o2 \<le> length (file_bytes 0 s') \<longrightarrow> o2 + n2 < 2 ^ 32 \<longrightarrow>
       (\<exists>s''. readi 0 (of_nat o2) (of_nat n2) s' =
          Inr (Done (int (min n2 (length (file_bytes 0 s') - o2))) (slice o2 (min n2 (length (file_bytes 0 s') - o2)) (file_bytes 0 s')), s'') \<and>
        disk (io s'') = disk (io s'))"
    by (auto simp: small_file simp del: length_file_bytes)
  from spec [OF spec [OF s'(3)], of 1 10] have "\<exists>s''. readi 0 1 10 s' = Inr (Done 2 [105, 10], s'')"
    unfolding s'(2) by (auto simp: slice_def)
  then show ?thesis using s'(1) by blast
qed

end
