(* ===== verification/Machine.thy ===== *)
theory Machine
  imports Fd_Calls Fs_File
begin

unbundle bit_operations_syntax

text \<open>
  The machine with one CPU as a step relation over the kernel's entry points: the scheduler
  picks a process, the process traps into the kernel, sleeps there, is woken and goes on.
  The reference counts of open files are exact in every state the machine reaches.
\<close>

section \<open>Steps\<close>

text \<open>What a process that has left the CPU inside the kernel does when it runs again.\<close>

datatype resumption = Finish pending | Yielded trapframe

record machine =
  kern :: kernel
  on_cpu :: bool
  waiting :: "nat \<Rightarrow> resumption option"

fun settle :: "trapframe \<Rightarrow> outcome_sys \<Rightarrow> machine \<Rightarrow> machine" where
  "settle tf (Answer (Reply v k)) m = m\<lparr>kern := k, waiting := (waiting m)(k_proc k := None)\<rparr>"
| "settle tf (Answer (Waits c w k)) m =
     m\<lparr>kern := k\<lparr>k_ptable := sleep_enter c (k_proc k) (k_ptable k)\<rparr>, on_cpu := False,
       waiting := (waiting m)(k_proc k := Some (Finish w))\<rparr>"
| "settle tf (Exits k) m = m\<lparr>kern := k, on_cpu := False, waiting := (waiting m)(k_proc k := None)\<rparr>"
| "settle tf (Yields k) m = m\<lparr>kern := k, on_cpu := False, waiting := (waiting m)(k_proc k := Some (Yielded tf))\<rparr>"

text \<open>A woken call that answers goes through the ends of \<^verbatim>\<open>syscall\<close> and \<^verbatim>\<open>trap\<close>.\<close>

definition woken :: "pending \<Rightarrow> kernel \<Rightarrow> outcome_sys res" where
  "woken w k =
     bindE (resume w (k\<lparr>k_ptable := sleep_leave (k_proc k) (k_ptable k)\<rparr>)) (\<lambda>r.
     case r of
       Reply v k \<Rightarrow> exit_if_killed (set_eax v k)
     | Waits c w k \<Rightarrow> Inr (Answer (Waits c w k)))"

inductive machine_step :: "machine \<Rightarrow> machine \<Rightarrow> bool" where
  schedules: "\<not> on_cpu m \<Longrightarrow> scheduler_round (k_ticks (kern m)) (k_ptable (kern m)) = (Some i, ps) \<Longrightarrow>
    machine_step m (m\<lparr>kern := (kern m)\<lparr>k_ptable := ps, k_proc := i\<rparr>, on_cpu := True\<rparr>)"
| idles: "\<not> on_cpu m \<Longrightarrow> scheduler_round (k_ticks (kern m)) (k_ptable (kern m)) = (None, ps) \<Longrightarrow>
    machine_step m (m\<lparr>kern := (kern m)\<lparr>k_ptable := ps\<rparr>\<rparr>)"
| traps: "on_cpu m \<Longrightarrow> waiting m (k_proc (kern m)) = None \<Longrightarrow> \<not> idle h \<Longrightarrow>
    trap junk stack h tf (kern m) = Inr out \<Longrightarrow> machine_step m (settle tf out m)"
| interrupts: "\<not> on_cpu m \<Longrightarrow> idle h \<Longrightarrow> tf_trapno tf \<noteq> T_SYSCALL \<Longrightarrow>
    trap junk stack h tf (kern m) = Inr (Answer (Reply v k)) \<Longrightarrow> machine_step m (m\<lparr>kern := k\<rparr>)"
| wakes: "on_cpu m \<Longrightarrow> waiting m (k_proc (kern m)) = Some (Finish w) \<Longrightarrow>
    woken w (kern m) = Inr out \<Longrightarrow> machine_step m (settle tf out m)"
| resumes: "on_cpu m \<Longrightarrow> waiting m (k_proc (kern m)) = Some (Yielded tf) \<Longrightarrow>
    after_yield tf (kern m) = Inr out \<Longrightarrow> machine_step m (settle tf out m)"

section \<open>Traps\<close>

lemma print_addrs_same [fds]: "print_addrs pcs k = Inr k' \<Longrightarrow> same_fds k k'"
proof (induction pcs arbitrary: k)
  case (Cons pc pcs)
  then show ?case by (auto elim!: bindE_InrE dest!: kprint_same Cons.IH intro: same_fds_trans)
qed auto

lemma procdump_loop_same: "procdump_loop ps k = Inr k' \<Longrightarrow> same_fds k k'"
proof (induction ps arbitrary: k)
  case (Cons p ps)
  from Cons.prems show ?case
    by (auto elim!: bindE_InrE split: if_splits dest!: fds Cons.IH) (metis same_fds_trans)+
qed auto

lemma console_events_same [fds]: "console_events es k = Inr k' \<Longrightarrow> same_fds k k'"
proof (induction es k rule: console_events.induct)
  case (2 c es k)
  then show ?case by (auto split: option.splits intro: same_fds_trans [OF same_fds_simps(7)])
next
  case (3 es k)
  from "3.prems" obtain k1 where k1: "procdump k = Inr k1" "console_events es k1 = Inr k'"
    by (auto elim!: bindE_InrE)
  show ?case
    by (rule same_fds_trans [OF procdump_loop_same [OF k1(1) [unfolded procdump_def]] "3.IH" [OF k1]])
next
  case (4 c es k)
  then show ?case by (auto intro: same_fds_trans [OF same_fds_wakeups])
qed auto

lemma interrupt_same [fds]: "interrupt h tf k = Inr k' \<Longrightarrow> same_fds k k'"
proof -
  have t: "same_fds k (timer_tick k)"
    by (simp add: timer_tick_def same_fds_def wakeups_def wakeup_def wakeup1_same)
  have i: "same_fds (k\<lparr>k_input := i, k_shift := s\<rparr>) l \<Longrightarrow> same_fds k l" "same_fds (k\<lparr>k_input := i\<rparr>) l \<Longrightarrow> same_fds k l" for i s l
    by (simp_all add: same_fds_def)
  have w: "same_fds k (wakeups cs (k\<lparr>k_fs := f\<rparr>))" for cs f
    by (simp add: same_fds_def wakeups_def wakeup_same)
  have u: "same_fds l (upd_cur (\<lambda>p. p\<lparr>p_killed := 1\<rparr>) l)" for l
    by (rule same_fds_upd_cur) (simp add: same_procI)
  show "interrupt h tf k = Inr k' \<Longrightarrow> same_fds k k'"
    unfolding interrupt_def Let_def split_def
    by (auto simp: t w elim!: bindE_InrE split: if_splits dest!: console_events_same kprint_same i intro: same_fds_trans [OF _ u])
qed

lemma exit_if_killed_ok: "exit_if_killed k = Inr r \<Longrightarrow> fds_ok k \<Longrightarrow> outcome_ok r"
  by (auto simp: exit_if_killed_def exit_ok split: if_splits)

lemma yield_inv: "fd_inv E k \<Longrightarrow> active k \<Longrightarrow> fd_inv E (k\<lparr>k_ptable := yield_proc (k_proc k) (k_ptable k)\<rparr>)"
proof -
  assume "fd_inv E k" "active k"
  then have "fd_inv E (upd_proc (k_proc k) (\<lambda>p. update_ticks (p\<lparr>p_state := RUNNABLE\<rparr>)) k)"
    by (intro upd_proc_inv) (auto simp: active_def dead_def update_ticks_def Let_def)
  then show ?thesis by (simp add: upd_proc_def yield_proc_def)
qed

lemma trap_ok:
  assumes "fds_ok k" "\<not> idle h" "trap junk stack h tf k = Inr r"
  shows "outcome_ok r"
proof (cases "tf_trapno tf = T_SYSCALL")
  case True
  have u: "fds_ok (upd_cur (\<lambda>p. p\<lparr>p_tf := tf\<rparr>) k)"
    by (rule fds_ok_same [OF assms(1) same_fds_upd_cur]) (simp add: same_procI)
  from assms(3) True consider (killed) "bindE (exit k) (\<lambda>k. Inr (Exits k)) = Inr r"
    | (call) q where "syscall junk stack (upd_cur (\<lambda>p. p\<lparr>p_tf := tf\<rparr>) k) = Inr q"
        "(case q of Answer (Reply v k) \<Rightarrow> exit_if_killed k | Answer (Waits c w k) \<Rightarrow> Inr (Answer (Waits c w k))
           | Exits k \<Rightarrow> Inr (Exits k) | Yields k \<Rightarrow> Inr (Yields k)) = Inr r"
    by (auto simp: trap_def trap_syscall_def elim!: bindE_InrE split: if_splits)
  then show ?thesis
  proof cases
    case killed
    then show ?thesis using exit_ok assms(1) by blast
  next
    case call
    have "outcome_ok q" by (rule syscall_ok [OF call(1) u])
    then show ?thesis using call(2) by (auto split: outcome_sys.splits reply.splits intro: exit_if_killed_ok)
  qed
next
  case False
  with assms(3) obtain k1 where k1: "interrupt h tf k = Inr k1" and r: "bindE (exit k1) (\<lambda>k. Inr (Exits k)) = Inr r \<or>
      r = Yields (k1\<lparr>k_ptable := yield_proc (k_proc k1) (k_ptable k1)\<rparr>) \<or> r = Answer (Reply 0 k1)"
    by (auto simp: trap_def elim!: bindE_InrE split: if_splits)
  have "fds_ok k1" by (rule fds_ok_same [OF assms(1) interrupt_same [OF k1]])
  then show ?thesis using r yield_inv exit_ok by (auto simp: fds_ok_def)
qed

section \<open>The invariant of the machine\<close>

definition machine_ok :: "machine \<Rightarrow> bool" where
  "machine_ok m \<longleftrightarrow> fd_inv (\<lambda>_. 0) (kern m) \<and> (on_cpu m \<longrightarrow> active (kern m))"

lemma settle_ok: "outcome_ok out \<Longrightarrow> on_cpu m \<Longrightarrow> machine_ok (settle tf out m)"
proof (induction tf out m rule: settle.induct)
  case (2 tf c w k m)
  then have "fd_inv (\<lambda>_. 0) (upd_proc (k_proc k) (\<lambda>p. p\<lparr>p_chan := Some c, p_state := SLEEPING\<rparr>) k)"
    by (intro upd_proc_inv) (auto simp: fds_ok_def active_def dead_def)
  then show ?case by (simp add: machine_ok_def upd_proc_def sleep_enter_def)
qed (auto simp: machine_ok_def fds_ok_def)

lemma scheduler_inv:
  assumes "fd_inv E k" "scheduler_round t (k_ptable k) = (r, ps)"
  shows "fd_inv E (k\<lparr>k_ptable := ps\<rparr>)" "r = Some i \<Longrightarrow> i < length ps \<and> p_state (ps ! i) = RUNNING"
proof -
  define k1 where "k1 = k\<lparr>k_ptable := boost t (k_ptable k)\<rparr>"
  have "same_fds k k1"
    by (auto simp: k1_def same_fds_def boost_def list_all2_conv_all_nth same_procI)
  then have k1: "fd_inv E k1" using assms(1) same_fds_inv(1) by blast
  show "fd_inv E (k\<lparr>k_ptable := ps\<rparr>)"
  proof (cases "pick_loop [0..<NPRIOR] (boost t (k_ptable k))")
    case None
    then show ?thesis using assms(2) k1 by (simp add: scheduler_round_def k1_def)
  next
    case (Some j)
    then have j: "j < length (k_ptable k1)" using pick_loop_Some by (fastforce simp: k1_def)
    have "fd_inv E (upd_proc j (\<lambda>p. p\<lparr>p_state := RUNNING, p_last_sched_time := t\<rparr>) k1)"
      by (rule upd_proc_inv [OF k1 j]) (auto simp: dead_def)
    then show ?thesis using Some assms(2) by (auto simp: scheduler_round_def upd_proc_def k1_def)
  qed
  show "i < length ps \<and> p_state (ps ! i) = RUNNING" if "r = Some i"
    using assms(2) that pick_loop_Some by (fastforce simp: scheduler_round_def Let_def upd_def split: option.splits)
qed

lemma machine_step_ok: "machine_step m m' \<Longrightarrow> machine_ok m \<Longrightarrow> machine_ok m'"
proof (induction rule: machine_step.induct)
  case (schedules m i ps)
  then have k: "fd_inv (\<lambda>_. 0) ((kern m)\<lparr>k_ptable := ps\<rparr>)" "i < length ps \<and> p_state (ps ! i) = RUNNING"
    using scheduler_inv by (fastforce simp: machine_ok_def)+
  then show ?case by (simp add: machine_ok_def fd_inv_def fd_count_def active_def cur_def)
next
  case (idles m ps)
  then show ?case using scheduler_inv(1) by (simp add: machine_ok_def)
next
  case (traps m h junk stack tf out)
  then have "outcome_ok out" using trap_ok by (simp add: machine_ok_def fds_ok_def)
  then show ?case using settle_ok traps by blast
next
  case (interrupts m h tf junk stack v k)
  then have "interrupt h tf (kern m) = Inr k"
    by (auto simp: trap_def elim!: bindE_InrE split: if_splits)
  then show ?case using interrupts same_fds_inv(1) [OF interrupt_same] by (simp add: machine_ok_def)
next
  case (wakes m w out tf)
  define k1 where "k1 = (kern m)\<lparr>k_ptable := sleep_leave (k_proc (kern m)) (k_ptable (kern m))\<rparr>"
  have s: "same_fds (kern m) k1"
    by (auto simp: k1_def same_fds_def sleep_leave_def same_procI intro: upd_same)
  have "fds_ok (kern m)" using wakes by (simp add: machine_ok_def fds_ok_def)
  then have k1: "fds_ok k1" by (rule fds_ok_same [OF _ s])
  from wakes(3) obtain r where r: "resume w k1 = Inr r"
    "(case r of Reply v k \<Rightarrow> exit_if_killed (set_eax v k) | Waits c w k \<Rightarrow> Inr (Answer (Waits c w k))) = Inr out"
    unfolding woken_def k1_def [symmetric] by (auto elim!: bindE_InrE)
  have "fds_ok (reply_state r)" by (rule resume_ok [OF r(1) k1])
  then have "outcome_ok out"
    using r(2) by (auto split: reply.splits intro: exit_if_killed_ok fds_ok_same [OF _ set_eax_same])
  then show ?case using settle_ok wakes by blast
next
  case (resumes m tf out)
  then have "outcome_ok out" using exit_ok by (auto simp: machine_ok_def fds_ok_def after_yield_def split: if_splits)
  then show ?case using settle_ok resumes by blast
qed

lemma machine_reach_ok: "machine_step\<^sup>*\<^sup>* m m' \<Longrightarrow> machine_ok m \<Longrightarrow> machine_ok m'"
  by (induction rule: rtranclp_induct) (auto intro: machine_step_ok)


lemma count_list_None: "count_list (replicate n None) (Some (f :: nat)) = 0"
  by (induction n) auto

lemma blank_inv:
  assumes "\<forall>p\<in>set (k_ptable k). p_ofile p = replicate NOFILE None" "\<forall>x\<in>set (k_ftable k). f_ref x = 0"
  shows "fd_inv (\<lambda>_. 0) k"
proof -
  have "fd_count k f = 0" for f
    using assms(1) by (auto simp: fd_count_def sum_list_eq_0_iff count_list_None)
  then show ?thesis using assms by (auto simp: fd_inv_def proc_wf_def no_files_def)
qed

definition blank :: "kernel \<Rightarrow> bool" where
  "blank k \<longleftrightarrow> (\<forall>xs\<in>set (map p_ofile (k_ptable k)). xs = replicate NOFILE None) \<and> (\<forall>r\<in>set (map f_ref (k_ftable k)). r = 0)"

lemma blank_upd_proc: "blank k \<Longrightarrow> (\<And>x. p_ofile (g x) = p_ofile x) \<Longrightarrow> blank (upd_proc p g k)"
proof -
  assume k: "blank k" and g: "\<And>x. p_ofile (g x) = p_ofile x"
  have "map p_ofile (k_ptable (upd_proc p g k)) = map p_ofile (k_ptable k)"
    by (cases "p < length (k_ptable k)")
      (auto simp: upd_proc_def upd_def g nth_list_update list_update_beyond intro!: nth_equalityI)
  then show ?thesis using k by (simp add: blank_def upd_proc_def del: set_map)
qed

lemma blank_same: "blank k \<Longrightarrow> same_fds k k' \<Longrightarrow> blank k'"
proof -
  assume k: "blank k" and s: "same_fds k k'"
  have "map p_ofile (k_ptable k') = map p_ofile (k_ptable k)"
    by (rule nth_equalityI) (use same_fds_inv(5,8) [OF s] in \<open>auto simp: same_proc_def\<close>)
  then show ?thesis using k same_fds_inv(7) [OF s] by (simp add: blank_def del: set_map)
qed

lemma blank_simps [simp]:
  "blank (k\<lparr>k_mem := a\<rparr>) = blank k" "blank (k\<lparr>k_nextpid := b\<rparr>) = blank k" "blank (k\<lparr>k_initproc := c\<rparr>) = blank k"
  "blank (k\<lparr>k_refs := d\<rparr>) = blank k"
  by (simp_all add: blank_def)

lemma allocproc_blank: "blank k \<Longrightarrow> allocproc k = (r, k') \<Longrightarrow> blank k'"
  unfolding allocproc_def Let_def split_def
  by (auto split: option.splits if_splits intro!: blank_upd_proc)

text \<open>The first process, from the tables as static storage has them at boot.\<close>

lemma userinit_machine_ok:
  assumes "blank k" "userinit initcode k = Inr k'"
  shows "machine_ok \<lparr>kern = k', on_cpu = False, waiting = (\<lambda>_. None)\<rparr>"
proof -
  obtain r k1 where a: "allocproc k = (r, k1)" by (cases "allocproc k")
  have k1: "blank k1" by (rule allocproc_blank [OF assms(1) a])
  have "blank k'"
    using assms(2) k1 unfolding userinit_def a Let_def
    by (auto elim!: bindE_InrE split: option.splits if_splits dest!: same_fds_on_fs same_fds_on_mem
        intro!: blank_upd_proc)
      (erule blank_same [rotated], rule blank_upd_proc, erule blank_same [rotated], rule blank_upd_proc,
        erule blank_same [rotated], simp_all)
  then have "fd_inv (\<lambda>_. 0) k'" by (intro blank_inv) (auto simp: blank_def)
  then show ?thesis by (simp add: machine_ok_def)
qed

section \<open>Open files are counted exactly\<close>

definition demo_kernel :: kernel where
  "demo_kernel = \<lparr>
     k_mem = \<lparr>mem = (\<lambda>_. 0), freelist = 0, freecount = 0, kernel_end = 0x110000, kernel_data = 0x108000\<rparr>,
     k_shm = [], k_refs = [],
     k_ptable = [zero_proc\<lparr>p_state := SLEEPING, p_pid := 1, p_chan := Some (ChanProc 0)\<rparr>,
                 zero_proc\<lparr>p_state := RUNNABLE, p_pid := 2, p_pgdir := 0x8D000, p_parent := Some 0, p_cwd := Some 0,
                   p_ofile := [Some 0, Some 0, None, None, None, None, None, None, None, None, None, None, None, None, None, None]\<rparr>],
     k_initproc = Some 0, k_nextpid = 3, k_proc = 0,
     k_fs = small_fs\<lparr>icache := [(icache small_fs ! 0)\<lparr>i_ref := 3\<rparr>]\<rparr>,
     k_ftable = [\<lparr>f_type = FD_INODE, f_ref = 2, f_readable = True, f_writable = False, f_pipe = 0, f_ip = 0, f_off = 0\<rparr>],
     k_pipes = (\<lambda>_. demo_pipe), k_input = \<lparr>ibuf = replicate 128 0, ir = 0, iw = 0, ie = 0\<rparr>,
     k_console = \<lparr>crt = (\<lambda>_. 0), cursor = 0, serial = [], uart = True, panicked = False\<rparr>,
     k_ticks = 7, k_syscalls = 0, k_forkret = 0x103000, k_shift = 0\<rparr>"

definition demo_machine :: machine where
  "demo_machine = \<lparr>kern = demo_kernel, on_cpu = False, waiting = (\<lambda>_. None)\<rparr>"




end
