(* ===== verification/Wait.thy ===== *)
theory Wait
  imports Machine
begin

text \<open>
  Waiting for children: a process that sleeps in \<^verbatim>\<open>wait\<close> is woken by the \<^verbatim>\<open>exit\<close> of a child,
  and then finds it.
\<close>

section \<open>Operations that only wake processes\<close>

definition woke :: "proc \<Rightarrow> proc \<Rightarrow> bool" where
  "woke p q \<longleftrightarrow> q = p \<or> p_state p = SLEEPING \<and> q = p\<lparr>p_state := RUNNABLE\<rparr>"

definition only_wakes :: "kernel \<Rightarrow> kernel \<Rightarrow> bool" where
  "only_wakes k k' \<longleftrightarrow> k_proc k' = k_proc k \<and> k_initproc k' = k_initproc k \<and> list_all2 woke (k_ptable k) (k_ptable k')"

lemma woke_refl [simp]: "woke p p"
  by (simp add: woke_def)

lemma woke_trans: "woke p q \<Longrightarrow> woke q r \<Longrightarrow> woke p r"
  by (auto simp: woke_def)

lemma only_wakes_trans: "only_wakes k l \<Longrightarrow> only_wakes l m \<Longrightarrow> only_wakes k m"
  unfolding only_wakes_def by (auto intro: list_all2_trans [OF woke_trans])

lemma wakeup1_wakes: "list_all2 woke ps (wakeup1 c ps)"
  by (auto simp: wakeup1_def list_all2_conv_all_nth woke_def)

lemma wakeups_wake: "list_all2 woke ps (fold wakeup cs ps)"
proof (induction cs arbitrary: ps)
  case (Cons c cs)
  show ?case using list_all2_trans [OF woke_trans wakeup1_wakes [of ps "Some c"] Cons.IH] by (simp add: wakeup_def)
qed (simp add: list_all2_same)

lemma on_fs'_wakes: "on_fs' f k = Inr k' \<Longrightarrow> only_wakes k k'"
  unfolding on_fs'_def by (auto elim!: bindE_InrE simp: only_wakes_def wakeups_def wakeups_wake)

lemma close_pipe_wakes: "close_pipe a w k = Inr k' \<Longrightarrow> only_wakes k k'"
  unfolding close_pipe_def by (auto elim!: bindE_InrE simp: only_wakes_def wakeups_def wakeups_wake)

lemma fileclose_wakes: "fileclose f k = Inr k' \<Longrightarrow> only_wakes k k'"
proof -
  have u: "only_wakes l (upd_file f g l)" for g l
    by (simp add: only_wakes_def upd_file_def list_all2_same)
  show "fileclose f k = Inr k' \<Longrightarrow> only_wakes k k'"
    unfolding fileclose_def Let_def
    by (auto split: if_splits ftype.splits dest!: on_fs'_wakes close_pipe_wakes
        intro: only_wakes_trans [OF u] only_wakes_trans [OF u only_wakes_trans [OF u]] u)
qed

text \<open>What closing the files of the current process does to the process table.\<close>

lemma close_files_table:
  "close_files fds k = Inr k' \<Longrightarrow> k_proc k' = k_proc k \<and> k_initproc k' = k_initproc k \<and> length (k_ptable k') = length (k_ptable k) \<and>
     (\<forall>i<length (k_ptable k). i \<noteq> k_proc k \<longrightarrow> woke (k_ptable k ! i) (k_ptable k' ! i)) \<and>
     (k_proc k < length (k_ptable k) \<longrightarrow> p_state (cur k) = RUNNING \<longrightarrow> (\<exists>xs. cur k' = (cur k)\<lparr>p_ofile := xs\<rparr>))"
proof (induction fds arbitrary: k)
  case Nil
  then show ?case by (auto intro: exI [of _ "p_ofile (cur k)"])
next
  case (Cons fd fds)
  show ?case
  proof (cases "p_ofile (cur k) ! fd")
    case None
    then show ?thesis using Cons by simp
  next
    case (Some f)
    with Cons.prems obtain k1 where k1: "fileclose f k = Inr k1"
      and rest: "close_files fds (upd_cur (\<lambda>x. x\<lparr>p_ofile := (p_ofile x)[fd := None]\<rparr>) k1) = Inr k'"
      by (auto elim!: bindE_InrE)
    have w: "k_proc k1 = k_proc k" "k_initproc k1 = k_initproc k" "length (k_ptable k1) = length (k_ptable k)"
      "i < length (k_ptable k) \<Longrightarrow> woke (k_ptable k ! i) (k_ptable k1 ! i)" for i
      using fileclose_wakes [OF k1] by (auto simp: only_wakes_def list_all2_conv_all_nth)
    note ih = Cons.IH [OF rest]
    have c: "cur k1 = cur k" if "k_proc k < length (k_ptable k)" "p_state (cur k) = RUNNING"
      using w(4) [OF that(1)] that(2) w(1) by (auto simp: woke_def cur_def)
    show ?thesis
      using ih w c by (auto simp: upd_cur_def cur_def upd_proc_def upd_def intro: woke_trans)
  qed
qed


lemma length_abandon [simp]: "length (abandon is me init ps) = length ps"
  by (induction "is" arbitrary: ps) (simp_all add: Let_def wakeup1_def upd_def)

lemma abandon_slot:
  assumes "i < length ps"
  shows "p_pid (abandon is me init ps ! i) = p_pid (ps ! i) \<and> p_pgdir (abandon is me init ps ! i) = p_pgdir (ps ! i) \<and>
    (p_state (ps ! i) \<noteq> SLEEPING \<longrightarrow> p_state (abandon is me init ps ! i) = p_state (ps ! i)) \<and>
    (p_parent (ps ! i) \<noteq> Some me \<longrightarrow> p_parent (abandon is me init ps ! i) = p_parent (ps ! i))"
  using assms
proof (induction "is" arbitrary: ps)
  case (Cons j "is")
  define ps1 where "ps1 = (if p_parent (ps ! j) = Some me then
      let ps = upd (\<lambda>x. x\<lparr>p_parent := init\<rparr>) j ps in
      if p_state (ps ! j) = ZOMBIE then wakeup1 (map_option ChanProc init) ps else ps
    else ps)"
  have "length ps1 = length ps" by (simp add: ps1_def Let_def wakeup1_def upd_def)
  moreover have "p_pid (ps1 ! i) = p_pid (ps ! i) \<and> p_pgdir (ps1 ! i) = p_pgdir (ps ! i) \<and>
      (p_state (ps ! i) \<noteq> SLEEPING \<longrightarrow> p_state (ps1 ! i) = p_state (ps ! i)) \<and>
      (p_parent (ps ! i) \<noteq> Some me \<longrightarrow> p_parent (ps1 ! i) = p_parent (ps ! i))"
    using Cons.prems by (cases "i = j") (auto simp: ps1_def Let_def wakeup1_def upd_def)
  ultimately show ?case using Cons.IH [of ps1] Cons.prems unfolding abandon.simps ps1_def [symmetric] by auto
qed simp

section \<open>Exit and wait\<close>

definition zombie_child :: "bool \<Rightarrow> nat \<Rightarrow> nat \<Rightarrow> proc list \<Rightarrow> bool" where
  "zombie_child thread q z ps \<longleftrightarrow> z < length ps \<and> p_state (ps ! z) = ZOMBIE \<and> p_parent (ps ! z) = Some q \<and>
     (p_pgdir (ps ! z) = p_pgdir (ps ! q)) = thread"

lemma exit_table:
  assumes "exit k = Inr k'" "active k" "p_parent (cur k) = Some q" "q < length (k_ptable k)" "q \<noteq> k_proc k"
    "p_state (k_ptable k ! q) = SLEEPING" "p_chan (k_ptable k ! q) = Some (ChanProc q)"
  shows "p_state (k_ptable k' ! q) = RUNNABLE"
    "zombie_child (p_pgdir (cur k) = p_pgdir (k_ptable k ! q)) q (k_proc k) (k_ptable k')"
    "p_pid (k_ptable k' ! k_proc k) = p_pid (cur k)"
proof -
  from assms(1) obtain k1 cwd k2 where k1: "close_files [0..<NOFILE] k = Inr k1" and k2: "on_fs' (iput cwd) k1 = Inr k2"
    and k': "k' = (let k = upd_cur (\<lambda>x. x\<lparr>p_cwd := None\<rparr>) k2;
                ps = wakeup1 (map_option ChanProc (p_parent (cur k))) (k_ptable k);
                ps = abandon [0..<length ps] (k_proc k) (k_initproc k) ps in
            upd_cur (\<lambda>x. x\<lparr>p_state := ZOMBIE\<rparr>) (k\<lparr>k_ptable := ps\<rparr>))"
    unfolding exit_def Let_def by (auto elim!: bindE_InrE split: if_splits option.splits)
  have p: "k_proc k < length (k_ptable k)" "p_state (cur k) = RUNNING" using assms(2) by (simp_all add: active_def)
  obtain xs where 1: "k_proc k1 = k_proc k" "length (k_ptable k1) = length (k_ptable k)" "cur k1 = (cur k)\<lparr>p_ofile := xs\<rparr>"
      "woke (k_ptable k ! q) (k_ptable k1 ! q)"
    using close_files_table [OF k1] p assms(4,5) by auto
  have 2: "k_proc k2 = k_proc k" "length (k_ptable k2) = length (k_ptable k)" "cur k2 = (cur k)\<lparr>p_ofile := xs\<rparr>"
      "woke (k_ptable k ! q) (k_ptable k2 ! q)"
    using on_fs'_wakes [OF k2] 1 p assms(4) woke_trans by (auto simp: only_wakes_def list_all2_conv_all_nth cur_def woke_def)
  define k3 where "k3 = upd_cur (\<lambda>x. x\<lparr>p_cwd := None\<rparr>) k2"
  have 3: "k_proc k3 = k_proc k" "length (k_ptable k3) = length (k_ptable k)" "cur k3 = (cur k)\<lparr>p_ofile := xs, p_cwd := None\<rparr>"
      "woke (k_ptable k ! q) (k_ptable k3 ! q)"
    using 2 p(1) assms(5) by (auto simp: k3_def upd_cur_def cur_def upd_proc_def upd_def)
  define ps where "ps = wakeup1 (Some (ChanProc q)) (k_ptable k3)"
  define ps' where "ps' = abandon [0..<length ps] (k_proc k3) (k_initproc k3) ps"
  have 4: "length ps = length (k_ptable k)" "p_state (ps ! q) = RUNNABLE" "p_pgdir (ps ! q) = p_pgdir (k_ptable k ! q)"
      "ps ! k_proc k = cur k3"
    using 3 p assms(4,6,7) by (auto simp: ps_def wakeup1_def woke_def cur_def)
  have 5: "length ps' = length (k_ptable k)" "p_state (ps' ! q) = RUNNABLE" "p_pgdir (ps' ! q) = p_pgdir (k_ptable k ! q)"
      "p_pid (ps' ! k_proc k) = p_pid (cur k)" "p_pgdir (ps' ! k_proc k) = p_pgdir (cur k)" "p_parent (ps' ! k_proc k) = Some q"
    using abandon_slot [of q ps "[0..<length ps]" "k_proc k3" "k_initproc k3"]
      abandon_slot [of "k_proc k" ps "[0..<length ps]" "k_proc k3" "k_initproc k3"] 3 4 p(1) assms(3,4,5)
    by (auto simp: ps'_def)
  have "p_parent (cur k3) = Some q" using 3(3) assms(3) by simp
  then have "k' = upd_cur (\<lambda>x. x\<lparr>p_state := ZOMBIE\<rparr>) (k3\<lparr>k_ptable := ps'\<rparr>)"
    unfolding k' Let_def k3_def [symmetric] by (simp add: ps'_def ps_def)
  then have "k_ptable k' = ps'[k_proc k := (ps' ! k_proc k)\<lparr>p_state := ZOMBIE\<rparr>]"
    using 3(1) by (simp add: upd_cur_def upd_proc_def upd_def)
  then show "p_state (k_ptable k' ! q) = RUNNABLE"
    "zombie_child (p_pgdir (cur k) = p_pgdir (k_ptable k ! q)) q (k_proc k) (k_ptable k')"
    "p_pid (k_ptable k' ! k_proc k) = p_pid (cur k)"
    using 5 p(1) assms(4,5) by (auto simp: zombie_child_def)
qed

lemma free_slot_state: "z < length (k_ptable k) \<Longrightarrow> p_state (k_ptable (free_slot z k) ! z) = UNUSED"
  by (simp add: free_slot_def upd_proc_def upd_def)

lemma wait_finds:
  assumes "zombie_child False (k_proc k) z (k_ptable k)" "wait k = Inr r"
  obtains z' k' where "zombie_child False (k_proc k) z' (k_ptable k)" "r = Reply (p_pid (k_ptable k ! z')) k'" "p_state (k_ptable k' ! z') = UNUSED"
proof -
  have "child False k (k_ptable k ! z) \<and> p_state (k_ptable k ! z) = ZOMBIE"
    using assms(1) by (auto simp: zombie_child_def child_def cur_def)
  then obtain z' where i: "first_idx (\<lambda>p. child False k p \<and> p_state p = ZOMBIE) (k_ptable k) = Some z'"
    using first_idx_total [of z "k_ptable k" "\<lambda>p. child False k p \<and> p_state p = ZOMBIE"] assms(1) by (auto simp: zombie_child_def)
  note z' = first_idx_SomeD [OF i]
  from assms(2) i obtain k1 k2 where s: "same_fds k k1" "same_fds k1 k2"
    and r: "r = Reply (p_pid (k_ptable k ! z')) (free_slot z' (upd_proc z' (\<lambda>x. x\<lparr>p_ustack := 0\<rparr>) k2))"
    by (auto simp: wait_def elim!: bindE_InrE dest!: fds same_kstack)
  have "z' < length (k_ptable k2)" using z'(1) same_fds_inv(5) [OF s(1)] same_fds_inv(5) [OF s(2)] by simp
  then have "p_state (k_ptable (free_slot z' (upd_proc z' (\<lambda>x. x\<lparr>p_ustack := 0\<rparr>) k2)) ! z') = UNUSED"
    by (intro free_slot_state) simp
  moreover have "zombie_child False (k_proc k) z' (k_ptable k)"
    using z' by (auto simp: zombie_child_def child_def cur_def)
  ultimately show thesis using that r by blast
qed

lemma join_finds:
  assumes "zombie_child True (k_proc k) z (k_ptable k)" "join stack k = Inr r"
  obtains z' k' where "zombie_child True (k_proc k) z' (k_ptable k)" "r = Reply (p_pid (k_ptable k ! z')) k'" "p_state (k_ptable k' ! z') = UNUSED"
proof -
  have "child True k (k_ptable k ! z) \<and> p_state (k_ptable k ! z) = ZOMBIE"
    using assms(1) by (auto simp: zombie_child_def child_def cur_def)
  then obtain z' where i: "first_idx (\<lambda>p. child True k p \<and> p_state p = ZOMBIE) (k_ptable k) = Some z'"
    using first_idx_total [of z "k_ptable k" "\<lambda>p. child True k p \<and> p_state p = ZOMBIE"] assms(1) by (auto simp: zombie_child_def)
  note z' = first_idx_SomeD [OF i]
  from assms(2) i obtain k1 k2 k3 where s: "same_fds k k1" "same_fds k1 k2" "same_fds k2 k3"
    and r: "r = Reply (p_pid (k_ptable k ! z')) (free_slot z' k3)"
    by (auto simp: join_def Let_def elim!: bindE_InrE dest!: fds same_kstack)
  have "z' < length (k_ptable k3)"
    using z'(1) same_fds_inv(5) [OF s(1)] same_fds_inv(5) [OF s(2)] same_fds_inv(5) [OF s(3)] by simp
  then have "p_state (k_ptable (free_slot z' k3) ! z') = UNUSED" by (rule free_slot_state)
  moreover have "zombie_child True (k_proc k) z' (k_ptable k)"
    using z' by (auto simp: zombie_child_def child_def cur_def)
  ultimately show thesis using that r by blast
qed

text \<open>
  C8. No wakeup is lost between parents and children: when a process or thread exits while its
  parent sleeps in \<^verbatim>\<open>wait\<close> or \<^verbatim>\<open>join\<close>, the parent becomes runnable and the child is a zombie that
  the parent can see; and whenever the parent runs again with that zombie in the table, \<^verbatim>\<open>wait\<close>
  (for a child with its own address space) or \<^verbatim>\<open>join\<close> (for a thread) does not sleep again but
  returns the number of a zombie child and frees its slot.
\<close>

theorem exit_wakes_waiting_parent:
  assumes "exit k = Inr k'" "active k" "p_parent (cur k) = Some q" "q < length (k_ptable k)" "q \<noteq> k_proc k"
    "p_state (k_ptable k ! q) = SLEEPING" "p_chan (k_ptable k ! q) = Some (ChanProc q)"
  shows "p_state (k_ptable k' ! q) = RUNNABLE \<and>
    zombie_child (p_pgdir (cur k) = p_pgdir (k_ptable k ! q)) q (k_proc k) (k_ptable k') \<and>
    p_pid (k_ptable k' ! k_proc k) = p_pid (cur k) \<and>
    (\<forall>k2 thread stack r. k_proc k2 = q \<longrightarrow> zombie_child thread q (k_proc k) (k_ptable k2) \<longrightarrow>
       resume (if thread then JoinThread stack else WaitChild) k2 = Inr r \<longrightarrow>
       (\<exists>z k3. zombie_child thread q z (k_ptable k2) \<and> r = Reply (p_pid (k_ptable k2 ! z)) k3 \<and> p_state (k_ptable k3 ! z) = UNUSED))"
proof (intro conjI allI impI)
  fix k2 thread stack r
  assume k2: "k_proc k2 = q" "zombie_child thread q (k_proc k) (k_ptable k2)" "resume (if thread then JoinThread stack else WaitChild) k2 = Inr r"
  show "\<exists>z k3. zombie_child thread q z (k_ptable k2) \<and> r = Reply (p_pid (k_ptable k2 ! z)) k3 \<and> p_state (k_ptable k3 ! z) = UNUSED"
  proof (cases thread)
    case True
    with k2 have "zombie_child True (k_proc k2) (k_proc k) (k_ptable k2)" "join stack k2 = Inr r" by (simp_all add: resume_def)
    from join_finds [OF this] show ?thesis using True k2(1) by metis
  next
    case False
    with k2 have "zombie_child False (k_proc k2) (k_proc k) (k_ptable k2)" "wait k2 = Inr r" by (simp_all add: resume_def)
    from wait_finds [OF this] show ?thesis using False k2(1) by metis
  qed
qed (rule exit_table [OF assms])+

theorem exit_wakes_waiting_parent_witness:
  "\<exists>k'. exit (demo_kernel\<lparr>k_ptable := (k_ptable demo_kernel)[1 := (k_ptable demo_kernel ! 1)\<lparr>p_state := RUNNING\<rparr>], k_proc := 1\<rparr>) = Inr k' \<and>
     p_state (k_ptable demo_kernel ! 0) = SLEEPING \<and> p_state (k_ptable k' ! 0) = RUNNABLE \<and> p_pid (k_ptable k' ! 1) = 2"
proof -
  let ?k = "demo_kernel\<lparr>k_ptable := (k_ptable demo_kernel)[1 := (k_ptable demo_kernel ! 1)\<lparr>p_state := RUNNING\<rparr>], k_proc := 1\<rparr>"
  have u: "[0..<16] = [0, 1, 2, 3, 4, 5, 6, 7, 8, 9, 10, 11, 12, 13, 14, 15::nat]" by (simp add: upt_rec)
  have "\<exists>k'. exit ?k = Inr k'"
    using u by (simp add: demo_kernel_def zero_proc_def cur_def upd_cur_def upd_proc_def upd_def
       exit_def fileclose_def upd_file_def on_fs'_def iput_def Let_def upd_inode_def small_fs_def wakeups_def)
  then obtain k' where k': "exit ?k = Inr k'" by blast
  have "p_state (k_ptable k' ! 0) = RUNNABLE \<and> p_pid (k_ptable k' ! k_proc ?k) = p_pid (cur ?k)"
    using exit_wakes_waiting_parent [OF k', of 0]
    by (simp add: active_def cur_def demo_kernel_def zero_proc_def)
  then show ?thesis using k' by (auto simp: cur_def demo_kernel_def zero_proc_def)
qed

end
