(* ===== verification/Fs_Checked.thy ===== *)
theory Fs_Checked
  imports Fs_File
begin

unbundle bit_operations_syntax

text \<open>
  Files with checksums (\<^verbatim>\<open>T_CHECKED\<close>, fs.c): the high byte of each block address holds the XOR of
  the bytes of the block. Reading detects corrupted blocks; overwriting a block that already
  has a checksum goes astray, because \<^verbatim>\<open>writei\<close> does not mask the address.
\<close>

section \<open>The checksum of a block\<close>

lemma xor_cancel:
  fixes a b c :: u8
  shows "b XOR (b XOR c) = c" "a XOR (b XOR c) = a \<longleftrightarrow> b = c"
proof -
  show c: "b XOR (b XOR c) = c" for b c :: u8 by (simp add: xor.assoc [symmetric])
  show "a XOR (b XOR c) = a \<longleftrightarrow> b = c"
  proof
    assume "a XOR (b XOR c) = a"
    then have "a XOR (a XOR (b XOR c)) = a XOR a" by simp
    then have "b XOR c = 0" by (simp add: c)
    then have "b XOR (b XOR c) = b" by simp
    then show "b = c" by (simp add: c)
  qed simp
qed

lemma fold_xor_update:
  assumes "j < length xs"
  shows "fold (\<lambda>i c. c XOR (xs[j := b]) ! i) [0..<n] c =
    fold (\<lambda>i c. c XOR xs ! i) [0..<n] c XOR (if j < n then xs ! j XOR b else (0 :: u8))"
proof (induction n)
  case (Suc n)
  let ?F = "fold (\<lambda>i c. c XOR xs ! i) [0..<n] c"
  have "fold (\<lambda>i c. c XOR (xs[j := b]) ! i) [0..<Suc n] c = (?F XOR (if j < n then xs ! j XOR b else 0)) XOR xs[j := b] ! n"
    using Suc by simp
  also have "\<dots> = (?F XOR xs ! n) XOR (if j < Suc n then xs ! j XOR b else 0)"
    using assms by (cases "j = n") (auto simp: xor.assoc xor.commute xor.left_commute xor_cancel)
  finally show ?case by simp
qed simp

lemma gen_checksum_detects:
  assumes "j < BSIZE" "length xs = BSIZE" "b \<noteq> xs ! j"
  shows "gen_checksum (xs[j := b]) \<noteq> gen_checksum xs"
  using assms fold_xor_update [of j xs b BSIZE 0] by (simp add: gen_checksum_def xor_cancel)

section \<open>Blocks of a checked file\<close>

definition raw_addr :: "nat \<Rightarrow> fs \<Rightarrow> nat \<Rightarrow> u32" where
  "raw_addr i s bn = faddr (disk (io s)) (i_dev (icache s ! i)) (i_addrs (icache s ! i)) bn"

definition checked_block :: "nat \<Rightarrow> fs \<Rightarrow> nat \<Rightarrow> u8 list" where
  "checked_block i s bn = disk (io s) (i_dev (icache s ! i), real_addr (raw_addr i s bn) T_CHECKED)"

definition intact :: "nat \<Rightarrow> fs \<Rightarrow> nat \<Rightarrow> bool" where
  "intact i s bn \<longleftrightarrow> gen_checksum (checked_block i s bn) = get_checksum (raw_addr i s bn)"

definition checked_byte :: "nat \<Rightarrow> fs \<Rightarrow> nat \<Rightarrow> u8" where
  "checked_byte i s k = checked_block i s (k div BSIZE) ! (k mod BSIZE)"

definition checked_ready :: "nat \<Rightarrow> fs \<Rightarrow> bool" where
  "checked_ready i s \<longleftrightarrow> bcache_ok (io s) {} \<and> (\<forall>n<0x10000000. has_block (io s) (i_dev (icache s ! i), n)) \<and>
     i_type (icache s ! i) = T_CHECKED \<and> i_addrs (icache s ! i) ! NDIRECT < 0x10000000"

lemma checked_readyD:
  assumes "checked_ready i s"
  shows "bcache_ok (io s) {}" "n < 0x10000000 \<Longrightarrow> may_read (io s) {} (i_dev (icache s ! i), n)"
    "i_type (icache s ! i) = T_CHECKED" "i_addrs (icache s ! i) ! NDIRECT < 0x10000000"
  using assms by (auto simp: checked_ready_def may_read_def)

lemma checked_step:
  assumes "checked_ready i s" "io_step (io s) t {} (disk (io s))"
  shows "checked_ready i (s\<lparr>io := t\<rparr>)" "checked_block i (s\<lparr>io := t\<rparr>) = checked_block i s" "intact i (s\<lparr>io := t\<rparr>) = intact i s"
    "raw_addr i (s\<lparr>io := t\<rparr>) = raw_addr i s"
proof -
  have D: "disk t = disk (io s)" "has_block t = has_block (io s)" "bcache_ok t {}" using assms(2) by (simp_all add: io_step_def)
  show "checked_ready i (s\<lparr>io := t\<rparr>)" using assms(1) D by (simp add: checked_ready_def)
  show r: "raw_addr i (s\<lparr>io := t\<rparr>) = raw_addr i s" by (rule ext) (simp add: raw_addr_def D(1))
  show c: "checked_block i (s\<lparr>io := t\<rparr>) = checked_block i s" by (rule ext) (simp add: checked_block_def r D(1))
  show "intact i (s\<lparr>io := t\<rparr>) = intact i s" by (rule ext) (simp add: intact_def r c)
qed

lemma real_addr_small: "real_addr a T_CHECKED < 0x10000000"
proof -
  have "a AND 0xFFFFFF \<le> 0xFFFFFF" by (rule word_and_le1)
  also have "(0xFFFFFF :: u32) < 0x10000000" by simp
  finally show ?thesis by (simp add: real_addr_def)
qed

lemma mask24: "(0xFFFFFF :: u32) = mask 24"
  by (simp add: mask_eq_exp_minus_1)

lemma real_synth: "real_addr (synth_addr a c) T_CHECKED = real_addr a T_CHECKED"
  unfolding synth_addr_def real_addr_def mask24
  by (rule bit_word_eqI) (auto simp: bit_and_iff bit_or_iff bit_push_bit_iff bit_mask_iff)

lemma get_synth: "get_checksum (synth_addr a c) = c"
  unfolding get_checksum_def synth_addr_def real_addr_def mask24
  by (rule bit_word_eqI) (auto simp: bit_and_iff bit_or_iff bit_push_bit_iff bit_mask_iff bit_drop_bit_eq bit_ucast_iff)

lemma no_checksum: "get_checksum a = 0 \<longleftrightarrow> real_addr a T_CHECKED = a"
proof
  assume z: "get_checksum a = 0"
  have "\<not> bit a n" if "24 \<le> n" "n < 32" for n
  proof -
    have "\<not> bit (get_checksum a) (n - 24)" using z by simp
    then show ?thesis using that by (simp add: get_checksum_def bit_ucast_iff bit_drop_bit_eq)
  qed
  then show "real_addr a T_CHECKED = a"
    unfolding real_addr_def mask24 by (intro bit_word_eqI) (auto simp: bit_and_iff bit_mask_iff not_less [symmetric])
next
  assume "real_addr a T_CHECKED = a"
  then have "get_checksum (a AND mask 24) = get_checksum a" by (simp add: real_addr_def mask24)
  moreover have "get_checksum (a AND mask 24) = 0"
    unfolding get_checksum_def by (rule bit_word_eqI) (simp add: bit_ucast_iff bit_drop_bit_eq bit_and_iff bit_mask_iff)
  ultimately show "get_checksum a = 0" by simp
qed

lemma bmap_mapped:
  assumes R: "checked_ready i s" and bn: "bn < MAXFILE" and m: "raw_addr i s bn \<noteq> 0"
  obtains t where "bmap i (of_nat bn) s = Inr (raw_addr i s bn, s\<lparr>io := t\<rparr>)" "io_step (io s) t {} (disk (io s))"
proof -
  define d where "d = i_dev (icache s ! i)"
  define as where "as = i_addrs (icache s ! i)"
  note G = checked_readyD [OF R]
  have u: "unat (of_nat bn :: u32) = bn" using bn by (simp add: unsigned_of_nat take_bit_nat_eq_self)
  show ?thesis
  proof (cases "bn < NDIRECT")
    case True
    then have "of_nat bn < (of_nat NDIRECT :: u32)" using u by (simp add: word_less_nat_alt)
    then have "bmap i (of_nat bn) s = Inr (raw_addr i s bn, s\<lparr>io := io s\<rparr>)"
      using True m u by (simp add: bmap_def raw_addr_def faddr_def)
    moreover have "io_step (io s) (io s) {} (disk (io s))" using G(1) by (simp add: io_step_def)
    ultimately show ?thesis by (rule that)
  next
    case False
    then have nd: "\<not> of_nat bn < (of_nat NDIRECT :: u32)" using u by (simp add: word_less_nat_alt)
    have e: "unat (of_nat bn - of_nat NDIRECT :: u32) = bn - NDIRECT"
      using False u by (subst unat_sub_small) simp_all
    then have ni: "of_nat bn - of_nat NDIRECT < (of_nat NINDIRECT :: u32)" using bn False by (simp add: word_less_nat_alt)
    have a: "as ! NDIRECT \<noteq> 0" "raw_addr i s bn = get_entry (bn - NDIRECT) (disk (io s) (d, as ! NDIRECT))"
      using m False by (auto simp: raw_addr_def faddr_def as_def d_def split: if_splits)
    obtain b t1 t2 where io: "bread d (as ! NDIRECT) (io s) = Inr (b, t1)" "data (bufs t1 ! b) = disk (io s) (d, as ! NDIRECT)"
      "brelse b t1 = Inr t2" "io_step (io s) t2 {} (disk (io s))"
      by (rule read_io [OF G(1) G(2) [OF G(4)], folded d_def as_def]) simp_all
    have "bmap i (of_nat bn) s = Inr (raw_addr i s bn, s\<lparr>io := t2\<rparr>)"
      using nd ni e a m io(1-3)
      by (simp add: bmap_def Let_def as_def [symmetric] d_def [symmetric] on_io_def on_io'_def buf_data_def)
    then show ?thesis using io(4) by (rule that)
  qed
qed


section \<open>Reading\<close>

lemma read_checked:
  assumes R: "checked_ready i s" and bn: "bn < MAXFILE" and m: "raw_addr i s bn \<noteq> 0"
  obtains s1 b t1 t2 where "bmap i (of_nat bn) s = Inr (raw_addr i s bn, s1)" "icache s1 = icache s"
    "bread (i_dev (icache s ! i)) (real_addr (raw_addr i s bn) T_CHECKED) (io s1) = Inr (b, t1)"
    "data (bufs t1 ! b) = checked_block i s bn" "brelse b t1 = Inr t2" "io_step (io s) t2 {} (disk (io s))" "s1\<lparr>io := t2\<rparr> = s\<lparr>io := t2\<rparr>"
proof -
  obtain t where t: "bmap i (of_nat bn) s = Inr (raw_addr i s bn, s\<lparr>io := t\<rparr>)" "io_step (io s) t {} (disk (io s))"
    by (rule bmap_mapped [OF assms])
  have d: "disk t = disk (io s)" "bcache_ok t {}" using t(2) by (simp_all add: io_step_def)
  have "may_read t {} (i_dev (icache s ! i), real_addr (raw_addr i s bn) T_CHECKED)"
    using checked_readyD(2) [OF R real_addr_small] io_step_may_read [OF t(2)] by blast
  from read_io [OF d(2) this] obtain b t1 t2 where
    io: "bread (i_dev (icache s ! i)) (real_addr (raw_addr i s bn) T_CHECKED) t = Inr (b, t1)"
      "data (bufs t1 ! b) = disk t (i_dev (icache s ! i), real_addr (raw_addr i s bn) T_CHECKED)" "brelse b t1 = Inr t2"
      "io_step t t2 {} (disk t)" by auto
  show ?thesis
    by (rule that [OF t(1) _ _ _ io(3)])
      (use io(1,2) d(1) io_step_trans [OF t(2) io(4)] in \<open>simp_all add: checked_block_def\<close>)
qed

lemma readi_loop_checked:
  assumes "checked_ready i s" "tot \<le> n" "off + (n - tot) \<le> MAXFILE * BSIZE" "n < 2 ^ 32"
    and "\<And>k. off \<le> k \<Longrightarrow> k < off + (n - tot) \<Longrightarrow> raw_addr i s (k div BSIZE) \<noteq> 0"
  shows "\<exists>s' xs. readi_loop i (of_nat off) (of_nat n) (of_nat tot) out s = Inr
      (if \<forall>k. off \<le> k \<and> k < off + (n - tot) \<longrightarrow> intact i s (k div BSIZE)
       then Done (int n) (out @ map (checked_byte i s) [off..<off + (n - tot)]) else Done (- 1) xs, s')"
  using assms
proof (induction "n - tot" arbitrary: tot off out s rule: less_induct)
  case less
  note R = less.prems(1)
  show ?case
  proof (cases "tot < n")
    case False
    then have "tot = n" using less.prems(2) by simp
    then show ?thesis
      using less.prems(4) by (subst readi_loop.simps) (simp add: uint_word_of_int_eq take_bit_int_eq_self unsigned_of_nat take_bit_nat_eq_self)
  next
    case True
    define m where "m = min (n - tot) (BSIZE - off mod BSIZE)"
    have pos: "0 < n - tot" using True by simp
    note M = need_chunk [OF pos, of off, folded m_def]
    have offb: "off < MAXFILE * BSIZE" "off < 2 ^ 32" using less.prems(3) pos by simp_all
    note W = chunk_nat [OF True less.prems(4) offb(2), folded m_def]
    have mp: "raw_addr i s (off div BSIZE) \<noteq> 0" using less.prems(5) [of off] pos by simp
    obtain s1 b t1 t2 where c: "bmap i (of_nat (off div BSIZE)) s = Inr (raw_addr i s (off div BSIZE), s1)" "icache s1 = icache s"
      "bread (i_dev (icache s ! i)) (real_addr (raw_addr i s (off div BSIZE)) T_CHECKED) (io s1) = Inr (b, t1)"
      "data (bufs t1 ! b) = checked_block i s (off div BSIZE)" "brelse b t1 = Inr t2" "io_step (io s) t2 {} (disk (io s))" "s1\<lparr>io := t2\<rparr> = s\<lparr>io := t2\<rparr>"
      by (rule read_checked [OF R block_range [OF offb(1)] mp])
    have um: "unat (of_nat m :: u32) = m" using M(3) less.prems(4) by (simp add: unsigned_of_nat take_bit_nat_eq_self)
    have ty: "i_type (icache s ! i) = T_CHECKED" by (rule checked_readyD(3) [OF R])
    show ?thesis
    proof (cases "intact i s (off div BSIZE)")
      case False
      then have "readi_loop i (of_nat off) (of_nat n) (of_nat tot) out s = Inr (Done (- 1) out, s1\<lparr>io := t1\<rparr>)"
        unfolding readi_loop.simps [of i "of_nat off"] if_P [OF W(4)] W(1, 2, 3)
        using c(1-4) ty by (simp add: intact_def vrfy_checksum_def on_io_def buf_data_def Let_def)
      moreover have "\<not> (\<forall>k. off \<le> k \<and> k < off + (n - tot) \<longrightarrow> intact i s (k div BSIZE))" using False pos by auto
      ultimately show ?thesis by auto
    next
      case int: True
      define s2 where "s2 = s\<lparr>io := t2\<rparr>"
      note S = checked_step [OF R c(6), folded s2_def]
      have len: "length (checked_block i s (off div BSIZE)) = BSIZE"
        unfolding checked_block_def by (rule block_length [OF checked_readyD(1) [OF R]])
      have bytes: "slice (off mod BSIZE) m (checked_block i s (off div BSIZE)) = map (checked_byte i s) [off..<off + m]"
      proof (rule nth_equalityI)
        fix k assume "k < length (slice (off mod BSIZE) m (checked_block i s (off div BSIZE)))"
        then have k: "k < m" using M(4) len by (simp add: length_slice)
        then have d: "(off + k) div BSIZE = off div BSIZE" using div_mod_range [OF M(4, 2), of "off + k"] by simp
        then have "(off + k) mod BSIZE = off mod BSIZE + k"
          using mult_div_mod_eq [of BSIZE off] mult_div_mod_eq [of BSIZE "off + k"] by linarith
        then show "slice (off mod BSIZE) m (checked_block i s (off div BSIZE)) ! k = map (checked_byte i s) [off..<off + m] ! k"
          using d k M(4) len by (simp add: nth_slice checked_byte_def)
      qed (use M(4) len in \<open>simp add: length_slice\<close>)
      have step: "readi_loop i (of_nat off) (of_nat n) (of_nat tot) out s =
          readi_loop i (of_nat (off + m)) (of_nat n) (of_nat (tot + m)) (out @ map (checked_byte i s) [off..<off + m]) s2"
        unfolding readi_loop.simps [of i "of_nat off"] if_P [OF W(4)] W(1, 2, 3)
        using c(1-5,7) ty int bytes by (simp add: intact_def vrfy_checksum_def on_io_def on_io'_def buf_data_def s2_def um Let_def)
      have e: "off + m + (n - (tot + m)) = off + (n - tot)" using M(3) True by simp
      have ih: "\<exists>s' xs. readi_loop i (of_nat (off + m)) (of_nat n) (of_nat (tot + m)) (out @ map (checked_byte i s) [off..<off + m]) s2 = Inr
        (if \<forall>k. off + m \<le> k \<and> k < off + m + (n - (tot + m)) \<longrightarrow> intact i s2 (k div BSIZE)
         then Done (int n) ((out @ map (checked_byte i s) [off..<off + m]) @ map (checked_byte i s2) [off + m..<off + m + (n - (tot + m))]) else Done (- 1) xs, s')"
        by (rule less.hyps) (use M True less.prems S in \<open>simp_all add: e\<close>)
      have same: "(\<forall>k. off + m \<le> k \<and> k < off + m + (n - (tot + m)) \<longrightarrow> intact i s2 (k div BSIZE)) \<longleftrightarrow>
          (\<forall>k. off \<le> k \<and> k < off + (n - tot) \<longrightarrow> intact i s (k div BSIZE))"
      proof -
        have "intact i s (k div BSIZE)" if "off \<le> k" "k < off + m" for k
          using div_mod_range [OF M(4, 2), of k] that int by simp
        then show ?thesis unfolding e S(3) by (meson le_add1 le_trans not_less)
      qed
      have all: "map (checked_byte i s) [off..<off + m] @ map (checked_byte i s2) [off + m..<off + m + (n - (tot + m))] =
          map (checked_byte i s) [off..<off + (n - tot)]"
      proof -
        have "checked_byte i s2 = checked_byte i s" by (rule ext) (simp add: checked_byte_def S(2))
        moreover have "[off..<off + m] @ [off + m..<off + (n - tot)] = [off..<off + (n - tot)]"
          using upt_add_eq_append [of off "off + m" "n - (tot + m)"] unfolding e by simp
        ultimately show ?thesis unfolding e by (metis map_append)
      qed
      from ih show ?thesis unfolding step append_assoc same all .
    qed
  qed
qed


text \<open>
  C14. Reading a file with checksums returns its bytes if every block that the read touches,
  direct or indirect, has the checksum stored with its address, and returns -1 if one of them has
  not, wherever it lies in the range. Changing any one byte of a block changes its checksum, so
  such corruption of the disk is always detected.
\<close>

theorem checked_read:
  assumes "checked_ready i s" "off \<le> unat (i_size (icache s ! i))" "off + n < 2 ^ 32"
    and "l = min n (unat (i_size (icache s ! i)) - off)" "off + l \<le> MAXFILE * BSIZE"
    and "\<forall>k. off \<le> k \<and> k < off + l \<longrightarrow> raw_addr i s (k div BSIZE) \<noteq> 0"
  shows "(\<exists>s' xs. readi i (of_nat off) (of_nat n) s = Inr
      (if \<forall>k. off \<le> k \<and> k < off + l \<longrightarrow> intact i s (k div BSIZE)
       then Done (int l) (map (checked_byte i s) [off..<off + l]) else Done (- 1) xs, s')) \<and>
    (\<forall>bn j b. intact i s bn \<longrightarrow> j < BSIZE \<longrightarrow> b \<noteq> checked_block i s bn ! j \<longrightarrow>
       gen_checksum ((checked_block i s bn)[j := b]) \<noteq> get_checksum (raw_addr i s bn))"
proof (intro conjI allI impI)
  define sz where "sz = i_size (icache s ! i)"
  have off': "off \<le> unat sz" using assms(2) by (simp add: sz_def)
  note W = words_of_offsets [OF off' assms(3)]
  have l: "off + l \<le> unat sz" "l < 2 ^ 32" using off' assms(3,4) by (auto simp: sz_def)
  have len: "(if of_nat off + of_nat n > sz then sz - of_nat off else of_nat n) = (of_nat l :: u32)"
    unfolding W(2, 3) using assms(4) by (auto simp: sz_def)
  have "\<exists>s' xs. readi_loop i (of_nat off) (of_nat l) (of_nat 0) [] s = Inr
      (if \<forall>k. off \<le> k \<and> k < off + (l - 0) \<longrightarrow> intact i s (k div BSIZE)
       then Done (int l) ([] @ map (checked_byte i s) [off..<off + (l - 0)]) else Done (- 1) xs, s')"
    by (rule readi_loop_checked [OF assms(1)]) (use assms(5,6) l(2) in auto)
  then obtain s' xs where s': "readi_loop i (of_nat off) (of_nat l) 0 [] s = Inr
      (if \<forall>k. off \<le> k \<and> k < off + l \<longrightarrow> intact i s (k div BSIZE)
       then Done (int l) (map (checked_byte i s) [off..<off + l]) else Done (- 1) xs, s')" unfolding semiring_1_class.of_nat_0 diff_zero append_Nil by blast
  have ty: "i_type (icache s ! i) \<noteq> T_DEV" using checked_readyD(3) [OF assms(1)] by simp
  have r: "readi i (of_nat off) (of_nat n) s = readi_loop i (of_nat off) (of_nat l) 0 [] s"
    unfolding readi_def Let_def sz_def [symmetric] if_not_P [OF ty] if_not_P [OF W(1)] len ..
  show "\<exists>s' xs. readi i (of_nat off) (of_nat n) s = Inr
      (if \<forall>k. off \<le> k \<and> k < off + l \<longrightarrow> intact i s (k div BSIZE)
       then Done (int l) (map (checked_byte i s) [off..<off + l]) else Done (- 1) xs, s')"
    unfolding r s' by (intro exI) (rule refl)
next
  fix bn j b
  assume "intact i s bn" "j < BSIZE" "b \<noteq> checked_block i s bn ! j"
  moreover have "length (checked_block i s bn) = BSIZE"
    unfolding checked_block_def by (rule block_length [OF checked_readyD(1) [OF assms(1)]])
  ultimately show "gen_checksum ((checked_block i s bn)[j := b]) \<noteq> get_checksum (raw_addr i s bn)"
    using gen_checksum_detects unfolding intact_def by metis
qed


text \<open>A volume with a checked file of three bytes in block 20; \<open>c\<close> is the checksum recorded for it.\<close>

definition checked_disk :: "u32 \<times> u32 \<Rightarrow> u8 list" where
  "checked_disk = (small_disk 100)((1, 20) := [104, 105, 10] @ replicate 509 0)"

definition checked_demo :: "u8 \<Rightarrow> fs" where
  "checked_demo c = \<lparr>io = fresh_cache checked_disk,
     icache = [\<lparr>i_dev = 1, i_inum = 3, i_ref = 1, i_flags = 3, i_type = T_CHECKED, i_major = 0, i_minor = 0, i_nlink = 1,
                i_size = 3, i_addrs = synth_addr 20 c # replicate 12 0\<rparr>],
     wakes = []\<rparr>"

lemma gen_checksum_fold: "length xs = BSIZE \<Longrightarrow> gen_checksum xs = fold (\<lambda>x c. c XOR x) xs 0"
proof -
  assume l: "length xs = BSIZE"
  have "fold (\<lambda>i c. c XOR xs ! i) [0..<length xs] 0 = fold (\<lambda>x c. c XOR x) (map ((!) xs) [0..<length xs]) 0"
    by (simp add: fold_map comp_def)
  then show ?thesis unfolding map_nth unfolding l gen_checksum_def .
qed

lemma demo_checksum: "gen_checksum ([104, 105, 10] @ replicate 509 0) = 11"
proof -
  have "fold (\<lambda>x c. c XOR x) (replicate n (0 :: u8)) c = c" for n c by (induction n) simp_all
  then show ?thesis by (subst gen_checksum_fold) simp_all
qed

lemma checked_demo:
  "checked_ready 0 (checked_demo c)" "i_size (icache (checked_demo c) ! 0) = 3"
  "raw_addr 0 (checked_demo c) 0 = synth_addr 20 c" "checked_block 0 (checked_demo c) 0 = [104, 105, 10] @ replicate 509 0"
  "intact 0 (checked_demo c) 0 \<longleftrightarrow> c = 11"
proof -
  have len: "length (checked_disk a) = 512" for a by (simp add: checked_disk_def small_disk_def superblock_bytes_def)
  note F = fresh_cache_ok [OF len]
  have sa: "real_addr (synth_addr 20 c) T_CHECKED = 20" "get_checksum (synth_addr 20 c) = c"
    unfolding real_synth get_synth by (simp_all add: real_addr_def)
  show "checked_ready 0 (checked_demo c)"
    by (simp add: checked_ready_def checked_demo_def F block_addr_def)
  show "i_size (icache (checked_demo c) ! 0) = 3" by (simp add: checked_demo_def)
  show r: "raw_addr 0 (checked_demo c) 0 = synth_addr 20 c" by (simp add: raw_addr_def checked_demo_def faddr_def)
  show b: "checked_block 0 (checked_demo c) 0 = [104, 105, 10] @ replicate 509 0"
    unfolding checked_block_def r sa by (simp add: checked_demo_def F) (simp add: checked_disk_def)
  show "intact 0 (checked_demo c) 0 \<longleftrightarrow> c = 11"
    unfolding intact_def b r sa demo_checksum by auto
qed

theorem checked_read_witness:
  "(\<exists>s'. readi 0 0 100 (checked_demo 11) = Inr (Done 3 [104, 105, 10], s')) \<and>
   (\<exists>xs s'. readi 0 0 100 (checked_demo 12) = Inr (Done (- 1) xs, s'))"
proof -
  have raw: "\<forall>k. 0 \<le> k \<and> k < 0 + 3 \<longrightarrow> raw_addr 0 (checked_demo c) (k div BSIZE) \<noteq> 0" for c
  proof (intro allI impI)
    fix k :: nat assume "0 \<le> k \<and> k < 0 + 3"
    then have "k div BSIZE = 0" by simp
    moreover have "synth_addr 20 c \<noteq> 0"
    proof
      assume "synth_addr 20 c = 0"
      then have "real_addr 0 T_CHECKED = real_addr 20 T_CHECKED" using real_synth [of 20 c] by simp
      then show False by (simp add: real_addr_def)
    qed
    ultimately show "raw_addr 0 (checked_demo c) (k div BSIZE) \<noteq> 0" by (simp add: checked_demo(3))
  qed
  have all: "(\<forall>k. 0 \<le> k \<and> k < 0 + 3 \<longrightarrow> intact 0 (checked_demo c) (k div BSIZE)) \<longleftrightarrow> c = 11" for c
  proof -
    have "(\<forall>k. 0 \<le> k \<and> k < 0 + 3 \<longrightarrow> intact 0 (checked_demo c) (k div BSIZE)) \<longleftrightarrow> intact 0 (checked_demo c) 0"
    proof
      assume "\<forall>k. 0 \<le> k \<and> k < 0 + 3 \<longrightarrow> intact 0 (checked_demo c) (k div BSIZE)"
      from spec [OF this, of 0] show "intact 0 (checked_demo c) 0" by simp
    qed simp
    then show ?thesis using checked_demo(5) [of c] by simp
  qed
  have bytes: "map (checked_byte 0 (checked_demo c)) [0..<0 + 3] = [104, 105, 10]" for c
    by (simp add: checked_byte_def checked_demo(4) upt_rec)
  have "\<exists>s' xs. readi 0 (of_nat 0) (of_nat 100) (checked_demo c) = Inr (if c = 11 then Done (int 3) [104, 105, 10] else Done (- 1) xs, s')" for c
    by (rule conjunct1 [OF checked_read [where i = 0 and s = "checked_demo c" and off = 0 and n = 100 and l = 3, OF checked_demo(1) _ _ _ _ raw,
          unfolded all bytes]]) (simp_all add: checked_demo(2))
  from this [of 11] this [of 12] show ?thesis by auto
qed


section \<open>Overwriting\<close>

lemma held_update_io:
  assumes "bcache_ok s {}" "has_block s (d, n)" "length (f (disk s (d, n))) = BSIZE"
  obtains b s1 s2 s3 where "bread d n s = Inr (b, s1)" "data (bufs s1 ! b) = disk s (d, n)"
    "bwrite b (set_data b (f (disk s (d, n))) s1) = Inr s2" "data (bufs s2 ! b) = f (disk s (d, n))" "brelse b s2 = Inr s3"
    "disk s3 = (disk s)((d, n) := f (disk s (d, n)))"
proof -
  define ys where "ys = f (disk s (d, n))"
  from bc.get_ok [OF assms(1,2)] obtain b s1 where g: "bread d n s = Inr (b, s1)" "bcache_ok s1 {b}"
    "held_buf s1 b = ((d, n), disk s (d, n))" "disk s1 = disk s" by auto
  have p: "bcache_ok (set_data b ys s1) {b}" "held_buf (set_data b ys s1) b = ((d, n), ys)" "disk (set_data b ys s1) = disk s"
    using bc.put_ok [OF g(2), of b ys] assms(3) g(3,4) by (simp_all add: ys_def)
  from bc.flush_ok [OF p(1), of b] p(2,3) obtain s2 where w: "bwrite b (set_data b ys s1) = Inr s2" "bcache_ok s2 {b}"
    "disk s2 = (disk s)((d, n) := ys)" "held_buf s2 b = ((d, n), ys)" by auto
  from bc.drop_ok [OF w(2), of b] w(3,4) obtain s3 where "brelse b s2 = Inr s3" "disk s3 = disk s2" by auto
  then show ?thesis using that [of b s1 s2 s3] g(1,3) w(1,3,4) by (simp add: held_buf_def ys_def)
qed




end
