(* ===== verification/Fs_Lookup.thy ===== *)
theory Fs_Lookup
  imports Fs_Dir Fs_File
begin

text \<open>
  Directories (\<^verbatim>\<open>kernel/fs.c\<close>) as finite maps from names to inode numbers: what \<open>dirlookup\<close> finds
  and what \<open>dirlink\<close> adds, on a directory in good order.
\<close>

section \<open>Names\<close>

text \<open>A name is an array of at least \<open>DIRSIZ\<close> bytes or terminated by a NUL; \<open>name_copy\<close> pads it.\<close>

definition name_ok :: "nat \<Rightarrow> u8 list \<Rightarrow> bool" where
  "name_ok n nm \<longleftrightarrow> n \<le> length nm \<or> 0 \<in> set nm"

lemma name_copy_length [simp]: "length (name_copy n nm) = n"
  by (induction n nm rule: name_copy.induct) auto

lemma name_copy_ok [simp]: "name_ok n (name_copy n nm)"
  by (simp add: name_ok_def)

lemma name_copy_idem [simp]: "name_copy n (name_copy n nm) = name_copy n nm"
proof (induction n nm rule: name_copy.induct)
  case (2 n)
  then show ?case by simp
qed auto

lemma name_diff_zero:
  "name_ok n p \<Longrightarrow> name_ok n q \<Longrightarrow> name_diff n p q = 0 \<longleftrightarrow> name_copy n p = name_copy n q"
proof (induction n p q rule: name_diff.induct)
  case (1 n x p y q)
  show ?case
  proof (cases "x \<noteq> 0 \<and> x = y")
    case True
    then have "name_ok n p" "name_ok n q" using 1(2,3) by (auto simp: name_ok_def)
    then show ?thesis using 1(1) True by simp
  next
    case False
    have "uint x - uint y = 0 \<longleftrightarrow> x = y" by (simp add: word_uint_eq_iff)
    then show ?thesis using False by auto
  qed
qed (auto simp: name_ok_def)

lemma namecmp_zero: "name_ok DIRSIZ p \<Longrightarrow> name_ok DIRSIZ q \<Longrightarrow> namecmp p q = 0 \<longleftrightarrow> name_copy DIRSIZ p = name_copy DIRSIZ q"
  unfolding namecmp_def by (rule name_diff_zero)

section \<open>Entries\<close>

definition dir_at :: "nat \<Rightarrow> fs \<Rightarrow> nat \<Rightarrow> dirent" where
  "dir_at i s k = decode_dirent (map (byte_at i s) [16 * k..<16 * k + 16])"

definition dir_list :: "nat \<Rightarrow> fs \<Rightarrow> dirent list" where
  "dir_list i s = map (dir_at i s) [0..<unat (i_size (icache s ! i)) div 16]"

text \<open>A directory in good order: whole entries, and nothing but zeros behind them.\<close>

definition dir_ok :: "u32 \<Rightarrow> superblock \<Rightarrow> nat \<Rightarrow> fs \<Rightarrow> bool" where
  "dir_ok d sb i s \<longleftrightarrow> regular d sb i s \<and> i_type (icache s ! i) = T_DIR \<and> 16 dvd unat (i_size (icache s ! i)) \<and>
     (\<forall>k<MAXFILE * BSIZE. unat (i_size (icache s ! i)) \<le> k \<longrightarrow> byte_at i s k = 0)"

definition is_name :: "u8 list \<Rightarrow> dirent \<Rightarrow> bool" where
  "is_name nm de \<longleftrightarrow> de_inum de \<noteq> 0 \<and> namecmp nm (de_name de) = 0"

definition dir_get :: "u8 list \<Rightarrow> dirent list \<Rightarrow> u16 option" where
  "dir_get nm des = map_option (\<lambda>k. de_inum (des ! k)) (first_idx (is_name nm) des)"

lemma first_idx_append:
  "first_idx P (xs @ ys) = (case first_idx P xs of Some k \<Rightarrow> Some k | None \<Rightarrow> map_option (\<lambda>k. length xs + k) (first_idx P ys))"
  by (induction xs; cases "first_idx P ys") (auto split: option.splits)

lemma dirents_at:
  assumes "slice 0 BSIZE xs = map (byte_at i s) [off..<off + BSIZE]" "off = 16 * j"
  shows "dirents xs = map (dir_at i s) [j..<j + 32]"
proof (rule nth_equalityI)
  fix k assume "k < length (dirents xs)"
  then have k: "k < 32" by (simp add: dirents_def)
  have t: "take BSIZE xs = map (byte_at i s) [off..<off + BSIZE]" using assms(1) by (simp add: slice_def)
  then have l: "BSIZE \<le> length xs" by (metis diff_add_inverse length_map length_take length_upt min.absorb_iff2 min_def nat_le_linear)
  have "slice (16 * k) 16 xs = map (byte_at i s) [16 * (j + k)..<16 * (j + k) + 16]"
  proof (rule nth_equalityI)
    fix m assume "m < length (slice (16 * k) 16 xs)"
    then have m: "m < 16" by (simp add: slice_def)
    have "slice (16 * k) 16 xs ! m = xs ! (16 * k + m)" using k l m by (intro nth_slice) auto
    also have "\<dots> = take BSIZE xs ! (16 * k + m)" using k m by simp
    also have "\<dots> = byte_at i s (off + (16 * k + m))" unfolding t using k m by simp
    finally show "slice (16 * k) 16 xs ! m = map (byte_at i s) [16 * (j + k)..<16 * (j + k) + 16] ! m"
      using m assms(2) by (simp add: algebra_simps)
  qed (use k l in \<open>simp add: slice_def\<close>)
  then show "dirents xs ! k = map (dir_at i s) [j..<j + 32] ! k" using k by (simp add: dirents_def dir_at_def)
qed (simp add: dirents_def)

lemma dir_at_zero:
  assumes "dir_ok d sb i s" "unat (i_size (icache s ! i)) div 16 \<le> k" "16 * k + 16 \<le> MAXFILE * BSIZE"
  shows "de_inum (dir_at i s k) = 0"
proof -
  have sz: "unat (i_size (icache s ! i)) \<le> 16 * k" using assms(1,2) unfolding dir_ok_def by auto
  have "map (byte_at i s) [16 * k..<16 * k + 16] = replicate 16 0"
    by (rule nth_equalityI) (use assms(1,3) sz in \<open>auto simp: dir_ok_def\<close>)
  then show ?thesis by (simp add: dir_at_def decode_dirent_def load16_def)
qed

lemma dir_size: "dir_ok d sb i s \<Longrightarrow> unat (i_size (icache s ! i)) = 16 * length (dir_list i s)"
  by (auto simp: dir_ok_def dir_list_def)

text \<open>The state after a read of the directory: only the buffers have changed.\<close>

definition looked :: "u32 \<Rightarrow> superblock \<Rightarrow> nat \<Rightarrow> fs \<Rightarrow> fs \<Rightarrow> bool" where
  "looked d sb i s s' \<longleftrightarrow> rw_step d sb i s s' \<and> disk (io s') = disk (io s) \<and> icache s' = icache s"

lemma looked_same:
  assumes "looked d sb i s s'"
  shows "byte_at i s' = byte_at i s" "dir_at i s' = dir_at i s" "dir_list i s' = dir_list i s" "icache s' = icache s"
    "room d sb s' = room d sb s"
proof -
  have e: "disk (io s') = disk (io s)" "icache s' = icache s" using assms by (auto simp: looked_def)
  show b: "byte_at i s' = byte_at i s" by (rule ext) (simp add: byte_at_def e)
  show a: "dir_at i s' = dir_at i s" by (rule ext) (simp add: dir_at_def b)
  show "dir_list i s' = dir_list i s" "icache s' = icache s" "room d sb s' = room d sb s"
    by (simp_all add: dir_list_def a e room_def)
qed

lemma looked_ok:
  assumes "looked d sb i s s'" "dir_ok d sb i s"
  shows "dir_ok d sb i s'"
proof -
  have "file_ready d sb i s'" using assms rw_step_ready by (auto simp: looked_def dir_ok_def regular_def)
  then show ?thesis
    using assms(2) looked_same [OF assms(1)] assms(1) by (simp add: dir_ok_def regular_def mapped_def looked_def)
qed

lemma looked_trans: "looked d sb i s s1 \<Longrightarrow> looked d sb i s1 s2 \<Longrightarrow> looked d sb i s s2"
  using rw_step_trans by (auto simp: looked_def)


lemma looked_refl:
  assumes "dir_ok d sb i s"
  shows "looked d sb i s s"
proof -
  have R: "file_ready d sb i s" using assms by (simp add: dir_ok_def regular_def)
  note F = file_readyD [OF R]
  have "icache s = (icache s)[i := (icache s ! i)\<lparr>i_addrs := i_addrs (icache s ! i)\<rparr>]" by simp
  then have "rw_step d sb i s s" using F(1) file_step_refl [OF F(5,4)] unfolding rw_step_def by blast
  then show ?thesis by (simp add: looked_def)
qed

section \<open>Looking up a name\<close>

lemma dir_block:
  assumes ok: "dir_ok d sb i s" and j: "j * BSIZE < unat (i_size (icache s ! i))"
  obtains a s1 b t1 t2 where "bmap i (of_nat j) s = Inr (a, s1)" "icache s1 = icache s" "bread d a (io s1) = Inr (b, t1)"
    "brelse b t1 = Inr t2" "dirents (data (bufs t1 ! b)) = map (dir_at i s) [32 * j..<32 * j + 32]"
    "looked d sb i s (s1\<lparr>io := t2\<rparr>)"
proof -
  have R: "regular d sb i s" using ok by (simp add: dir_ok_def)
  note G = regularD [OF R]
  have o: "j * BSIZE < MAXFILE * BSIZE" "(j * BSIZE) mod BSIZE + BSIZE \<le> BSIZE" "(0 :: nat) < BSIZE" using j G(5) by simp_all
  have m: "mapped d i s (j * BSIZE div BSIZE)" using G(6) [OF j] by simp
  obtain a s1 b t1 t2 where c: "bmap i (of_nat (j * BSIZE div BSIZE)) s = Inr (a, s1)" "bread d a (io s1) = Inr (b, t1)"
    "brelse b t1 = Inr t2" "icache s1 = icache s"
    "slice (j * BSIZE mod BSIZE) BSIZE (data (bufs t1 ! b)) = map (byte_at i s) [j * BSIZE..<j * BSIZE + BSIZE]"
    "rw_step d sb i s (s1\<lparr>io := t2\<rparr>)" "disk t2 = disk (io s)"
    by (rule read_chunk [OF G(1) o m])
  have "dirents (data (bufs t1 ! b)) = map (dir_at i s) [32 * j..<32 * j + 32]"
    by (rule dirents_at [of _ i s "j * BSIZE"]) (use c(5) in simp_all)
  moreover have "looked d sb i s (s1\<lparr>io := t2\<rparr>)" using c(4,6,7) by (simp add: looked_def)
  ultimately show ?thesis using that [of a s1 b t1 t2] c by simp
qed

text \<open>What the search delivers, from a block on: the first entry of that name, if there is one.\<close>

definition found :: "nat \<Rightarrow> dirent list \<Rightarrow> nat \<Rightarrow> nat option \<Rightarrow> fs \<Rightarrow> ((nat \<times> nat) option \<times> fs) res" where
  "found i des j r s =
     (case r of
        None \<Rightarrow> Inr (None, s)
      | Some k \<Rightarrow> bindE (iget (i_dev (icache s ! i)) (ucast (de_inum (des ! (j + k)))) s) (\<lambda>(ip, s). Inr (Some (ip, 16 * (j + k)), s)))"

lemma dirlookup_loop_ok:
  assumes "dir_ok d sb i s" "des = map (dir_at i s) [0..<32 * nb]" "nb * BSIZE < sz + BSIZE" "sz \<le> nb * BSIZE"
    "sz = unat (i_size (icache s ! i))" "j \<le> nb"
  shows "\<exists>s'. looked d sb i s s' \<and>
    dirlookup_loop i nm sz (j * BSIZE) s = found i des (32 * j) (first_idx (is_name nm) (drop (32 * j) des)) s'"
  using assms
proof (induction "nb - j" arbitrary: j s)
  case 0
  then have "\<not> j * BSIZE < sz" "drop (32 * j) des = []" by auto
  moreover have "looked d sb i s s" by (rule looked_refl [OF 0(2)])
  ultimately show ?case by (subst dirlookup_loop.simps) (auto simp: found_def)
next
  case (Suc n)
  let ?L = "map (dir_at i s) [32 * j..<32 * j + 32]"
  have jl: "j < nb" using Suc.hyps(2) by simp
  then have "Suc j * BSIZE \<le> nb * BSIZE" by (intro mult_le_mono1) simp
  then have off: "j * BSIZE < sz" using Suc.prems(3) by simp
  obtain a s1 b t1 t2 where c: "bmap i (of_nat j) s = Inr (a, s1)" "icache s1 = icache s" "bread d a (io s1) = Inr (b, t1)"
    "brelse b t1 = Inr t2" "dirents (data (bufs t1 ! b)) = ?L" "looked d sb i s (s1\<lparr>io := t2\<rparr>)"
    using dir_block [OF Suc.prems(1)] off Suc.prems(5) by blast
  let ?s = "s1\<lparr>io := t2\<rparr>"
  have dv: "i_dev (icache s ! i) = d" using Suc.prems(1) by (simp add: dir_ok_def regular_def file_ready_def)
  have r: "on_io (bread d a) s1 = Inr (b, s1\<lparr>io := t1\<rparr>)" "on_io' (brelse b) (s1\<lparr>io := t1\<rparr>) = Inr ?s"
    using on_io_ok [of "bread d a" s1, OF c(3)] on_io'_ok [of "brelse b" "s1\<lparr>io := t1\<rparr>"] c(4) by simp_all
  have D: "drop (32 * j) des = ?L @ drop (32 * Suc j) des"
  proof -
    have "[32 * j..<32 * nb] = [32 * j..<32 * j + 32] @ [32 * Suc j..<32 * nb]"
      using upt_add_eq_append [of "32 * j" "32 * j + 32" "32 * nb - (32 * j + 32)"] jl by (simp add: add.commute)
    then show ?thesis using Suc.prems(2) by (simp add: drop_map)
  qed
  have e: "dirlookup_loop i nm sz (j * BSIZE) s =
      (case first_idx (is_name nm) ?L of
         Some k \<Rightarrow> bindE (iget d (ucast (de_inum (?L ! k))) ?s) (\<lambda>(ip, s). Inr (Some (ip, j * BSIZE + 16 * k), s))
       | None \<Rightarrow> dirlookup_loop i nm sz (j * BSIZE + BSIZE) ?s)"
    using off c(1,2,5) dv r by (subst dirlookup_loop.simps) (simp add: buf_data_def is_name_def [abs_def] split: option.splits)
  show ?case
  proof (cases "first_idx (is_name nm) ?L")
    case (Some k)
    note k = first_idx_SomeD [OF Some]
    have "?L ! k = des ! (32 * j + k)" using k(1) jl Suc.prems(2) by simp
    then have "dirlookup_loop i nm sz (j * BSIZE) s = found i des (32 * j) (Some k) ?s"
      using e Some dv c(2) by (simp add: found_def add_mult_distrib2 mult.commute [of j])
    moreover have "first_idx (is_name nm) (drop (32 * j) des) = Some k" unfolding D first_idx_append Some by simp
    ultimately show ?thesis using c(6) by (intro exI [of _ ?s]) simp
  next
    case None
    have n: "n = nb - Suc j" using Suc.hyps(2) by simp
    have "\<exists>s'. looked d sb i ?s s' \<and> dirlookup_loop i nm sz (Suc j * BSIZE) ?s =
        found i des (32 * Suc j) (first_idx (is_name nm) (drop (32 * Suc j) des)) s'"
      using Suc.prems jl looked_ok [OF c(6)] looked_same [OF c(6)] by (intro Suc.hyps(1) [OF n]) auto
    then obtain s' where s': "looked d sb i ?s s'" "dirlookup_loop i nm sz (Suc j * BSIZE) ?s =
        found i des (32 * Suc j) (first_idx (is_name nm) (drop (32 * Suc j) des)) s'" by blast
    have "first_idx (is_name nm) (drop (32 * j) des) = map_option (\<lambda>k. 32 + k) (first_idx (is_name nm) (drop (32 * Suc j) des))"
      unfolding D first_idx_append None by simp
    then have "found i des (32 * j) (first_idx (is_name nm) (drop (32 * j) des)) s' =
        found i des (32 * Suc j) (first_idx (is_name nm) (drop (32 * Suc j) des)) s'"
      by (simp add: found_def ac_simps split: option.splits)
    then show ?thesis using s' e None looked_trans [OF c(6) s'(1)] by (intro exI [of _ s']) (simp add: add.commute)
  qed
qed

lemma dir_get_list:
  assumes ok: "dir_ok d sb i s" and nb: "unat (i_size (icache s ! i)) \<le> nb * BSIZE" "nb \<le> MAXFILE"
  shows "first_idx (is_name nm) (map (dir_at i s) [0..<32 * nb]) = first_idx (is_name nm) (dir_list i s)"
proof -
  let ?n = "unat (i_size (icache s ! i)) div 16"
  have "?n \<le> 32 * nb" using nb(1) by simp
  then have "[0..<32 * nb] = [0..<?n] @ [?n..<32 * nb]" by (metis le_add_diff_inverse upt_add_eq_append zero_le)
  then have m: "map (dir_at i s) [0..<32 * nb] = dir_list i s @ map (dir_at i s) [?n..<32 * nb]"
    by (simp add: dir_list_def)
  have "first_idx (is_name nm) (map (dir_at i s) [?n..<32 * nb]) = None"
    unfolding first_idx_None
  proof
    fix x assume "x \<in> set (map (dir_at i s) [?n..<32 * nb])"
    then obtain k where k: "?n \<le> k" "k < 32 * nb" "x = dir_at i s k" by auto
    then have "de_inum x = 0" using dir_at_zero [OF ok k(1)] nb(2) by simp
    then show "\<not> is_name nm x" by (simp add: is_name_def)
  qed
  then show ?thesis unfolding m first_idx_append by (simp split: option.splits)
qed

lemma dirlookup_ok:
  assumes ok: "dir_ok d sb i s"
  shows "\<exists>s'. looked d sb i s s' \<and> dirlookup i nm s =
    (case first_idx (is_name nm) (dir_list i s) of
       None \<Rightarrow> Inr (None, s')
     | Some k \<Rightarrow> bindE (iget d (ucast (de_inum (dir_list i s ! k))) s') (\<lambda>(ip, s). Inr (Some (ip, 16 * k), s)))"
proof -
  define sz where "sz = unat (i_size (icache s ! i))"
  define nb where "nb = (sz + 511) div 512"
  let ?des = "map (dir_at i s) [0..<32 * nb]"
  have R: "regular d sb i s" "i_type (icache s ! i) = T_DIR" using ok by (auto simp: dir_ok_def)
  have n: "nb * BSIZE < sz + BSIZE" "sz \<le> nb * BSIZE" by (simp_all add: nb_def)
  have "sz \<le> MAXFILE * BSIZE" using regularD(5) [OF R(1)] by (simp add: sz_def)
  then have nm: "nb \<le> MAXFILE" using n(1) by simp
  obtain s' where s': "looked d sb i s s'"
    "dirlookup_loop i nm sz (0 * BSIZE) s = found i ?des (32 * 0) (first_idx (is_name nm) (drop (32 * 0) ?des)) s'"
    using dirlookup_loop_ok [OF ok refl n sz_def, of 0 nm] by blast
  have f: "first_idx (is_name nm) ?des = first_idx (is_name nm) (dir_list i s)"
    by (rule dir_get_list [OF ok _ nm]) (use n(2) in \<open>simp add: sz_def\<close>)
  have dv: "i_dev (icache s' ! i) = d"
    using looked_same(4) [OF s'(1)] R(1) by (simp add: regular_def file_ready_def)
  have "?des ! k = dir_list i s ! k" if "first_idx (is_name nm) (dir_list i s) = Some k" for k
    using first_idx_SomeD(1) [OF that] n(2) by (simp add: dir_list_def sz_def [symmetric])
  then have "dirlookup i nm s =
    (case first_idx (is_name nm) (dir_list i s) of
       None \<Rightarrow> Inr (None, s')
     | Some k \<Rightarrow> bindE (iget d (ucast (de_inum (dir_list i s ! k))) s') (\<lambda>(ip, s). Inr (Some (ip, 16 * k), s)))"
    using s'(2) R(2) f dv by (simp add: dirlookup_def sz_def found_def split: option.splits)
  then show ?thesis using s'(1) by blast
qed

section \<open>Adding a name\<close>

lemma dir_entry_read:
  assumes ok: "dir_ok d sb i s" and k: "k < length (dir_list i s)"
  obtains s' xs where "readi i (of_nat (16 * k)) 16 s = Inr (Done 16 xs, s')" "decode_dirent xs = dir_list i s ! k"
    "looked d sb i s s'"
proof -
  have R: "regular d sb i s" using ok by (simp add: dir_ok_def)
  let ?sz = "unat (i_size (icache s ! i))"
  have kk: "16 * k + 16 \<le> ?sz" using k by (simp add: dir_list_def)
  have o: "16 * k \<le> length (file_bytes i s)" "16 * k + 16 < 2 ^ 32" using kk regularD(5) [OF R] by auto
  have l: "min 16 (length (file_bytes i s) - 16 * k) = 16" using kk by simp
  obtain s' where s': "readi i (of_nat (16 * k)) (of_nat 16) s = Inr (Done (int 16) (slice (16 * k) 16 (file_bytes i s)), s')"
    "rw_step d sb i s s'" "disk (io s') = disk (io s)" "icache s' = icache s"
    using readi_ok [OF R o] unfolding l by metis
  have "slice (16 * k) 16 (file_bytes i s) = map (byte_at i s) [16 * k..<16 * k + 16]"
    by (rule nth_equalityI) (use kk in \<open>simp_all add: length_slice nth_slice file_bytes_def\<close>)
  then have "decode_dirent (slice (16 * k) 16 (file_bytes i s)) = dir_list i s ! k"
    using k by (simp add: dir_list_def dir_at_def)
  then show ?thesis using that s' by (simp add: looked_def)
qed

definition empty_slot :: "dirent list \<Rightarrow> nat" where
  "empty_slot des = (case first_idx (\<lambda>de. de_inum de = 0) des of None \<Rightarrow> length des | Some k \<Rightarrow> k)"

lemma dirlink_loop_ok:
  assumes "dir_ok d sb i s" "des = dir_list i s" "j \<le> empty_slot des"
  shows "\<exists>s'. looked d sb i s s' \<and> dirlink_loop i (16 * length des) (16 * j) s = Inr (16 * empty_slot des, s')"
  using assms
proof (induction "length des - j" arbitrary: j s)
  case 0
  have "empty_slot des \<le> length des" by (auto simp: empty_slot_def dest: first_idx_SomeD split: option.splits)
  then have "j = length des" "empty_slot des = length des" using 0 by auto
  then show ?case using looked_refl [OF 0(2)] by (subst dirlink_loop.simps) auto
next
  case (Suc n)
  then have j: "j < length (dir_list i s)" by simp
  obtain s1 xs where r: "readi i (of_nat (16 * j)) 16 s = Inr (Done 16 xs, s1)" "decode_dirent xs = dir_list i s ! j"
    "looked d sb i s s1" by (rule dir_entry_read [OF Suc.prems(1) j])
  have e: "dirlink_loop i (16 * length des) (16 * j) s =
      (if de_inum (des ! j) = 0 then Inr (16 * j, s1) else dirlink_loop i (16 * length des) (16 * Suc j) s1)"
    using j r(1,2) Suc.prems(2) by (subst dirlink_loop.simps) (simp add: add.commute)
  show ?case
  proof (cases "de_inum (des ! j) = 0")
    case True
    then have "\<exists>k. first_idx (\<lambda>de. de_inum de = 0) des = Some k \<and> k \<le> j"
      using j Suc.prems(2) by (intro first_idx_total) auto
    then have "empty_slot des = j" using Suc.prems(3) by (auto simp: empty_slot_def)
    then show ?thesis using e True r(3) by auto
  next
    case False
    have "Suc j \<le> empty_slot des"
    proof (cases "first_idx (\<lambda>de. de_inum de = 0) des")
      case None
      then show ?thesis using j Suc.prems(2) by (simp add: empty_slot_def)
    next
      case (Some k)
      then have "k \<noteq> j" using False first_idx_SomeD(2) [OF Some] by auto
      then show ?thesis using Some Suc.prems(3) by (simp add: empty_slot_def)
    qed
    then have "\<exists>s'. looked d sb i s1 s' \<and> dirlink_loop i (16 * length des) (16 * Suc j) s1 = Inr (16 * empty_slot des, s')"
      using Suc.hyps(2) Suc.prems(2) looked_ok [OF r(3) Suc.prems(1)] looked_same(3) [OF r(3)] by (intro Suc.hyps(1)) auto
    then show ?thesis using e False looked_trans [OF r(3)] by auto
  qed
qed


definition add_entry :: "dirent \<Rightarrow> dirent list \<Rightarrow> dirent list" where
  "add_entry de des = (let k = empty_slot des in if k < length des then des[k := de] else des @ [de])"

lemma need_entry: "need (16 * k) 16 = 2"
proof -
  have "(16 * k) mod BSIZE = 16 * (k mod 32)" by (simp add: mult_mod_right)
  moreover have "(16 * (k mod 32) + 16 + 511) div 512 = 1"
  proof (rule div_nat_eqI)
    have "k mod 32 < 32" by simp
    then show "16 * (k mod 32) + 16 + 511 < 512 * Suc 1" by simp
  qed simp
  ultimately show ?thesis by (simp add: need_def)
qed

lemma writei_entry:
  assumes ok: "dir_ok d sb i s" and rm: "2 \<le> room d sb s" and k: "k \<le> length (dir_list i s)" "16 * k + 16 \<le> MAXFILE * BSIZE"
    and de: "length (de_name de) = DIRSIZ"
  obtains s' where "writei i (dirent_bytes de) (of_nat (16 * k)) 16 s = Inr (Done 16 [], s')" "dir_ok d sb i s'"
    "dir_list i s' = (if k < length (dir_list i s) then (dir_list i s)[k := de] else dir_list i s @ [de])"
proof -
  have R: "regular d sb i s" using ok by (simp add: dir_ok_def)
  let ?sz = "unat (i_size (icache s ! i))" and ?bs = "dirent_bytes de"
  have sz: "?sz = 16 * length (dir_list i s)" by (rule dir_size [OF ok])
  have lb: "length ?bs = 16" using de by (simp add: dirent_bytes_def bytes16_def)
  have o: "16 * k \<le> length (file_bytes i s)" "16 * k + 16 < 2 ^ 32" "16 \<le> length ?bs" using k sz lb by auto
  have l: "min 16 (MAXFILE * BSIZE - 16 * k) = 16" using k(2) by simp
  obtain s' where s': "writei i ?bs (of_nat (16 * k)) (of_nat 16) s = Inr (Done (int 16) [], s')" "regular d sb i s'"
    "file_bytes i s' = take (16 * k) (file_bytes i s) @ take 16 ?bs @ drop (16 * k + 16) (file_bytes i s)"
    "\<forall>m<MAXFILE * BSIZE. byte_at i s' m = written (byte_at i s) (16 * k) (take 16 ?bs) m"
    "i_type (icache s' ! i) = i_type (icache s ! i)"
    using writei_ok [OF R o] rm unfolding l need_entry by metis
  have sz': "unat (i_size (icache s' ! i)) = 16 * max (length (dir_list i s)) (Suc k)"
  proof -
    have "length (file_bytes i s') = max ?sz (16 * k + 16)" unfolding s'(3) using o(1) lb by auto
    then show ?thesis using sz by (simp add: max_def)
  qed
  have at: "dir_at i s' m = (if m = k then de else dir_at i s m)" if m: "16 * m + 16 \<le> MAXFILE * BSIZE" for m
  proof (cases "m = k")
    case True
    have "map (byte_at i s') [16 * m..<16 * m + 16] = ?bs"
      by (rule nth_equalityI) (use True m lb s'(4) in \<open>auto simp: written_def\<close>)
    then show ?thesis using True de by (simp add: dir_at_def decode_dirent_bytes)
  next
    case False
    have "map (byte_at i s') [16 * m..<16 * m + 16] = map (byte_at i s) [16 * m..<16 * m + 16]"
      by (rule nth_equalityI) (use False m lb s'(4) in \<open>auto simp: written_def\<close>)
    then have "dir_at i s' m = dir_at i s m" unfolding dir_at_def by (rule arg_cong)
    then show ?thesis using False by simp
  qed
  have "dir_ok d sb i s'"
    unfolding dir_ok_def
  proof (intro conjI allI impI)
    show "regular d sb i s'" by (rule s'(2))
    show "i_type (icache s' ! i) = T_DIR" using s'(5) ok by (simp add: dir_ok_def)
    show "16 dvd unat (i_size (icache s' ! i))" unfolding sz' by simp
    show "byte_at i s' m = 0" if "m < MAXFILE * BSIZE" "unat (i_size (icache s' ! i)) \<le> m" for m
    proof -
      have "16 * Suc k \<le> m" "16 * length (dir_list i s) \<le> m" using that(2) unfolding sz' by (auto simp: max_def split: if_splits)
      then have "16 * k + 16 \<le> m" "?sz \<le> m" using sz by auto
      then show ?thesis using s'(4) that(1) ok lb by (auto simp: written_def dir_ok_def)
    qed
  qed
  moreover have "dir_list i s' = (if k < length (dir_list i s) then (dir_list i s)[k := de] else dir_list i s @ [de])"
  proof (rule nth_equalityI)
    have n: "length (dir_list i s') = max (length (dir_list i s)) (Suc k)" by (simp add: dir_list_def [of i s'] sz')
    show "length (dir_list i s') = length (if k < length (dir_list i s) then (dir_list i s)[k := de] else dir_list i s @ [de])"
      using n k(1) by auto
    fix m assume "m < length (dir_list i s')"
    then have m: "m < max (length (dir_list i s)) (Suc k)" using n by simp
    have "16 * length (dir_list i s) \<le> MAXFILE * BSIZE" using regularD(5) [OF R] sz by simp
    then have "16 * m + 16 \<le> MAXFILE * BSIZE" using m k(2) by auto
    then have "dir_list i s' ! m = (if m = k then de else dir_at i s m)" using at m by (simp add: dir_list_def [of i s'] sz')
    moreover have "dir_list i s ! m = dir_at i s m" if "m < length (dir_list i s)" using that by (simp add: dir_list_def)
    ultimately show "dir_list i s' ! m = (if k < length (dir_list i s) then (dir_list i s)[k := de] else dir_list i s @ [de]) ! m"
      using m k(1) by (auto simp: nth_append)
  qed
  ultimately show ?thesis using that s'(1) by simp
qed

lemma dir_list_names: "x \<in> set (dir_list i s) \<Longrightarrow> length (de_name x) = DIRSIZ"
  by (auto simp: dir_list_def dir_at_def decode_dirent_def slice_def)

lemma is_name_iff:
  assumes "name_ok DIRSIZ nm" "length (de_name x) = DIRSIZ"
  shows "is_name nm x \<longleftrightarrow> de_inum x \<noteq> 0 \<and> name_copy DIRSIZ nm = name_copy DIRSIZ (de_name x)"
proof -
  have "name_ok DIRSIZ (de_name x)" using assms(2) by (simp add: name_ok_def)
  then show ?thesis using namecmp_zero [OF assms(1)] by (simp add: is_name_def)
qed

text \<open>The effect on the map from names to numbers.\<close>

lemma dir_get_add:
  assumes nm: "name_ok DIRSIZ nm" "name_ok DIRSIZ nm'" and des: "\<forall>x\<in>set des. length (de_name x) = DIRSIZ"
    and new: "dir_get nm des = None" and de: "de = \<lparr>de_inum = v, de_name = name_copy DIRSIZ nm\<rparr>" "v \<noteq> 0"
  shows "dir_get nm' (add_entry de des) =
    (if name_copy DIRSIZ nm' = name_copy DIRSIZ nm then Some v else dir_get nm' des)"
proof -
  define k where "k = empty_slot des"
  define ds where "ds = add_entry de des"
  have ds: "ds = (if k < length des then des[k := de] else des @ [de])" by (simp add: ds_def add_entry_def k_def Let_def)
  have kl: "k \<le> length des" "k < length des \<Longrightarrow> de_inum (des ! k) = 0"
    by (auto simp: k_def empty_slot_def dest: first_idx_SomeD split: option.splits)
  have at: "ds ! m = (if m = k then de else des ! m)" if "m < length ds" for m
    using that kl(1) by (auto simp: ds nth_append nth_list_update)
  have len: "length ds = max (length des) (Suc k)" using kl(1) by (auto simp: ds)
  have isde: "is_name nm' de \<longleftrightarrow> name_copy DIRSIZ nm' = name_copy DIRSIZ nm" using nm de by (simp add: is_name_iff)
  show ?thesis
  proof (cases "name_copy DIRSIZ nm' = name_copy DIRSIZ nm")
    case True
    have none: "\<not> is_name nm' x" if "x \<in> set des" for x
    proof -
      have "\<not> is_name nm x" using new that by (auto simp: dir_get_def first_idx_None)
      then show ?thesis using True nm des that by (simp add: is_name_iff)
    qed
    have "first_idx (is_name nm') ds = Some k"
      unfolding first_idx_Some using len at isde True none kl(1) by auto
    moreover have "ds ! k = de" using at [of k] len by simp
    ultimately show ?thesis using True de by (simp add: dir_get_def ds_def)
  next
    case False
    have sp: "is_name nm' (ds ! m) \<longleftrightarrow> is_name nm' (des ! m)" if "m < length des" for m
      using at [of m] that len isde False kl(2) by (auto simp: is_name_def)
    have f: "first_idx (is_name nm') ds = first_idx (is_name nm') des"
    proof (cases "k < length des")
      case True
      then show ?thesis using sp len by (intro first_idx_cong) auto
    next
      case k: False
      then show ?thesis using isde False by (simp add: ds first_idx_append split: option.splits)
    qed
    have "de_inum (ds ! m) = de_inum (des ! m)" if "first_idx (is_name nm') des = Some m" for m
      using first_idx_SomeD(1,2) [OF that] at [of m] len kl(2) by (auto simp: is_name_def)
    then show ?thesis
      using f False by (cases "first_idx (is_name nm') des") (simp_all add: dir_get_def ds_def [symmetric])
  qed
qed

text \<open>
  C11. Adding a name to a directory. If the name is not there, there is room for one more entry
  and two blocks are free, \<open>dirlink\<close> succeeds: the new entry is put into the first empty slot or
  at the end, the directory stays in good order, the name now has the given inode number and
  every other name the one it had; a following \<open>dirlookup\<close> of any name that counts as the same
  finds the new entry.
\<close>

theorem dirlink_dirlookup:
  assumes ok: "dir_ok d sb i s" and nm: "name_ok DIRSIZ nm" "dir_get nm (dir_list i s) = None"
    and room: "2 \<le> room d sb s" "16 * empty_slot (dir_list i s) + 16 \<le> MAXFILE * BSIZE" and inum: "ucast inum \<noteq> (0 :: u16)"
  shows "\<exists>s'. dirlink i nm inum s = Inr (0, s') \<and> dir_ok d sb i s' \<and>
    dir_list i s' = add_entry \<lparr>de_inum = ucast inum, de_name = name_copy DIRSIZ nm\<rparr> (dir_list i s) \<and>
    (\<forall>nm'. name_ok DIRSIZ nm' \<longrightarrow> dir_get nm' (dir_list i s') =
       (if name_copy DIRSIZ nm' = name_copy DIRSIZ nm then Some (ucast inum) else dir_get nm' (dir_list i s))) \<and>
    (\<exists>k s''. dirlookup i nm s' = bindE (iget d (ucast (ucast inum :: u16)) s'') (\<lambda>(ip, s). Inr (Some (ip, 16 * k), s)))"
proof -
  let ?de = "\<lparr>de_inum = ucast inum, de_name = name_copy DIRSIZ nm\<rparr> :: dirent" and ?des = "dir_list i s"
  have none: "first_idx (is_name nm) ?des = None" using nm(2) by (simp add: dir_get_def)
  obtain s1 where s1: "looked d sb i s s1" "dirlookup i nm s = Inr (None, s1)"
    using dirlookup_ok [OF ok, of nm] none by auto
  have ok1: "dir_ok d sb i s1" by (rule looked_ok [OF s1(1) ok])
  have e1: "dir_list i s1 = ?des" "room d sb s1 = room d sb s" using looked_same [OF s1(1)] by simp_all
  have sz: "unat (i_size (icache s1 ! i)) = 16 * length ?des" using dir_size [OF ok1] e1(1) by simp
  obtain s2 where s2: "looked d sb i s1 s2" "dirlink_loop i (16 * length ?des) (16 * 0) s1 = Inr (16 * empty_slot ?des, s2)"
    using dirlink_loop_ok [OF ok1 e1(1) [symmetric], of 0] by auto
  have ok2: "dir_ok d sb i s2" by (rule looked_ok [OF s2(1) ok1])
  have e2: "dir_list i s2 = ?des" "room d sb s2 = room d sb s" using looked_same [OF s2(1)] e1 by simp_all
  have k: "empty_slot ?des \<le> length (dir_list i s2)"
    unfolding e2(1) by (auto simp: empty_slot_def dest: first_idx_SomeD split: option.splits)
  obtain s3 where s3: "writei i (dirent_bytes ?de) (of_nat (16 * empty_slot ?des)) 16 s2 = Inr (Done 16 [], s3)" "dir_ok d sb i s3"
    "dir_list i s3 = (if empty_slot ?des < length (dir_list i s2) then (dir_list i s2)[empty_slot ?des := ?de] else dir_list i s2 @ [?de])"
    by (rule writei_entry [OF ok2 _ k room(2), of ?de]) (use room(1) e2(2) in simp_all)
  have "dirlink i nm inum s = Inr (0, s3)"
    using s1(2) s2(2) s3(1) sz by (simp add: dirlink_def Let_def)
  moreover have add: "dir_list i s3 = add_entry ?de ?des" unfolding s3(3) e2(1) by (simp add: add_entry_def Let_def)
  moreover have get: "dir_get nm' (dir_list i s3) =
       (if name_copy DIRSIZ nm' = name_copy DIRSIZ nm then Some (ucast inum) else dir_get nm' ?des)" if "name_ok DIRSIZ nm'" for nm'
    unfolding add by (rule dir_get_add [OF nm(1) that _ nm(2) refl inum]) (use dir_list_names in blast)
  moreover have "\<exists>k s''. dirlookup i nm s3 = bindE (iget d (ucast (ucast inum :: u16)) s'') (\<lambda>(ip, s). Inr (Some (ip, 16 * k), s))"
  proof -
    have g: "dir_get nm (dir_list i s3) = Some (ucast inum)" using get [OF nm(1)] by simp
    then obtain k where k: "first_idx (is_name nm) (dir_list i s3) = Some k" "de_inum (dir_list i s3 ! k) = ucast inum"
      by (auto simp: dir_get_def)
    obtain s'' where "dirlookup i nm s3 = bindE (iget d (ucast (de_inum (dir_list i s3 ! k))) s'') (\<lambda>(ip, s). Inr (Some (ip, 16 * k), s))"
      using dirlookup_ok [OF s3(2), of nm] k(1) by auto
    then show ?thesis using k(2) by metis
  qed
  ultimately show ?thesis using s3(2) by blast
qed


text \<open>The small volume with an empty directory, and the name \<open>a\<close>.\<close>

definition small_dir :: fs where
  "small_dir = small_fs\<lparr>icache := [(icache small_fs ! 0)\<lparr>i_type := T_DIR\<rparr>]\<rparr>"

lemma small_dir_ok: "dir_ok 1 small_sb 0 small_dir" "dir_list 0 small_dir = []" "room 1 small_sb small_dir = 82"
proof -
  have fa: "faddr D d (replicate 13 0) bn = 0" for D d bn by (auto simp: faddr_def)
  then have b: "byte_at 0 small_dir k = 0" for k by (simp only: byte_at_def fbyte_def) (simp add: small_dir_def small_fs_def fa)
  have r: "regular 1 small_sb 0 small_dir"
    using small_file(1) by (simp add: regular_def file_ready_def small_dir_def small_fs_def mapped_def)
  show "dir_ok 1 small_sb 0 small_dir" using r b by (simp add: dir_ok_def small_dir_def small_fs_def)
  show "dir_list 0 small_dir = []" by (simp add: dir_list_def small_dir_def small_fs_def)
  show "room 1 small_sb small_dir = 82" using small_file(3) by (simp add: room_def small_dir_def)
qed

theorem dirlink_dirlookup_witness:
  "\<exists>s'. dirlink 0 [97, 0] 7 small_dir = Inr (0, s') \<and> dir_get [97, 0, 98] (dir_list 0 s') = Some 7 \<and>
     dir_get [98, 0] (dir_list 0 s') = None"
proof -
  have "name_ok DIRSIZ [97, 0]" "dir_get [97, 0] (dir_list 0 small_dir) = None" "2 \<le> room 1 small_sb small_dir"
    "16 * empty_slot (dir_list 0 small_dir) + 16 \<le> MAXFILE * BSIZE" "ucast (7 :: u32) \<noteq> (0 :: u16)"
    by (simp_all add: name_ok_def small_dir_ok dir_get_def empty_slot_def)
  from dirlink_dirlookup [OF small_dir_ok(1) this] obtain s' where s': "dirlink 0 [97, 0] 7 small_dir = Inr (0, s')"
    "\<forall>nm'. name_ok DIRSIZ nm' \<longrightarrow> dir_get nm' (dir_list 0 s') =
       (if name_copy DIRSIZ nm' = name_copy DIRSIZ [97, 0] then Some (ucast (7 :: u32)) else dir_get nm' (dir_list 0 small_dir))"
    by blast
  have c: "name_copy DIRSIZ [97, 0, 98] = name_copy DIRSIZ [97, 0]" "name_copy DIRSIZ [98, 0] \<noteq> name_copy DIRSIZ [97, 0]"
    by code_simp+
  have "name_ok DIRSIZ [97, 0, 98]" "name_ok DIRSIZ [98, 0]" by (simp_all add: name_ok_def)
  then have "dir_get [97, 0, 98] (dir_list 0 s') = Some 7" "dir_get [98, 0] (dir_list 0 s') = None"
    using s'(2) c by (simp_all add: small_dir_ok) (simp add: dir_get_def)
  then show ?thesis using s'(1) by blast
qed

text \<open>
  What \<open>dirlookup\<close> finds. On a directory in good order the search ends without a panic; it
  finds the first entry in use with the name (of which at most \<open>DIRSIZ\<close> bytes count), returns its
  byte offset and the in-memory inode for its number, and finds nothing exactly if there is no
  such entry. Neither the disk nor the inodes have changed before the inode is looked up.
\<close>

theorem dirlookup_finds_first:
  assumes ok: "dir_ok d sb i s"
  shows "\<exists>s'. looked d sb i s s' \<and> dirlookup i nm s =
    (case first_idx (is_name nm) (dir_list i s) of
       None \<Rightarrow> Inr (None, s')
     | Some k \<Rightarrow> bindE (iget d (ucast (de_inum (dir_list i s ! k))) s') (\<lambda>(ip, s). Inr (Some (ip, 16 * k), s)))"
  by (rule dirlookup_ok [OF ok])

theorem dirlookup_finds_first_witness:
  "\<exists>s'. dirlookup 0 [97, 0] small_dir = Inr (None, s') \<and> disk (io s') = disk (io small_dir)"
  using dirlookup_finds_first [OF small_dir_ok(1), of "[97, 0]"] by (auto simp: small_dir_ok looked_def)

end
