(* ===== verification/Grep.thy ===== *)
theory Grep
  imports Prelude
begin

text \<open>
  The user program \<^verbatim>\<open>grep\<close> (\<^verbatim>\<open>user/grep.c\<close>): the regular-expression matcher, which agrees with
  the language of the pattern, and the loop over the lines of a file. A string is the list of
  its bytes before the NUL.
\<close>

section \<open>The matcher\<close>

abbreviation (input) CARET :: u8 where "CARET \<equiv> 94"
abbreviation (input) DOLLAR :: u8 where "DOLLAR \<equiv> 36"
abbreviation (input) STAR :: u8 where "STAR \<equiv> 42"
abbreviation (input) PERIOD :: u8 where "PERIOD \<equiv> 46"
abbreviation (input) NEWLINE :: u8 where "NEWLINE \<equiv> 10"

function matchhere :: "u8 list \<Rightarrow> u8 list \<Rightarrow> bool" and matchstar :: "u8 \<Rightarrow> u8 list \<Rightarrow> u8 list \<Rightarrow> bool" where
  "matchhere re str =
     (case re of
        [] \<Rightarrow> True
      | c # re' \<Rightarrow>
          if re' \<noteq> [] \<and> hd re' = STAR then matchstar c (tl re') str
          else if c = DOLLAR \<and> re' = [] then str = []
          else if str \<noteq> [] \<and> (c = PERIOD \<or> c = hd str) then matchhere re' (tl str)
          else False)"
| "matchstar c re str =
     (if matchhere re str then True
      else if str \<noteq> [] \<and> (hd str = c \<or> c = PERIOD) then matchstar c re (tl str)
      else False)"
  by pat_completeness auto
termination
  by (relation "measures [case_sum (\<lambda>(re, str). 2 * length re) (\<lambda>(c, re, str). 2 * length re + 1),
                          case_sum (\<lambda>(re, str). length str) (\<lambda>(c, re, str). length str)]")
    (auto simp: neq_Nil_conv)

declare matchhere.simps [simp del] matchstar.simps [simp del]

fun match_loop :: "u8 list \<Rightarrow> u8 list \<Rightarrow> bool" where
  "match_loop re [] = matchhere re []"
| "match_loop re (c # str) = (if matchhere re (c # str) then True else match_loop re str)"

definition match :: "u8 list \<Rightarrow> u8 list \<Rightarrow> bool" where
  "match re str = (if re \<noteq> [] \<and> hd re = CARET then matchhere (tl re) str else match_loop re str)"

section \<open>Lines of a file\<close>

text \<open>
  \<open>find_line\<close> is \<^verbatim>\<open>strchr(p, '\\n')\<close> (ulib.c) on the rest of the buffer: the distance to the next
  newline, or none if a NUL comes first. The buffer is not terminated; running past its end is
  undefined.
\<close>

fun find_line :: "u8 list \<Rightarrow> nat option res" where
  "find_line [] = Inl (Undefined ''strchr past buf'')"
| "find_line (c # cs) =
     (if c = 0 then Inr None
      else if c = NEWLINE then Inr (Some 0)
      else bindE (find_line cs) (\<lambda>r. Inr (map_option Suc r)))"

lemma find_line_bound: "find_line cs = Inr (Some k) \<Longrightarrow> k < length cs"
  by (induction cs arbitrary: k) (auto simp: res_simps split: if_splits)

text \<open>The loop over the lines in the buffer: the start of the rest, the buffer and the output.\<close>

function grep_lines :: "u8 list \<Rightarrow> nat \<Rightarrow> u8 list \<Rightarrow> u8 list \<Rightarrow> (nat \<times> u8 list \<times> u8 list) res" where
  "grep_lines pat p buf out =
     (case find_line (drop p buf) of
        Inl e \<Rightarrow> Inl e
      | Inr None \<Rightarrow> Inr (p, buf, out)
      | Inr (Some k) \<Rightarrow>
          if match pat (take k (drop p buf))
          then grep_lines pat (p + k + 1) (buf[p + k := NEWLINE]) (out @ take k (drop p buf) @ [NEWLINE])
          else grep_lines pat (p + k + 1) (buf[p + k := 0]) out)"
  by pat_completeness auto
termination
  by (relation "measure (\<lambda>(pat, p, buf, out). length buf - p)") (auto dest!: find_line_bound)

declare grep_lines.simps [simp del]

text \<open>
  \<^verbatim>\<open>grep\<close>: the third argument is what successive calls of \<^verbatim>\<open>read\<close> deliver, each at most as much
  as was asked for. \<^verbatim>\<open>m\<close> is a signed number: a newline left over from an earlier read can put the
  start of the rest behind the bytes that are there, and then the next read goes to an address
  before the buffer.
\<close>

fun grep :: "u8 list \<Rightarrow> u8 list \<Rightarrow> u8 list list \<Rightarrow> int \<Rightarrow> u8 list \<Rightarrow> u8 list res" where
  "grep pat buf [] m out = Inr out"
| "grep pat buf (c # cs) m out =
     (if c = [] then Inr out
      else if m < 0 then Inl (Undefined ''read before buf'')
      else
        let buf = take (nat m) buf @ c @ drop (nat m + length c) buf;
            m = m + int (length c) in
        bindE (grep_lines pat 0 buf out) (\<lambda>(p, buf, out).
        let m = (if p = 0 then 0 else m) in
        if m > 0 then
          let m = m - int p in grep pat (take (nat m) (drop p buf) @ drop (nat m) buf) cs m out
        else grep pat buf cs m out))"

section \<open>The language of a pattern\<close>

text \<open>
  A pattern is a sequence of single characters and starred characters, where a period stands
  for any character; it may be anchored at the start and at the end of the text.
\<close>

datatype item = One u8 | Many u8

fun parse_items :: "u8 list \<Rightarrow> item list \<times> bool" where
  "parse_items [] = ([], False)"
| "parse_items [c] = (if c = DOLLAR then ([], True) else ([One c], False))"
| "parse_items (c # d # re) =
     (if d = STAR then let (is, e) = parse_items re in (Many c # is, e)
      else let (is, e) = parse_items (d # re) in (One c # is, e))"

definition char_ok :: "u8 \<Rightarrow> u8 \<Rightarrow> bool" where
  "char_ok c x \<longleftrightarrow> c = PERIOD \<or> x = c"

fun lang :: "item list \<Rightarrow> u8 list set" where
  "lang [] = {[]}"
| "lang (One c # is) = {x # w | x w. char_ok c x \<and> w \<in> lang is}"
| "lang (Many c # is) = {v @ w | v w. (\<forall>x\<in>set v. char_ok c x) \<and> w \<in> lang is}"

definition occurs :: "bool \<Rightarrow> bool \<Rightarrow> item list \<Rightarrow> u8 list \<Rightarrow> bool" where
  "occurs at_start at_end is str \<longleftrightarrow>
     (\<exists>u v w. str = u @ v @ w \<and> v \<in> lang is \<and> (at_start \<longrightarrow> u = []) \<and> (at_end \<longrightarrow> w = []))"

lemma occurs_start: "occurs True e is str \<longleftrightarrow> (\<exists>v w. str = v @ w \<and> v \<in> lang is \<and> (e \<longrightarrow> w = []))"
  by (auto simp: occurs_def)

lemma occurs_One: "occurs True e (One c # is) str \<longleftrightarrow> str \<noteq> [] \<and> char_ok c (hd str) \<and> occurs True e is (tl str)"
proof (cases str)
  case (Cons x t)
  have "(\<exists>v w. x # t = v @ w \<and> v \<in> lang (One c # is) \<and> (e \<longrightarrow> w = [])) \<longleftrightarrow>
      char_ok c x \<and> (\<exists>v w. t = v @ w \<and> v \<in> lang is \<and> (e \<longrightarrow> w = []))"
    (is "?l \<longleftrightarrow> ?r")
  proof
    assume ?l
    then obtain v w where "x # t = v @ w" "v \<in> lang (One c # is)" "e \<longrightarrow> w = []" by blast
    moreover from this(2) obtain y u where "v = y # u" "char_ok c y" "u \<in> lang is" by auto
    ultimately show ?r by auto
  next
    assume ?r
    then obtain v w where "char_ok c x" "t = v @ w" "v \<in> lang is" "e \<longrightarrow> w = []" by blast
    then have "x # t = (x # v) @ w" "x # v \<in> lang (One c # is)" "e \<longrightarrow> w = []" by auto
    then show ?l by blast
  qed
  then show ?thesis using Cons by (simp add: occurs_start)
qed (auto simp: occurs_start)

lemma occurs_Many_iff: "occurs True e (Many c # is) str \<longleftrightarrow>
    (\<exists>v w r. str = v @ w @ r \<and> (\<forall>x\<in>set v. char_ok c x) \<and> w \<in> lang is \<and> (e \<longrightarrow> r = []))"
    (is "?l \<longleftrightarrow> ?r")
proof
  assume ?l
  then obtain u r where u: "str = u @ r" "u \<in> lang (Many c # is)" "e \<longrightarrow> r = []" unfolding occurs_start by blast
  from u(2) obtain v w where "u = v @ w" "\<forall>x\<in>set v. char_ok c x" "w \<in> lang is" by auto
  with u(1,3) have "str = v @ w @ r \<and> (\<forall>x\<in>set v. char_ok c x) \<and> w \<in> lang is \<and> (e \<longrightarrow> r = [])" by simp
  then show ?r by blast
next
  assume ?r
  then obtain v w r where r: "str = v @ w @ r" "\<forall>x\<in>set v. char_ok c x" "w \<in> lang is" "e \<longrightarrow> r = []" by blast
  then have "v @ w \<in> lang (Many c # is)" "str = (v @ w) @ r" by auto
  then show ?l unfolding occurs_start using r(4) by blast
qed

lemma occurs_Many:
  "occurs True e (Many c # is) str \<longleftrightarrow>
     occurs True e is str \<or> str \<noteq> [] \<and> char_ok c (hd str) \<and> occurs True e (Many c # is) (tl str)"
  (is "?l \<longleftrightarrow> ?r")
proof
  assume ?l
  then obtain v w r where t: "str = v @ w @ r" and v: "\<forall>x\<in>set v. char_ok c x" and w: "w \<in> lang is" "e \<longrightarrow> r = []"
    unfolding occurs_Many_iff by blast
  show ?r
  proof (cases v)
    case Nil
    then show ?thesis using t w unfolding occurs_start by auto
  next
    case (Cons x v')
    then have "tl str = v' @ w @ r" "\<forall>x\<in>set v'. char_ok c x" using t v by simp_all
    then have "occurs True e (Many c # is) (tl str)" unfolding occurs_Many_iff using w by blast
    then show ?thesis using Cons t v by simp
  qed
next
  assume ?r
  then show ?l
  proof
    assume "occurs True e is str"
    then obtain w r where "str = [] @ w @ r" "w \<in> lang is" "e \<longrightarrow> r = []" unfolding occurs_start by auto
    moreover have "\<forall>x\<in>set []. char_ok c x" by simp
    ultimately show ?l unfolding occurs_Many_iff by blast
  next
    assume s: "str \<noteq> [] \<and> char_ok c (hd str) \<and> occurs True e (Many c # is) (tl str)"
    then obtain v w r where t: "tl str = v @ w @ r" and v: "\<forall>x\<in>set v. char_ok c x" and w: "w \<in> lang is" "e \<longrightarrow> r = []"
      unfolding occurs_Many_iff by blast
    have "str = (hd str # v) @ w @ r" using s t by (cases str) auto
    moreover have "\<forall>x\<in>set (hd str # v). char_ok c x" using s v by simp
    ultimately show ?l unfolding occurs_Many_iff using w by blast
  qed
qed

lemma matchhere_lang:
  "matchhere re str \<longleftrightarrow> occurs True (snd (parse_items re)) (fst (parse_items re)) str"
  "matchstar c re str \<longleftrightarrow> occurs True (snd (parse_items re)) (Many c # fst (parse_items re)) str"
proof (induction re str and c re str rule: matchhere_matchstar.induct)
  case (1 re str)
  show ?case
  proof (cases re rule: parse_items.cases)
    case 1
    then show ?thesis by (simp add: matchhere.simps occurs_start)
  next
    case (2 c)
    have "matchhere [] t" "occurs True False [] t" "occurs True True [] t \<longleftrightarrow> t = []" for t
      by (simp_all add: matchhere.simps occurs_start)
    then show ?thesis unfolding 2 matchhere.simps [of "[c]"] by (auto simp: occurs_One char_ok_def)
  next
    case (3 c d re')
    show ?thesis
    proof (cases "d = STAR")
      case True
      then have "matchhere re str = matchstar c re' str" using 3 by (subst matchhere.simps) simp
      also have "\<dots> = occurs True (snd (parse_items re')) (Many c # fst (parse_items re')) str"
        by (rule "1.IH"(1) [of c "d # re'", simplified]) (use 3 True in simp_all)
      finally show ?thesis using 3 True by (simp add: split_def Let_def)
    next
      case False
      have "matchhere re str \<longleftrightarrow> str \<noteq> [] \<and> char_ok c (hd str) \<and> matchhere (d # re') (tl str)"
        using 3 False by (subst matchhere.simps) (auto simp: char_ok_def)
      moreover have "matchhere (d # re') (tl str) \<longleftrightarrow> occurs True (snd (parse_items (d # re'))) (fst (parse_items (d # re'))) (tl str)"
        if "str \<noteq> []" "char_ok c (hd str)"
        by (rule "1.IH"(2) [of c "d # re'"]) (use 3 False that in \<open>auto simp: char_ok_def\<close>)
      ultimately show ?thesis using 3 False by (auto simp: split_def Let_def occurs_One)
    qed
  qed
next
  case (2 c re str)
  have m: "matchstar c re str \<longleftrightarrow> matchhere re str \<or> str \<noteq> [] \<and> char_ok c (hd str) \<and> matchstar c re (tl str)"
    by (subst matchstar.simps) (auto simp: char_ok_def)
  have "matchstar c re (tl str) \<longleftrightarrow> occurs True (snd (parse_items re)) (Many c # fst (parse_items re)) (tl str)"
    if "\<not> matchhere re str" "str \<noteq> [] \<and> char_ok c (hd str)"
    using "2.IH"(2) that by (auto simp: char_ok_def)
  with m "2.IH"(1) occurs_Many [of "snd (parse_items re)" c "fst (parse_items re)" str] show ?case by metis
qed


lemma match_loop_occurs:
  "match_loop re str \<longleftrightarrow> occurs False (snd (parse_items re)) (fst (parse_items re)) str"
proof (induction str)
  case Nil
  then show ?case by (simp add: matchhere_lang occurs_def)
next
  case (Cons x str)
  define e where "e = snd (parse_items re)"
  define its where "its = fst (parse_items re)"
  have "occurs False e its (x # str) \<longleftrightarrow> occurs True e its (x # str) \<or> occurs False e its str" (is "?l \<longleftrightarrow> ?r")
  proof
    assume ?l
    then obtain u v w where t: "x # str = u @ v @ w" "v \<in> lang its" "e \<longrightarrow> w = []" unfolding occurs_def by auto
    show ?r
    proof (cases u)
      case Nil
      then show ?thesis using t unfolding occurs_start by auto
    next
      case (Cons y u')
      then have "str = u' @ v @ w" using t(1) by simp
      then have "occurs False e its str" unfolding occurs_def using t(2,3) by blast
      then show ?thesis ..
    qed
  next
    assume ?r
    then show ?l
    proof
      assume "occurs False e its str"
      then obtain u v w where "str = u @ v @ w" "v \<in> lang its" "e \<longrightarrow> w = []" unfolding occurs_def by auto
      then have "x # str = (x # u) @ v @ w" "v \<in> lang its" "e \<longrightarrow> w = []" by simp_all
      then show ?l unfolding occurs_def by blast
    next
      assume "occurs True e its (x # str)"
      then obtain v w where "x # str = [] @ v @ w" "v \<in> lang its" "e \<longrightarrow> w = []" unfolding occurs_start by auto
      then show ?l unfolding occurs_def by blast
    qed
  qed
  then show ?case using Cons by (simp add: matchhere_lang e_def its_def)
qed

text \<open>
  C18. The matcher of grep decides the language of its pattern: \<^verbatim>\<open>match\<close> accepts a text exactly
  when some piece of it is a word of the pattern's language, at the start of the text if the
  pattern begins with a caret and reaching to its end if it ends with a dollar. The mutual
  recursion of \<^verbatim>\<open>matchhere\<close> and \<^verbatim>\<open>matchstar\<close> ends on all inputs.
\<close>

theorem grep_match_language:
  "match re str \<longleftrightarrow>
     (let anchored = re \<noteq> [] \<and> hd re = CARET; (is, at_end) = parse_items (if anchored then tl re else re) in
      occurs anchored at_end is str)"
  unfolding match_def Let_def split_def by (simp add: matchhere_lang match_loop_occurs)


section \<open>Whole lines\<close>

text \<open>The complete lines of a text, without their newlines, and what follows the last of them.\<close>

fun split_lines :: "u8 list \<Rightarrow> u8 list \<Rightarrow> u8 list list" where
  "split_lines acc [] = []"
| "split_lines acc (c # cs) = (if c = NEWLINE then acc # split_lines [] cs else split_lines (acc @ [c]) cs)"

definition matching_lines :: "u8 list \<Rightarrow> u8 list \<Rightarrow> u8 list" where
  "matching_lines pat str = concat (map (\<lambda>l. l @ [NEWLINE]) (filter (match pat) (split_lines [] str)))"

lemma find_line_cases:
  assumes "0 \<notin> set xs"
  shows "find_line (xs @ 0 # zs) =
    Inr (if NEWLINE \<in> set xs then Some (length (takeWhile (\<lambda>c. c \<noteq> NEWLINE) xs)) else None)"
  using assms by (induction xs) auto

lemma split_lines_newline:
  "NEWLINE \<in> set xs \<Longrightarrow> split_lines acc xs =
     (acc @ takeWhile (\<lambda>c. c \<noteq> NEWLINE) xs) # split_lines [] (tl (dropWhile (\<lambda>c. c \<noteq> NEWLINE) xs))"
  by (induction xs arbitrary: acc) auto

lemma split_lines_none: "NEWLINE \<notin> set xs \<Longrightarrow> split_lines acc xs = []"
  by (induction xs arbitrary: acc) auto

lemma grep_lines_ok:
  assumes "0 \<notin> set xs"
  shows "\<exists>p' buf'. grep_lines pat (length ys) (ys @ xs @ 0 # zs) out = Inr (p', buf', out @ matching_lines pat xs) \<and>
    (NEWLINE \<notin> set xs \<longrightarrow> p' = length ys \<and> buf' = ys @ xs @ 0 # zs)"
  using assms
proof (induction "length xs" arbitrary: xs ys out rule: less_induct)
  case less
  show ?case
  proof (cases "NEWLINE \<in> set xs")
    case False
    then show ?thesis
      using find_line_cases [OF less.prems] by (subst grep_lines.simps) (simp add: matching_lines_def split_lines_none)
  next
    case True
    define l where "l = takeWhile (\<lambda>c. c \<noteq> NEWLINE) xs"
    define r where "r = tl (dropWhile (\<lambda>c. c \<noteq> NEWLINE) xs)"
    have xs: "xs = l @ NEWLINE # r"
      using True hd_dropWhile [of "\<lambda>c. c \<noteq> NEWLINE" xs] takeWhile_dropWhile_id [of "\<lambda>c. c \<noteq> NEWLINE" xs]
      unfolding l_def r_def by (cases "dropWhile (\<lambda>c. c \<noteq> NEWLINE) xs") (auto simp: dropWhile_eq_Nil_conv)
    have sp: "split_lines [] xs = l # split_lines [] r" using split_lines_newline [OF True, of "[]"] by (simp add: l_def r_def)
    have "find_line (drop (length ys) (ys @ xs @ 0 # zs)) = Inr (Some (length l))"
      using find_line_cases [OF less.prems] True by (simp add: l_def)
    moreover have "take (length l) (drop (length ys) (ys @ xs @ 0 # zs)) = l" by (simp add: xs)
    moreover have upd: "(ys @ l @ NEWLINE # r @ 0 # zs)[length ys + length l := v] = ys @ l @ v # r @ 0 # zs" for v
      using list_update_length [of "ys @ l" NEWLINE "r @ 0 # zs" v] by simp
    ultimately have step: "grep_lines pat (length ys) (ys @ xs @ 0 # zs) out =
        (if match pat l then grep_lines pat (length (ys @ l @ [NEWLINE])) ((ys @ l @ [NEWLINE]) @ r @ 0 # zs) (out @ l @ [NEWLINE])
         else grep_lines pat (length (ys @ l @ [0])) ((ys @ l @ [0]) @ r @ 0 # zs) out)"
      by (subst grep_lines.simps) (simp add: xs upd)
    have "length r < length xs" "0 \<notin> set r" using less.prems by (auto simp: xs)
    note ih = less.hyps [OF this]
    show ?thesis
      using ih [of "ys @ l @ [NEWLINE]" "out @ l @ [NEWLINE]"] ih [of "ys @ l @ [0]" out] True
      unfolding step by (auto simp: matching_lines_def sp)
  qed
qed





end
