(* ===== verification/Umalloc.thy ===== *)
theory Umalloc
  imports Prelude
begin

text \<open>
  The storage allocator of the user library (\<^verbatim>\<open>user/umalloc.c\<close>): a circular list of free blocks in
  the order of their addresses. A block is a header of 8 bytes and the units of 8 bytes behind
  it; \<open>hptr\<close> and \<open>hsize\<close> are the two words of the header at an address, \<open>break\<close> is the end of the
  memory of the process. The address \<open>base\<close> of the static header and the kernel's answer to
  \<^verbatim>\<open>sbrk\<close> are arguments: \<open>grant b n\<close> is the break after a call with argument \<open>n\<close> where it was \<open>b\<close>,
  and \<open>None\<close> if the call fails. What the allocator relies on is \<open>sbrk_ok\<close>.
\<close>

section \<open>The allocator\<close>

record uheap =
  hptr :: "u32 \<Rightarrow> u32"
  hsize :: "u32 \<Rightarrow> u32"
  freep :: u32
  break :: u32

definition sbrk_heap :: "(u32 \<Rightarrow> u32 \<Rightarrow> u32 option) \<Rightarrow> u32 \<Rightarrow> uheap \<Rightarrow> u32 \<times> uheap" where
  "sbrk_heap grant n h =
     (case grant (break h) n of
        None \<Rightarrow> (- 1, h)
      | Some b \<Rightarrow> (break h, h\<lparr>break := b\<rparr>))"

partial_function (option) free_loop :: "uheap \<Rightarrow> u32 \<Rightarrow> u32 \<Rightarrow> u32 option" where
  "free_loop h bp p =
     (if bp > p \<and> bp < hptr h p then Some p
      else if p \<ge> hptr h p \<and> (bp > p \<or> bp < hptr h p) then Some p
      else free_loop h bp (hptr h p))"

definition free_link :: "u32 \<Rightarrow> u32 \<Rightarrow> uheap \<Rightarrow> uheap" where
  "free_link bp p h =
     (let q = hptr h p;
          h = (if bp + 8 * hsize h bp = q
               then h\<lparr>hsize := (hsize h)(bp := hsize h bp + hsize h q), hptr := (hptr h)(bp := hptr h q)\<rparr>
               else h\<lparr>hptr := (hptr h)(bp := q)\<rparr>);
          h = (if p + 8 * hsize h p = bp
               then h\<lparr>hsize := (hsize h)(p := hsize h p + hsize h bp), hptr := (hptr h)(p := hptr h bp)\<rparr>
               else h\<lparr>hptr := (hptr h)(p := bp)\<rparr>)
      in h\<lparr>freep := p\<rparr>)"

definition ufree :: "u32 \<Rightarrow> uheap \<Rightarrow> uheap option" where
  "ufree ap h =
     (let bp = ap - 8 in
      case free_loop h bp (freep h) of
        None \<Rightarrow> None
      | Some p \<Rightarrow> Some (free_link bp p h))"

definition morecore :: "(u32 \<Rightarrow> u32 \<Rightarrow> u32 option) \<Rightarrow> u32 \<Rightarrow> uheap \<Rightarrow> (u32 \<times> uheap) option" where
  "morecore grant nu h =
     (let nu = (if nu < 4096 then 4096 else nu);
          (p, h) = sbrk_heap grant (nu * 8) h in
      if p = - 1 then Some (0, h)
      else
        let h = h\<lparr>hsize := (hsize h)(p := nu)\<rparr> in
        case ufree (p + 8) h of
          None \<Rightarrow> None
        | Some h \<Rightarrow> Some (freep h, h))"

definition take_block :: "u32 \<Rightarrow> u32 \<Rightarrow> u32 \<Rightarrow> uheap \<Rightarrow> u32 \<times> uheap" where
  "take_block nunits prevp p h =
     (if hsize h p = nunits then (p + 8, h\<lparr>hptr := (hptr h)(prevp := hptr h p), freep := prevp\<rparr>)
      else
        let s = hsize h p - nunits; q = p + 8 * s in
        (q + 8, h\<lparr>hsize := (hsize h)(p := s, q := nunits), freep := prevp\<rparr>))"

partial_function (option) malloc_loop ::
    "(u32 \<Rightarrow> u32 \<Rightarrow> u32 option) \<Rightarrow> u32 \<Rightarrow> u32 \<Rightarrow> u32 \<Rightarrow> uheap \<Rightarrow> (u32 \<times> uheap) option" where
  "malloc_loop grant nunits prevp p h =
     (if hsize h p \<ge> nunits then Some (take_block nunits prevp p h)
      else if p = freep h then
        (case morecore grant nunits h of
           None \<Rightarrow> None
         | Some (p, h) \<Rightarrow> if p = 0 then Some (0, h) else malloc_loop grant nunits p (hptr h p) h)
      else malloc_loop grant nunits p (hptr h p) h)"

definition umalloc :: "(u32 \<Rightarrow> u32 \<Rightarrow> u32 option) \<Rightarrow> u32 \<Rightarrow> u32 \<Rightarrow> uheap \<Rightarrow> (u32 \<times> uheap) option" where
  "umalloc grant base nbytes h =
     (let nunits = (nbytes + 8 - 1) div 8 + 1;
          h = (if freep h = 0
               then h\<lparr>hptr := (hptr h)(base := base), freep := base, hsize := (hsize h)(base := 0)\<rparr>
               else h)
      in malloc_loop grant nunits (freep h) (hptr h (freep h)) h)"

section \<open>Paths through the links\<close>

fun path :: "('a \<Rightarrow> 'a) \<Rightarrow> 'a \<Rightarrow> 'a list \<Rightarrow> 'a \<Rightarrow> bool" where
  "path nx x [] y \<longleftrightarrow> x = y"
| "path nx x (a # as) y \<longleftrightarrow> x = a \<and> path nx (nx x) as y"

lemma path_append [simp]: "path nx x (as @ bs) y \<longleftrightarrow> (\<exists>z. path nx x as z \<and> path nx z bs y)"
  by (induction as arbitrary: x) auto

lemma path_upd [simp]: "u \<notin> set as \<Longrightarrow> path (nx(u := v)) x as y \<longleftrightarrow> path nx x as y"
  by (induction as arbitrary: x) auto

lemma path_cong: "(\<And>a. a \<in> set as \<Longrightarrow> nx a = nx' a) \<Longrightarrow> path nx x as y \<longleftrightarrow> path nx' x as y"
  by (induction as arbitrary: x) auto

lemma path_nth: "path nx x as y \<Longrightarrow> i < length as \<Longrightarrow> nx (as ! i) = (as @ [y]) ! Suc i"
proof (induction as arbitrary: x i)
  case (Cons a as)
  show ?case
  proof (cases i)
    case 0
    then show ?thesis using Cons.prems by (cases as) auto
  next
    case (Suc j)
    then show ?thesis using Cons by auto
  qed
qed simp

lemma path_rotate: "path nx x (as @ f # bs) x \<Longrightarrow> path nx (nx f) (bs @ as @ [f]) (nx f)"
  by auto

text \<open>On a ring of distinct elements the predecessor is determined.\<close>

lemma path_prev:
  assumes p: "path nx b (us @ p # vs) b" and d: "distinct (us @ p # vs)" and u: "us \<noteq> []"
    and q: "q \<in> set (us @ p # vs)" "nx q = p"
  shows "q = last us"
proof -
  let ?c = "us @ p # vs"
  obtain i where i: "i < length ?c" "?c ! i = q" using q(1) by (metis in_set_conv_nth)
  have n: "(?c @ [b]) ! Suc i = p" using path_nth [OF p i(1)] i(2) q(2) by simp
  have b: "?c ! 0 = b" using p u by (cases us) auto
  have l: "Suc i < length ?c"
  proof (rule ccontr)
    assume "\<not> Suc i < length ?c"
    then have "Suc i = length ?c" using i(1) by simp
    then have "p = b" using n by (metis nth_append_length)
    then have "?c ! 0 = ?c ! length us" using b by simp
    then show False using d u by (metis (no_types, lifting) distinct_conv_nth i(1) length_0_conv
        length_append length_greater_0_conv less_add_same_cancel1 list.size(3) nat_neq_iff
        add_is_0 length_Cons zero_less_Suc append_is_Nil_conv list.distinct(1))
  qed
  have "?c ! Suc i = ?c ! length us" using n l by (metis nth_append nth_append_length)
  then have "Suc i = length us" using nth_eq_iff_index_eq [OF d l, of "length us"] by simp
  then have "i = length us - 1" "i < length us" by auto
  then show ?thesis using i(2) u by (simp add: nth_append last_conv_nth)
qed

section \<open>The invariant\<close>

text \<open>
  \<open>heap_ok base lo h xs\<close>: the free list is \<open>base\<close> followed by the blocks \<open>xs\<close> in ascending order,
  which do not overlap and lie between \<open>lo\<close>, the first break, and the current break.
\<close>

definition block_end :: "uheap \<Rightarrow> u32 \<Rightarrow> nat" where
  "block_end h a = unat a + 8 * unat (hsize h a)"

definition block_bytes :: "uheap \<Rightarrow> u32 \<Rightarrow> nat set" where
  "block_bytes h a = {unat a ..< block_end h a}"

definition free_bytes :: "uheap \<Rightarrow> u32 list \<Rightarrow> nat set" where
  "free_bytes h xs = (\<Union>a \<in> set xs. block_bytes h a)"

fun blocks_ok :: "uheap \<Rightarrow> nat \<Rightarrow> u32 list \<Rightarrow> nat \<Rightarrow> bool" where
  "blocks_ok h lo [] hi \<longleftrightarrow> lo \<le> hi"
| "blocks_ok h lo (a # xs) hi \<longleftrightarrow> lo \<le> unat a \<and> hsize h a \<noteq> 0 \<and> blocks_ok h (block_end h a) xs hi"

definition heap_ok :: "u32 \<Rightarrow> nat \<Rightarrow> uheap \<Rightarrow> u32 list \<Rightarrow> bool" where
  "heap_ok base lo h xs \<longleftrightarrow>
     base \<noteq> 0 \<and> unat base + 8 \<le> lo \<and> hsize h base = 0 \<and> freep h \<in> set (base # xs) \<and>
     path (hptr h) base (base # xs) base \<and> blocks_ok h lo xs (unat (break h)) \<and> unat (break h) < 2 ^ 31"

lemma block_end_upd [simp]:
  "block_end (h\<lparr>hptr := f\<rparr>) = block_end h" "block_end (h\<lparr>freep := p\<rparr>) = block_end h"
  "block_end (h\<lparr>break := b\<rparr>) = block_end h"
  by (auto simp: block_end_def fun_eq_iff)

lemma blocks_ok_cong:
  "(\<And>a. a \<in> set xs \<Longrightarrow> hsize h' a = hsize h a) \<Longrightarrow> blocks_ok h' lo xs hi \<longleftrightarrow> blocks_ok h lo xs hi"
  by (induction xs arbitrary: lo) (auto simp: block_end_def)

lemma free_bytes_cong:
  "(\<And>a. a \<in> set xs \<Longrightarrow> hsize h' a = hsize h a) \<Longrightarrow> free_bytes h' xs = free_bytes h xs"
  by (auto simp: free_bytes_def block_bytes_def block_end_def)

lemma free_bytes_simps [simp]:
  "free_bytes h [] = {}" "free_bytes h (a # xs) = block_bytes h a \<union> free_bytes h xs"
  "free_bytes h (xs @ ys) = free_bytes h xs \<union> free_bytes h ys"
  by (auto simp: free_bytes_def)

lemma blocks_ok_le: "blocks_ok h lo xs hi \<Longrightarrow> lo \<le> hi"
proof (induction xs arbitrary: lo)
  case (Cons a xs)
  then have "block_end h a \<le> hi" "lo \<le> unat a" by auto
  then show ?case by (auto simp: block_end_def)
qed simp

lemma blocks_ok_mono: "blocks_ok h lo xs hi \<Longrightarrow> lo' \<le> lo \<Longrightarrow> hi \<le> hi' \<Longrightarrow> blocks_ok h lo' xs hi'"
  by (induction xs arbitrary: lo lo') auto

lemma blocks_ok_append [simp]:
  "blocks_ok h lo (xs @ ys) hi \<longleftrightarrow> (\<exists>m. blocks_ok h lo xs m \<and> blocks_ok h m ys hi)"
  by (induction xs arbitrary: lo) (auto intro: blocks_ok_mono)

lemma blocks_ok_range: "blocks_ok h lo xs hi \<Longrightarrow> free_bytes h xs \<subseteq> {lo ..< hi}"
proof (induction xs arbitrary: lo)
  case (Cons a xs)
  then have "free_bytes h xs \<subseteq> {block_end h a ..< hi}" "block_end h a \<le> hi" "lo \<le> unat a"
    by (auto dest: blocks_ok_le)
  then show ?case by (fastforce simp: block_bytes_def block_end_def)
qed simp

lemma block_start: "hsize h a \<noteq> 0 \<Longrightarrow> unat a \<in> block_bytes h a"
  by (simp add: block_bytes_def block_end_def unat_gt_0)

lemma blocks_ok_size: "blocks_ok h lo xs hi \<Longrightarrow> a \<in> set xs \<Longrightarrow> hsize h a \<noteq> 0"
  by (induction xs arbitrary: lo) auto

lemma blocks_ok_start:
  assumes "blocks_ok h lo xs hi" "a \<in> set xs"
  shows "unat a \<in> free_bytes h xs" "lo \<le> unat a" "unat a < hi"
proof -
  show m: "unat a \<in> free_bytes h xs"
    using assms blocks_ok_size block_start by (fastforce simp: free_bytes_def)
  show "lo \<le> unat a" "unat a < hi" using m blocks_ok_range [OF assms(1)] by auto
qed

lemma blocks_ok_distinct: "blocks_ok h lo xs hi \<Longrightarrow> distinct xs"
proof (induction xs arbitrary: lo)
  case (Cons a xs)
  have "a \<notin> set xs"
  proof
    assume "a \<in> set xs"
    then have "block_end h a \<le> unat a" using Cons.prems blocks_ok_start(2) by auto
    then have "hsize h a = 0" by (simp add: block_end_def unat_eq_zero)
    then show False using Cons.prems by simp
  qed
  then show ?case using Cons by auto
qed simp

text \<open>Where a block outside the free list belongs in it.\<close>

lemma blocks_ok_split:
  assumes "blocks_ok h lo xs hi" "lo \<le> unat bp" "block_end h bp \<le> hi" "hsize h bp \<noteq> 0"
    "block_bytes h bp \<inter> free_bytes h xs = {}"
  shows "\<exists>ys zs. xs = ys @ zs \<and> blocks_ok h lo ys (unat bp) \<and> blocks_ok h (block_end h bp) zs hi"
  using assms
proof (induction xs arbitrary: lo)
  case Nil
  then show ?case by auto
next
  case (Cons a xs)
  have s: "hsize h a \<noteq> 0" using Cons.prems(1) by simp
  show ?case
  proof (cases "unat bp < unat a")
    case True
    have "unat a \<notin> block_bytes h bp" using Cons.prems(5) block_start [OF s] by auto
    then have "block_end h bp \<le> unat a" using True by (simp add: block_bytes_def)
    then show ?thesis using Cons.prems by (intro exI [of _ "[]"] exI [of _ "a # xs"]) auto
  next
    case False
    have "unat bp \<notin> block_bytes h a" using Cons.prems(5) block_start [OF Cons.prems(4)] by auto
    then have "block_end h a \<le> unat bp" using False by (simp add: block_bytes_def)
    then obtain ys zs where "xs = ys @ zs" "blocks_ok h (block_end h a) ys (unat bp)"
      "blocks_ok h (block_end h bp) zs hi"
      using Cons.IH [of "block_end h a"] Cons.prems by auto
    then show ?thesis using Cons.prems(1) by (intro exI [of _ "a # ys"] exI [of _ zs]) auto
  qed
qed

lemma word_end: "block_end h a < 2 ^ 32 \<Longrightarrow> unat (a + 8 * hsize h a) = block_end h a"
  by (simp add: block_end_def unat_word_ariths)

lemma word_end_eq:
  assumes "block_end h a < 2 ^ 32"
  shows "a + 8 * hsize h a = b \<longleftrightarrow> block_end h a = unat b"
  using word_end [OF assms] by (metis word_unat_eq_iff)

section \<open>Freeing a block\<close>

lemma free_loop_below:
  assumes pth: "path (hptr h) base (us @ p # zs) base"
    and lt: "sorted_wrt (<) (us @ p # zs)" "\<forall>a\<in>set zs. bp < a" "p < bp" "base \<le> p"
    and s: "us @ [p] = as @ f # bs"
  shows "free_loop h bp f = Some p"
  using s
proof (induction bs arbitrary: as f)
  case Nil
  then have f: "f = p" by simp
  have "hptr h p = hd (zs @ [base])" using pth by (cases zs) auto
  then show ?case using lt f by (subst free_loop.simps) (cases zs; auto)
next
  case (Cons g bs)
  have e: "us @ p # zs = as @ f # g # bs @ zs" using Cons.prems by (metis append.assoc append_Cons append_Nil)
  have n: "hptr h f = g" using pth unfolding e by auto
  have fg: "f < g" using lt(1) unfolding e by (auto simp: sorted_wrt_append)
  have gb: "g \<in> set (us @ [p])" using Cons.prems by simp
  have "g \<le> p" using gb lt(1) by (auto simp: sorted_wrt_append)
  then have g: "g < bp" using lt(3) by simp
  have "free_loop h bp f = free_loop h bp g" using n fg g by (subst free_loop.simps) auto
  then show ?case using Cons.IH [of "as @ [f]" g] Cons.prems by simp
qed

lemma free_loop_above:
  assumes pth: "path (hptr h) base (us @ p # zs) base"
    and lt: "sorted_wrt (<) (us @ p # zs)" "\<forall>a\<in>set zs. bp < a" "p < bp" "base \<le> p"
    and s: "zs = as @ f # bs"
  shows "free_loop h bp f = free_loop h bp base"
  using s
proof (induction bs arbitrary: as f)
  case Nil
  have "hptr h f = base" using pth Nil by auto
  moreover have "bp < f" using lt(2) Nil by simp
  ultimately show ?case using lt by (subst free_loop.simps) auto
next
  case (Cons g bs)
  have n: "hptr h f = g" using pth Cons.prems by auto
  have fg: "f < g" using lt(1) Cons.prems by (auto simp: sorted_wrt_append)
  have "bp < f" using lt(2) Cons.prems by simp
  then have "free_loop h bp f = free_loop h bp g" using n fg by (subst free_loop.simps) auto
  then show ?case using Cons.IH [of "as @ [f]" g] Cons.prems by simp
qed

lemma free_loop_finds:
  assumes pth: "path (hptr h) base (us @ p # zs) base"
    and lt: "sorted_wrt (<) (us @ p # zs)" "\<forall>a\<in>set zs. bp < a" "p < bp" "base \<le> p"
    and f: "f \<in> set (us @ p # zs)"
  shows "free_loop h bp f = Some p"
proof (cases "f \<in> set zs")
  case True
  then obtain as bs where "zs = as @ f # bs" by (metis split_list)
  then have "free_loop h bp f = free_loop h bp base" using free_loop_above [OF pth lt] by blast
  moreover have "\<exists>bs. us @ [p] = [] @ base # bs" using pth by (cases us) auto
  ultimately show ?thesis using free_loop_below [OF pth lt] by metis
next
  case False
  then have "f \<in> set (us @ [p])" using f by auto
  then obtain as bs where "us @ [p] = as @ f # bs" by (metis split_list)
  then show ?thesis by (rule free_loop_below [OF pth lt])
qed

lemma blocks_ok_sorted: "blocks_ok h lo xs hi \<Longrightarrow> sorted_wrt (<) xs"
proof (induction xs arbitrary: lo)
  case (Cons a xs)
  have "unat a < block_end h a" using Cons.prems by (simp add: block_end_def unat_gt_0)
  then have "\<forall>b\<in>set xs. a < b"
    using Cons.prems blocks_ok_start(2) by (fastforce simp: word_less_nat_alt)
  then show ?case using Cons by auto
qed simp


lemma join_bytes:
  assumes "block_end h a = unat b" "unat (hsize h' a) = unat (hsize h a) + unat (hsize h b)"
  shows "block_end h' a = block_end h b" "block_bytes h' a = block_bytes h a \<union> block_bytes h b"
  using assms by (auto simp: block_end_def block_bytes_def)

lemma size_add:
  assumes "block_end h a = unat b" "block_end h b < 2 ^ 31"
  shows "unat (hsize h a + hsize h b) = unat (hsize h a) + unat (hsize h b)"
proof -
  have "unat (hsize h a) + unat (hsize h b) < 2 ^ 32" using assms by (simp add: block_end_def)
  then show ?thesis by (simp add: unat_word_ariths)
qed

definition link_next :: "u32 \<Rightarrow> u32 \<Rightarrow> uheap \<Rightarrow> uheap" where
  "link_next bp q h =
     (if bp + 8 * hsize h bp = q
      then h\<lparr>hsize := (hsize h)(bp := hsize h bp + hsize h q), hptr := (hptr h)(bp := hptr h q)\<rparr>
      else h\<lparr>hptr := (hptr h)(bp := q)\<rparr>)"

definition link_prev :: "u32 \<Rightarrow> u32 \<Rightarrow> uheap \<Rightarrow> uheap" where
  "link_prev bp p h =
     (if p + 8 * hsize h p = bp
      then h\<lparr>hsize := (hsize h)(p := hsize h p + hsize h bp), hptr := (hptr h)(p := hptr h bp)\<rparr>
      else h\<lparr>hptr := (hptr h)(p := bp)\<rparr>)"

lemma free_link_eq: "free_link bp p h = (link_prev bp p (link_next bp (hptr h p) h))\<lparr>freep := p\<rparr>"
  by (simp add: free_link_def link_next_def link_prev_def Let_def)

lemma link_next_ok:
  assumes b: "blocks_ok h (block_end h bp) zs hi" "hi < 2 ^ 31" "hsize h bp \<noteq> 0"
    and pth: "path (hptr h) q zs base" "unat base < unat bp"
  obtains zs1 q1 where
    "hptr (link_next bp q h) = (hptr h)(bp := q1)" "path (hptr h) q1 zs1 base" "set zs1 \<subseteq> set zs"
    "\<And>a. a \<noteq> bp \<Longrightarrow> hsize (link_next bp q h) a = hsize h a" "hsize (link_next bp q h) bp \<noteq> 0"
    "hsize h bp \<le> hsize (link_next bp q h) bp" "blocks_ok (link_next bp q h) (block_end (link_next bp q h) bp) zs1 hi"
    "block_bytes (link_next bp q h) bp \<union> free_bytes (link_next bp q h) zs1 = block_bytes h bp \<union> free_bytes h zs"
proof -
  let ?h = "link_next bp q h"
  have le: "block_end h bp \<le> hi" using blocks_ok_le [OF b(1)] .
  have nin: "bp \<notin> set zs" using blocks_ok_start(2) [OF b(1), of bp] b(3) by (auto simp: block_end_def unat_gt_0 unat_eq_zero)
  have eq: "bp + 8 * hsize h bp = q \<longleftrightarrow> block_end h bp = unat q" using le b(2) by (intro word_end_eq) simp
  show ?thesis
  proof (cases "block_end h bp = unat q")
    case False
    have c: "\<And>a. hsize ?h a = hsize h a" using False eq by (simp add: link_next_def)
    have k: "\<And>l xs u. blocks_ok ?h l xs u = blocks_ok h l xs u" by (rule blocks_ok_cong) (rule c)
    have f: "\<And>xs. free_bytes ?h xs = free_bytes h xs" by (rule free_bytes_cong) (rule c)
    have e: "block_end ?h = block_end h" "block_bytes ?h = block_bytes h"
      using c by (auto simp: fun_eq_iff block_end_def block_bytes_def)
    have "blocks_ok ?h (block_end ?h bp) zs hi" using b(1) by (simp add: k e)
    moreover have "block_bytes ?h bp \<union> free_bytes ?h zs = block_bytes h bp \<union> free_bytes h zs"
      by (simp add: f e)
    moreover have "hptr ?h = (hptr h)(bp := q)" using False eq by (simp add: link_next_def)
    ultimately show ?thesis using that [of q zs] pth(1) b(3) c by simp
  next
    case True
    obtain zs1 where zs: "zs = q # zs1"
      using pth True by (cases zs) (auto simp: block_end_def)
    have q: "hsize h q \<noteq> 0" "blocks_ok h (block_end h q) zs1 hi" "path (hptr h) (hptr h q) zs1 base"
      using b(1) pth(1) zs by auto
    have "block_end h q < 2 ^ 31" using blocks_ok_le [OF q(2)] b(2) by simp
    then have s: "unat (hsize ?h bp) = unat (hsize h bp) + unat (hsize h q)"
      using size_add [OF True] eq True by (simp add: link_next_def)
    have c: "\<And>a. a \<noteq> bp \<Longrightarrow> hsize ?h a = hsize h a" using True eq by (simp add: link_next_def)
    have n: "bp \<notin> set zs1" using nin zs by simp
    have c1: "\<And>a. a \<in> set zs1 \<Longrightarrow> hsize ?h a = hsize h a" by (rule c) (use n in auto)
    have "hsize ?h bp \<noteq> 0" using s b(3) by (metis add_is_0 unat_eq_zero)
    moreover have "hsize h bp \<le> hsize ?h bp" using s by (simp add: word_le_nat_alt)
    moreover have "blocks_ok ?h (block_end ?h bp) zs1 hi"
      using q(2) by (simp add: join_bytes(1) [OF True s] blocks_ok_cong [OF c1])
    moreover have "block_bytes ?h bp \<union> free_bytes ?h zs1 = block_bytes h bp \<union> free_bytes h zs"
      by (auto simp: zs join_bytes(2) [OF True s] free_bytes_cong [OF c1])
    moreover have "hptr ?h = (hptr h)(bp := hptr h q)" using True eq by (simp add: link_next_def)
    ultimately show ?thesis using that [of "hptr h q" zs1] q(3) c zs by auto
  qed
qed

text \<open>
  The second half: \<open>p\<close> is the last element before the block \<open>bp\<close>, which is already linked to the
  rest of the list.
\<close>

lemma link_prev_ok:
  assumes pth: "path (hptr h) base us p" "path (hptr h) (hptr h bp) zs base" "base # ys = us @ [p]"
    and nin: "bp \<notin> set (base # ys @ zs)" "p \<notin> set us" "p \<notin> set zs"
    and b: "blocks_ok h lo ys (unat bp)" "blocks_ok h (block_end h bp) zs hi" "hi < 2 ^ 31" "hsize h bp \<noteq> 0"
    and base: "hsize h base = 0"
  obtains xs where
    "path (hptr (link_prev bp p h)) base (base # xs) base" "set xs \<subseteq> set (ys @ bp # zs)" "p \<in> set (base # xs)"
    "\<exists>a\<in>set xs. hsize h bp \<le> hsize (link_prev bp p h) a" "blocks_ok (link_prev bp p h) lo xs hi" "\<And>a. a \<notin> set ys \<Longrightarrow> hsize (link_prev bp p h) a = hsize h a"
    "free_bytes (link_prev bp p h) xs = free_bytes h ys \<union> block_bytes h bp \<union> free_bytes h zs"
proof -
  let ?h = "link_prev bp p h"
  have le: "block_end h bp \<le> hi" using blocks_ok_le [OF b(2)] .
  have bpn: "bp \<noteq> p" "bp \<notin> set us" using nin(1) pth(3) by (metis Un_iff append.assoc append_Cons list.set_intros(1) set_append in_set_conv_decomp)+
  have pe: "block_end h p < 2 ^ 32"
  proof (cases "p = base")
    case True
    then show ?thesis using base u32_bound [of base] by (simp add: block_end_def)
  next
    case False
    then have "p \<in> set ys" using pth(3) by (metis in_set_conv_decomp set_ConsD)
    then obtain y1 y2 where "ys = y1 @ p # y2" by (metis split_list)
    then have "block_end h p \<le> unat bp" using b(1) by (auto dest: blocks_ok_le)
    then have "block_end h p < 4294967296" using u32_bound [of bp] by (rule le_less_trans)
    then show ?thesis by simp
  qed
  have eq: "p + 8 * hsize h p = bp \<longleftrightarrow> block_end h p = unat bp" using pe by (rule word_end_eq)
  show ?thesis
  proof (cases "block_end h p = unat bp")
    case False
    have c: "\<And>a. hsize ?h a = hsize h a" using False eq by (simp add: link_prev_def)
    have k: "\<And>l xs u. blocks_ok ?h l xs u = blocks_ok h l xs u" by (rule blocks_ok_cong) (rule c)
    have f: "\<And>xs. free_bytes ?h xs = free_bytes h xs" by (rule free_bytes_cong) (rule c)
    have e: "block_end ?h = block_end h" "block_bytes ?h = block_bytes h"
      using c by (auto simp: fun_eq_iff block_end_def block_bytes_def)
    have l: "hptr ?h = (hptr h)(p := bp)" using False eq by (simp add: link_prev_def)
    have "path (hptr ?h) base (base # ys @ bp # zs) base"
    proof -
      have e: "base # ys @ bp # zs = us @ p # bp # zs" using pth(3) by (metis append.assoc append_Cons append_Nil)
      show ?thesis unfolding e l using pth(1,2) nin(2,3) bpn by auto
    qed
    moreover have "blocks_ok ?h lo (ys @ bp # zs) hi"
      unfolding k using b by auto
    moreover have "free_bytes ?h (ys @ bp # zs) = free_bytes h ys \<union> block_bytes h bp \<union> free_bytes h zs"
      unfolding f by auto
    moreover have "p \<in> set (base # ys @ bp # zs)" using pth(3) by (metis Un_iff append_Cons in_set_conv_decomp set_append)
    moreover have "\<exists>a\<in>set (ys @ bp # zs). hsize h bp \<le> hsize ?h a" using c by auto
    ultimately show ?thesis using that [of "ys @ bp # zs"] c by simp
  next
    case True
    have pb: "p \<noteq> base"
    proof
      assume "p = base"
      then have "unat base = unat bp" using True base by (simp add: block_end_def)
      then show False using nin(1) by (simp add: word_unat_eq_iff)
    qed
    then obtain y1 where y: "ys = y1 @ [p]" using pth(3) by (cases us) auto
    have us: "us = base # y1" using pth(3) y by simp
    have m: "blocks_ok h lo y1 (unat p)" "hsize h p \<noteq> 0" using b(1) y by (auto intro: blocks_ok_mono)
    have s: "unat (hsize ?h p) = unat (hsize h p) + unat (hsize h bp)"
      using size_add [OF True] le b(3) eq True by (simp add: link_prev_def)
    have c: "\<And>a. a \<noteq> p \<Longrightarrow> hsize ?h a = hsize h a" using True eq by (simp add: link_prev_def)
    have l: "hptr ?h = (hptr h)(p := hptr h bp)" using True eq by (simp add: link_prev_def)
    have c1: "\<And>a. a \<in> set y1 \<Longrightarrow> hsize ?h a = hsize h a" "\<And>a. a \<in> set zs \<Longrightarrow> hsize ?h a = hsize h a"
      by (rule c, use nin us in auto)+
    have "hsize ?h p \<noteq> 0" using s m(2) by (metis add_is_0 unat_eq_zero)
    then have "blocks_ok ?h lo (ys @ zs) hi"
      using m(1) b(2) y by (auto simp: join_bytes(1) [OF True s] blocks_ok_cong [OF c1(1)] blocks_ok_cong [OF c1(2)])
    moreover have "free_bytes ?h (ys @ zs) = free_bytes h ys \<union> block_bytes h bp \<union> free_bytes h zs"
      using y by (auto simp: join_bytes(2) [OF True s] free_bytes_cong [OF c1(1)] free_bytes_cong [OF c1(2)])
    moreover have "path (hptr ?h) base (base # ys @ zs) base"
    proof -
      have e: "base # ys @ zs = us @ p # zs" using pth(3) by (metis append.assoc append_Cons append_Nil)
      show ?thesis unfolding e l using pth(1,2) nin(2,3) bpn by auto
    qed
    moreover have "\<And>a. a \<notin> set ys \<Longrightarrow> hsize ?h a = hsize h a" by (rule c) (use y in auto)
    moreover have "hsize h bp \<le> hsize ?h p" using s by (simp add: word_le_nat_alt)
    ultimately show ?thesis using that [of "ys @ zs"] y by auto
  qed
qed


lemma heap_ok_distinct:
  assumes "heap_ok base lo h xs"
  shows "sorted_wrt (<) (base # xs)" "distinct (base # xs)" "\<And>a. a \<in> set xs \<Longrightarrow> base < a"
proof -
  have b: "blocks_ok h lo xs (unat (break h))" "unat base + 8 \<le> lo" using assms by (auto simp: heap_ok_def)
  show l: "\<And>a. a \<in> set xs \<Longrightarrow> base < a"
    using blocks_ok_start(2) [OF b(1)] b(2) by (fastforce simp: word_less_nat_alt)
  then show s: "sorted_wrt (<) (base # xs)" using blocks_ok_sorted [OF b(1)] by simp
  show "distinct (base # xs)" using l blocks_ok_distinct [OF b(1)] by auto
qed

lemma heap_ok_freep:
  assumes "heap_ok base lo h xs"
  shows "freep h \<noteq> 0"
proof (cases "freep h = base")
  case True
  then show ?thesis using assms by (simp add: heap_ok_def)
next
  case False
  then have "base < freep h" using assms heap_ok_distinct(3) [OF assms] by (simp add: heap_ok_def)
  then show ?thesis using word_not_simps(1) by metis
qed

definition block_ok :: "nat \<Rightarrow> uheap \<Rightarrow> u32 \<Rightarrow> bool" where
  "block_ok lo h a \<longleftrightarrow> lo \<le> unat a \<and> hsize h a \<noteq> 0 \<and> block_end h a \<le> unat (break h)"

lemma ufree_ok:
  assumes inv: "heap_ok base lo h xs" and bp: "block_ok lo h bp"
    and dis: "block_bytes h bp \<inter> free_bytes h xs = {}"
  obtains h' xs' where
    "ufree (bp + 8) h = Some h'" "heap_ok base lo h' xs'" "break h' = break h"
    "free_bytes h' xs' = free_bytes h xs \<union> block_bytes h bp" "\<exists>a\<in>set xs'. hsize h bp \<le> hsize h' a"
    "\<And>a. a \<notin> set (bp # xs) \<Longrightarrow> hsize h' a = hsize h a"
proof -
  have i: "unat base + 8 \<le> lo" "hsize h base = 0" "freep h \<in> set (base # xs)" "base \<noteq> 0"
      "path (hptr h) base (base # xs) base" "blocks_ok h lo xs (unat (break h))" "unat (break h) < 2 ^ 31"
    using inv by (auto simp: heap_ok_def)
  have b: "lo \<le> unat bp" "hsize h bp \<noteq> 0" "block_end h bp \<le> unat (break h)" using bp by (auto simp: block_ok_def)
  obtain ys zs where xs: "xs = ys @ zs" and ys: "blocks_ok h lo ys (unat bp)"
    and zs: "blocks_ok h (block_end h bp) zs (unat (break h))"
    using blocks_ok_split [OF i(6) b(1,3,2) dis] by auto
  obtain us p where up: "base # ys = us @ [p]" by (metis list.distinct(1) rev_exhaust)
  have c: "base # xs = us @ p # zs" using xs up by (metis append.assoc append_Cons append_Nil)
  have bl: "unat base < unat bp" using i(1) b(1) by simp
  have zl: "\<forall>a\<in>set zs. bp < a"
  proof
    fix a assume "a \<in> set zs"
    then have "block_end h bp \<le> unat a" by (rule blocks_ok_start(2) [OF zs])
    moreover have "unat bp < block_end h bp" using b(2) by (simp add: block_end_def unat_gt_0)
    ultimately show "bp < a" by (simp add: word_less_nat_alt)
  qed
  have yl: "\<forall>a\<in>set ys. a < bp" using blocks_ok_start(3) [OF ys] by (simp add: word_less_nat_alt)
  have pm: "p \<in> set (base # ys)" using up by simp
  then have pl: "p < bp" using yl bl by (auto simp: word_less_nat_alt)
  have bpl: "base \<le> p" using pm heap_ok_distinct(3) [OF inv] xs by fastforce
  have srt: "sorted_wrt (<) (us @ p # zs)" using heap_ok_distinct(1) [OF inv] c by simp
  have pth: "path (hptr h) base (us @ p # zs) base" using i(5) c by simp
  have "free_loop h bp (freep h) = Some p"
    using free_loop_finds [OF pth srt zl pl bpl] i(3) c by simp
  then have u: "ufree (bp + 8) h = Some (free_link bp p h)" by (simp add: ufree_def)
  let ?h1 = "link_next bp (hptr h p) h"
  let ?h2 = "link_prev bp p ?h1"
  have pu: "path (hptr h) base us p" "path (hptr h) (hptr h p) zs base" using pth by auto
  obtain zs1 q1 where n: "hptr ?h1 = (hptr h)(bp := q1)" "path (hptr h) q1 zs1 base" "set zs1 \<subseteq> set zs"
    "\<And>a. a \<noteq> bp \<Longrightarrow> hsize ?h1 a = hsize h a" "hsize ?h1 bp \<noteq> 0"
    "hsize h bp \<le> hsize ?h1 bp" "blocks_ok ?h1 (block_end ?h1 bp) zs1 (unat (break h))"
    "block_bytes ?h1 bp \<union> free_bytes ?h1 zs1 = block_bytes h bp \<union> free_bytes h zs"
    using link_next_ok [OF zs i(7) b(2) pu(2) bl] by metis
  have nb: "bp \<notin> set (us @ p # zs)" unfolding c [symmetric] xs using zl yl bl by auto
  then have nb1: "bp \<notin> set (base # ys @ zs1)" "bp \<notin> set us" using n(3) yl bl by auto
  have np: "p \<notin> set us" "p \<notin> set zs1" using heap_ok_distinct(2) [OF inv] n(3) unfolding c by auto
  have l1: "path (hptr ?h1) base us p" using pu(1) nb1(2) n(1) by simp
  have l2: "path (hptr ?h1) (hptr ?h1 bp) zs1 base" using n(1,2) nb1(1) by simp
  have ys1: "blocks_ok ?h1 lo ys (unat bp)"
    using ys blocks_ok_cong [of ys ?h1 h] n(4) yl by fastforce
  have fy: "free_bytes ?h1 ys = free_bytes h ys"
    by (rule free_bytes_cong) (use n(4) yl in fastforce)
  have h1b: "hsize ?h1 base = 0" using n(4) [of base] bl i(2) by auto
  obtain xs' where m: "path (hptr ?h2) base (base # xs') base" "set xs' \<subseteq> set (ys @ bp # zs1)" "p \<in> set (base # xs')"
    "\<exists>a\<in>set xs'. hsize ?h1 bp \<le> hsize ?h2 a" "blocks_ok ?h2 lo xs' (unat (break h))" "\<And>a. a \<notin> set ys \<Longrightarrow> hsize ?h2 a = hsize ?h1 a"
    "free_bytes ?h2 xs' = free_bytes ?h1 ys \<union> block_bytes ?h1 bp \<union> free_bytes ?h1 zs1"
    using link_prev_ok [OF l1 l2 up nb1(1) np ys1 n(7) i(7) n(5) h1b] by metis
  let ?h' = "free_link bp p h"
  have br: "break ?h2 = break h" by (simp add: link_prev_def link_next_def)
  have bn: "base \<notin> set ys" using heap_ok_distinct(2) [OF inv] xs by simp
  have s2: "hsize ?h' = hsize ?h2" "hptr ?h' = hptr ?h2" "freep ?h' = p" "break ?h' = break h"
    using br by (auto simp: free_link_eq)
  have k: "\<And>a. hsize ?h' a = hsize ?h2 a" using s2(1) by simp
  have "heap_ok base lo ?h' xs'"
    unfolding heap_ok_def s2(2,3,4) blocks_ok_cong [of xs' ?h' ?h2, OF k] k
    using i m h1b m(6) [OF bn] by simp
  moreover have "free_bytes ?h' xs' = free_bytes h xs \<union> block_bytes h bp"
    unfolding free_bytes_cong [of xs' ?h' ?h2, OF k] m(7) fy xs using n(8) by auto
  moreover have "\<exists>a\<in>set xs'. hsize h bp \<le> hsize ?h' a" using m(4) n(6) k by (metis order_trans)
  moreover have "\<And>a. a \<notin> set (bp # xs) \<Longrightarrow> hsize ?h' a = hsize h a"
    using k m(6) n(4) xs by auto
  ultimately show ?thesis using that u s2(4) by blast
qed

section \<open>Taking a block\<close>

lemma block_next: "unat a + 8 * unat n < 2 ^ 32 \<Longrightarrow> unat (a + 8 * n :: u32) = unat a + 8 * unat n"
  by (simp add: unat_word_ariths)

lemma take_block_ok:
  assumes inv: "heap_ok base lo h xs" and p: "p \<in> set xs" "prevp \<in> set (base # xs)" "hptr h prevp = p"
    and n: "n \<le> hsize h p" "n \<noteq> 0"
  obtains a h' xs' where
    "take_block n prevp p h = (a + 8, h')" "heap_ok base lo h' xs'" "break h' = break h" "hsize h' a = n"
    "block_ok lo h' a" "block_bytes h' a \<inter> free_bytes h' xs' = {}"
    "block_bytes h' a \<union> free_bytes h' xs' = free_bytes h xs"
    "\<And>b. unat b \<notin> free_bytes h xs \<Longrightarrow> hsize h' b = hsize h b"
proof -
  have i: "unat base + 8 \<le> lo" "hsize h base = 0" "freep h \<in> set (base # xs)" "base \<noteq> 0"
      "path (hptr h) base (base # xs) base" "blocks_ok h lo xs (unat (break h))" "unat (break h) < 2 ^ 31"
    using inv by (auto simp: heap_ok_def)
  obtain ys zs where xs: "xs = ys @ p # zs" using p(1) by (metis split_list)
  have d: "distinct ((base # ys) @ p # zs)" using heap_ok_distinct(2) [OF inv] xs by simp
  have pth: "path (hptr h) base ((base # ys) @ p # zs) base" using i(5) xs by simp
  have pv: "prevp = last (base # ys)" using path_prev [OF pth d _ _ p(3)] p(2) xs by simp
  have b: "blocks_ok h lo ys (unat p)" "hsize h p \<noteq> 0" "blocks_ok h (block_end h p) zs (unat (break h))"
    using i(6) xs by (auto intro: blocks_ok_mono)
  have e: "block_end h p \<le> unat (break h)" using blocks_ok_le [OF b(3)] .
  have fy: "free_bytes h ys \<subseteq> {lo ..< unat p}" and fz: "free_bytes h zs \<subseteq> {block_end h p ..< unat (break h)}"
    and lp: "lo \<le> unat p" using blocks_ok_range [OF b(1)] blocks_ok_range [OF b(3)] blocks_ok_le [OF b(1)] by auto
  obtain us where us: "base # ys = us @ [prevp]" using pv by (metis append_butlast_last_id list.distinct(1))
  show ?thesis
  proof (cases "hsize h p = n")
    case True
    let ?h = "h\<lparr>hptr := (hptr h)(prevp := hptr h p), freep := prevp\<rparr>"
    have k: "\<And>a. hsize ?h a = hsize h a" by simp
    note kk = blocks_ok_cong [of _ ?h h, OF k] free_bytes_cong [of _ ?h h, OF k]
    have u: "base # ys @ zs = us @ prevp # zs" using us by (metis append.assoc append_Cons append_Nil)
    have "path (hptr ?h) base (base # ys @ zs) base"
    proof -
      have "path (hptr h) base (us @ prevp # p # zs) base" using pth us by (metis append.assoc append_Cons append_Nil)
      moreover have "prevp \<notin> set us" "prevp \<notin> set zs" using d us by auto
      ultimately show ?thesis unfolding u by auto
    qed
    moreover have "blocks_ok h lo (ys @ zs) (unat (break h))"
      using b by (auto intro!: exI [of _ "unat p"] elim: blocks_ok_mono simp: block_end_def)
    moreover have "prevp \<in> set (base # ys @ zs)" unfolding u by simp
    ultimately have "heap_ok base lo ?h (ys @ zs)"
      unfolding heap_ok_def kk using i by simp
    moreover have "block_ok lo ?h p" using b e lp by (simp add: block_ok_def)
    moreover have "block_bytes ?h p \<inter> free_bytes ?h (ys @ zs) = {}"
      unfolding kk using fy fz by (fastforce simp: block_bytes_def)
    moreover have "block_bytes ?h p \<union> free_bytes ?h (ys @ zs) = free_bytes h xs"
      unfolding kk xs by (auto simp: block_bytes_def)
    ultimately show ?thesis using that [of p ?h "ys @ zs"] True by (simp add: take_block_def)
  next
    case False
    define m where "m = hsize h p - n"
    define q where "q = p + 8 * m"
    let ?h = "h\<lparr>hsize := (hsize h)(p := m, q := n), freep := prevp\<rparr>"
    have s: "unat m = unat (hsize h p) - unat n" "unat n < unat (hsize h p)"
    proof -
      have "n < hsize h p" using n(1) False by simp
      then show "unat n < unat (hsize h p)" by (simp add: word_less_nat_alt)
      show "unat m = unat (hsize h p) - unat n" unfolding m_def by (rule unat_sub [OF n(1)])
    qed
    have s0: "m \<noteq> 0" using False by (simp add: m_def)
    have q: "unat q = unat p + 8 * unat m" unfolding q_def using e i(7) s by (intro block_next) (simp add: block_end_def)
    have n0: "0 < unat n" "0 < unat m" using n(2) s by (auto simp: unat_gt_0)
    have qin: "unat q \<in> block_bytes h p" using q s n0 by (simp add: block_bytes_def block_end_def)
    have qn: "q \<noteq> p" using q n0 by auto
    have out: "q \<notin> set ys" "q \<notin> set zs" "p \<notin> set ys" "p \<notin> set zs" "q \<noteq> base" "p \<noteq> base"
    proof -
      show "q \<notin> set ys" using blocks_ok_start(3) [OF b(1), of q] q by auto
      show "q \<notin> set zs" using blocks_ok_start(2) [OF b(3), of q] qin by (auto simp: block_bytes_def)
      show "p \<notin> set ys" "p \<notin> set zs" "p \<noteq> base" using d by auto
      show "q \<noteq> base" using q lp i(1) by auto
    qed
    have ky: "\<And>a. a \<in> set ys \<Longrightarrow> hsize ?h a = hsize h a" and kz: "\<And>a. a \<in> set zs \<Longrightarrow> hsize ?h a = hsize h a"
      using out by auto
    have ep: "block_end ?h p = unat q" "block_end ?h q = block_end h p"
      using qn q s by (auto simp: block_end_def)
    have "blocks_ok h (unat q) zs (unat (break h))"
      using b(3) by (rule blocks_ok_mono) (use qin in \<open>simp_all add: block_bytes_def\<close>)
    then have "blocks_ok ?h (unat q) zs (unat (break h))" by (simp only: blocks_ok_cong [of zs ?h h, OF kz])
    then have "blocks_ok ?h lo xs (unat (break h))"
      unfolding xs using b(1) s0 qn ep(1) by (auto simp: blocks_ok_cong [of ys ?h h, OF ky])
    then have "heap_ok base lo ?h xs"
      unfolding heap_ok_def using i p(2) out by simp
    moreover have "block_ok lo ?h q" using e lp q ep n(2) by (simp add: block_ok_def)
    moreover have "block_bytes ?h q \<inter> free_bytes ?h xs = {}"
      unfolding xs using fy fz ep q
      by (fastforce simp: free_bytes_cong [of ys ?h h, OF ky] free_bytes_cong [of zs ?h h, OF kz] block_bytes_def)
    moreover have "block_bytes ?h q \<union> free_bytes ?h xs = free_bytes h xs"
      unfolding xs using ep q qin
      by (auto simp: free_bytes_cong [of ys ?h h, OF ky] free_bytes_cong [of zs ?h h, OF kz] block_bytes_def)
    moreover have "hsize ?h c = hsize h c" if "unat c \<notin> free_bytes h xs" for c
    proof -
      have "unat p \<in> free_bytes h xs" "unat q \<in> free_bytes h xs" using xs block_start [OF b(2)] qin by auto
      then show ?thesis using that by auto
    qed
    ultimately show ?thesis using that [of q ?h xs] False by (simp add: take_block_def Let_def m_def q_def)
  qed
qed


section \<open>Looking for a block\<close>

lemma malloc_walk:
  assumes "path (hptr h) p ys z" "ys \<noteq> []" "last ys = freep h" "freep h \<notin> set (butlast ys)" "hptr h prevp = p"
    and "y \<in> set ys" "n \<le> hsize h y"
  shows "\<exists>q y. malloc_loop grant n prevp p h = Some (take_block n q y h) \<and> n \<le> hsize h y \<and>
           y \<in> set ys \<and> q \<in> set (prevp # ys) \<and> hptr h q = y"
  using assms
proof (induction ys arbitrary: p prevp)
  case (Cons a ys)
  have a: "a = p" using Cons.prems(1) by simp
  show ?case
  proof (cases "n \<le> hsize h p")
    case True
    then have "malloc_loop grant n prevp p h = Some (take_block n prevp p h)"
      by (subst malloc_loop.simps) simp
    then show ?thesis using True a Cons.prems(5) by (intro exI [of _ prevp] exI [of _ p]) simp
  next
    case False
    then have ne: "ys \<noteq> []" and y: "y \<in> set ys" using Cons.prems(6,7) a by auto
    then have f: "p \<noteq> freep h" using Cons.prems(4) a by auto
    have "malloc_loop grant n prevp p h = malloc_loop grant n p (hptr h p) h"
      using False f by (subst malloc_loop.simps) simp
    moreover have "\<exists>q y. malloc_loop grant n p (hptr h p) h = Some (take_block n q y h) \<and> n \<le> hsize h y \<and>
           y \<in> set ys \<and> q \<in> set (p # ys) \<and> hptr h q = y"
      using Cons.prems ne y by (intro Cons.IH) auto
    ultimately show ?thesis using a by auto
  qed
qed simp

lemma malloc_walk_none:
  assumes "path (hptr h) p ys z" "ys \<noteq> []" "last ys = freep h" "freep h \<notin> set (butlast ys)"
    and "\<forall>y\<in>set ys. \<not> n \<le> hsize h y"
  shows "malloc_loop grant n prevp p h =
      (case morecore grant n h of
         None \<Rightarrow> None
       | Some (p, h) \<Rightarrow> if p = 0 then Some (0, h) else malloc_loop grant n p (hptr h p) h)"
  using assms
proof (induction ys arbitrary: p prevp)
  case (Cons a ys)
  have a: "a = p" using Cons.prems(1) by simp
  have s: "\<not> n \<le> hsize h p" using Cons.prems(5) a by simp
  show ?case
  proof (cases "ys = []")
    case True
    then have "p = freep h" using Cons.prems(3) a by simp
    then show ?thesis using s by (subst malloc_loop.simps) simp
  next
    case False
    then have f: "p \<noteq> freep h" using Cons.prems(4) a by auto
    have "malloc_loop grant n prevp p h = malloc_loop grant n p (hptr h p) h"
      using s f by (subst malloc_loop.simps) simp
    also have "\<dots> = (case morecore grant n h of
         None \<Rightarrow> None
       | Some (p, h) \<Rightarrow> if p = 0 then Some (0, h) else malloc_loop grant n p (hptr h p) h)"
      using Cons.prems False by (intro Cons.IH) auto
    finally show ?thesis .
  qed
qed simp

text \<open>The walk starts behind \<open>freep\<close> and ends there.\<close>

lemma heap_walk:
  assumes inv: "heap_ok base lo h xs"
  obtains ys where "path (hptr h) (hptr h (freep h)) ys (hptr h (freep h))" "ys \<noteq> []" "last ys = freep h"
    "freep h \<notin> set (butlast ys)" "set ys = set (base # xs)"
proof -
  have i: "freep h \<in> set (base # xs)" "path (hptr h) base (base # xs) base" using inv by (auto simp: heap_ok_def)
  obtain as bs where s: "base # xs = as @ freep h # bs" using i(1) by (metis split_list)
  have "path (hptr h) (hptr h (freep h)) (bs @ as @ [freep h]) (hptr h (freep h))"
    using i(2) unfolding s by (rule path_rotate)
  moreover have "freep h \<notin> set (butlast (bs @ as @ [freep h]))"
    using heap_ok_distinct(2) [OF inv] unfolding s by (auto simp: butlast_append)
  ultimately show ?thesis using that [of "bs @ as @ [freep h]"] unfolding s by auto
qed

text \<open>A call that succeeds takes its block out of the free bytes.\<close>

definition taken :: "u32 \<Rightarrow> nat \<Rightarrow> u32 \<Rightarrow> uheap \<Rightarrow> nat set \<Rightarrow> u32 \<Rightarrow> uheap \<Rightarrow> u32 list \<Rightarrow> bool" where
  "taken base lo n h fb r h' xs' \<longleftrightarrow>
     (\<exists>a. r = a + 8 \<and> hsize h' a = n \<and> block_ok lo h' a \<and> block_bytes h' a \<inter> free_bytes h' xs' = {} \<and>
        block_bytes h' a \<union> free_bytes h' xs' = fb \<and> (\<forall>b. unat b \<notin> fb \<longrightarrow> hsize h' b = hsize h b))"

lemma malloc_loop_fits:
  assumes inv: "heap_ok base lo h xs" and n: "n \<noteq> 0" and fit: "\<exists>a\<in>set xs. n \<le> hsize h a"
  obtains r h' xs' where "malloc_loop grant n (freep h) (hptr h (freep h)) h = Some (r, h')"
    "heap_ok base lo h' xs'" "break h' = break h" "taken base lo n h (free_bytes h xs) r h' xs'"
proof -
  have b0: "hsize h base = 0" "freep h \<in> set (base # xs)" using inv by (auto simp: heap_ok_def)
  obtain ys where w: "path (hptr h) (hptr h (freep h)) ys (hptr h (freep h))" "ys \<noteq> []" "last ys = freep h"
    "freep h \<notin> set (butlast ys)" "set ys = set (base # xs)" using heap_walk [OF inv] .
  obtain a where a: "a \<in> set ys" "n \<le> hsize h a" using fit w(5) by auto
  obtain q y where q: "malloc_loop grant n (freep h) (hptr h (freep h)) h = Some (take_block n q y h)"
    "n \<le> hsize h y" "y \<in> set ys" "q \<in> set (freep h # ys)" "hptr h q = y"
    using malloc_walk [OF w(1-4) refl a] by blast
  have y: "y \<in> set xs" using q(2,3) w(5) b0(1) n by auto
  have qs: "q \<in> set (base # xs)" using q(4) w(5) b0(2) by auto
  obtain a h' xs' where "take_block n q y h = (a + 8, h')" "heap_ok base lo h' xs'" "break h' = break h" "hsize h' a = n"
    "block_ok lo h' a" "block_bytes h' a \<inter> free_bytes h' xs' = {}"
    "block_bytes h' a \<union> free_bytes h' xs' = free_bytes h xs"
    "\<And>b. unat b \<notin> free_bytes h xs \<Longrightarrow> hsize h' b = hsize h b"
    by (rule take_block_ok [OF inv y qs q(5) q(2) n], blast)
  then show ?thesis using that [of "a + 8" h' xs'] q(1) by (auto simp: taken_def)
qed

definition units_wanted :: "u32 \<Rightarrow> u32" where
  "units_wanted n = (if n < 4096 then 4096 else n)"

text \<open>A call with a positive argument moves the break by just that, within the lower 2 GB, or fails.\<close>

definition sbrk_ok :: "(u32 \<Rightarrow> u32 \<Rightarrow> u32 option) \<Rightarrow> bool" where
  "sbrk_ok grant \<longleftrightarrow>
     (\<forall>b m b'. 0 < m \<and> m < 0x80000000 \<and> grant b m = Some b' \<longrightarrow> b' = b + m \<and> unat b + unat m < 2 ^ 31)"

lemma morecore_refused: "grant (break h) (units_wanted n * 8) = None \<Longrightarrow> morecore grant n h = Some (0, h)"
  by (simp add: morecore_def units_wanted_def sbrk_heap_def Let_def)

lemma morecore_ok:
  assumes inv: "heap_ok base lo h xs" and g: "grant (break h) (units_wanted n * 8) = Some b"
    and lim: "sbrk_ok grant" "unat n < 2 ^ 28"
  obtains h' xs' where "morecore grant n h = Some (freep h', h')" "freep h' \<noteq> 0" "heap_ok base lo h' xs'"
    "unat (break h') = unat (break h) + 8 * unat (units_wanted n)"
    "free_bytes h' xs' = free_bytes h xs \<union> {unat (break h) ..< unat (break h')}"
    "\<And>a. a \<notin> set xs \<Longrightarrow> a \<noteq> break h \<Longrightarrow> hsize h' a = hsize h a"
    "\<exists>a\<in>set xs'. n \<le> hsize h' a"
proof -
  let ?nu = "units_wanted n"
  let ?h = "h\<lparr>break := break h + ?nu * 8, hsize := (hsize h)(break h := ?nu)\<rparr>"
  have i: "unat base + 8 \<le> lo" "hsize h base = 0" "freep h \<in> set (base # xs)" "base \<noteq> 0"
      "path (hptr h) base (base # xs) base" "blocks_ok h lo xs (unat (break h))" "unat (break h) < 2 ^ 31"
    using inv by (auto simp: heap_ok_def)
  have nu: "unat ?nu < 2 ^ 28" "?nu \<noteq> 0" "n \<le> ?nu" using lim(2) by (auto simp: units_wanted_def)
  then have u8: "unat (?nu * 8) = 8 * unat ?nu" by (simp add: unat_word_ariths)
  have "0 < ?nu * 8" "?nu * 8 < 0x80000000"
    using nu(1,2) by (simp_all add: word_less_nat_alt u8 unat_gt_0)
  then have gb: "b = break h + ?nu * 8" "unat (break h) + unat (?nu * 8) < 2 ^ 31"
    using lim(1) g unfolding sbrk_ok_def by blast+
  have br: "unat (break ?h) = unat (break h) + 8 * unat ?nu" using gb(2) u8 by (simp add: unat_word_ariths)
  have bn: "break h \<notin> set xs" using blocks_ok_start(3) [OF i(6), of "break h"] by auto
  have lb: "lo \<le> unat (break h)" using blocks_ok_le [OF i(6)] .
  have k: "\<And>a. a \<in> set xs \<Longrightarrow> hsize ?h a = hsize h a" using bn by auto
  have be: "block_end ?h (break h) = unat (break ?h)" unfolding br by (simp add: block_end_def)
  have "blocks_ok h lo xs (unat (break ?h))" unfolding br using i(6) by (rule blocks_ok_mono) simp_all
  then have "blocks_ok ?h lo xs (unat (break ?h))" by (simp only: blocks_ok_cong [of xs ?h h, OF k])
  moreover have "hsize ?h base = 0" using i(1,2) lb by auto
  moreover have "unat (break ?h) < 2 ^ 31" using gb(2) unfolding br u8 .
  ultimately have inv': "heap_ok base lo ?h xs" using i unfolding heap_ok_def by simp
  have bo: "block_ok lo ?h (break h)" unfolding block_ok_def be using lb nu by simp
  have bb: "block_bytes ?h (break h) = {unat (break h) ..< unat (break ?h)}" unfolding block_bytes_def be ..
  have fk: "free_bytes ?h xs = free_bytes h xs" by (rule free_bytes_cong) (rule k)
  have dis: "block_bytes ?h (break h) \<inter> free_bytes ?h xs = {}"
    unfolding bb fk using blocks_ok_range [OF i(6)] by auto
  obtain h' xs' where f: "ufree (break h + 8) ?h = Some h'" "heap_ok base lo h' xs'" "break h' = break ?h"
    "free_bytes h' xs' = free_bytes ?h xs \<union> block_bytes ?h (break h)"
    "\<exists>a\<in>set xs'. hsize ?h (break h) \<le> hsize h' a"
    "\<And>a. a \<notin> set (break h # xs) \<Longrightarrow> hsize h' a = hsize ?h a"
    by (rule ufree_ok [OF inv' bo dis], blast)
  have m1: "break h \<noteq> - 1"
  proof
    assume "break h = - 1"
    then show False using i(7) by (simp add: unsigned_minus_1_eq_mask mask_eq_exp_minus_1)
  qed
  have "morecore grant n h = Some (freep h', h')"
    using g [unfolded gb(1)] f(1) m1 by (simp add: morecore_def units_wanted_def sbrk_heap_def Let_def split: if_splits)
  moreover have "freep h' \<noteq> 0" by (rule heap_ok_freep [OF f(2)])
  moreover have "unat (break h') = unat (break h) + 8 * unat ?nu" unfolding f(3) br ..
  moreover have "free_bytes h' xs' = free_bytes h xs \<union> {unat (break h) ..< unat (break h')}"
    unfolding f(4) fk bb f(3) ..
  moreover have "\<And>a. a \<notin> set xs \<Longrightarrow> a \<noteq> break h \<Longrightarrow> hsize h' a = hsize h a" using f(6) by simp
  moreover have "\<exists>a\<in>set xs'. n \<le> hsize h' a"
  proof -
    obtain a where "a \<in> set xs'" "?nu \<le> hsize h' a" using f(5) by auto
    then show ?thesis using nu(3) by (auto intro: order_trans)
  qed
  ultimately show ?thesis using that f(2) by blast
qed

text \<open>
  The whole call on a heap that is in order: the block comes from the free list or, where no free
  block is large enough, from fresh memory behind the break; the call fails exactly if the
  kernel refuses that.
\<close>

definition malloc_result :: "u32 \<Rightarrow> nat \<Rightarrow> (u32 \<Rightarrow> u32 \<Rightarrow> u32 option) \<Rightarrow> u32 \<Rightarrow> uheap \<Rightarrow> u32 list \<Rightarrow> u32 \<Rightarrow> uheap \<Rightarrow> u32 list \<Rightarrow> bool" where
  "malloc_result base lo grant n h xs r h' xs' \<longleftrightarrow>
     heap_ok base lo h' xs' \<and>
     (if \<exists>a\<in>set xs. n \<le> hsize h a then break h' = break h \<and> taken base lo n h (free_bytes h xs) r h' xs'
      else if grant (break h) (units_wanted n * 8) \<noteq> None
      then unat (break h') = unat (break h) + 8 * unat (units_wanted n) \<and>
           taken base lo n h (free_bytes h xs \<union> {unat (break h) ..< unat (break h')}) r h' xs'
      else r = 0 \<and> h' = h)"

lemma malloc_loop_ok:
  assumes inv: "heap_ok base lo h xs" and n: "n \<noteq> 0" "unat n < 2 ^ 28" and lim: "sbrk_ok grant"
  obtains r h' xs' where "malloc_loop grant n (freep h) (hptr h (freep h)) h = Some (r, h')"
    "malloc_result base lo grant n h xs r h' xs'"
proof (cases "\<exists>a\<in>set xs. n \<le> hsize h a")
  case True
  then show ?thesis using malloc_loop_fits [OF inv n(1), of grant] that by (metis malloc_result_def)
next
  case False
  obtain ys where w: "path (hptr h) (hptr h (freep h)) ys (hptr h (freep h))" "ys \<noteq> []" "last ys = freep h"
    "freep h \<notin> set (butlast ys)" "set ys = set (base # xs)" using heap_walk [OF inv] .
  have "\<forall>y\<in>set ys. \<not> n \<le> hsize h y" using False w(5) inv n(1) by (auto simp: heap_ok_def)
  note e = malloc_walk_none [OF w(1-4) this, of grant "freep h"]
  show ?thesis
  proof (cases "grant (break h) (units_wanted n * 8)")
    case g: None
    then show ?thesis using that [of 0 h xs] e morecore_refused [of grant h n, OF g] False inv
      by (simp add: malloc_result_def)
  next
    case g: (Some b)
    obtain h1 xs1 where m: "morecore grant n h = Some (freep h1, h1)" "freep h1 \<noteq> 0" "heap_ok base lo h1 xs1"
      "unat (break h1) = unat (break h) + 8 * unat (units_wanted n)"
      "free_bytes h1 xs1 = free_bytes h xs \<union> {unat (break h) ..< unat (break h1)}"
      "\<And>a. a \<notin> set xs \<Longrightarrow> a \<noteq> break h \<Longrightarrow> hsize h1 a = hsize h a"
      "\<exists>a\<in>set xs1. n \<le> hsize h1 a"
      by (rule morecore_ok [where grant = grant, OF inv g lim n(2)], blast)
    obtain r h' xs' where f: "malloc_loop grant n (freep h1) (hptr h1 (freep h1)) h1 = Some (r, h')"
      "heap_ok base lo h' xs'" "break h' = break h1" "taken base lo n h1 (free_bytes h1 xs1) r h' xs'"
      by (rule malloc_loop_fits [OF m(3) n(1) m(7), of grant], blast)
    have old: "hsize h1 b = hsize h b" if "unat b \<notin> free_bytes h1 xs1" for b
    proof (rule m(6))
      have ok: "blocks_ok h lo xs (unat (break h))" using inv by (simp add: heap_ok_def)
      show "b \<notin> set xs" using that blocks_ok_start(1) [OF ok, of b] m(5) by auto
      have "0 < unat (units_wanted n)" using n(1) by (auto simp: units_wanted_def unat_gt_0)
      then show "b \<noteq> break h" using that m(4,5) by auto
    qed
    have "taken base lo n h (free_bytes h xs \<union> {unat (break h) ..< unat (break h')}) r h' xs'"
      using f(4) old unfolding taken_def m(5) [symmetric] f(3) by metis
    then show ?thesis
      using that [of r h' xs'] e m f False g by (simp add: malloc_result_def)
  qed
qed


section \<open>A call of malloc\<close>

definition first_use :: "u32 \<Rightarrow> uheap \<Rightarrow> uheap" where
  "first_use base h =
     (if freep h = 0 then h\<lparr>hptr := (hptr h)(base := base), freep := base, hsize := (hsize h)(base := 0)\<rparr> else h)"

definition units :: "u32 \<Rightarrow> u32" where
  "units nbytes = (nbytes + 7) div 8 + 1"

lemma umalloc_eq:
  "umalloc grant base nbytes h =
     malloc_loop grant (units nbytes) (freep (first_use base h)) (hptr (first_use base h) (freep (first_use base h)))
       (first_use base h)"
  by (simp add: umalloc_def first_use_def units_def Let_def add.commute)

lemma units_round: "(n :: nat) + 8 \<le> 8 * ((n + 7) div 8 + 1)"
  by presburger

lemma units_small: "(n :: nat) \<le> 0x7FFFFFF0 \<Longrightarrow> (n + 7) div 8 + 1 < 268435456"
  by presburger

lemma units_bounds:
  assumes "nbytes \<le> 0x7FFFFFF0"
  shows "unat nbytes + 8 \<le> 8 * unat (units nbytes)" "unat (units nbytes) < 2 ^ 28" "units nbytes \<noteq> 0"
proof -
  have b: "unat nbytes \<le> 0x7FFFFFF0" using assms by (simp add: word_le_nat_alt)
  then have "unat (nbytes + 7) = unat nbytes + 7" by (simp add: unat_word_ariths)
  then have d: "unat ((nbytes + 7) div 8) = (unat nbytes + 7) div 8" by (simp add: unat_div)
  then have u: "unat (units nbytes) = (unat nbytes + 7) div 8 + 1"
    unfolding units_def using b by (simp add: unat_word_ariths)
  show "unat nbytes + 8 \<le> 8 * unat (units nbytes)" unfolding u by (rule units_round)
  have "unat (units nbytes) < 268435456" unfolding u by (rule units_small) (rule b)
  then show "unat (units nbytes) < 2 ^ 28" by simp
  show "units nbytes \<noteq> 0" using u by (metis add_is_0 unat_0 zero_neq_one)
qed

text \<open>A heap before the first call, or in order.\<close>

definition heap_start :: "u32 \<Rightarrow> uheap \<Rightarrow> bool" where
  "heap_start base h \<longleftrightarrow> freep h = 0 \<and> base \<noteq> 0 \<and> unat base + 8 \<le> unat (break h) \<and> unat (break h) < 2 ^ 31"

lemma first_use_ok: "heap_start base h \<Longrightarrow> heap_ok base (unat (break h)) (first_use base h) []"
  by (simp add: heap_start_def heap_ok_def first_use_def)

lemma heap_ok_used:
  assumes "heap_ok base lo h xs"
  shows "first_use base h = h"
  using heap_ok_freep [OF assms] by (simp add: first_use_def)

section \<open>Sequences of calls\<close>

text \<open>
  A program calls \<open>malloc\<close> and gives back blocks it holds; \<open>held\<close> are the pointers it got and the
  sizes it asked for.
\<close>

datatype ucall = Malloc u32 | Free nat

type_synonym held = "(u32 \<times> u32) list"

fun ucalls :: "(u32 \<Rightarrow> u32 \<Rightarrow> u32 option) \<Rightarrow> u32 \<Rightarrow> ucall list \<Rightarrow> uheap \<Rightarrow> held \<Rightarrow> (uheap \<times> held) option" where
  "ucalls grant base [] h L = Some (h, L)"
| "ucalls grant base (Malloc n # cs) h L =
     (case umalloc grant base n h of
        None \<Rightarrow> None
      | Some (r, h) \<Rightarrow> ucalls grant base cs h (if r = 0 then L else (r, n) # L))"
| "ucalls grant base (Free i # cs) h L =
     (if i < length L then
        case ufree (fst (L ! i)) h of
          None \<Rightarrow> None
        | Some h \<Rightarrow> ucalls grant base cs h (take i L @ drop (Suc i) L)
      else ucalls grant base cs h L)"

definition held_block :: "u32 \<times> u32 \<Rightarrow> u32" where
  "held_block x = fst x - 8"

definition held_bytes :: "uheap \<Rightarrow> held \<Rightarrow> nat set" where
  "held_bytes h L = (\<Union>x \<in> set L. block_bytes h (held_block x))"

definition held_ok :: "nat \<Rightarrow> uheap \<Rightarrow> held \<Rightarrow> bool" where
  "held_ok lo h L \<longleftrightarrow>
     (\<forall>x\<in>set L. block_ok lo h (held_block x) \<and> unat (snd x) + 8 \<le> 8 * unat (hsize h (held_block x))) \<and>
     sorted_wrt (\<lambda>x y. block_bytes h (held_block x) \<inter> block_bytes h (held_block y) = {}) L"

text \<open>The memory of the process above the first break is divided into free and held blocks.\<close>

definition umem_inv :: "u32 \<Rightarrow> nat \<Rightarrow> uheap \<Rightarrow> u32 list \<Rightarrow> held \<Rightarrow> bool" where
  "umem_inv base lo h xs L \<longleftrightarrow>
     heap_ok base lo h xs \<and> held_ok lo h L \<and> held_bytes h L \<inter> free_bytes h xs = {} \<and>
     held_bytes h L \<union> free_bytes h xs = {lo ..< unat (break h)}"

lemma held_cong:
  assumes "\<And>x. x \<in> set L \<Longrightarrow> hsize h' (held_block x) = hsize h (held_block x)" "break h \<le> break h'"
  shows "held_bytes h' L = held_bytes h L" "held_ok lo h L \<Longrightarrow> held_ok lo h' L"
proof -
  have e: "block_end h' (held_block x) = block_end h (held_block x)"
    "block_bytes h' (held_block x) = block_bytes h (held_block x)" if "x \<in> set L" for x
    using assms(1) [OF that] by (auto simp: block_end_def block_bytes_def)
  show "held_bytes h' L = held_bytes h L" using e by (simp add: held_bytes_def)
  assume ok: "held_ok lo h L"
  have "sorted_wrt (\<lambda>x y. block_bytes h' (held_block x) \<inter> block_bytes h' (held_block y) = {}) L"
    using ok e by (auto simp: held_ok_def elim!: sorted_wrt_mono_rel [rotated])
  moreover have "unat (break h) \<le> unat (break h')" using assms(2) by (simp add: word_le_nat_alt)
  ultimately show "held_ok lo h' L"
    using ok assms(1) e unfolding held_ok_def block_ok_def by (auto intro: order_trans)
qed

lemma held_start:
  assumes "held_ok lo h L" "x \<in> set L"
  shows "unat (held_block x) \<in> held_bytes h L"
proof -
  have "hsize h (held_block x) \<noteq> 0" using assms by (simp add: held_ok_def block_ok_def)
  then show ?thesis using block_start assms(2) by (auto simp: held_bytes_def)
qed

lemma taken_inv:
  assumes inv: "umem_inv base lo h xs L" and n: "n \<le> 0x7FFFFFF0"
    and t: "taken base lo (units n) h (free_bytes h xs \<union> {unat (break h) ..< unat (break h')}) r h' xs'"
    and h': "heap_ok base lo h' xs'" "unat (break h) \<le> unat (break h')"
  shows "r \<noteq> 0" "umem_inv base lo h' xs' ((r, n) # L)"
proof -
  let ?fb = "free_bytes h xs \<union> {unat (break h) ..< unat (break h')}"
  obtain a where a: "r = a + 8" "hsize h' a = units n" "block_ok lo h' a"
    "block_bytes h' a \<inter> free_bytes h' xs' = {}" "block_bytes h' a \<union> free_bytes h' xs' = ?fb"
    "\<And>b. unat b \<notin> ?fb \<Longrightarrow> hsize h' b = hsize h b" using t by (auto simp: taken_def)
  have I: "heap_ok base lo h xs" "held_ok lo h L" "held_bytes h L \<inter> free_bytes h xs = {}"
    "held_bytes h L \<union> free_bytes h xs = {lo ..< unat (break h)}" using inv by (auto simp: umem_inv_def)
  have lob: "lo \<le> unat (break h)" using I(1) by (auto simp: heap_ok_def dest: blocks_ok_le)
  have "held_bytes h L \<subseteq> {lo ..< unat (break h)}" using I(4) by blast
  then have dis: "held_bytes h L \<inter> ?fb = {}" using I(3) by fastforce
  have k: "hsize h' (held_block x) = hsize h (held_block x)" if "x \<in> set L" for x
    by (rule a(6)) (use held_start [OF I(2) that] dis in blast)
  have bl: "break h \<le> break h'" using h'(2) by (simp add: word_le_nat_alt)
  have hb: "held_bytes h' L = held_bytes h L" "held_ok lo h' L" using held_cong [of L h' h, OF k bl] I(2) by auto
  have "unat a < 2 ^ 31" using a(3) h'(1) by (simp add: block_ok_def heap_ok_def block_end_def)
  then have "unat r = unat a + 8" unfolding a(1) by (simp add: unat_word_ariths)
  then show "r \<noteq> 0" by auto
  have ha: "held_block (r, n) = a" by (simp add: held_block_def a(1))
  have db: "block_bytes h' a \<inter> held_bytes h L = {}" using a(5) dis by blast
  have "\<forall>y\<in>set L. block_bytes h' a \<inter> block_bytes h' (held_block y) = {}"
  proof
    fix y assume "y \<in> set L"
    then have "block_bytes h' (held_block y) \<subseteq> held_bytes h' L" by (auto simp: held_bytes_def)
    then show "block_bytes h' a \<inter> block_bytes h' (held_block y) = {}" using db hb(1) by auto
  qed
  then have "held_ok lo h' ((r, n) # L)"
    using hb(2) a(2,3) units_bounds(1) [OF n] by (simp add: held_ok_def ha)
  moreover have e: "held_bytes h' ((r, n) # L) = block_bytes h' a \<union> held_bytes h L"
    using hb(1) ha by (simp add: held_bytes_def)
  moreover have "held_bytes h L \<inter> free_bytes h' xs' = {}" using a(5) dis by blast
  moreover have "block_bytes h' a \<union> held_bytes h L \<union> free_bytes h' xs' = {lo ..< unat (break h')}"
  proof -
    have "block_bytes h' a \<union> held_bytes h L \<union> free_bytes h' xs' = held_bytes h L \<union> ?fb" using a(5) by blast
    also have "\<dots> = {lo ..< unat (break h)} \<union> {unat (break h) ..< unat (break h')}" using I(4) by blast
    also have "\<dots> = {lo ..< unat (break h')}" using lob h'(2) by auto
    finally show ?thesis .
  qed
  ultimately show "umem_inv base lo h' xs' ((r, n) # L)"
    using h'(1) a(4) by (auto simp: umem_inv_def)
qed

lemma umalloc_inv:
  assumes inv: "umem_inv base lo h xs L" and n: "n \<le> 0x7FFFFFF0"
    and lim: "sbrk_ok grant"
  obtains r h' xs' where "umalloc grant base n h = Some (r, h')"
    "umem_inv base lo h' xs' (if r = 0 then L else (r, n) # L)"
proof -
  have ok: "heap_ok base lo h xs" using inv by (simp add: umem_inv_def)
  obtain r h' xs' where m: "malloc_loop grant (units n) (freep h) (hptr h (freep h)) h = Some (r, h')"
    "malloc_result base lo grant (units n) h xs r h' xs'"
    by (rule malloc_loop_ok [OF ok units_bounds(3,2) [OF n] lim])
  have e: "umalloc grant base n h = Some (r, h')" using m(1) by (simp add: umalloc_eq heap_ok_used [OF ok])
  consider (same) "break h' = break h" "taken base lo (units n) h (free_bytes h xs) r h' xs'"
    | (more) "unat (break h') = unat (break h) + 8 * unat (units_wanted (units n))"
       "taken base lo (units n) h (free_bytes h xs \<union> {unat (break h) ..< unat (break h')}) r h' xs'"
    | (none) "r = 0" "h' = h"
    using m(2) by (auto simp: malloc_result_def split: if_splits)
  then show ?thesis
  proof cases
    case same
    then have "r \<noteq> 0" "umem_inv base lo h' xs' ((r, n) # L)"
      using taken_inv [OF inv n, of h' r xs'] m(2) by (auto simp: malloc_result_def)
    then show ?thesis using that e by simp
  next
    case more
    then have "r \<noteq> 0" "umem_inv base lo h' xs' ((r, n) # L)"
      using taken_inv [OF inv n more(2)] m(2) by (auto simp: malloc_result_def)
    then show ?thesis using that e by simp
  next
    case none
    then show ?thesis using that [of 0 h xs] e inv by simp
  qed
qed

lemma ufree_inv:
  assumes inv: "umem_inv base lo h xs L" and i: "i < length L"
  obtains h' xs' where "ufree (fst (L ! i)) h = Some h'" "umem_inv base lo h' xs' (take i L @ drop (Suc i) L)"
proof -
  let ?M = "take i L @ drop (Suc i) L"
  let ?bp = "held_block (L ! i)"
  have L: "L = take i L @ L ! i # drop (Suc i) L" using i by (rule id_take_nth_drop)
  have I: "heap_ok base lo h xs" "held_ok lo h L" "held_bytes h L \<inter> free_bytes h xs = {}"
    "held_bytes h L \<union> free_bytes h xs = {lo ..< unat (break h)}" using inv by (auto simp: umem_inv_def)
  have bo: "block_ok lo h ?bp" using I(2) i by (simp add: held_ok_def)
  have hm: "held_bytes h L = held_bytes h ?M \<union> block_bytes h ?bp"
    by (subst L) (auto simp: held_bytes_def)
  have mok: "held_ok lo h ?M" and md: "held_bytes h ?M \<inter> block_bytes h ?bp = {}"
  proof -
    have "held_ok lo h (take i L @ L ! i # drop (Suc i) L)" using I(2) L by simp
    then show "held_ok lo h ?M" "held_bytes h ?M \<inter> block_bytes h ?bp = {}"
      by (auto simp: held_ok_def sorted_wrt_append held_bytes_def)
  qed
  have dis: "block_bytes h ?bp \<inter> free_bytes h xs = {}" using I(3) hm by blast
  obtain h' xs' where f: "ufree (?bp + 8) h = Some h'" "heap_ok base lo h' xs'" "break h' = break h"
    "free_bytes h' xs' = free_bytes h xs \<union> block_bytes h ?bp"
    "\<And>a. a \<notin> set (?bp # xs) \<Longrightarrow> hsize h' a = hsize h a"
    by (rule ufree_ok [OF I(1) bo dis], blast)
  have bs: "unat ?bp \<in> block_bytes h ?bp" using bo block_start by (simp add: block_ok_def)
  have ok: "blocks_ok h lo xs (unat (break h))" using I(1) by (simp add: heap_ok_def)
  have k: "hsize h' (held_block x) = hsize h (held_block x)" if "x \<in> set ?M" for x
  proof (rule f(5))
    have s: "unat (held_block x) \<in> held_bytes h ?M" by (rule held_start [OF mok that])
    then have "unat (held_block x) \<notin> block_bytes h ?bp" "unat (held_block x) \<notin> free_bytes h xs"
      using md I(3) unfolding hm by (simp_all add: disjoint_iff)
    then have "held_block x \<noteq> ?bp" "held_block x \<notin> set xs"
      using bs blocks_ok_start(1) [OF ok, of "held_block x"] by auto
    then show "held_block x \<notin> set (?bp # xs)" by auto
  qed
  have hb: "held_bytes h' ?M = held_bytes h ?M" "held_ok lo h' ?M"
    using held_cong [of ?M h' h, OF k] f(3) mok by auto
  have "umem_inv base lo h' xs' ?M"
    unfolding umem_inv_def hb(1) f(3,4) using f(2) hb(2) I(3,4) md hm by blast
  then show ?thesis using that f(1) by (simp add: held_block_def)
qed

lemma ucalls_inv:
  assumes "umem_inv base lo h xs L" and lim: "sbrk_ok grant"
    and "\<forall>n. Malloc n \<in> set cs \<longrightarrow> n \<le> 0x7FFFFFF0"
  shows "\<exists>h' xs' L'. ucalls grant base cs h L = Some (h', L') \<and> umem_inv base lo h' xs' L'"
  using assms(1,3)
proof (induction cs arbitrary: h xs L)
  case (Cons c cs)
  show ?case
  proof (cases c)
    case (Malloc n)
    then have "n \<le> 0x7FFFFFF0" using Cons.prems(2) by simp
    then obtain r h' xs' where "umalloc grant base n h = Some (r, h')"
      "umem_inv base lo h' xs' (if r = 0 then L else (r, n) # L)"
      using umalloc_inv [OF Cons.prems(1) _ lim] by blast
    then show ?thesis using Cons.IH Cons.prems(2) Malloc by fastforce
  next
    case (Free i)
    show ?thesis
    proof (cases "i < length L")
      case True
      then obtain h' xs' where "ufree (fst (L ! i)) h = Some h'" "umem_inv base lo h' xs' (take i L @ drop (Suc i) L)"
        using ufree_inv [OF Cons.prems(1)] by blast
      then show ?thesis using Cons.IH Cons.prems(2) Free True by fastforce
    qed (use Cons Free in auto)
  qed
qed auto


text \<open>Before the first \<open>malloc\<close> nothing is held and nothing can be freed.\<close>

lemma ucalls_first:
  assumes "heap_start base h"
  shows "ucalls grant base cs h [] =
    (if \<exists>n. Malloc n \<in> set cs then ucalls grant base cs (first_use base h) [] else Some (h, []))"
proof (induction cs)
  case (Cons c cs)
  have f: "first_use base (first_use base h) = first_use base h"
    by (rule heap_ok_used [OF first_use_ok [OF assms]])
  show ?case using Cons by (cases c) (auto simp: umalloc_eq f)
qed simp

text \<open>
  C3. The storage allocator of the user library. For every sequence of calls of \<open>malloc\<close> and of
  \<open>free\<close> on blocks the program holds, starting before the first call: every call returns (the
  loops over the circular list end), the free list is in order afterwards, the blocks held are
  disjoint and at least as large as asked for, and together with the free blocks they are
  exactly the memory that \<^verbatim>\<open>sbrk\<close> gave to the program, so that nothing is lost or given out twice.
  The kernel is assumed to grant a positive request as a whole, below 2 GB, or not at all, and no
  request exceeds \<open>0x7FFFFFF0\<close> bytes: a larger one is a negative argument of \<^verbatim>\<open>sbrk\<close>.
\<close>

theorem malloc_free_disjoint:
  assumes h: "heap_start base h" and lim: "sbrk_ok grant"
    and cs: "\<forall>n. Malloc n \<in> set cs \<longrightarrow> n \<le> 0x7FFFFFF0"
  shows "\<exists>h' xs L. ucalls grant base cs h [] = Some (h', L) \<and> umem_inv base (unat (break h)) (first_use base h') xs L"
proof -
  have inv: "umem_inv base (unat (break h)) (first_use base h) [] []"
    using first_use_ok [OF h] by (simp add: umem_inv_def held_ok_def held_bytes_def first_use_def)
  show ?thesis
  proof (cases "\<exists>n. Malloc n \<in> set cs")
    case True
    obtain h' xs L where r: "ucalls grant base cs (first_use base h) [] = Some (h', L)"
      "umem_inv base (unat (break h)) h' xs L"
      using ucalls_inv [OF inv lim cs] by blast
    then have "first_use base h' = h'" by (auto simp: umem_inv_def dest: heap_ok_used)
    then show ?thesis using r True by (auto simp: ucalls_first [OF h])
  next
    case False
    then show ?thesis using inv by (auto simp: ucalls_first [OF h])
  qed
qed

definition demo_heap :: uheap where
  "demo_heap = \<lparr>hptr = \<lambda>_. 0, hsize = \<lambda>_. 0, freep = 0, break = 0x4000\<rparr>"

definition demo_grant :: "u32 \<Rightarrow> u32 \<Rightarrow> u32 option" where
  "demo_grant b m = (if b + m \<le> 0xA0000 \<and> b \<le> b + m then Some (b + m) else None)"

lemma demo_grant_ok: "sbrk_ok demo_grant"
  unfolding sbrk_ok_def
proof (intro allI impI)
  fix b m b' :: u32
  assume a: "0 < m \<and> m < 0x80000000 \<and> demo_grant b m = Some b'"
  then have "b' = b + m" "b + m \<le> 0xA0000" "b \<le> b + m" by (auto simp: demo_grant_def split: if_splits)
  moreover from this have "unat (b + m) = unat b + unat m" by (simp add: unat_plus_simple)
  ultimately show "b' = b + m \<and> unat b + unat m < 2 ^ 31" by (simp add: word_le_nat_alt)
qed

theorem malloc_free_disjoint_witness:
  "heap_start 0x800 demo_heap \<and>
   (\<exists>h' xs. ucalls demo_grant 0x800 [Malloc 100, Malloc 7, Free 1] demo_heap [] = Some (h', [(0xBF88, 7)]) \<and>
      umem_inv 0x800 0x4000 (first_use 0x800 h') xs [(0xBF88, 7)])"
proof -
  have s: "heap_start 0x800 demo_heap" by (simp add: heap_start_def demo_heap_def)
  have "map_option snd (ucalls demo_grant 0x800 [Malloc 100, Malloc 7, Free 1] demo_heap []) = Some [(0xBF88, 7)]"
    by (simp add: demo_heap_def demo_grant_def umalloc_def Let_def malloc_loop.simps free_loop.simps morecore_def
        sbrk_heap_def ufree_def free_link_def take_block_def)
  then obtain h' where e: "ucalls demo_grant 0x800 [Malloc 100, Malloc 7, Free 1] demo_heap [] = Some (h', [(0xBF88, 7)])"
    by auto
  have "\<exists>h' xs L. ucalls demo_grant 0x800 [Malloc 100, Malloc 7, Free 1] demo_heap [] = Some (h', L) \<and>
      umem_inv 0x800 (unat (break demo_heap)) (first_use 0x800 h') xs L"
    by (rule malloc_free_disjoint [OF s demo_grant_ok]) simp_all
  then show ?thesis using s e by (auto simp: demo_heap_def)
qed

text \<open>
  C30. When \<open>malloc\<close> succeeds. On a free list in order the call takes the block from the free list
  if some free block is large enough, leaving the break alone; otherwise it asks the kernel for
  that many units, at least 4096, and takes the block from what it got; it returns null exactly
  if the kernel refuses, and then nothing has changed.
\<close>

theorem malloc_takes_free_block_first:
  assumes "heap_ok base lo h xs" "n \<le> 0x7FFFFFF0" "sbrk_ok grant"
  shows "\<exists>r h' xs'. umalloc grant base n h = Some (r, h') \<and> malloc_result base lo grant (units n) h xs r h' xs'"
  using malloc_loop_ok [OF assms(1) units_bounds(3,2) [OF assms(2)] assms(3)]
  by (metis umalloc_eq heap_ok_used [OF assms(1)])

theorem malloc_takes_free_block_first_witness:
  "\<exists>r h' xs'. umalloc demo_grant 0x800 100 (first_use 0x800 demo_heap) = Some (r, h') \<and>
     malloc_result 0x800 0x4000 demo_grant (units 100) (first_use 0x800 demo_heap) [] r h' xs'"
proof (rule malloc_takes_free_block_first)
  show "heap_ok 0x800 0x4000 (first_use 0x800 demo_heap) []"
    using first_use_ok [of "0x800" demo_heap] by (simp add: heap_start_def demo_heap_def)
qed (simp_all add: demo_grant_ok)

text \<open>
  Above that bound the number of units wraps around: a request for all 4 GB is taken for one of no
  bytes at all and succeeds with a block that is only a header.
\<close>

lemma malloc_huge_request:
  assumes "heap_ok base lo h xs" "sbrk_ok grant"
  shows "\<exists>r h' xs'. umalloc grant base 0xFFFFFFFF h = Some (r, h') \<and> malloc_result base lo grant 1 h xs r h' xs'"
proof -
  have u: "units 0xFFFFFFFF = 1" by (simp add: units_def)
  have "(1 :: u32) \<noteq> 0" "unat (1 :: u32) < 2 ^ 28" by simp_all
  then show ?thesis
    using malloc_loop_ok [OF assms(1) _ _ assms(2), of 1] by (metis umalloc_eq heap_ok_used [OF assms(1)] u)
qed

end
