(* ===== verification/Sbrk.thy ===== *)
theory Sbrk
  imports Machine Printing Umalloc
begin

text \<open>
  The kernel's side of the allocator's interface: what \<^verbatim>\<open>growproc\<close> (\<^verbatim>\<open>kernel/proc.c\<close>) grants, and what
  the allocator of \<^verbatim>\<open>user/umalloc.c\<close> does where that is not what it relies on.
\<close>

lemma allocuvm_loop_returns: "allocuvm_loop as pgdir oldsz newsz s = Inr (z, s') \<Longrightarrow> z = newsz \<or> z = 0"
  by (induction as arbitrary: s) (auto simp: Let_def split: if_splits prod.splits elim!: bindE_InrE)

lemma allocuvm_returns:
  assumes "allocuvm shm pgdir oldsz newsz s = Inr (z, s')" "oldsz \<le> newsz"
  shows "z = newsz \<and> newsz \<le> shm \<or> z = 0"
  using assms by (auto simp: allocuvm_def split: if_splits dest!: allocuvm_loop_returns)

lemma upd_cur_sz:
  "k_proc k < length (k_ptable k) \<Longrightarrow> p_sz (cur (upd_cur (\<lambda>x. x\<lparr>p_sz := z\<rparr>) k)) = z"
  by (simp add: cur_def upd_cur_def upd_proc_def)

lemma on_mem_frame: "on_mem f k = Inr (x, k') \<Longrightarrow> k_proc k' = k_proc k \<and> k_ptable k' = k_ptable k \<and> (\<exists>s. f (k_mem k) = Inr (x, s))"
  by (auto simp: on_mem_def elim!: bindE_InrE)

lemma sint_split: "sint (m :: u32) = (if m < 0x80000000 then uint m else uint m - 2 ^ 32)"
proof -
  have "- (2 ^ 31) \<le> sint m" "sint m < 2 ^ 31" using sint_ge [of m] sint_lt [of m] by simp_all
  then show ?thesis using sint_cases [of m] by (auto simp: word_less_def split: if_splits)
qed

lemma growproc_up:
  assumes act: "k_proc k < length (k_ptable k)" and b: "p_sz (cur k) \<le> p_shm (cur k)" "p_shm (cur k) \<le> USERTOP"
    and m: "0 < m" "m < 0x80000000" and g: "growproc (sint m) k = Inr (r, k')"
  shows "r = 0 \<and> p_sz (cur k') = p_sz (cur k) + m \<and> unat (p_sz (cur k)) + unat m \<le> 0xA0000 \<or>
         r = - 1 \<and> p_sz (cur k') = p_sz (cur k)"
proof -
  let ?b = "p_sz (cur k)"
  have pos: "0 < sint m" using m by (simp add: sint_split word_less_def)
  have "unat ?b \<le> 0xA0000" "unat m < 0x80000000" using b m(2) by (auto simp: word_le_nat_alt word_less_nat_alt)
  then have nw: "unat (?b + m) = unat ?b + unat m" by (simp add: unat_word_ariths)
  obtain z k1 where z: "on_mem (allocuvm (p_shm (cur k)) (p_pgdir (cur k)) ?b (?b + m)) k = Inr (z, k1)"
    "(if z = 0 then Inr (- 1, k1) else Inr (0, upd_cur (\<lambda>x. x\<lparr>p_sz := z\<rparr>) k1)) = (Inr (r, k') :: (int \<times> kernel) res)"
    using g pos by (auto simp: growproc_def Let_def elim!: bindE_InrE)
  have f: "k_proc k1 = k_proc k" "k_ptable k1 = k_ptable k" using on_mem_frame [OF z(1)] by auto
  obtain s where s: "allocuvm (p_shm (cur k)) (p_pgdir (cur k)) ?b (?b + m) (k_mem k) = Inr (z, s)"
    using on_mem_frame [OF z(1)] by auto
  have "?b \<le> ?b + m" using nw by (simp add: word_le_nat_alt)
  from allocuvm_returns [OF s this] show ?thesis
  proof
    assume "z = ?b + m \<and> ?b + m \<le> p_shm (cur k)"
    then have zz: "z = ?b + m" "unat ?b + unat m \<le> 0xA0000" using b(2) nw by (auto simp: word_le_nat_alt)
    have "z \<noteq> 0" using zz(1) nw m(1) by (metis add_is_0 unat_0 unat_gt_0 word_greater_zero_iff less_irrefl)
    then have "r = 0" "k' = upd_cur (\<lambda>x. x\<lparr>p_sz := z\<rparr>) k1" using z(2) by auto
    then show ?thesis using zz act f by (simp add: upd_cur_sz)
  next
    assume "z = 0"
    then have "r = - 1" "k' = k1" using z(2) by auto
    then show ?thesis using f by (simp add: cur_def)
  qed
qed

text \<open>An argument of 2 GB or more is negative, and the new size is not smaller than the old one.\<close>

lemma growproc_negative:
  assumes act: "k_proc k < length (k_ptable k)" and b: "p_sz (cur k) \<noteq> 0"
    and m: "0x80000000 \<le> m" and g: "growproc (sint m) k = Inr (r, k')"
  shows "if unat (p_sz (cur k)) + unat m < 2 ^ 32 then r = 0 \<and> p_sz (cur k') = p_sz (cur k)
         else if p_sz (cur k) + m = 0 then r = - 1 \<and> p_sz (cur k') = p_sz (cur k)
         else r = 0 \<and> p_sz (cur k') = p_sz (cur k) + m"
proof -
  let ?b = "p_sz (cur k)"
  have "sint m = uint m - 2 ^ 32" using m by (subst sint_split) auto
  then have neg: "sint m < 0" using uint_lt2p [of m] by simp
  obtain z k1 where z: "on_mem (deallocuvm (p_pgdir (cur k)) ?b (?b + m)) k = Inr (z, k1)"
    "(if z = 0 then Inr (- 1, k1) else Inr (0, upd_cur (\<lambda>x. x\<lparr>p_sz := z\<rparr>) k1)) = (Inr (r, k') :: (int \<times> kernel) res)"
    using g neg by (auto simp: growproc_def Let_def elim!: bindE_InrE)
  have f: "k_proc k1 = k_proc k" "k_ptable k1 = k_ptable k" using on_mem_frame [OF z(1)] by auto
  have kz: "p_sz (cur k') = (if z = 0 then ?b else z)" "r = (if z = 0 then - 1 else 0)"
    using z(2) act f by (auto simp: upd_cur_def upd_proc_def cur_def split: if_splits)
  have zv: "z = (if ?b \<le> ?b + m then ?b else ?b + m)"
    using on_mem_frame [OF z(1)] by (auto simp: deallocuvm_def elim!: bindE_InrE split: if_splits)
  have "?b \<le> ?b + m \<longleftrightarrow> unat ?b + unat m < 2 ^ 32"
    using no_olen_add_nat [of ?b m] by (simp add: word_le_nat_alt)
  then show ?thesis using kz zv b by auto
qed


definition sbrk_kernel :: kernel where
  "sbrk_kernel = demo_kernel\<lparr>k_ptable := [zero_proc\<lparr>p_state := RUNNING, p_sz := 0x10, p_shm := 0xA0000\<rparr>], k_proc := 0\<rparr>"


text \<open>
  So the allocator must not ask for 2 GB: with a kernel that answers as above, a request for
  \<open>0x7FFFFFF1\<close> bytes succeeds with a block none of which is memory of the process.
\<close>

definition signed_grant :: "u32 \<Rightarrow> u32 \<Rightarrow> u32 option" where
  "signed_grant b m =
     (if m < 0x80000000 then if b + m \<le> 0xA0000 then Some (b + m) else None
      else if unat b + unat m < 2 ^ 32 then Some b else if b + m = 0 then None else Some (b + m))"

lemma malloc_two_gigabytes:
  "\<exists>h. umalloc signed_grant 0x800 0x7FFFFFF1 demo_heap = Some (0x4008, h) \<and> break h = break demo_heap \<and>
     break demo_heap = 0x4000"
  by (simp add: demo_heap_def signed_grant_def umalloc_def Let_def malloc_loop.simps free_loop.simps morecore_def
        sbrk_heap_def ufree_def free_link_def take_block_def)

end
