(* ===== verification/Sh.thy ===== *)
theory Sh
  imports Prelude
begin

text \<open>
  The parser of the shell (\<^verbatim>\<open>user/sh.c\<close>). The line is the list \<open>b\<close> of its bytes before the NUL; the
  pointers \<^verbatim>\<open>*ps\<close>, \<^verbatim>\<open>q\<close> and \<^verbatim>\<open>eq\<close> are positions in it and \<^verbatim>\<open>es\<close> is its length. The four functions
  of the grammar call each other, so each takes a bound on the depth of the calls; a bound that
  always suffices is proved. \<^verbatim>\<open>panic\<close> ends the process and is the result \<open>Syntax\<close>.
\<close>

section \<open>Commands\<close>

text \<open>An argument is the pair of its entries in \<^verbatim>\<open>argv\<close> and \<^verbatim>\<open>eargv\<close>.\<close>

datatype cmd =
    EXEC "(nat \<times> nat) list"
  | REDIR cmd nat nat u32 nat
  | PIPE cmd cmd
  | LIST cmd cmd
  | BACK cmd

datatype 'a parsed = Parsed 'a | Syntax string | NoFuel

fun bindP :: "'a parsed \<Rightarrow> ('a \<Rightarrow> 'b parsed) \<Rightarrow> 'b parsed" where
  "bindP (Parsed x) f = f x"
| "bindP (Syntax e) f = Syntax e"
| "bindP NoFuel f = NoFuel"

abbreviation (input) MAXARGS :: nat where "MAXARGS \<equiv> 10"
abbreviation (input) BAR :: u8 where "BAR \<equiv> 124"
abbreviation (input) LPAR :: u8 where "LPAR \<equiv> 40"
abbreviation (input) RPAR :: u8 where "RPAR \<equiv> 41"
abbreviation (input) SEMI :: u8 where "SEMI \<equiv> 59"
abbreviation (input) AMP :: u8 where "AMP \<equiv> 38"
abbreviation (input) LESS :: u8 where "LESS \<equiv> 60"
abbreviation (input) GREATER :: u8 where "GREATER \<equiv> 62"
abbreviation (input) PLUS :: u8 where "PLUS \<equiv> 43"
abbreviation (input) WORD :: u8 where "WORD \<equiv> 97"
abbreviation (input) BLANK :: u8 where "BLANK \<equiv> 32"
abbreviation (input) REDIR_IN :: u32 where "REDIR_IN \<equiv> 0"
abbreviation (input) REDIR_OUT :: u32 where "REDIR_OUT \<equiv> 0x201"

definition whitespace :: "u8 list" where
  "whitespace = [BLANK, 9, 13, 10, 11]"

definition symbols :: "u8 list" where
  "symbols = [LESS, BAR, GREATER, AMP, SEMI, LPAR, RPAR]"

definition line_at :: "u8 list \<Rightarrow> nat \<Rightarrow> u8" where
  "line_at b s = (if s < length b then b ! s else 0)"

section \<open>Tokens\<close>

function skip :: "u8 list \<Rightarrow> nat \<Rightarrow> nat" where
  "skip b s = (if s < length b \<and> b ! s \<in> set whitespace then skip b (Suc s) else s)"
  by pat_completeness auto
termination
  by (relation "measure (\<lambda>(b, s). length b - s)") auto

function word_end :: "u8 list \<Rightarrow> nat \<Rightarrow> nat" where
  "word_end b s =
     (if s < length b \<and> b ! s \<notin> set whitespace \<and> b ! s \<notin> set symbols then word_end b (Suc s) else s)"
  by pat_completeness auto
termination
  by (relation "measure (\<lambda>(b, s). length b - s)") auto

declare skip.simps [simp del] word_end.simps [simp del]

definition gettoken :: "u8 list \<Rightarrow> nat \<Rightarrow> u8 \<times> nat \<times> nat \<times> nat" where
  "gettoken b s =
     (let s = skip b s; q = s; c = line_at b s;
          (ret, s) =
            (if c = 0 then (0, s)
             else if c \<in> {BAR, LPAR, RPAR, SEMI, AMP, LESS} then (c, s + 1)
             else if c = GREATER then if line_at b (s + 1) = GREATER then (PLUS, s + 2) else (GREATER, s + 1)
             else (WORD, word_end b s))
      in (ret, q, s, skip b s))"

definition peek :: "u8 list \<Rightarrow> u8 list \<Rightarrow> nat \<Rightarrow> bool \<times> nat" where
  "peek toks b s = (let s = skip b s; c = line_at b s in (c \<noteq> 0 \<and> c \<in> set toks, s))"

lemma skip_le: "s \<le> skip b s"
  by (induction b s rule: skip.induct) (subst skip.simps, auto)

lemma skip_bound: "s \<le> length b \<Longrightarrow> skip b s \<le> length b"
  by (induction b s rule: skip.induct) (subst skip.simps, auto)

lemma word_end_le: "s \<le> word_end b s"
  by (induction b s rule: word_end.induct) (subst word_end.simps, auto)

lemma word_end_bound: "s \<le> length b \<Longrightarrow> word_end b s \<le> length b"
  by (induction b s rule: word_end.induct) (subst word_end.simps, auto)

definition word_char :: "u8 \<Rightarrow> bool" where
  "word_char c \<longleftrightarrow> c \<noteq> 0 \<and> c \<notin> set whitespace \<and> c \<notin> set symbols"

lemma word_end_stop: "word_end b s < length b \<Longrightarrow> \<not> word_char (b ! word_end b s)"
  by (induction b s rule: word_end.induct) (subst word_end.simps, subst (asm) (2) word_end.simps, auto simp: word_char_def split: if_splits)

lemma word_end_inside: "s \<le> i \<Longrightarrow> i < word_end b s \<Longrightarrow> i < length b \<and> b ! i \<notin> set whitespace \<and> b ! i \<notin> set symbols"
proof (induction b s rule: word_end.induct)
  case (1 b s)
  show ?case
  proof (cases "s < length b \<and> b ! s \<notin> set whitespace \<and> b ! s \<notin> set symbols")
    case True
    then have "word_end b s = word_end b (Suc s)" by (subst word_end.simps) simp
    then show ?thesis using 1 True by (cases "i = s") auto
  next
    case False
    then have "word_end b s = s" by (subst word_end.simps) auto
    then show ?thesis using 1(2,3) by simp
  qed
qed

lemma skip_stop: "skip b s < length b \<Longrightarrow> b ! skip b s \<notin> set whitespace"
proof (induction b s rule: skip.induct)
  case (1 b s)
  then show ?case by (cases "s < length b \<and> b ! s \<in> set whitespace") (simp_all add: skip.simps [of b s])
qed

text \<open>What a token is: where it lies, and that every token but the last one moves on.\<close>

definition word_at :: "u8 list \<Rightarrow> nat \<times> nat \<Rightarrow> bool" where
  "word_at b w \<longleftrightarrow> fst w < snd w \<and> snd w \<le> length b \<and> (\<forall>i. fst w \<le> i \<and> i < snd w \<longrightarrow> word_char (b ! i)) \<and>
     (snd w < length b \<longrightarrow> \<not> word_char (b ! snd w))"

lemma line_at_0: "0 \<notin> set b \<Longrightarrow> line_at b s = 0 \<longleftrightarrow> length b \<le> s"
  by (auto simp: line_at_def in_set_conv_nth)

lemma gettoken_ok:
  assumes g: "gettoken b s = (ret, q, eq, s')" and s: "s \<le> length b" and nz: "0 \<notin> set b"
  shows "s \<le> s'" "s' \<le> length b" "ret \<noteq> 0 \<Longrightarrow> s < s'" "ret = WORD \<Longrightarrow> word_at b (q, eq)"
proof -
  let ?s = "skip b s"
  have b: "s \<le> ?s" "?s \<le> length b" using skip_le skip_bound [OF s] by auto
  have "s \<le> s' \<and> s' \<le> length b \<and> (ret \<noteq> 0 \<longrightarrow> s < s') \<and> (ret = WORD \<longrightarrow> word_at b (q, eq))"
  proof (cases "?s < length b")
    case False
    then have "line_at b ?s = 0" by (simp add: line_at_def)
    then have "ret = 0" "s' = skip b ?s" using g by (auto simp: gettoken_def Let_def)
    then show ?thesis using b skip_le [of ?s b] skip_bound [OF b(2)] by auto
  next
    case True
    have c0: "line_at b ?s = b ! ?s" "b ! ?s \<noteq> 0" using True nz by (auto simp: line_at_def in_set_conv_nth)
    show ?thesis
    proof (cases "b ! ?s \<in> set symbols")
      case sym: True
      have two: "?s + 2 \<le> length b" if "line_at b (?s + 1) = GREATER"
        using that by (auto simp: line_at_def split: if_splits)
      obtain j where j: "s' = skip b j" "?s < j" "j \<le> length b" "ret \<noteq> WORD"
        using g sym c0 True two by (auto simp: gettoken_def Let_def symbols_def split: if_splits)
      then show ?thesis using b skip_le [of j b] skip_bound [OF j(3)] by auto
    next
      case False
      have ws: "b ! ?s \<notin> set whitespace" using True by (rule skip_stop)
      let ?e = "word_end b ?s"
      have r: "q = ?s" "eq = ?e" "s' = skip b ?e"
        using g False c0 by (auto simp: gettoken_def Let_def symbols_def split: if_splits)
      have "?e = word_end b (Suc ?s)" using True False ws by (subst word_end.simps) simp
      then have e: "?s < ?e" using word_end_le [of "Suc ?s" b] by simp
      have eb: "?e \<le> length b" using b(2) by (rule word_end_bound)
      have "word_at b (?s, ?e)"
        using e eb nz word_end_inside word_end_stop [of b ?s]
        by (auto simp: word_at_def word_char_def in_set_conv_nth)
      then show ?thesis using r b e skip_le [of ?e b] skip_bound [OF eb] by auto
    qed
  qed
  then show "s \<le> s'" "s' \<le> length b" "ret \<noteq> 0 \<Longrightarrow> s < s'" "ret = WORD \<Longrightarrow> word_at b (q, eq)" by auto
qed

lemma peek_ok:
  assumes "peek toks b s = (p, s')" "s \<le> length b"
  shows "s \<le> s'" "s' \<le> length b" "p \<Longrightarrow> s' < length b \<and> b ! s' \<in> set toks"
  using assms skip_le [of s b] skip_bound [OF assms(2)]
  by (auto simp: peek_def Let_def line_at_def split: if_splits)

lemma gettoken_mono: "gettoken b s = (ret, q, eq, s') \<Longrightarrow> s \<le> s'"
  using skip_le [of s b] skip_le [of "word_end b (skip b s)" b] word_end_le [of "skip b s" b]
    skip_le [of "skip b s" b] skip_le [of "skip b s + 1" b] skip_le [of "skip b s + 2" b]
  by (auto simp: gettoken_def Let_def split: if_splits)

lemma gettoken_symbol:
  assumes "peek toks b s = (True, s1)" "set toks \<subseteq> set symbols" "gettoken b s1 = (ret, q, eq, s')"
  shows "s < length b" "s < s'" "b ! s1 \<in> set symbols"
proof -
  have c: "line_at b s1 \<noteq> 0" "line_at b s1 \<in> set symbols" "s1 = skip b s"
    using assms(1,2) by (auto simp: peek_def Let_def)
  then have l: "s1 < length b" "b ! s1 \<in> set symbols" by (auto simp: line_at_def split: if_splits)
  then have "skip b s1 = s1" by (subst skip.simps) (auto simp: whitespace_def symbols_def)
  then have "s1 < s'" using assms(3) l c(1) skip_le [of "s1 + 1" b] skip_le [of "s1 + 2" b]
    by (auto simp: gettoken_def Let_def line_at_def symbols_def split: if_splits)
  then show "s < length b" "s < s'" using l c(3) skip_le [of s b] by auto
  show "b ! s1 \<in> set symbols" by (rule l(2))
qed

section \<open>The grammar\<close>

function (sequential) parseredirs :: "u8 list \<Rightarrow> cmd \<Rightarrow> nat \<Rightarrow> (cmd \<times> nat) parsed" where
  "parseredirs b cmd s =
     (let (p, s1) = peek [LESS, GREATER] b s in
      if \<not> p then Parsed (cmd, s1)
      else
        let (tok, _, _, s2) = gettoken b s1; (tok', q, eq, s3) = gettoken b s2 in
        if tok' \<noteq> WORD then Syntax ''missing file for redirection''
        else
          let cmd = (if tok = LESS then REDIR cmd q eq REDIR_IN 0
                     else if tok = GREATER then REDIR cmd q eq REDIR_OUT 1
                     else if tok = PLUS then REDIR cmd q eq REDIR_OUT 1
                     else cmd)
          in parseredirs b cmd s3)"
  by pat_completeness auto
termination
proof (relation "measure (\<lambda>(b, cmd, s). length b - s)", goal_cases)
  case (2 b cmd s pk p s1 gt tok gt1 q1 gt2 eq1 s2 gt' tok' gt3 q gt4 eq s3 c)
  then have "peek [LESS, GREATER] b s = (True, s1)" "gettoken b s1 = (tok, q1, eq1, s2)" by auto
  from gettoken_symbol [OF this(1) _ this(2)] have "s < length b" "s < s2" by (auto simp: symbols_def)
  moreover have "gettoken b s2 = (tok', q, eq, s3)" using 2 by auto
  then have "s2 \<le> s3" by (rule gettoken_mono)
  ultimately show ?case by auto
qed simp

declare parseredirs.simps [simp del]

function backs :: "u8 list \<Rightarrow> cmd \<Rightarrow> nat \<Rightarrow> cmd \<times> nat" where
  "backs b cmd s =
     (let (p, s1) = peek [AMP] b s in
      if \<not> p then (cmd, s1)
      else let (_, _, _, s2) = gettoken b s1 in backs b (BACK cmd) s2)"
  by pat_completeness auto
termination
proof (relation "measure (\<lambda>(b, cmd, s). length b - s)", goal_cases)
  case (2 b cmd s pk p s1 gt r gt1 q gt2 eq s2)
  then have "peek [AMP] b s = (True, s1)" "gettoken b s1 = (r, q, eq, s2)" by auto
  from gettoken_symbol [OF this(1) _ this(2)] have "s < length b" "s < s2" by (auto simp: symbols_def)
  then show ?case by auto
qed simp

declare backs.simps [simp del]

text \<open>The arguments are stored in the structure that the redirections already wrap.\<close>

fun add_arg :: "nat \<Rightarrow> nat \<Rightarrow> cmd \<Rightarrow> cmd" where
  "add_arg q eq (EXEC as) = EXEC (as @ [(q, eq)])"
| "add_arg q eq (REDIR c f ef mode fd) = REDIR (add_arg q eq c) f ef mode fd"
| "add_arg q eq c = c"

function parseargs :: "u8 list \<Rightarrow> nat \<Rightarrow> cmd \<Rightarrow> nat \<Rightarrow> (cmd \<times> nat) parsed" where
  "parseargs b argc ret s =
     (let (p, s1) = peek [BAR, RPAR, AMP, SEMI] b s in
      if p then Parsed (ret, s1)
      else
        let (tok, q, eq, s2) = gettoken b s1 in
        if tok = 0 then Parsed (ret, s2)
        else if tok \<noteq> WORD then Syntax ''syntax''
        else
          let ret = add_arg q eq ret; argc = argc + 1 in
          if argc \<ge> MAXARGS then Syntax ''too many args''
          else bindP (parseredirs b ret s2) (\<lambda>(ret, s3). parseargs b argc ret s3))"
  by pat_completeness auto
termination
  by (relation "measure (\<lambda>(b, argc, ret, s). MAXARGS - argc)") auto

declare parseargs.simps [simp del]

fun parseline :: "nat \<Rightarrow> u8 list \<Rightarrow> nat \<Rightarrow> (cmd \<times> nat) parsed"
  and parsepipe :: "nat \<Rightarrow> u8 list \<Rightarrow> nat \<Rightarrow> (cmd \<times> nat) parsed"
  and parseexec :: "nat \<Rightarrow> u8 list \<Rightarrow> nat \<Rightarrow> (cmd \<times> nat) parsed"
  and parseblock :: "nat \<Rightarrow> u8 list \<Rightarrow> nat \<Rightarrow> (cmd \<times> nat) parsed" where
  "parseline 0 b s = NoFuel"
| "parseline (Suc n) b s =
     bindP (parsepipe n b s) (\<lambda>(cmd, s).
     let (cmd, s) = backs b cmd s; (p, s) = peek [SEMI] b s in
     if p then
       let (_, _, _, s) = gettoken b s in
       bindP (parseline n b s) (\<lambda>(r, s). Parsed (LIST cmd r, s))
     else Parsed (cmd, s))"
| "parsepipe 0 b s = NoFuel"
| "parsepipe (Suc n) b s =
     bindP (parseexec n b s) (\<lambda>(cmd, s).
     let (p, s) = peek [BAR] b s in
     if p then
       let (_, _, _, s) = gettoken b s in
       bindP (parsepipe n b s) (\<lambda>(r, s). Parsed (PIPE cmd r, s))
     else Parsed (cmd, s))"
| "parseexec 0 b s = NoFuel"
| "parseexec (Suc n) b s =
     (let (p, s) = peek [LPAR] b s in
      if p then parseblock n b s
      else bindP (parseredirs b (EXEC []) s) (\<lambda>(ret, s). parseargs b 0 ret s))"
| "parseblock 0 b s = NoFuel"
| "parseblock (Suc n) b s =
     (let (p, s) = peek [LPAR] b s in
      if \<not> p then Syntax ''parseblock''
      else
        let (_, _, _, s) = gettoken b s in
        bindP (parseline n b s) (\<lambda>(cmd, s).
        let (p, s) = peek [RPAR] b s in
        if \<not> p then Syntax ''syntax - missing )''
        else let (_, _, _, s) = gettoken b s in parseredirs b cmd s))"

fun nulterminate :: "cmd \<Rightarrow> u8 list \<Rightarrow> u8 list" where
  "nulterminate (EXEC as) mem = fold (\<lambda>(q, eq) mem. mem[eq := 0]) as mem"
| "nulterminate (REDIR c f ef mode fd) mem = (nulterminate c mem)[ef := 0]"
| "nulterminate (PIPE l r) mem = nulterminate r (nulterminate l mem)"
| "nulterminate (LIST l r) mem = nulterminate r (nulterminate l mem)"
| "nulterminate (BACK c) mem = nulterminate c mem"

text \<open>\<open>mem\<close> is the memory from the start of the line on. The result is the command and the memory after.\<close>

definition parsecmd :: "u8 list \<Rightarrow> (cmd \<times> u8 list) parsed" where
  "parsecmd mem =
     (let b = takeWhile (\<lambda>c. c \<noteq> 0) mem in
      bindP (parseline (4 * length b + 4) b 0) (\<lambda>(cmd, s).
      let (_, s) = peek [] b s in
      if s \<noteq> length b then Syntax ''syntax''
      else Parsed (cmd, nulterminate cmd mem)))"


section \<open>The parser returns\<close>

text \<open>Every word that a command refers to is a maximal run of word characters of the line.\<close>

fun cmd_words :: "cmd \<Rightarrow> (nat \<times> nat) list" where
  "cmd_words (EXEC as) = as"
| "cmd_words (REDIR c f ef mode fd) = cmd_words c @ [(f, ef)]"
| "cmd_words (PIPE l r) = cmd_words l @ cmd_words r"
| "cmd_words (LIST l r) = cmd_words l @ cmd_words r"
| "cmd_words (BACK c) = cmd_words c"

fun argv_ok :: "cmd \<Rightarrow> bool" where
  "argv_ok (EXEC as) \<longleftrightarrow> length as < MAXARGS"
| "argv_ok (REDIR c f ef mode fd) \<longleftrightarrow> argv_ok c"
| "argv_ok (PIPE l r) \<longleftrightarrow> argv_ok l \<and> argv_ok r"
| "argv_ok (LIST l r) \<longleftrightarrow> argv_ok l \<and> argv_ok r"
| "argv_ok (BACK c) \<longleftrightarrow> argv_ok c"

definition cmd_ok :: "u8 list \<Rightarrow> cmd \<Rightarrow> bool" where
  "cmd_ok b c \<longleftrightarrow> list_all (word_at b) (cmd_words c) \<and> argv_ok c"

lemma cmd_ok_simps [simp]:
  "cmd_ok b (EXEC as) \<longleftrightarrow> list_all (word_at b) as \<and> length as < MAXARGS"
  "cmd_ok b (REDIR c f ef mode fd) \<longleftrightarrow> cmd_ok b c \<and> word_at b (f, ef)"
  "cmd_ok b (PIPE l r) \<longleftrightarrow> cmd_ok b l \<and> cmd_ok b r"
  "cmd_ok b (LIST l r) \<longleftrightarrow> cmd_ok b l \<and> cmd_ok b r"
  "cmd_ok b (BACK c) \<longleftrightarrow> cmd_ok b c"
  by (auto simp: cmd_ok_def)

text \<open>A result of a call at position \<open>s\<close>: with enough fuel it is there, and it is in order.\<close>

definition parse_ok :: "u8 list \<Rightarrow> nat \<Rightarrow> bool \<Rightarrow> (cmd \<times> nat) parsed \<Rightarrow> bool" where
  "parse_ok b s enough r \<longleftrightarrow>
     (case r of
        Parsed (c, s') \<Rightarrow> s \<le> s' \<and> s' \<le> length b \<and> cmd_ok b c
      | Syntax e \<Rightarrow> True
      | NoFuel \<Rightarrow> \<not> enough)"

fun exec_depth :: "cmd \<Rightarrow> nat option" where
  "exec_depth (EXEC as) = Some (length as)"
| "exec_depth (REDIR c f ef mode fd) = exec_depth c"
| "exec_depth c = None"

lemma parse_ok_bind:
  assumes "parse_ok b s e r" "\<And>c s'. s \<le> s' \<Longrightarrow> s' \<le> length b \<Longrightarrow> cmd_ok b c \<Longrightarrow> r = Parsed (c, s') \<Longrightarrow> parse_ok b s e (f (c, s'))"
  shows "parse_ok b s e (bindP r f)"
  using assms by (cases r) (auto simp: parse_ok_def)

lemma parse_ok_later: "parse_ok b s' e' r \<Longrightarrow> s \<le> s' \<Longrightarrow> (e \<Longrightarrow> e') \<Longrightarrow> parse_ok b s e r"
  by (auto simp: parse_ok_def split: parsed.splits)

lemma parseredirs_ok:
  assumes "0 \<notin> set b" "s \<le> length b" "cmd_ok b c"
  shows "parse_ok b s e (parseredirs b c s)"
  using assms
proof (induction b c s rule: parseredirs.induct)
  case (1 b c s)
  obtain p s1 where p: "peek [LESS, GREATER] b s = (p, s1)" by fastforce
  obtain tok q1 eq1 s2 where t: "gettoken b s1 = (tok, q1, eq1, s2)" by (metis prod_cases4)
  obtain tok' q eq s3 where t': "gettoken b s2 = (tok', q, eq, s3)" by (metis prod_cases4)
  note b1 = peek_ok [OF p 1(3)]
  note b2 = gettoken_ok [OF t b1(2) 1(2)]
  note b3 = gettoken_ok [OF t' b2(2) 1(2)]
  let ?c = "if tok = LESS then REDIR c q eq REDIR_IN 0
                     else if tok = GREATER then REDIR c q eq REDIR_OUT 1
                     else if tok = PLUS then REDIR c q eq REDIR_OUT 1 else c"
  have e: "parseredirs b c s = (if \<not> p then Parsed (c, s1) else if tok' \<noteq> WORD then Syntax ''missing file for redirection''
      else parseredirs b ?c s3)"
    by (subst parseredirs.simps) (simp add: p t t' Let_def)
  show ?case
  proof (cases "p \<and> tok' = WORD")
    case True
    have "parse_ok b s3 e (parseredirs b ?c s3)"
      using True 1(2,4) b3 p t t' by (intro 1(1)) auto
    then have "parse_ok b s e (parseredirs b ?c s3)"
      by (rule parse_ok_later) (use b1(1) b2(1) b3(1) in auto)
    then show ?thesis using True e by simp
  next
    case False
    then show ?thesis using e b1 1(4) by (auto simp: parse_ok_def)
  qed
qed

lemma backs_ok:
  assumes "0 \<notin> set b" "s \<le> length b" "cmd_ok b c" "backs b c s = (c', s')"
  shows "s \<le> s' \<and> s' \<le> length b \<and> cmd_ok b c'"
  using assms
proof (induction b c s rule: backs.induct)
  case (1 b c s)
  obtain p s1 where p: "peek [AMP] b s = (p, s1)" by fastforce
  obtain tok q eq s2 where t: "gettoken b s1 = (tok, q, eq, s2)" by (metis prod_cases4)
  note b1 = peek_ok [OF p 1(3)]
  note b2 = gettoken_ok [OF t b1(2) 1(2)]
  have e: "backs b c s = (if \<not> p then (c, s1) else backs b (BACK c) s2)"
    by (subst backs.simps) (simp add: p t)
  show ?case
  proof (cases p)
    case True
    then have "s2 \<le> s' \<and> s' \<le> length b \<and> cmd_ok b c'"
      using 1(2,4,5) b2 p t e by (intro 1(1)) auto
    then show ?thesis using b1(1) b2(1) by auto
  next
    case False
    then show ?thesis using e b1 1(4,5) by auto
  qed
qed


lemma parseredirs_depth: "parseredirs b c s = Parsed (c', s') \<Longrightarrow> exec_depth c' = exec_depth c"
proof (induction b c s rule: parseredirs.induct)
  case (1 b c s)
  obtain p s1 where p: "peek [LESS, GREATER] b s = (p, s1)" by fastforce
  obtain tok q1 eq1 s2 where t: "gettoken b s1 = (tok, q1, eq1, s2)" by (metis prod_cases4)
  obtain tok' q eq s3 where t': "gettoken b s2 = (tok', q, eq, s3)" by (metis prod_cases4)
  show ?case
  proof (cases "p \<and> tok' = WORD")
    case True
    let ?c = "if tok = LESS then REDIR c q eq REDIR_IN 0
                     else if tok = GREATER then REDIR c q eq REDIR_OUT 1
                     else if tok = PLUS then REDIR c q eq REDIR_OUT 1 else c"
    have "parseredirs b ?c s3 = Parsed (c', s')"
      using 1(2) True by (subst (asm) parseredirs.simps) (simp add: p t t' Let_def)
    then have "exec_depth c' = exec_depth ?c" using True p t t' by (intro 1(1)) auto
    then show ?thesis by (auto split: if_splits)
  next
    case False
    then show ?thesis using 1(2) by (subst (asm) parseredirs.simps) (auto simp: p t t' Let_def split: if_splits)
  qed
qed

lemma add_arg_ok:
  "cmd_ok b c \<Longrightarrow> exec_depth c = Some n \<Longrightarrow> Suc n < MAXARGS \<Longrightarrow> word_at b (q, eq) \<Longrightarrow>
     cmd_ok b (add_arg q eq c) \<and> exec_depth (add_arg q eq c) = Some (Suc n)"
  by (induction c) auto

lemma parseargs_ok:
  assumes "0 \<notin> set b" "s \<le> length b" "cmd_ok b c" "exec_depth c = Some argc"
  shows "parse_ok b s e (parseargs b argc c s)"
  using assms
proof (induction b argc c s rule: parseargs.induct)
  case (1 b argc c s)
  obtain p s1 where p: "peek [BAR, RPAR, AMP, SEMI] b s = (p, s1)" by fastforce
  obtain tok q eq s2 where t: "gettoken b s1 = (tok, q, eq, s2)" by (metis prod_cases4)
  note b1 = peek_ok [OF p 1(3)]
  note b2 = gettoken_ok [OF t b1(2) 1(2)]
  show ?case
  proof (cases "\<not> p \<and> tok = WORD \<and> argc + 1 < MAXARGS")
    case True
    let ?c = "add_arg q eq c"
    have a: "cmd_ok b ?c" "exec_depth ?c = Some (Suc argc)"
      using add_arg_ok [OF 1(4,5)] b2(4) True by auto
    have "parse_ok b s2 e (bindP (parseredirs b ?c s2) (\<lambda>(ret, s3). parseargs b (argc + 1) ret s3))"
    proof (rule parse_ok_bind [OF parseredirs_ok [OF 1(2) b2(2) a(1)]])
      fix c' s'
      assume r: "s2 \<le> s'" "s' \<le> length b" "cmd_ok b c'" "parseredirs b ?c s2 = Parsed (c', s')"
      have d: "exec_depth c' = Some (argc + 1)" using parseredirs_depth [OF r(4)] a(2) by simp
      have "parse_ok b s' e (parseargs b (argc + 1) c' s')"
        using True p t r 1(2) d by (intro 1(1)) auto
      then show "parse_ok b s2 e ((\<lambda>(ret, s3). parseargs b (argc + 1) ret s3) (c', s'))"
        using r(1) by (auto elim: parse_ok_later)
    qed
    then have "parse_ok b s e (bindP (parseredirs b ?c s2) (\<lambda>(ret, s3). parseargs b (argc + 1) ret s3))"
      by (rule parse_ok_later) (use b1(1) b2(1) in auto)
    then show ?thesis using True by (subst parseargs.simps) (simp add: p t Let_def)
  next
    case False
    then show ?thesis using b1 b2(1,2) 1(4) by (subst parseargs.simps) (auto simp: p t Let_def parse_ok_def)
  qed
qed

lemma parseline_step:
  assumes nz: "0 \<notin> set b" and s: "s \<le> length b"
    and ih_line: "\<And>s. s \<le> length b \<Longrightarrow> parse_ok b s (4 * (length b - s) + 4 \<le> n) (parseline n b s)"
    and ih_pipe: "\<And>s. s \<le> length b \<Longrightarrow> parse_ok b s (4 * (length b - s) + 3 \<le> n) (parsepipe n b s)"
  shows "parse_ok b s (4 * (length b - s) + 4 \<le> Suc n) (parseline (Suc n) b s)"
proof -
  let ?e = "4 * (length b - s) + 4 \<le> Suc n"
  have "parse_ok b s ?e (parsepipe n b s)" by (rule parse_ok_later [OF ih_pipe [OF s]]) auto
  then show ?thesis unfolding parseline.simps
  proof (rule parse_ok_bind)
    fix c s0 assume r: "s \<le> s0" "s0 \<le> length b" "cmd_ok b c"
    obtain c1 s1 where k: "backs b c s0 = (c1, s1)" by fastforce
    obtain p s2 where p: "peek [SEMI] b s1 = (p, s2)" by fastforce
    obtain tok q eq s3 where t: "gettoken b s2 = (tok, q, eq, s3)" by (metis prod_cases4)
    note b1 = backs_ok [OF nz r(2,3) k]
    have l1: "s1 \<le> length b" using b1 by simp
    note b2 = peek_ok [OF p l1]
    note b3 = gettoken_ok [OF t b2(2) nz]
    show "parse_ok b s ?e ((\<lambda>(cmd, s).
        let (cmd, s) = backs b cmd s; (p, s) = peek [SEMI] b s in
        if p then let (_, _, _, s) = gettoken b s in bindP (parseline n b s) (\<lambda>(r, s). Parsed (LIST cmd r, s))
        else Parsed (cmd, s)) (c, s0))"
    proof (cases p)
      case True
      then have "s1 < s3" "s1 < length b" using gettoken_symbol [of "[SEMI]" b s1 s2] p t by (auto simp: symbols_def)
      then have "parse_ok b s ?e (parseline n b s3)"
        using b1 r(1) b3(2) by (intro parse_ok_later [OF ih_line [OF b3(2)]]) auto
      then have "parse_ok b s ?e (bindP (parseline n b s3) (\<lambda>(r, s). Parsed (LIST c1 r, s)))"
        by (rule parse_ok_bind) (use b1 in \<open>auto simp: parse_ok_def\<close>)
      then show ?thesis using True by (simp add: k p t Let_def)
    next
      case False
      then show ?thesis using b1 b2 r(1) by (simp add: k p t Let_def parse_ok_def)
    qed
  qed
qed

lemma parsepipe_step:
  assumes nz: "0 \<notin> set b" and s: "s \<le> length b"
    and ih_pipe: "\<And>s. s \<le> length b \<Longrightarrow> parse_ok b s (4 * (length b - s) + 3 \<le> n) (parsepipe n b s)"
    and ih_exec: "\<And>s. s \<le> length b \<Longrightarrow> parse_ok b s (4 * (length b - s) + 2 \<le> n) (parseexec n b s)"
  shows "parse_ok b s (4 * (length b - s) + 3 \<le> Suc n) (parsepipe (Suc n) b s)"
proof -
  let ?e = "4 * (length b - s) + 3 \<le> Suc n"
  have "parse_ok b s ?e (parseexec n b s)" by (rule parse_ok_later [OF ih_exec [OF s]]) auto
  then show ?thesis unfolding parsepipe.simps
  proof (rule parse_ok_bind)
    fix c s1 assume r: "s \<le> s1" "s1 \<le> length b" "cmd_ok b c"
    obtain p s2 where p: "peek [BAR] b s1 = (p, s2)" by fastforce
    obtain tok q eq s3 where t: "gettoken b s2 = (tok, q, eq, s3)" by (metis prod_cases4)
    note b2 = peek_ok [OF p r(2)]
    note b3 = gettoken_ok [OF t b2(2) nz]
    show "parse_ok b s ?e ((\<lambda>(cmd, s).
        let (p, s) = peek [BAR] b s in
        if p then let (_, _, _, s) = gettoken b s in bindP (parsepipe n b s) (\<lambda>(r, s). Parsed (PIPE cmd r, s))
        else Parsed (cmd, s)) (c, s1))"
    proof (cases p)
      case True
      then have "s1 < s3" "s1 < length b" using gettoken_symbol [of "[BAR]" b s1 s2] p t by (auto simp: symbols_def)
      then have "parse_ok b s ?e (parsepipe n b s3)"
        using r(1) b3(2) by (intro parse_ok_later [OF ih_pipe [OF b3(2)]]) auto
      then have "parse_ok b s ?e (bindP (parsepipe n b s3) (\<lambda>(r, s). Parsed (PIPE c r, s)))"
        by (rule parse_ok_bind) (use r in \<open>auto simp: parse_ok_def\<close>)
      then show ?thesis using True by (simp add: p t Let_def)
    next
      case False
      then show ?thesis using b2 r by (simp add: p t Let_def parse_ok_def)
    qed
  qed
qed

lemma parseexec_step:
  assumes nz: "0 \<notin> set b" and s: "s \<le> length b"
    and ih_block: "\<And>s. s \<le> length b \<Longrightarrow> parse_ok b s (4 * (length b - s) + 1 \<le> n) (parseblock n b s)"
  shows "parse_ok b s (4 * (length b - s) + 2 \<le> Suc n) (parseexec (Suc n) b s)"
proof -
  let ?e = "4 * (length b - s) + 2 \<le> Suc n"
  obtain p s1 where p: "peek [LPAR] b s = (p, s1)" by fastforce
  note b1 = peek_ok [OF p s]
  have "parse_ok b s ?e (parseblock n b s1)"
    using b1(1) by (intro parse_ok_later [OF ih_block [OF b1(2)]]) auto
  moreover have "parse_ok b s1 ?e (bindP (parseredirs b (EXEC []) s1) (\<lambda>(ret, s). parseargs b 0 ret s))"
  proof (rule parse_ok_bind [OF parseredirs_ok [OF nz b1(2)]])
    fix c' s' assume r: "s1 \<le> s'" "s' \<le> length b" "cmd_ok b c'" "parseredirs b (EXEC []) s1 = Parsed (c', s')"
    have "exec_depth c' = Some 0" using parseredirs_depth [OF r(4)] by simp
    then have "parse_ok b s' ?e (parseargs b 0 c' s')" using nz r(2,3) by (intro parseargs_ok) auto
    then show "parse_ok b s1 ?e ((\<lambda>(ret, s). parseargs b 0 ret s) (c', s'))"
      using r(1) by (auto elim: parse_ok_later)
  qed simp
  then have "parse_ok b s ?e (bindP (parseredirs b (EXEC []) s1) (\<lambda>(ret, s). parseargs b 0 ret s))"
    by (rule parse_ok_later) (use b1(1) in auto)
  ultimately show ?thesis by (simp add: p)
qed

lemma parseblock_step:
  assumes nz: "0 \<notin> set b" and s: "s \<le> length b"
    and ih_line: "\<And>s. s \<le> length b \<Longrightarrow> parse_ok b s (4 * (length b - s) + 4 \<le> n) (parseline n b s)"
  shows "parse_ok b s (4 * (length b - s) + 1 \<le> Suc n) (parseblock (Suc n) b s)"
proof -
  let ?e = "4 * (length b - s) + 1 \<le> Suc n"
  obtain p s1 where p: "peek [LPAR] b s = (p, s1)" by fastforce
  obtain tok q eq s2 where t: "gettoken b s1 = (tok, q, eq, s2)" by (metis prod_cases4)
  note b1 = peek_ok [OF p s]
  note b2 = gettoken_ok [OF t b1(2) nz]
  show ?thesis
  proof (cases p)
    case True
    then have "s < s2" "s < length b" using gettoken_symbol [of "[LPAR]" b s s1] p t by (auto simp: symbols_def)
    then have "parse_ok b s ?e (parseline n b s2)"
      using b2(2) by (intro parse_ok_later [OF ih_line [OF b2(2)]]) auto
    then have "parse_ok b s ?e (bindP (parseline n b s2) (\<lambda>(cmd, s).
      let (p, s) = peek [RPAR] b s in
      if \<not> p then Syntax ''syntax - missing )''
      else let (_, _, _, s) = gettoken b s in parseredirs b cmd s))"
    proof (rule parse_ok_bind)
      fix c s' assume r: "s \<le> s'" "s' \<le> length b" "cmd_ok b c"
      obtain p' s3 where p': "peek [RPAR] b s' = (p', s3)" by fastforce
      obtain tok' q' eq' s4 where t': "gettoken b s3 = (tok', q', eq', s4)" by (metis prod_cases4)
      note b3 = peek_ok [OF p' r(2)]
      note b4 = gettoken_ok [OF t' b3(2) nz]
      have "parse_ok b s ?e (parseredirs b c s4)"
        using parseredirs_ok [OF nz b4(2) r(3), of ?e] by (rule parse_ok_later) (use r b3 b4 in auto)
      then show "parse_ok b s ?e ((\<lambda>(cmd, s).
          let (p, s) = peek [RPAR] b s in
          if \<not> p then Syntax ''syntax - missing )''
          else let (_, _, _, s) = gettoken b s in parseredirs b cmd s) (c, s'))"
        by (simp add: p' t' parse_ok_def)
    qed
    then show ?thesis using True by (simp add: p t)
  next
    case False
    then show ?thesis by (simp add: p parse_ok_def)
  qed
qed

lemma parse_all_ok:
  assumes "0 \<notin> set b"
  shows "s \<le> length b \<Longrightarrow> parse_ok b s (4 * (length b - s) + 4 \<le> n) (parseline n b s)"
    "s \<le> length b \<Longrightarrow> parse_ok b s (4 * (length b - s) + 3 \<le> n) (parsepipe n b s)"
    "s \<le> length b \<Longrightarrow> parse_ok b s (4 * (length b - s) + 2 \<le> n) (parseexec n b s)"
    "s \<le> length b \<Longrightarrow> parse_ok b s (4 * (length b - s) + 1 \<le> n) (parseblock n b s)"
proof (induction n arbitrary: s)
  case (Suc n)
  {
    case 1
    then show ?case using parseline_step [OF assms] Suc.IH(1,2) by blast
  next
    case 2
    then show ?case using parsepipe_step [OF assms] Suc.IH(2,3) by blast
  next
    case 3
    then show ?case using parseexec_step [OF assms] Suc.IH(4) by blast
  next
    case 4
    then show ?case using parseblock_step [OF assms] Suc.IH(1) by blast
  }
qed (simp_all add: parse_ok_def)

lemma takeWhile_nz: "0 \<notin> set (takeWhile (\<lambda>c. c \<noteq> 0) mem)"
  by (auto dest: set_takeWhileD)

lemma line_length: "0 \<in> set mem \<Longrightarrow> length (takeWhile (\<lambda>c. c \<noteq> 0) mem) < length mem"
  by (induction mem) auto

text \<open>
  C19. Termination of the shell's parser. On every line the four functions of the grammar, which
  call each other recursively, and their loops come to an end: the parser yields a command or
  reports a syntax error. A depth of four calls per byte of the line and four more is enough.
\<close>

theorem parsecmd_returns: "parsecmd mem \<noteq> NoFuel"
proof -
  let ?b = "takeWhile (\<lambda>c. c \<noteq> 0) mem"
  have "parse_ok ?b 0 (4 * (length ?b - 0) + 4 \<le> 4 * length ?b + 4) (parseline (4 * length ?b + 4) ?b 0)"
    by (rule parse_all_ok(1) [OF takeWhile_nz]) simp
  then show ?thesis
    by (auto simp: parsecmd_def parse_ok_def Let_def split: parsed.splits prod.splits
        elim!: bindP.elims)
qed

section \<open>Terminating the words\<close>

lemma nulterminate_eq: "nulterminate c mem = fold (\<lambda>(q, eq) mem. mem[eq := 0]) (cmd_words c) mem"
  by (induction c arbitrary: mem) auto

lemma fold_nul_nth:
  "i < length mem \<Longrightarrow> fold (\<lambda>(q, eq) mem. mem[eq := 0]) ws mem ! i = (if i \<in> snd ` set ws then 0 else mem ! i)"
proof (induction ws arbitrary: mem)
  case (Cons w ws)
  have "fold (\<lambda>(q, eq) mem. mem[eq := 0]) ws (mem[snd w := 0]) ! i =
      (if i \<in> snd ` set ws then 0 else mem[snd w := 0] ! i)"
    using Cons by simp
  then show ?case using Cons.prems by (cases w) (simp add: nth_list_update)
qed simp

lemma fold_nul_length [simp]: "length (fold (\<lambda>(q, eq) mem. mem[eq := 0]) ws mem) = length mem"
  by (induction ws arbitrary: mem) auto

text \<open>The string that starts at a position of the memory.\<close>

definition str_at :: "u8 list \<Rightarrow> nat \<Rightarrow> u8 list" where
  "str_at mem q = takeWhile (\<lambda>c. c \<noteq> 0) (drop q mem)"

definition line_slice :: "u8 list \<Rightarrow> nat \<times> nat \<Rightarrow> u8 list" where
  "line_slice b w = take (snd w - fst w) (drop (fst w) b)"

lemma takeWhile_drop_eq:
  assumes "q \<le> e" "e < length m" "\<forall>i. q \<le> i \<and> i < e \<longrightarrow> m ! i \<noteq> 0" "m ! e = 0"
  shows "takeWhile (\<lambda>c. c \<noteq> 0) (drop q m) = take (e - q) (drop q m)"
proof (rule takeWhile_eq_take_P_nth)
  fix i assume "i < e - q" "i < length (drop q m)"
  then show "drop q m ! i \<noteq> 0" using assms(3) by simp
next
  assume "e - q < length (drop q m)"
  then show "\<not> drop q m ! (e - q) \<noteq> 0" using assms by simp
qed

lemma nulterminate_words:
  assumes z: "0 \<in> set mem" and ok: "cmd_ok (takeWhile (\<lambda>c. c \<noteq> 0) mem) c" and w: "w \<in> set (cmd_words c)"
  shows "str_at (nulterminate c mem) (fst w) = line_slice (takeWhile (\<lambda>c. c \<noteq> 0) mem) w"
proof -
  let ?b = "takeWhile (\<lambda>c. c \<noteq> 0) mem"
  let ?m = "nulterminate c mem"
  have lb: "length ?b < length mem" using z by (rule line_length)
  have ws: "\<forall>w\<in>set (cmd_words c). word_at ?b w" using ok by (auto simp: cmd_ok_def list_all_iff)
  have n: "?m ! i = (if i \<in> snd ` set (cmd_words c) then 0 else mem ! i)" if "i < length mem" for i
    using that by (simp add: nulterminate_eq fold_nul_nth)
  have same: "mem ! i = ?b ! i" if "i < length ?b" for i using that by (simp add: takeWhile_nth)
  have wa: "word_at ?b w" using ws w by blast
  then have q: "fst w < snd w" "snd w \<le> length ?b" by (auto simp: word_at_def)
  have inner: "?m ! i = ?b ! i \<and> ?b ! i \<noteq> 0" if "fst w \<le> i" "i < snd w" for i
  proof -
    have wc: "word_char (?b ! i)" using wa that by (auto simp: word_at_def)
    have il: "i < length ?b" using that q by simp
    have "i \<notin> snd ` set (cmd_words c)"
    proof
      assume "i \<in> snd ` set (cmd_words c)"
      then obtain v where "v \<in> set (cmd_words c)" "i = snd v" by auto
      then show False using ws wc il by (auto simp: word_at_def)
    qed
    then show ?thesis using n [of i] il lb wc same [OF il] by (simp add: word_char_def)
  qed
  have e: "?m ! snd w = 0" using n [of "snd w"] w q lb by simp
  have lm: "length ?m = length mem" by (simp add: nulterminate_eq)
  have "str_at ?m (fst w) = take (snd w - fst w) (drop (fst w) ?m)"
    unfolding str_at_def using q lb inner e lm by (intro takeWhile_drop_eq) auto
  also have "\<dots> = line_slice ?b w"
    unfolding line_slice_def using q lb inner lm by (intro nth_equalityI) auto
  finally show ?thesis .
qed


text \<open>
  C20. The command that the shell's parser delivers. Every argument and file name in it is a
  maximal run of characters of the line that are neither blanks nor symbols; no list of
  arguments overflows \<^verbatim>\<open>argv\<close>, the null behind the last one included; and after the strings have been
  terminated in place each is exactly its word: terminating one does not cut another.
\<close>

theorem parsecmd_words:
  assumes "parsecmd mem = Parsed (cmd, mem')" "0 \<in> set mem"
  shows "argv_ok cmd \<and>
    list_all (\<lambda>w. word_at (takeWhile (\<lambda>c. c \<noteq> 0) mem) w \<and>
        str_at mem' (fst w) = line_slice (takeWhile (\<lambda>c. c \<noteq> 0) mem) w) (cmd_words cmd)"
proof -
  let ?b = "takeWhile (\<lambda>c. c \<noteq> 0) mem"
  have "parse_ok ?b 0 (4 * (length ?b - 0) + 4 \<le> 4 * length ?b + 4) (parseline (4 * length ?b + 4) ?b 0)"
    by (rule parse_all_ok(1) [OF takeWhile_nz]) simp
  then have ok: "cmd_ok ?b cmd" and m: "mem' = nulterminate cmd mem"
    using assms(1) by (auto simp: parsecmd_def parse_ok_def Let_def split: parsed.splits prod.splits if_splits
        elim!: bindP.elims)
  then show ?thesis using nulterminate_words [OF assms(2) ok] by (auto simp: cmd_ok_def list_all_iff)
qed

theorem parsecmd_words_witness:
  "\<exists>cmd mem'. parsecmd [97, 98, 32, 99, 62, 100, 59, 120, 38, 10, 0] = Parsed (cmd, mem') \<and>
     map (\<lambda>w. str_at mem' (fst w)) (cmd_words cmd) = [[97, 98], [99], [100], [120]] \<and> argv_ok cmd"
proof -
  let ?l = "[97, 98, 32, 99, 62, 100, 59, 120, 38, 10, 0] :: u8 list"
  let ?c = "LIST (REDIR (EXEC [(0, 2), (3, 4)]) 5 6 REDIR_OUT 1) (BACK (EXEC [(7, 8)]))"
  have p: "parsecmd ?l = Parsed (?c, nulterminate ?c ?l)" by code_simp
  have "0 \<in> set ?l" by simp
  from parsecmd_words [OF p this] show ?thesis using p
    by (intro exI [of _ ?c] exI [of _ "nulterminate ?c ?l"]) (simp add: line_slice_def)
qed


section \<open>Parsing what a command is written as\<close>

text \<open>Commands with their words, and a way to write each of them down.\<close>

datatype script =
    Run "u8 list list"
  | Redirect script "u8 list" u32 nat
  | Piped script script
  | Sequence script script
  | Background script

fun source :: "script \<Rightarrow> u8 list" where
  "source (Run ws) = concat (map (\<lambda>w. w @ [BLANK]) ws)"
| "source (Redirect c f mode fd) = LPAR # source c @ RPAR # (if fd = 0 then LESS else GREATER) # f"
| "source (Piped l r) = LPAR # source l @ RPAR # BAR # LPAR # source r @ [RPAR]"
| "source (Sequence l r) = LPAR # source l @ RPAR # SEMI # LPAR # source r @ [RPAR]"
| "source (Background c) = LPAR # source c @ [RPAR, AMP]"

definition word_ok :: "u8 list \<Rightarrow> bool" where
  "word_ok w \<longleftrightarrow> w \<noteq> [] \<and> (\<forall>c\<in>set w. word_char c)"

fun script_ok :: "script \<Rightarrow> bool" where
  "script_ok (Run ws) \<longleftrightarrow> (\<forall>w\<in>set ws. word_ok w) \<and> length ws < MAXARGS"
| "script_ok (Redirect c f mode fd) \<longleftrightarrow> script_ok c \<and> word_ok f \<and> (mode, fd) \<in> {(REDIR_IN, 0), (REDIR_OUT, 1)}"
| "script_ok (Piped l r) \<longleftrightarrow> script_ok l \<and> script_ok r"
| "script_ok (Sequence l r) \<longleftrightarrow> script_ok l \<and> script_ok r"
| "script_ok (Background c) \<longleftrightarrow> script_ok c"

fun view :: "(nat \<times> nat \<Rightarrow> u8 list) \<Rightarrow> cmd \<Rightarrow> script" where
  "view str (EXEC as) = Run (map str as)"
| "view str (REDIR c f ef mode fd) = Redirect (view str c) (str (f, ef)) mode fd"
| "view str (PIPE l r) = Piped (view str l) (view str r)"
| "view str (LIST l r) = Sequence (view str l) (view str r)"
| "view str (BACK c) = Background (view str c)"

lemma view_cong: "(\<And>w. w \<in> set (cmd_words c) \<Longrightarrow> f w = g w) \<Longrightarrow> view f c = view g c"
  by (induction c) auto

text \<open>What the functions do where the rest of the line is known.\<close>

definition no_blank :: "u8 list \<Rightarrow> bool" where
  "no_blank r \<longleftrightarrow> r = [] \<or> hd r \<notin> set whitespace"

definition rest_end :: "u8 list \<Rightarrow> bool" where
  "rest_end r \<longleftrightarrow> r = [] \<or> hd r = RPAR"

lemma rest_end_blank: "rest_end r \<Longrightarrow> no_blank r"
  by (auto simp: rest_end_def no_blank_def whitespace_def)

lemma line_at_drop: "line_at b s = (case drop s b of [] \<Rightarrow> 0 | c # _ \<Rightarrow> c)"
  by (cases "s < length b") (auto simp: line_at_def Cons_nth_drop_Suc [symmetric])

lemma drop_more: "drop s b = u @ r \<Longrightarrow> drop (s + length u) b = r"
  by (metis add.commute append_eq_conv_conj drop_drop)

lemma drop_more1: "drop s b = c # r \<Longrightarrow> drop (Suc s) b = r"
  using drop_more [of s b "[c]" r] by simp

lemma drop_inside: "drop s b = c # r \<Longrightarrow> s < length b \<and> b ! s = c"
  by (metis drop_all hd_drop_conv_nth linorder_not_less list.distinct(1) list.sel(1))

lemma skip_here: "drop s b = r \<Longrightarrow> no_blank r \<Longrightarrow> skip b s = s"
  by (subst skip.simps) (auto simp: no_blank_def hd_drop_conv_nth)

lemma peek_here:
  assumes "drop s b = r" "no_blank r"
  shows "peek toks b s = (r \<noteq> [] \<and> hd r \<noteq> 0 \<and> hd r \<in> set toks, s)"
  using assms by (cases r) (auto simp: peek_def skip_here line_at_drop Let_def)

lemma gettoken_here:
  assumes d: "drop s b = c # r" and nb: "no_blank r" and c: "c \<in> set symbols" "c = GREATER \<Longrightarrow> r = [] \<or> hd r \<noteq> GREATER"
  shows "gettoken b s = (c, s, Suc s, Suc s)"
proof -
  have k: "skip b s = s" by (rule skip_here [OF d]) (use c in \<open>auto simp: no_blank_def whitespace_def symbols_def\<close>)
  have k1: "skip b (Suc s) = Suc s" by (rule skip_here [OF drop_more1 [OF d] nb])
  have l: "line_at b s = c" "line_at b (Suc s) = (if r = [] then 0 else hd r)"
    using d drop_more1 [OF d] by (auto simp: line_at_drop split: list.splits)
  show ?thesis using c by (auto simp: gettoken_def k k1 l Let_def symbols_def)
qed

lemma word_end_here:
  "drop s b = w @ r \<Longrightarrow> \<forall>c\<in>set w. word_char c \<Longrightarrow> r = [] \<or> \<not> word_char (hd r) \<Longrightarrow> r = [] \<or> hd r \<noteq> 0 \<Longrightarrow>
     word_end b s = s + length w"
proof (induction w arbitrary: s)
  case Nil
  then show ?case by (subst word_end.simps) (auto simp: word_char_def hd_drop_conv_nth)
next
  case (Cons c w)
  have "s < length b" "b ! s = c" using drop_inside Cons.prems(1) by fastforce+
  then have "word_end b s = word_end b (Suc s)"
    using Cons.prems(2) by (subst word_end.simps) (auto simp: word_char_def)
  also have "\<dots> = Suc s + length w" using Cons.prems drop_more1 [of s b c "w @ r"] by (intro Cons.IH) auto
  finally show ?case by simp
qed

lemma gettoken_word_here:
  assumes d: "drop s b = w @ r" and w: "word_ok w" and r: "r = [] \<or> \<not> word_char (hd r)" "r = [] \<or> hd r \<noteq> 0"
  shows "gettoken b s = (WORD, s, s + length w, skip b (s + length w))" "line_slice b (s, s + length w) = w"
proof -
  obtain c w' where cw: "w = c # w'" "word_char c" using w by (cases w) (auto simp: word_ok_def)
  have k: "skip b s = s" by (rule skip_here [OF d]) (use cw in \<open>auto simp: no_blank_def word_char_def\<close>)
  have e: "word_end b s = s + length w" using d w r by (intro word_end_here) (auto simp: word_ok_def)
  have "line_at b s = c" using d cw by (simp add: line_at_drop)
  then show "gettoken b s = (WORD, s, s + length w, skip b (s + length w))"
    using cw(2) by (auto simp: gettoken_def k e Let_def word_char_def symbols_def)
  show "line_slice b (s, s + length w) = w" using d by (simp add: line_slice_def)
qed

lemma parseredirs_here:
  assumes "drop s b = r" "no_blank r" "r = [] \<or> hd r \<notin> {LESS, GREATER}"
  shows "parseredirs b c s = Parsed (c, s)"
  using assms by (subst parseredirs.simps) (auto simp: peek_here)


lemma source_no_blank:
  assumes "script_ok c" "no_blank r"
  shows "no_blank (source c @ r)"
proof (cases c)
  case (Run ws)
  then show ?thesis using assms by (cases ws) (auto simp: no_blank_def word_ok_def word_char_def hd_append)
qed (auto simp: no_blank_def whitespace_def)

lemma words_start:
  assumes "\<forall>w\<in>set ws. word_ok w" "rest_end r"
  defines "t \<equiv> concat (map (\<lambda>w. w @ [BLANK]) ws) @ r"
  shows "no_blank t" "t = [] \<or> hd t \<notin> {LESS, GREATER, LPAR}"
    "t \<noteq> [] \<and> hd t \<in> {BAR, RPAR, AMP, SEMI} \<longleftrightarrow> ws = [] \<and> r \<noteq> []"
proof -
  have c: "word_char (hd t)" if "ws \<noteq> []"
    using that assms(1) by (cases ws) (auto simp: t_def word_ok_def hd_append)
  have n: "t \<noteq> []" if "ws \<noteq> []" using that by (cases ws) (auto simp: t_def)
  show "no_blank t"
    using c rest_end_blank [OF assms(2)] by (cases "ws = []") (auto simp: t_def no_blank_def word_char_def)
  show "t = [] \<or> hd t \<notin> {LESS, GREATER, LPAR}"
    using c assms(2) by (cases "ws = []") (auto simp: t_def word_char_def symbols_def rest_end_def)
  show "t \<noteq> [] \<and> hd t \<in> {BAR, RPAR, AMP, SEMI} \<longleftrightarrow> ws = [] \<and> r \<noteq> []"
    using c n assms(2) by (cases "ws = []") (auto simp: t_def word_char_def symbols_def rest_end_def)
qed

lemma parseargs_here:
  assumes "drop s b = concat (map (\<lambda>w. w @ [BLANK]) ws) @ r" "\<forall>w\<in>set ws. word_ok w" "rest_end r"
    "length as + length ws < MAXARGS"
  shows "\<exists>bs. parseargs b (length as) (EXEC as) s =
      Parsed (EXEC (as @ bs), s + length (concat (map (\<lambda>w. w @ [BLANK]) ws))) \<and> map (line_slice b) bs = ws"
  using assms
proof (induction ws arbitrary: as s)
  case Nil
  have d: "drop s b = r" and nb: "no_blank r" using Nil.prems rest_end_blank by auto
  have "parseargs b (length as) (EXEC as) s = Parsed (EXEC as, s)"
  proof (cases "r = []")
    case True
    have "gettoken b s = (0, s, s, s)" using d True skip_here [OF d nb] by (simp add: gettoken_def Let_def line_at_drop)
    then show ?thesis using True by (subst parseargs.simps) (simp add: peek_here [OF d nb])
  next
    case False
    then show ?thesis using Nil.prems(3) by (subst parseargs.simps) (simp add: peek_here [OF d nb] rest_end_def)
  qed
  then show ?case by simp
next
  case (Cons w ws)
  let ?t = "concat (map (\<lambda>w. w @ [BLANK]) ws) @ r"
  have wo: "word_ok w" "\<forall>w\<in>set ws. word_ok w" using Cons.prems(2) by auto
  have d: "drop s b = w @ BLANK # ?t" using Cons.prems(1) by simp
  note st = words_start [OF Cons.prems(2,3), folded]
  have d0: "drop s b = concat (map (\<lambda>w. w @ [BLANK]) (w # ws)) @ r" using d by simp
  have pk: "peek [BAR, RPAR, AMP, SEMI] b s = (False, s)"
    unfolding peek_here [OF d0 st(1)] using st(3) by auto
  have g: "gettoken b s = (WORD, s, s + length w, skip b (s + length w))" "line_slice b (s, s + length w) = w"
    by (rule gettoken_word_here [OF d wo(1)]; simp add: word_char_def whitespace_def)+
  let ?s = "s + length w + 1"
  have d1: "drop (s + length w) b = BLANK # ?t" by (rule drop_more [OF d])
  have d2: "drop ?s b = ?t" using drop_more1 [OF d1] by simp
  note st2 = words_start [OF wo(2) Cons.prems(3)]
  have "skip b (s + length w) = skip b ?s" using drop_inside [OF d1] by (subst skip.simps) (simp add: whitespace_def)
  then have sk: "skip b (s + length w) = ?s" using skip_here [OF d2 st2(1)] by simp
  have r: "parseredirs b (EXEC (as @ [(s, s + length w)])) ?s = Parsed (EXEC (as @ [(s, s + length w)]), ?s)"
    using d2 st2(1,2) by (intro parseredirs_here) auto
  have "parseargs b (length as) (EXEC as) s = parseargs b (length (as @ [(s, s + length w)])) (EXEC (as @ [(s, s + length w)])) ?s"
    using Cons.prems(4) r by (subst parseargs.simps) (simp add: pk g(1) sk Let_def)
  moreover obtain bs where "parseargs b (length (as @ [(s, s + length w)])) (EXEC (as @ [(s, s + length w)])) ?s =
      Parsed (EXEC ((as @ [(s, s + length w)]) @ bs), ?s + length (concat (map (\<lambda>w. w @ [BLANK]) ws)))"
      "map (line_slice b) bs = ws"
    using Cons.IH [OF d2 wo(2) Cons.prems(3), of "as @ [(s, s + length w)]"] Cons.prems(4) by auto
  ultimately show ?case using g(2) by (intro exI [of _ "(s, s + length w) # bs"]) simp
qed

text \<open>From a command to a pipe to a line, where nothing follows.\<close>

lemma parsepipe_end:
  assumes "parseexec n b s = Parsed (t, s')" "drop s' b = r" "no_blank r" "r = [] \<or> hd r \<noteq> BAR"
  shows "parsepipe (Suc n) b s = Parsed (t, s')"
  using assms by (auto simp: peek_here)

lemma parseline_end:
  assumes "parsepipe n b s = Parsed (t, s')" "drop s' b = r" "rest_end r"
  shows "parseline (Suc n) b s = Parsed (t, s')"
proof -
  note pk = peek_here [OF assms(2) rest_end_blank [OF assms(3)]]
  have "backs b t s' = (t, s')" using assms(3) by (subst backs.simps) (auto simp: pk rest_end_def)
  then show ?thesis using assms(1,3) by (auto simp: pk rest_end_def)
qed

lemma parsepipe_more:
  assumes "parseexec n b s = Parsed (t, s1)" and d: "drop s1 b = BAR # r" and nb: "no_blank r"
    and "parsepipe n b (Suc s1) = Parsed (u, e)"
  shows "parsepipe (Suc n) b s = Parsed (PIPE t u, e)"
proof -
  have "gettoken b s1 = (BAR, s1, Suc s1, Suc s1)" using nb by (intro gettoken_here [OF d]) (auto simp: symbols_def)
  moreover have "no_blank (BAR # r)" by (simp add: no_blank_def whitespace_def)
  ultimately show ?thesis using assms by (simp add: peek_here [OF d])
qed

lemma parseline_more:
  assumes "parsepipe n b s = Parsed (t, s1)" and d: "drop s1 b = SEMI # r" and nb: "no_blank r"
    and "parseline n b (Suc s1) = Parsed (u, e)"
  shows "parseline (Suc n) b s = Parsed (LIST t u, e)"
proof -
  have g: "gettoken b s1 = (SEMI, s1, Suc s1, Suc s1)" using nb by (intro gettoken_here [OF d]) (auto simp: symbols_def)
  have nb1: "no_blank (SEMI # r)" by (simp add: no_blank_def whitespace_def)
  then have "backs b t s1 = (t, s1)" by (subst backs.simps) (simp add: peek_here [OF d])
  then show ?thesis using assms g nb1 by (simp add: peek_here [OF d])
qed

lemma parseline_back:
  assumes "parsepipe n b s = Parsed (t, s1)" and d: "drop s1 b = AMP # r" and re: "rest_end r"
  shows "parseline (Suc n) b s = Parsed (BACK t, Suc s1)"
proof -
  have g: "gettoken b s1 = (AMP, s1, Suc s1, Suc s1)"
    using rest_end_blank [OF re] by (intro gettoken_here [OF d]) (auto simp: symbols_def)
  have nb: "no_blank (AMP # r)" by (simp add: no_blank_def whitespace_def)
  have d1: "drop (Suc s1) b = r" by (rule drop_more1 [OF d])
  note pk = peek_here [OF d1 rest_end_blank [OF re]]
  have "backs b (BACK t) (Suc s1) = (BACK t, Suc s1)" using re by (subst backs.simps) (auto simp: pk rest_end_def)
  then have "backs b t s1 = (BACK t, Suc s1)" by (subst backs.simps) (simp add: peek_here [OF d nb] g)
  then show ?thesis using assms(1) re by (auto simp: pk rest_end_def)
qed

definition parses :: "u8 list \<Rightarrow> script \<Rightarrow> bool" where
  "parses b c \<longleftrightarrow>
     (\<forall>s r n. drop s b = source c @ r \<and> rest_end r \<and> 4 * (length b - s) + 4 \<le> n \<longrightarrow>
        (\<exists>t. parseline n b s = Parsed (t, s + length (source c)) \<and> view (line_slice b) t = c))"

lemma parseexec_block:
  assumes p: "parses b c" and c: "script_ok c" and d: "drop s b = LPAR # source c @ RPAR # r" and r: "no_blank r"
    and n: "4 * (length b - s) + 2 \<le> n"
  shows "\<exists>t. parseexec n b s = parseredirs b t (s + length (source c) + 2) \<and> view (line_slice b) t = c \<and>
           drop (s + length (source c) + 2) b = r"
proof -
  have sl: "s < length b" using drop_inside [OF d] by simp
  obtain m where m: "n = Suc (Suc m)" "4 * (length b - Suc s) + 4 \<le> m"
  proof (rule that)
    show "n = Suc (Suc (n - 2))" "4 * (length b - Suc s) + 4 \<le> n - 2" using n sl by auto
  qed
  have rb: "no_blank (RPAR # r)" "rest_end (RPAR # r)" by (auto simp: no_blank_def rest_end_def whitespace_def)
  have nb: "no_blank (LPAR # source c @ RPAR # r)" by (simp add: no_blank_def whitespace_def)
  have d1: "drop (Suc s) b = source c @ RPAR # r" by (rule drop_more1 [OF d])
  let ?s = "Suc s + length (source c)"
  have d2: "drop ?s b = RPAR # r" by (rule drop_more [OF d1])
  have d3: "drop (Suc ?s) b = r" by (rule drop_more1 [OF d2])
  obtain t where t: "parseline m b (Suc s) = Parsed (t, ?s)" "view (line_slice b) t = c"
    using p d1 rb(2) m(2) unfolding parses_def by blast
  have g1: "gettoken b s = (LPAR, s, Suc s, Suc s)"
    using source_no_blank [OF c rb(1)] by (intro gettoken_here [OF d]) (auto simp: symbols_def)
  have g2: "gettoken b ?s = (RPAR, ?s, Suc ?s, Suc ?s)"
    using r by (intro gettoken_here [OF d2]) (auto simp: symbols_def)
  have "parseexec n b s = parseredirs b t (Suc ?s)"
    unfolding m(1) using t(1) g1 g2 peek_here [OF d nb] peek_here [OF d2 rb(1)] by simp
  then show ?thesis using t(2) d3 by (intro exI [of _ t]) simp
qed


lemma parseexec_block_end:
  assumes "parses b c" "script_ok c" "drop s b = LPAR # source c @ RPAR # r" "no_blank r"
    "4 * (length b - s) + 2 \<le> n" "r = [] \<or> hd r \<notin> {LESS, GREATER}"
  shows "\<exists>t. parseexec n b s = Parsed (t, s + length (source c) + 2) \<and> view (line_slice b) t = c \<and>
           drop (s + length (source c) + 2) b = r"
  using parseexec_block [OF assms(1-5)] parseredirs_here [OF _ assms(4,6)] by metis

lemma parses_Run:
  assumes "script_ok (Run ws)"
  shows "parses b (Run ws)"
  unfolding parses_def
proof (intro allI impI)
  fix s r n
  assume a: "drop s b = source (Run ws) @ r \<and> rest_end r \<and> 4 * (length b - s) + 4 \<le> n"
  obtain m where m: "n = Suc (Suc (Suc m))"
  proof (rule that)
    show "n = Suc (Suc (Suc (n - 3)))" using a by auto
  qed
  let ?t = "concat (map (\<lambda>w. w @ [BLANK]) ws)"
  have d: "drop s b = ?t @ r" and re: "rest_end r" using a by auto
  have wo: "\<forall>w\<in>set ws. word_ok w" "length [] + length ws < MAXARGS" using assms by auto
  note st = words_start [OF wo(1) re]
  obtain bs where bs: "parseargs b 0 (EXEC []) s = Parsed (EXEC bs, s + length ?t)" "map (line_slice b) bs = ws"
    using parseargs_here [OF d wo(1) re wo(2)] by auto
  have "parseredirs b (EXEC []) s = Parsed (EXEC [], s)" using st(1,2) by (intro parseredirs_here [OF d]) auto
  then have e: "parseexec (Suc m) b s = Parsed (EXEC bs, s + length ?t)"
    using bs(1) st(2) by (auto simp: peek_here [OF d st(1)])
  have d': "drop (s + length ?t) b = r" by (rule drop_more [OF d])
  have "parsepipe (Suc (Suc m)) b s = Parsed (EXEC bs, s + length ?t)"
    by (rule parsepipe_end [OF e d' rest_end_blank [OF re]]) (use re in \<open>auto simp: rest_end_def\<close>)
  then have "parseline n b s = Parsed (EXEC bs, s + length ?t)" unfolding m by (rule parseline_end [OF _ d' re])
  then show "\<exists>t. parseline n b s = Parsed (t, s + length (source (Run ws))) \<and> view (line_slice b) t = Run ws"
    using bs(2) by (intro exI [of _ "EXEC bs"]) simp
qed

lemma parseredirs_file:
  assumes d: "drop s b = (if fd = 0 then LESS else GREATER) # f @ r" and f: "word_ok f" and re: "rest_end r"
    and m: "(mode, fd) \<in> {(REDIR_IN, 0), (REDIR_OUT, 1)}"
  shows "parseredirs b t s = Parsed (REDIR t (Suc s) (Suc s + length f) mode fd, Suc s + length f)"
    "line_slice b (Suc s, Suc s + length f) = f" "drop (Suc s + length f) b = r"
proof -
  let ?x = "if fd = 0 then LESS else GREATER"
  define e where "e = Suc s + length f"
  have nb: "no_blank (?x # f @ r)" by (simp add: no_blank_def whitespace_def)
  have fr: "r = [] \<or> \<not> word_char (hd r)" "r = [] \<or> hd r \<noteq> 0" using re by (auto simp: rest_end_def word_char_def symbols_def)
  obtain fc f' where fc: "f = fc # f'" "word_char fc" using f by (cases f) (auto simp: word_ok_def)
  have g: "gettoken b s = (?x, s, Suc s, Suc s)"
    using fc by (intro gettoken_here [OF d]) (auto simp: symbols_def no_blank_def word_char_def split: if_splits)
  have d1: "drop (Suc s) b = f @ r" by (rule drop_more1 [OF d])
  show d2: "drop (Suc s + length f) b = r" by (rule drop_more [OF d1])
  note d3 = d2 [folded e_def]
  have g1: "gettoken b (Suc s) = (WORD, Suc s, e, e)"
    using gettoken_word_here(1) [OF d1 f fr] skip_here [OF d3 rest_end_blank [OF re]] by (simp add: e_def)
  show "line_slice b (Suc s, Suc s + length f) = f" by (rule gettoken_word_here(2) [OF d1 f fr])
  have "parseredirs b (REDIR t (Suc s) e mode fd) e = Parsed (REDIR t (Suc s) e mode fd, e)"
    using re by (intro parseredirs_here [OF d3 rest_end_blank [OF re]]) (auto simp: rest_end_def)
  then have "parseredirs b t s = Parsed (REDIR t (Suc s) e mode fd, e)"
    using m by (subst parseredirs.simps) (auto simp: peek_here [OF d nb] g g1 Let_def)
  then show "parseredirs b t s = Parsed (REDIR t (Suc s) (Suc s + length f) mode fd, Suc s + length f)"
    by (simp add: e_def)
qed

lemma parses_Redirect:
  assumes c: "script_ok (Redirect c f mode fd)" and p: "parses b c"
  shows "parses b (Redirect c f mode fd)"
  unfolding parses_def
proof (intro allI impI)
  fix s r n
  let ?x = "if fd = 0 then LESS else GREATER"
  assume a: "drop s b = source (Redirect c f mode fd) @ r \<and> rest_end r \<and> 4 * (length b - s) + 4 \<le> n"
  obtain m where m: "n = Suc (Suc m)" "4 * (length b - s) + 2 \<le> m"
  proof (rule that)
    show "n = Suc (Suc (n - 2))" "4 * (length b - s) + 2 \<le> n - 2" using a by auto
  qed
  have re: "rest_end r" using a by simp
  have co: "script_ok c" "word_ok f" "(mode, fd) \<in> {(REDIR_IN, 0), (REDIR_OUT, 1)}" using c by auto
  have d: "drop s b = LPAR # source c @ RPAR # ?x # f @ r" using a by simp
  have nb: "no_blank (?x # f @ r)" by (simp add: no_blank_def whitespace_def)
  let ?s = "s + length (source c) + 2"
  obtain t where t: "parseexec m b s = parseredirs b t ?s" "view (line_slice b) t = c" "drop ?s b = ?x # f @ r"
    using parseexec_block [OF p co(1) d nb m(2)] by blast
  note q = parseredirs_file [OF t(3) co(2) re co(3)]
  let ?e = "Suc ?s + length f"
  let ?t = "REDIR t (Suc ?s) ?e mode fd"
  have "parsepipe (Suc m) b s = Parsed (?t, ?e)"
    using t(1) q(1) re by (intro parsepipe_end [OF _ q(3) rest_end_blank [OF re]]) (auto simp: rest_end_def)
  then have "parseline n b s = Parsed (?t, ?e)" unfolding m(1) by (rule parseline_end [OF _ q(3) re])
  then show "\<exists>t. parseline n b s = Parsed (t, s + length (source (Redirect c f mode fd))) \<and>
      view (line_slice b) t = Redirect c f mode fd"
    using t(2) q(2) by (intro exI [of _ ?t]) simp
qed

lemma parses_Piped:
  assumes ok: "script_ok l" "script_ok c" and p: "parses b l" "parses b c"
  shows "parses b (Piped l c)"
  unfolding parses_def
proof (intro allI impI)
  fix s r n
  assume a: "drop s b = source (Piped l c) @ r \<and> rest_end r \<and> 4 * (length b - s) + 4 \<le> n"
  let ?r = "BAR # LPAR # source c @ RPAR # r"
  have d: "drop s b = LPAR # source l @ RPAR # ?r" and re: "rest_end r" using a by auto
  have sl: "s < length b" using drop_inside [OF d] by simp
  let ?s = "s + length (source l) + 2"
  obtain m where m: "n = Suc (Suc (Suc m))" "4 * (length b - s) + 2 \<le> Suc m" "4 * (length b - Suc ?s) + 2 \<le> m"
  proof (rule that)
    show "n = Suc (Suc (Suc (n - 3)))" "4 * (length b - s) + 2 \<le> Suc (n - 3)" "4 * (length b - Suc ?s) + 2 \<le> n - 3"
      using a sl by auto
  qed
  have nb: "no_blank ?r" "no_blank (LPAR # source c @ RPAR # r)" by (auto simp: no_blank_def whitespace_def)
  obtain t where t: "parseexec (Suc m) b s = Parsed (t, ?s)" "view (line_slice b) t = l" "drop ?s b = ?r"
    using parseexec_block_end [OF p(1) ok(1) d nb(1) m(2)] by auto
  have d1: "drop (Suc ?s) b = LPAR # source c @ RPAR # r" by (rule drop_more1 [OF t(3)])
  let ?e = "Suc ?s + length (source c) + 2"
  have rr: "r = [] \<or> hd r \<notin> {LESS, GREATER}" "r = [] \<or> hd r \<noteq> BAR" using re by (auto simp: rest_end_def)
  obtain u where u: "parseexec m b (Suc ?s) = Parsed (u, ?e)" "view (line_slice b) u = c" "drop ?e b = r"
    using parseexec_block_end [OF p(2) ok(2) d1 rest_end_blank [OF re] m(3) rr(1)] by blast
  have "parsepipe (Suc m) b (Suc ?s) = Parsed (u, ?e)"
    by (rule parsepipe_end [OF u(1,3) rest_end_blank [OF re] rr(2)])
  then have "parsepipe (Suc (Suc m)) b s = Parsed (PIPE t u, ?e)"
    by (rule parsepipe_more [OF t(1,3) nb(2)])
  then have "parseline n b s = Parsed (PIPE t u, ?e)" unfolding m(1) by (rule parseline_end [OF _ u(3) re])
  then show "\<exists>t. parseline n b s = Parsed (t, s + length (source (Piped l c))) \<and> view (line_slice b) t = Piped l c"
    using t(2) u(2) by (intro exI [of _ "PIPE t u"]) simp
qed

lemma parses_Sequence:
  assumes ok: "script_ok l" "script_ok c" and p: "parses b l" "parses b c"
  shows "parses b (Sequence l c)"
  unfolding parses_def
proof (intro allI impI)
  fix s r n
  assume a: "drop s b = source (Sequence l c) @ r \<and> rest_end r \<and> 4 * (length b - s) + 4 \<le> n"
  let ?r = "SEMI # LPAR # source c @ RPAR # r"
  have d: "drop s b = LPAR # source l @ RPAR # ?r" and re: "rest_end r" using a by auto
  have sl: "s < length b" using drop_inside [OF d] by simp
  let ?s = "s + length (source l) + 2"
  obtain m where m: "n = Suc (Suc (Suc m))" "4 * (length b - s) + 2 \<le> Suc m" "4 * (length b - Suc ?s) + 2 \<le> m"
  proof (rule that)
    show "n = Suc (Suc (Suc (n - 3)))" "4 * (length b - s) + 2 \<le> Suc (n - 3)" "4 * (length b - Suc ?s) + 2 \<le> n - 3"
      using a sl by auto
  qed
  have nb: "no_blank ?r" "no_blank (LPAR # source c @ RPAR # r)" by (auto simp: no_blank_def whitespace_def)
  obtain t where t: "parseexec (Suc m) b s = Parsed (t, ?s)" "view (line_slice b) t = l" "drop ?s b = ?r"
    using parseexec_block_end [OF p(1) ok(1) d nb(1) m(2)] by auto
  have pp: "parsepipe (Suc (Suc m)) b s = Parsed (t, ?s)" by (rule parsepipe_end [OF t(1,3) nb(1)]) simp
  have d1: "drop (Suc ?s) b = LPAR # source c @ RPAR # r" by (rule drop_more1 [OF t(3)])
  let ?e = "Suc ?s + length (source c) + 2"
  have rr: "r = [] \<or> hd r \<notin> {LESS, GREATER}" "r = [] \<or> hd r \<noteq> BAR" using re by (auto simp: rest_end_def)
  obtain u where u: "parseexec m b (Suc ?s) = Parsed (u, ?e)" "view (line_slice b) u = c" "drop ?e b = r"
    using parseexec_block_end [OF p(2) ok(2) d1 rest_end_blank [OF re] m(3) rr(1)] by blast
  have "parsepipe (Suc m) b (Suc ?s) = Parsed (u, ?e)"
    by (rule parsepipe_end [OF u(1,3) rest_end_blank [OF re] rr(2)])
  then have "parseline (Suc (Suc m)) b (Suc ?s) = Parsed (u, ?e)" by (rule parseline_end [OF _ u(3) re])
  then have "parseline n b s = Parsed (LIST t u, ?e)"
    unfolding m(1) by (rule parseline_more [OF pp t(3) nb(2)])
  then show "\<exists>t. parseline n b s = Parsed (t, s + length (source (Sequence l c))) \<and> view (line_slice b) t = Sequence l c"
    using t(2) u(2) by (intro exI [of _ "LIST t u"]) simp
qed

lemma parses_Background:
  assumes ok: "script_ok c" and p: "parses b c"
  shows "parses b (Background c)"
  unfolding parses_def
proof (intro allI impI)
  fix s r n
  assume a: "drop s b = source (Background c) @ r \<and> rest_end r \<and> 4 * (length b - s) + 4 \<le> n"
  have d: "drop s b = LPAR # source c @ RPAR # AMP # r" and re: "rest_end r" using a by auto
  let ?s = "s + length (source c) + 2"
  obtain m where m: "n = Suc (Suc m)" "4 * (length b - s) + 2 \<le> m"
  proof (rule that)
    show "n = Suc (Suc (n - 2))" "4 * (length b - s) + 2 \<le> n - 2" using a by auto
  qed
  have nb: "no_blank (AMP # r)" by (simp add: no_blank_def whitespace_def)
  obtain t where t: "parseexec m b s = Parsed (t, ?s)" "view (line_slice b) t = c" "drop ?s b = AMP # r"
    using parseexec_block_end [OF p ok d nb m(2)] by auto
  have pp: "parsepipe (Suc m) b s = Parsed (t, ?s)" by (rule parsepipe_end [OF t(1,3) nb]) simp
  have "parseline n b s = Parsed (BACK t, Suc ?s)" unfolding m(1) by (rule parseline_back [OF pp t(3) re])
  then show "\<exists>t. parseline n b s = Parsed (t, s + length (source (Background c))) \<and> view (line_slice b) t = Background c"
    using t(2) by (intro exI [of _ "BACK t"]) simp
qed

lemma parses_script: "script_ok c \<Longrightarrow> parses b c"
proof (induction c)
  case (Redirect c f mode fd)
  then show ?case using parses_Redirect by (metis script_ok.simps(2))
qed (auto intro: parses_Run parses_Piped parses_Sequence parses_Background)

lemma source_nonzero: "script_ok c \<Longrightarrow> 0 \<notin> set (source c)"
proof (induction c)
  case (Run ws)
  then show ?case by (auto simp: word_ok_def word_char_def)
qed (auto simp: word_ok_def word_char_def)

text \<open>
  C10. Round trip through the shell's parser: every command, with its words, redirections, pipes,
  sequences and background parts nested in any way, can be written as a line that the parser
  turns into exactly this command, with every word as the string that the terminated line holds.
\<close>

theorem parsecmd_roundtrip:
  assumes ok: "script_ok c"
  shows "\<exists>cmd mem'. parsecmd (source c @ [0]) = Parsed (cmd, mem') \<and> view (\<lambda>w. str_at mem' (fst w)) cmd = c"
proof -
  let ?b = "source c" and ?m = "source c @ [0]"
  have tw: "takeWhile (\<lambda>c. c \<noteq> 0) ?m = ?b"
    using source_nonzero [OF ok] by (subst takeWhile_append2) auto
  obtain t where t: "parseline (4 * length ?b + 4) ?b 0 = Parsed (t, length ?b)" "view (line_slice ?b) t = c"
  proof -
    have "drop 0 ?b = source c @ [] \<and> rest_end [] \<and> 4 * (length ?b - 0) + 4 \<le> 4 * length ?b + 4"
      by (simp add: rest_end_def)
    then have "\<exists>t. parseline (4 * length ?b + 4) ?b 0 = Parsed (t, 0 + length (source c)) \<and> view (line_slice ?b) t = c"
      using parses_script [OF ok, of ?b] unfolding parses_def by blast
    then show ?thesis using that by auto
  qed
  have "peek [] ?b (length ?b) = (False, length ?b)" by (simp add: peek_def skip.simps line_at_def)
  then have r: "parsecmd ?m = Parsed (t, nulterminate t ?m)" by (simp add: parsecmd_def tw t(1))
  have "parse_ok ?b 0 True (parseline (4 * length ?b + 4) ?b 0)"
    using parse_all_ok(1) [OF source_nonzero [OF ok], of 0 "4 * length ?b + 4"] by simp
  then have ct: "cmd_ok (takeWhile (\<lambda>c. c \<noteq> 0) ?m) t" using t(1) tw by (simp add: parse_ok_def)
  have "view (\<lambda>w. str_at (nulterminate t ?m) (fst w)) t = view (line_slice ?b) t"
    using nulterminate_words [OF _ ct] unfolding tw by (intro view_cong) auto
  then show ?thesis using r t(2) by auto
qed

theorem parsecmd_roundtrip_witness:
  "source (Sequence (Piped (Run [[97], [98, 99]]) (Redirect (Run [[100]]) [101] REDIR_OUT 1)) (Background (Run [[102]]))) =
     [40, 40, 97, 32, 98, 99, 32, 41, 124, 40, 40, 100, 32, 41, 62, 101, 41, 41, 59, 40, 40, 102, 32, 41, 38, 41] \<and>
   (\<exists>cmd mem'. parsecmd
      ([40, 40, 97, 32, 98, 99, 32, 41, 124, 40, 40, 100, 32, 41, 62, 101, 41, 41, 59, 40, 40, 102, 32, 41, 38, 41] @ [0]) =
      Parsed (cmd, mem') \<and> view (\<lambda>w. str_at mem' (fst w)) cmd =
        Sequence (Piped (Run [[97], [98, 99]]) (Redirect (Run [[100]]) [101] REDIR_OUT 1)) (Background (Run [[102]])))"
proof -
  let ?c = "Sequence (Piped (Run [[97], [98, 99]]) (Redirect (Run [[100]]) [101] REDIR_OUT 1)) (Background (Run [[102]]))"
  have "script_ok ?c" by (simp add: word_ok_def word_char_def whitespace_def symbols_def)
  from parsecmd_roundtrip [OF this] show ?thesis by simp
qed

end
