(* ===== verification/Spec2Isabelle.thy ===== *)
theory Spec2Isabelle
  imports Shm Pgdir_Refs Sched Strings Pipe Printing Console Kbd Spinlock Wait Fs_Checked Fs_Lookup Grep Sbrk Sh
begin

text \<open>
  Verification of the CS537 xv6 kernel (\<^verbatim>\<open>src/kernel\<close>).
\<close>

end
